(* ===== verification/Rust_Prelude.thy ===== *)
theory Rust_Prelude
  imports Main "HOL-Library.Word" "HOL-Library.Monad_Syntax"
begin

unbundle bit_operations_syntax

text \<open>
  Shared vocabulary of the development: how a run of a Rust function is represented, the
  arithmetic of the machine integers and the operations of \<open>Vec\<close>, slices and iterators
  that the components use, each with the lemmas the component proofs rest on.

  A Rust function that may panic returns \<open>'a option\<close>: \<open>None\<close> is a panic (a failed
  \<open>assert!\<close>, an \<open>expect\<close> or \<open>unwrap\<close> of a missing value, an index out of range, an
  arithmetic overflow, which the debug profile traps) and \<open>Some x\<close> is a normal return. A
  Rust \<open>Result<T, E>\<close> is a value of \<open>'e + 't\<close> with \<open>Inl\<close> for \<open>Err\<close>; a Rust
  \<open>Option<T>\<close> is a value of \<open>'t option\<close> inside the run.
\<close>

section \<open>Runs that may panic\<close>

type_synonym 'a run = "'a option"

named_theorems run_simps \<open>unfolding of runs: assertions, bind and the checked integer operations\<close>

definition assert_that :: "bool \<Rightarrow> unit run" where
  "assert_that c = (if c then Some () else None)"

lemma assert_that_simps [simp]:
  "assert_that True = Some ()"
  "assert_that False = None"
  by (simp_all add: assert_that_def)

lemma assert_that_eq_Some [simp]: "assert_that c = Some u \<longleftrightarrow> c"
  by (simp add: assert_that_def)

lemma assert_that_eq_None [simp]: "assert_that c = None \<longleftrightarrow> \<not> c"
  by (simp add: assert_that_def)

lemma assert_that_bind:
  "Option.bind (assert_that c) f = (if c then f () else None)"
  by (simp add: assert_that_def)

declare Option.bind_eq_Some_conv [run_simps]

section \<open>Machine integers\<close>

subsection \<open>Words: where the code saturates, wraps or masks\<close>

type_synonym u8 = "8 word"
type_synonym u16 = "16 word"
type_synonym u32 = "32 word"
type_synonym u64 = "64 word"

definition saturating_add :: "'a::len word \<Rightarrow> 'a word \<Rightarrow> 'a word" where
  "saturating_add a b = (if unat a + unat b < 2 ^ LENGTH('a) then a + b else - 1)"

definition saturating_sub :: "'a::len word \<Rightarrow> 'a word \<Rightarrow> 'a word" where
  "saturating_sub a b = (if b \<le> a then a - b else 0)"

definition checked_add :: "'a::len word \<Rightarrow> 'a word \<Rightarrow> 'a word option" where
  "checked_add a b = (if unat a + unat b < 2 ^ LENGTH('a) then Some (a + b) else None)"

definition checked_sub :: "'a::len word \<Rightarrow> 'a word \<Rightarrow> 'a word option" where
  "checked_sub a b = (if b \<le> a then Some (a - b) else None)"

definition checked_mul :: "'a::len word \<Rightarrow> 'a word \<Rightarrow> 'a word option" where
  "checked_mul a b = (if unat a * unat b < 2 ^ LENGTH('a) then Some (a * b) else None)"

lemma word_less_max_iff: "(a::'a::len word) < - 1 \<longleftrightarrow> a \<noteq> - 1"
  by (metis max_word_max order_less_le)

lemma unat_add_no_overflow:
  "unat a + unat b < 2 ^ LENGTH('a) \<Longrightarrow> unat (a + b :: 'a::len word) = unat a + unat b"
  by (simp add: unat_word_ariths)

lemma unat_Suc_word: "(a::'a::len word) \<noteq> - 1 \<Longrightarrow> unat (a + 1) = Suc (unat a)"
  by (metis add.commute add_cancel_right_left diff_add_cancel eq_neg_iff_add_eq_0 unatSuc)

lemma saturating_add_1:
  "saturating_add a 1 = (if a = - 1 then - 1 else a + (1::'a::len word))"
proof (cases "a = - 1")
  case True
  have "\<not> Suc (unat a) < 2 ^ LENGTH('a)"
  proof
    assume "Suc (unat a) < 2 ^ LENGTH('a)"
    then have "unat (a + 1) = Suc (unat a)" by (simp add: unat_word_ariths)
    with True show False by simp
  qed
  with True show ?thesis
    by (simp add: saturating_add_def)
next
  case False
  then have "unat (a + 1) = Suc (unat a)" by (rule unat_Suc_word)
  then have "Suc (unat a) < 2 ^ LENGTH('a)" by (metis unsigned_less)
  moreover have "unat (1::'a word) = 1" by simp
  ultimately show ?thesis using False
    by (simp add: saturating_add_def)
qed

lemma word_less_Suc_le: "(a::'a::len word) \<noteq> - 1 \<Longrightarrow> a + 1 \<le> b \<longleftrightarrow> a < b"
  by (simp add: word_le_nat_alt word_less_nat_alt unat_Suc_word Suc_le_eq)

lemma word_le_Suc_iff: "(a::'a::len word) \<noteq> - 1 \<Longrightarrow> b \<le> a + 1 \<longleftrightarrow> b \<le> a \<or> b = a + 1"
  by (metis word_less_Suc_le linorder_not_le order_le_less)

lemma saturating_succ_le:
  "(a::'a::len word) < b \<Longrightarrow> saturating_add a 1 \<le> b"
  using word_less_Suc_le [of a b] by (auto simp: saturating_add_1)

lemma saturating_succ_ge: "(a::'a::len word) \<le> saturating_add a 1"
  using word_less_Suc_le [of a "a + 1"] by (auto simp: saturating_add_1)

lemma saturating_succ_eq:
  "(e::'a::len word) < b \<Longrightarrow> saturating_add e 1 = e + 1"
  by (auto simp: saturating_add_1)

lemma word_pred_Suc: "(a::'a::len word) < b \<Longrightarrow> b - 1 + 1 = b \<and> b - 1 \<noteq> - 1"
  by auto

lemma word_le_pred_iff: "(a::'a::len word) < b \<Longrightarrow> x \<le> b - 1 \<longleftrightarrow> x < b"
  using word_less_Suc_le [of "b - 1"] word_pred_Suc [of a b]
  by (metis linorder_not_le)

lemma saturating_pred_eq:
  "(a::'a::len word) < b \<Longrightarrow> saturating_sub b 1 = b - 1"
proof -
  assume "a < b"
  then have "b \<noteq> 0" by auto
  then have "1 \<le> b"
    by (simp add: word_le_nat_alt Suc_le_eq unat_gt_0)
  then show ?thesis by (simp add: saturating_sub_def)
qed

lemma atLeastAtMost_Suc_word:
  "(e::'a::len word) < b \<Longrightarrow> {e + 1..b} = {e<..b}"
proof -
  assume "e < b"
  then have "e \<noteq> - 1" by auto
  then show ?thesis by (auto simp: word_less_Suc_le)
qed

lemma atLeastAtMost_pred_word:
  "(a::'a::len word) < b \<Longrightarrow> {x..b - 1} = {x..<b}"
  by (auto simp: word_le_pred_iff)

lemma atLeastAtMost_saturating_succ:
  "(e::'a::len word) < b \<Longrightarrow> {saturating_add e 1..b} = {e<..b}"
  by (simp add: saturating_succ_eq atLeastAtMost_Suc_word)

lemma atLeastAtMost_saturating_pred:
  "(a::'a::len word) < b \<Longrightarrow> {x..saturating_sub b 1} = {x..<b}"
  by (simp add: saturating_pred_eq atLeastAtMost_pred_word)

lemma saturating_succ_greater:
  "(e::'a::len word) < b \<Longrightarrow> e < saturating_add e 1"
  using saturating_succ_eq [of e b] word_less_Suc_le [of e "e + 1"] by (metis order_refl word_less_max_iff order_less_le_trans max_word_max)

lemma saturating_pred_less:
  "(a::'a::len word) < b \<Longrightarrow> saturating_sub b 1 < b"
  using saturating_pred_eq [of a b] word_le_pred_iff [of a b "b - 1"] by simp

lemma saturating_pred_ge:
  "(a::'a::len word) < b \<Longrightarrow> a \<le> saturating_sub b 1"
  using saturating_pred_eq [of a b] word_le_pred_iff [of a b a] by simp

lemma saturating_succ_pred:
  "(a::'a::len word) < b \<Longrightarrow> saturating_add (saturating_sub b 1) 1 = b"
  using word_pred_Suc [of a b] saturating_pred_eq [of a b] by (simp add: saturating_add_1)

lemma checked_add_Some:
  "checked_add a b = Some c \<longleftrightarrow> c = a + b \<and> unat a + unat b < 2 ^ LENGTH('a)"
  for a b c :: "'a::len word"
  by (auto simp: checked_add_def)

lemma checked_add_None:
  "checked_add a b = None \<longleftrightarrow> 2 ^ LENGTH('a) \<le> unat a + unat b"
  for a b :: "'a::len word"
  by (auto simp: checked_add_def)

lemma checked_sub_Some: "checked_sub a b = Some c \<longleftrightarrow> c = a - b \<and> b \<le> a"
  by (auto simp: checked_sub_def)

lemmas checked_word = checked_add_Some checked_add_None checked_sub_Some

lemma checked_succ: "x < (y :: 'a::len word) \<Longrightarrow> checked_add x 1 = Some (saturating_add x 1)"
  by (auto simp: checked_add_def saturating_add_def word_less_nat_alt dest: less_trans_Suc intro: le_less_trans [OF _ unsigned_less [of y]])

lemma checked_pred: "y < (x :: 'a::len word) \<Longrightarrow> checked_sub x 1 = Some (saturating_sub x 1)"
  by (auto simp: checked_sub_def saturating_sub_def word_less_nat_alt word_le_nat_alt)

lemma word_unat_lt: "unat (w :: u64) < 2 ^ 64"
  using unsigned_less [of w] by simp

lemma unat_mult_no_overflow:
  "unat a * unat b < 2 ^ LENGTH('a) \<Longrightarrow> unat (a * b) = unat a * unat (b :: 'a::len word)"
  by (simp add: unat_word_ariths)

lemma unat_minus_one_pos: "0 < unat w \<Longrightarrow> unat (w - 1) = unat w - 1"
  by (simp add: unat_sub word_le_nat_alt)

lemma unat_of_nat_eq_u64: "n < 2 ^ 64 \<Longrightarrow> unat (word_of_nat n :: u64) = n"
  by (simp add: unat_of_nat take_bit_nat_eq_self)

lemma unat_image_interval: "unat ` {a..b} = {unat a..unat (b :: u64)}"
proof (intro subset_antisym subsetI)
  fix n assume n: "n \<in> {unat a..unat b}"
  then have "unat (word_of_nat n :: u64) = n" using word_unat_lt [of b] by (intro unat_of_nat_eq_u64) simp
  with n show "n \<in> unat ` {a..b}" by (intro image_eqI [of _ _ "word_of_nat n"]) (simp_all add: word_le_nat_alt)
qed (auto simp: word_le_nat_alt)

subsection \<open>Powers of two and alignment\<close>

definition count_ones :: "'a::len word \<Rightarrow> nat" where
  "count_ones w = length (filter (bit w) [0..<LENGTH('a)])"

lemma aligned_up_le:
  fixes a f b n :: nat
  assumes "(a + f) mod n = 0" "f < n" "a \<le> b" "b mod n = 0"
  shows "a + f \<le> b"
proof -
  obtain k m where "a + f = n * k" and b: "b = n * m" using assms(1,4) by (auto simp: mod_eq_0_iff_dvd dvd_def)
  moreover from this have "n * k < n * (m + 1)" using assms(2,3) by simp
  then have "k < m + 1" by (simp only: mult_less_cancel1)
  ultimately show ?thesis by simp
qed

lemma count_ones_1:
  fixes w :: "'a::len word"
  assumes "count_ones w = 1"
  obtains k where "k < LENGTH('a)" "w = 2 ^ k"
proof -
  have "card (set (filter (bit w) [0..<LENGTH('a)])) = 1"
    using assms unfolding count_ones_def by (subst distinct_card) simp_all
  then obtain k where "set (filter (bit w) [0..<LENGTH('a)]) = {k}"
    by (metis One_nat_def card_1_singleton_iff)
  then have k: "n < LENGTH('a) \<and> bit w n \<longleftrightarrow> n = k" for n by auto
  have "w = 2 ^ k"
  proof (rule bit_word_eqI)
    fix n assume "n < LENGTH('a)"
    with k [of n] k [of k] show "bit w n \<longleftrightarrow> bit (2 ^ k :: 'a word) n"
      by (auto simp: bit_simps)
  qed
  with k [of k] that show thesis by blast
qed

lemma unat_exp: "k < LENGTH('a) \<Longrightarrow> unat (2 ^ k :: 'a::len word) = 2 ^ k"
  by (rule bit_eqI) (auto simp: bit_simps)

lemma unat_take_bit: "unat (take_bit k w) = unat w mod 2 ^ k" for w :: "'a::len word"
  by (subst unsigned_take_bit_eq) (rule take_bit_eq_mod)

lemma unat_and_mask: "unat (w AND (2 ^ k - 1)) = unat w mod 2 ^ k" for w :: "'a::len word"
  by (simp only: mask_eq_exp_minus_1 [symmetric] take_bit_eq_mask [symmetric] unat_take_bit)

lemma align_fix_correct:
  fixes s :: "'a::len word"
  assumes k: "k < LENGTH('a)"
  defines "fx \<equiv> (2 ^ k - (s AND (2 ^ k - 1))) AND (2 ^ k - 1)"
  shows "(unat s + unat fx) mod 2 ^ k = 0"
proof -
  have lt: "unat s mod 2 ^ k < 2 ^ k" by simp
  have le: "s AND (2 ^ k - 1) \<le> 2 ^ k"
    using k lt by (simp add: word_le_nat_alt unat_and_mask unat_exp less_imp_le)
  have "unat fx = (2 ^ k - unat s mod 2 ^ k) mod 2 ^ k"
    unfolding fx_def using k le by (simp add: unat_and_mask unat_sub unat_exp)
  then have "(unat s + unat fx) mod 2 ^ k = (unat s mod 2 ^ k + (2 ^ k - unat s mod 2 ^ k)) mod 2 ^ k"
    by (metis mod_add_left_eq mod_add_right_eq)
  with lt show ?thesis by simp
qed

lemma align_down_correct:
  fixes x :: "'a::len word"
  shows "unat (x AND NOT (2 ^ k - 1)) mod 2 ^ k = 0"
proof -
  have "take_bit k (x AND NOT (mask k)) = 0"
    by (rule bit_eqI) (auto simp: bit_simps)
  then show ?thesis
    by (simp only: mask_eq_exp_minus_1 [symmetric] unat_take_bit [symmetric]) simp
qed

text \<open>\<open>core::cmp::Ordering\<close> and \<open>cmp\<close> of a linear order.\<close>

datatype Ordering = Less | Equal | Greater

definition cmp :: "'a::linorder \<Rightarrow> 'a \<Rightarrow> Ordering" where
  "cmp a b = (if a < b then Less else if a = b then Equal else Greater)"

lemma cmp_simps:
  "cmp a b = Less \<longleftrightarrow> a < b" "cmp a b = Equal \<longleftrightarrow> a = b" "cmp a b = Greater \<longleftrightarrow> b < a"
  by (auto simp: cmp_def)

subsection \<open>Bounded naturals: where the code only adds, subtracts and compares\<close>

text \<open>
  Most of the file system and driver code never wraps: every \<open>+\<close>, \<open>-\<close> and \<open>*\<close> on a
  \<open>u64\<close> or \<open>usize\<close> panics on overflow. There a machine integer is a natural number and each
  operation carries its range check.
\<close>

definition u64_max :: nat where
  "u64_max = 18446744073709551615"

definition u64_add :: "nat \<Rightarrow> nat \<Rightarrow> nat run" where
  "u64_add a b = (if a + b \<le> u64_max then Some (a + b) else None)"

definition u64_sub :: "nat \<Rightarrow> nat \<Rightarrow> nat run" where
  "u64_sub a b = (if b \<le> a then Some (a - b) else None)"

definition u64_mul :: "nat \<Rightarrow> nat \<Rightarrow> nat run" where
  "u64_mul a b = (if a * b \<le> u64_max then Some (a * b) else None)"

lemma u64_add_Some [simp]: "u64_add a b = Some c \<longleftrightarrow> c = a + b \<and> a + b \<le> u64_max"
  by (auto simp: u64_add_def)

lemma u64_sub_Some [simp]: "u64_sub a b = Some c \<longleftrightarrow> c = a - b \<and> b \<le> a"
  by (auto simp: u64_sub_def)

lemma u64_mul_Some [simp]: "u64_mul a b = Some c \<longleftrightarrow> c = a * b \<and> a * b \<le> u64_max"
  by (auto simp: u64_mul_def)

section \<open>Vectors, slices and iterators\<close>

lemma ucast_back:
  "LENGTH('a) \<le> LENGTH('b) \<Longrightarrow> ucast (ucast (v :: 'a::len word) :: 'b::len word) = v"
  by (rule bit_word_eqI) (auto simp: bit_simps)

text \<open>\<open>Iterator::position\<close>: the index of the first element with the property.\<close>

fun position :: "('a \<Rightarrow> bool) \<Rightarrow> 'a list \<Rightarrow> nat option" where
  "position P [] = None"
| "position P (x # xs) = (if P x then Some 0 else map_option Suc (position P xs))"

lemma position_None: "position P xs = None \<longleftrightarrow> (\<forall>x \<in> set xs. \<not> P x)"
  by (induction xs) auto

lemma position_SomeD:
  "position P xs = Some i \<Longrightarrow> i < length xs \<and> P (xs ! i) \<and> (\<forall>j < i. \<not> P (xs ! j))"
  by (induction xs arbitrary: i) (auto simp: nth_Cons split: if_splits nat.splits)

lemma position_less: "position P xs = Some i \<Longrightarrow> i < length xs"
  by (simp add: position_SomeD)

lemma position_split:
  assumes "position P xs = Some i"
  obtains ys x zs where "xs = ys @ x # zs" "length ys = i" "P x" "\<forall>y \<in> set ys. \<not> P y"
proof
  from assms have i: "i < length xs" and P: "P (xs ! i)" and n: "\<forall>j < i. \<not> P (xs ! j)"
    by (auto dest: position_SomeD)
  show "xs = take i xs @ xs ! i # drop (Suc i) xs" using i by (rule id_take_nth_drop)
  show "length (take i xs) = i" using i by simp
  show "P (xs ! i)" by (rule P)
  show "\<forall>y \<in> set (take i xs). \<not> P y" using n i by (auto simp: in_set_conv_nth)
qed

text \<open>\<open>Vec::remove\<close> and \<open>Vec::insert\<close>, on the indices where they do not panic.\<close>

definition remove_at :: "nat \<Rightarrow> 'a list \<Rightarrow> 'a list" where
  "remove_at i xs = take i xs @ drop (Suc i) xs"

definition insert_at :: "nat \<Rightarrow> 'a \<Rightarrow> 'a list \<Rightarrow> 'a list" where
  "insert_at i x xs = take i xs @ x # drop i xs"

lemma remove_at_split [simp]: "length ys = i \<Longrightarrow> remove_at i (ys @ x # zs) = ys @ zs"
  by (auto simp: remove_at_def)

lemma insert_at_split [simp]: "length ys = i \<Longrightarrow> insert_at i x (ys @ zs) = ys @ x # zs"
  by (auto simp: insert_at_def)

lemma length_remove_at [simp]: "i < length xs \<Longrightarrow> length (remove_at i xs) = length xs - 1"
  by (simp add: remove_at_def)

lemma length_insert_at [simp]: "i \<le> length xs \<Longrightarrow> length (insert_at i x xs) = Suc (length xs)"
  by (simp add: insert_at_def)

lemma set_remove_at_subset: "set (remove_at i xs) \<subseteq> set xs"
  by (auto simp: remove_at_def dest: in_set_takeD in_set_dropD)

text \<open>\<open>slice::chunks\<close>: consecutive pieces of at most \<open>n\<close> elements; a zero size panics.\<close>

function chunks :: "nat \<Rightarrow> 'a list \<Rightarrow> 'a list list" where
  "chunks n xs = (if xs = [] \<or> n = 0 then [] else take n xs # chunks n (drop n xs))"
  by pat_completeness auto
termination
  by (relation "measure (\<lambda>(n, xs). length xs)") auto

declare chunks.simps [simp del]

lemma concat_chunks: "0 < n \<Longrightarrow> concat (chunks n xs) = xs"
proof (induction n xs rule: chunks.induct)
  case (1 n xs)
  then show ?case
    by (cases "xs = []") (simp_all add: chunks.simps [of n xs] chunks.simps [of n "[]"])
qed

text \<open>The macro \<open>counts_required_for!(entry_size, total)\<close> of \<open>libs/shared\<close>: rounded-up division.\<close>

definition counts_required_for :: "nat \<Rightarrow> nat \<Rightarrow> nat" where
  "counts_required_for entry_size total_size =
     total_size div entry_size + (if total_size mod entry_size \<noteq> 0 then 1 else 0)"

lemma counts_required_for_covers:
  "0 < e \<Longrightarrow> m \<le> e * counts_required_for e m"
proof -
  assume e: "0 < e"
  have "m = e * (m div e) + m mod e" by simp
  moreover have "m mod e \<le> e * (if m mod e \<noteq> 0 then 1 else 0)"
    using mod_less_divisor [OF e, of m] by auto
  ultimately show ?thesis
    unfolding counts_required_for_def add_mult_distrib2 by linarith
qed

lemma counts_required_for_least:
  "0 < e \<Longrightarrow> m \<le> e * k \<Longrightarrow> counts_required_for e m \<le> k"
proof -
  assume e: "0 < e" and le: "m \<le> e * k"
  have div: "m div e \<le> k"
    using le e by (metis div_le_mono nonzero_mult_div_cancel_left not_gr_zero)
  show ?thesis
  proof (cases "m div e = k")
    case True
    then have "m mod e = 0"
      using le e by (metis add_cancel_left_right antisym le_add1 mult.commute div_mult_mod_eq)
    with True show ?thesis by (simp add: counts_required_for_def)
  next
    case False
    with div show ?thesis by (simp add: counts_required_for_def)
  qed
qed

lemma length_chunks: "0 < n \<Longrightarrow> length (chunks n xs) = counts_required_for n (length xs)"
proof (induction n xs rule: chunks.induct)
  case (1 n xs)
  consider "xs = []" | "xs \<noteq> []" "length xs \<le> n" | "n < length xs" by linarith
  then show ?case
  proof cases
    case 1
    then show ?thesis by (simp add: chunks.simps counts_required_for_def)
  next
    case 2
    with "1.prems" show ?thesis
      by (cases "length xs = n")
        (simp_all add: chunks.simps [of n xs] chunks.simps [of n "[]"] counts_required_for_def)
  next
    case 3
    then obtain m where m: "length xs = n + m" by (metis less_imp_add_positive)
    have "length (chunks n (drop n xs)) = counts_required_for n (length (drop n xs))"
      using 3 "1.prems" by (intro "1.IH") auto
    with 3 m "1.prems" show ?thesis
      by (auto simp add: chunks.simps [of n xs] counts_required_for_def div_add_self1)
  qed
qed

end
