(* ===== verification/Range_Set.thy ===== *)
theory Range_Set
  imports Rust_Prelude
begin

text \<open>
  The fixed-capacity set of inclusive \<open>u64\<close> ranges of \<open>libs/shared/src/rangeset.rs\<close>, which the
  kernel uses as the free list of physical frames and of virtual pages.

  The state is the array of \<open>N\<close> ranges with the number of entries in use, as in the code; the
  loops (\<open>'try_merges\<close>, \<open>'try_subtractions\<close>, \<open>'allocation_search\<close>) are recursions with the
  code's restarts. The lemmas relate every operation to the set of addresses the entries cover.
\<close>

section \<open>Ranges\<close>

record Range =
  rstart :: u64
  rend :: u64

text \<open>The swap at the head of \<open>overlaps\<close> and \<open>contains\<close>: lowest to biggest.\<close>

definition ordered_range :: "Range \<Rightarrow> Range" where
  "ordered_range r = (if rstart r > rend r then \<lparr>rstart = rend r, rend = rstart r\<rparr> else r)"

definition overlaps :: "Range \<Rightarrow> Range \<Rightarrow> Range option" where
  "overlaps a0 b0 =
     (let a = ordered_range a0; b = ordered_range b0
      in if rstart a \<le> rend b \<and> rstart b \<le> rend a
         then Some \<lparr>rstart = max (rstart a) (rstart b), rend = min (rend a) (rend b)\<rparr>
         else None)"

definition contains :: "Range \<Rightarrow> Range \<Rightarrow> bool" where
  "contains a0 b0 =
     (let a = ordered_range a0; b = ordered_range b0
      in rstart b \<le> rstart a \<and> rend a \<le> rend b)"

section \<open>The set and its operations\<close>

record RangeSet =
  ranges :: "Range list"
  in_use :: nat

definition u32_max :: nat where
  "u32_max = 4294967295"

definition new_range_set :: "nat \<Rightarrow> RangeSet run" where
  "new_range_set N = do {
     assert_that (N \<le> u32_max);
     Some \<lparr>ranges = replicate N \<lparr>rstart = 0, rend = 0\<rparr>, in_use = 0\<rparr>
   }"

definition capacity :: "RangeSet \<Rightarrow> nat" where
  "capacity rs = length (ranges rs)"

definition entries :: "RangeSet \<Rightarrow> Range list" where
  "entries rs = take (in_use rs) (ranges rs)"

definition len :: "RangeSet \<Rightarrow> nat" where
  "len rs = in_use rs"

definition swap :: "nat \<Rightarrow> nat \<Rightarrow> 'a list \<Rightarrow> 'a list" where
  "swap i j xs = xs[i := xs ! j, j := xs ! i]"

text \<open>The loop of \<open>delete\<close>: the deleted range is swapped to the end of the used part.\<close>

definition delete_range :: "RangeSet \<Rightarrow> nat \<Rightarrow> RangeSet run" where
  "delete_range rs idx = do {
     assert_that (idx < in_use rs);
     Some (rs\<lparr>ranges := fold (\<lambda>ii. swap ii (Suc ii)) [idx..<in_use rs - 1] (ranges rs),
              in_use := in_use rs - 1\<rparr>)
   }"

lemma delete_range_in_use: "delete_range rs idx = Some rs' \<Longrightarrow> in_use rs' < in_use rs"
  by (auto simp: delete_range_def run_simps)

text \<open>The test of \<open>insert\<close>: both ends are moved up by one, so touching ranges overlap too.\<close>

definition touches :: "Range \<Rightarrow> Range \<Rightarrow> bool" where
  "touches rg ent \<longleftrightarrow>
     overlaps \<lparr>rstart = rstart rg, rend = saturating_add (rend rg) 1\<rparr>
              \<lparr>rstart = rstart ent, rend = saturating_add (rend ent) 1\<rparr> \<noteq> None"

definition merge_range :: "Range \<Rightarrow> Range \<Rightarrow> Range" where
  "merge_range rg ent =
     \<lparr>rstart = min (rstart rg) (rstart ent), rend = max (rend rg) (rend ent)\<rparr>"

function insert_merge :: "RangeSet \<Rightarrow> Range \<Rightarrow> (RangeSet \<times> Range) run" where
  "insert_merge rs rg =
     (case position (touches rg) (entries rs) of
        None \<Rightarrow> Some (rs, rg)
      | Some ii \<Rightarrow> do {
          rs' \<leftarrow> delete_range rs ii;
          insert_merge rs' (merge_range rg (ranges rs ! ii))
        })"
  by pat_completeness auto
termination
  by (relation "measure (\<lambda>(rs, rg). in_use rs)") (auto dest: delete_range_in_use)

declare insert_merge.simps [simp del]

definition insert_range :: "RangeSet \<Rightarrow> Range \<Rightarrow> RangeSet run" where
  "insert_range rs rg = do {
     assert_that (rstart rg \<le> rend rg);
     (rs', rg') \<leftarrow> insert_merge rs rg;
     assert_that (in_use rs' < length (ranges rs'));
     Some (rs'\<lparr>ranges := (ranges rs')[in_use rs' := rg'], in_use := in_use rs' + 1\<rparr>)
   }"

definition remove_if_exist :: "RangeSet \<Rightarrow> Range \<Rightarrow> (RangeSet \<times> bool) run" where
  "remove_if_exist rs rg =
     (case position (\<lambda>ent. rg = ent \<or> contains rg ent) (entries rs) of
        None \<Rightarrow> Some (rs, False)
      | Some ii \<Rightarrow>
          (let ent = ranges rs ! ii in
           if rg = ent then do {
             rs' \<leftarrow> delete_range rs ii;
             Some (rs', True)
           } else if rstart rg = rstart ent then do {
             assert_that (rend rg < rend ent \<and> rstart ent < rend rg);
             s \<leftarrow> checked_add (rend rg) 1;
             Some (rs\<lparr>ranges := (ranges rs)[ii := ent\<lparr>rstart := s\<rparr>]\<rparr>, True)
           } else if rend rg = rend ent then do {
             assert_that (rstart ent < rstart rg \<and> rstart rg < rend ent);
             e \<leftarrow> checked_sub (rstart rg) 1;
             Some (rs\<lparr>ranges := (ranges rs)[ii := ent\<lparr>rend := e\<rparr>]\<rparr>, True)
           } else do {
             assert_that (rstart ent < rstart rg \<and> rstart rg < rend ent);
             let rs' = rs\<lparr>ranges := (ranges rs)[ii := ent\<lparr>rend := rstart rg\<rparr>]\<rparr>;
             assert_that (rstart ent < rend rg \<and> rend rg < rend ent);
             s \<leftarrow> checked_add (rend rg) 1;
             rs'' \<leftarrow> insert_range rs' \<lparr>rstart = s, rend = rend ent\<rparr>;
             Some (rs'', True)
           }))"

text \<open>
  The two nested loops of \<open>remove\<close>, started at index \<open>ii\<close>. The inner \<open>for\<close> goes on after a
  trim and is restarted at 0 after a deletion or a split.
\<close>

partial_function (option) remove_loop :: "Range \<Rightarrow> RangeSet \<Rightarrow> nat \<Rightarrow> RangeSet run" where
  "remove_loop rg rs ii =
     (if in_use rs \<le> ii then Some rs
      else let ent = ranges rs ! ii in
        if overlaps rg ent = None then remove_loop rg rs (Suc ii)
        else if contains ent rg
        then Option.bind (delete_range rs ii) (\<lambda>rs'. remove_loop rg rs' 0)
        else if rstart rg \<le> rstart ent
        then remove_loop rg
          (rs\<lparr>ranges := (ranges rs)[ii := ent\<lparr>rstart := saturating_add (rend rg) 1\<rparr>]\<rparr>) (Suc ii)
        else if rend ent \<le> rend rg
        then remove_loop rg
          (rs\<lparr>ranges := (ranges rs)[ii := ent\<lparr>rend := saturating_sub (rstart rg) 1\<rparr>]\<rparr>) (Suc ii)
        else Option.bind (assert_that (in_use rs < length (ranges rs))) (\<lambda>_.
          remove_loop rg
            (rs\<lparr>ranges := (ranges rs)[ii := ent\<lparr>rstart := saturating_add (rend rg) 1\<rparr>,
                  in_use rs := \<lparr>rstart = rstart ent, rend = saturating_sub (rstart rg) 1\<rparr>],
                in_use := in_use rs + 1\<rparr>) 0))"

definition remove_range :: "RangeSet \<Rightarrow> Range \<Rightarrow> RangeSet run" where
  "remove_range rs rg = do {
     assert_that (rstart rg \<le> rend rg);
     remove_loop rg rs 0
   }"

fun remove_all :: "RangeSet \<Rightarrow> Range list \<Rightarrow> RangeSet run" where
  "remove_all rs [] = Some rs"
| "remove_all rs (ent # ents) = do { rs' \<leftarrow> remove_range rs ent; remove_all rs' ents }"

definition subtract :: "RangeSet \<Rightarrow> RangeSet \<Rightarrow> RangeSet run" where
  "subtract rs other = remove_all rs (entries other)"

text \<open>
  \<open>sum\<close>: a \<open>try_fold\<close>. The inner \<open>checked_add\<close> ends the fold with \<open>None\<close>; the subtraction and
  the outer addition panic on overflow.
\<close>

fun sum_entries :: "u64 \<Rightarrow> Range list \<Rightarrow> u64 option run" where
  "sum_entries acc [] = Some (Some acc)"
| "sum_entries acc (x # xs) = do {
     d \<leftarrow> checked_sub (rend x) (rstart x);
     (case checked_add d 1 of
        None \<Rightarrow> Some None
      | Some n \<Rightarrow> do { acc' \<leftarrow> checked_add acc n; sum_entries acc' xs })
   }"

definition sum_range_set :: "RangeSet \<Rightarrow> u64 option run" where
  "sum_range_set rs = sum_entries 0 (entries rs)"

subsection \<open>Allocation\<close>

datatype RegionRequest = Any | Preference RangeSet | Forced RangeSet

definition usize_max :: u64 where
  "usize_max = - 1"

text \<open>
  What the loop over the requested regions decides for one entry: no region fits, the
  entry is skipped (\<open>continue 'allocation_search\<close>), or the search ends with an allocation
  \<open>(base, end, ptr)\<close>.
\<close>

datatype region_choice = No_Fit | Skip | Fit "u64 \<times> u64 \<times> u64"

fun region_search :: "u64 \<Rightarrow> u64 \<Rightarrow> Range \<Rightarrow> Range list \<Rightarrow> region_choice" where
  "region_search size0 alignmask ent [] = No_Fit"
| "region_search size0 alignmask ent (region # regions) =
     (case overlaps ent region of
        None \<Rightarrow> region_search size0 alignmask ent regions
      | Some overlap \<Rightarrow>
          (let align_overlap = (rstart overlap + alignmask) AND NOT alignmask in
           if rstart overlap \<le> align_overlap \<and> align_overlap \<le> rend overlap
              \<and> size0 - 1 \<le> rend overlap - align_overlap
           then (let overlap_alc_end = align_overlap + (size0 - 1) in
                 if usize_max < align_overlap \<or> usize_max < overlap_alc_end then Skip
                 else Fit (align_overlap, overlap_alc_end, align_overlap))
           else region_search size0 alignmask ent regions))"

text \<open>
  The \<open>'allocation_search\<close> loop. The outer \<open>None\<close> is the early return of the two \<open>?\<close>
  on the overflow checks.
\<close>

fun allocation_search ::
  "u64 \<Rightarrow> u64 \<Rightarrow> Range list option \<Rightarrow> bool \<Rightarrow> Range list \<Rightarrow> (u64 \<times> u64 \<times> u64) option
    \<Rightarrow> (u64 \<times> u64 \<times> u64) option option" where
  "allocation_search size0 align regions force_regions [] allocation = Some allocation"
| "allocation_search size0 align regions force_regions (ent # ents) allocation =
     (let alignmask = align - 1;
          align_fix = (align - (rstart ent AND alignmask)) AND alignmask;
          base = rstart ent
      in case Option.bind (checked_add base (size0 - 1)) (\<lambda>e. checked_add e align_fix) of
           None \<Rightarrow> None
         | Some end_incl \<Rightarrow>
             if usize_max < base \<or> usize_max < end_incl \<or> rend ent < end_incl
             then allocation_search size0 align regions force_regions ents allocation
             else (case (case regions of
                           None \<Rightarrow> No_Fit
                         | Some rgs \<Rightarrow> region_search size0 alignmask ent rgs) of
                     Fit a \<Rightarrow> Some (Some a)
                   | Skip \<Rightarrow> allocation_search size0 align regions force_regions ents allocation
                   | No_Fit \<Rightarrow>
                       allocation_search size0 align regions force_regions ents
                         (if force_regions then allocation
                          else case allocation of
                                 None \<Rightarrow> Some (base, end_incl, base + align_fix)
                               | Some (b, e, p) \<Rightarrow>
                                   if end_incl - base < e - b
                                   then Some (base, end_incl, base + align_fix)
                                   else allocation)))"

fun request_regions :: "RegionRequest \<Rightarrow> Range list option \<times> bool" where
  "request_regions Any = (None, False)"
| "request_regions (Preference r) = (Some (entries r), False)"
| "request_regions (Forced r) = (Some (entries r), True)"

definition allocate_prefer ::
  "RangeSet \<Rightarrow> u64 \<Rightarrow> u64 \<Rightarrow> RegionRequest \<Rightarrow> (RangeSet \<times> u64 option) run" where
  "allocate_prefer rs size0 align request =
     (if size0 = 0 then Some (rs, None)
      else if count_ones align \<noteq> 1 then Some (rs, None)
      else let (regions, force_regions) = request_regions request in
        case allocation_search size0 align regions force_regions (entries rs) None of
          None \<Rightarrow> Some (rs, None)
        | Some None \<Rightarrow> Some (rs, None)
        | Some (Some (base, end_incl, ptr)) \<Rightarrow> do {
            rs' \<leftarrow> remove_range rs \<lparr>rstart = base, rend = end_incl\<rparr>;
            Some (rs', Some ptr)
          })"

definition allocate :: "RangeSet \<Rightarrow> u64 \<Rightarrow> u64 \<Rightarrow> (RangeSet \<times> u64 option) run" where
  "allocate rs size0 align = allocate_prefer rs size0 align Any"

section \<open>The addresses a set covers\<close>

definition valid_range :: "Range \<Rightarrow> bool" where
  "valid_range r \<longleftrightarrow> rstart r \<le> rend r"

definition cells :: "Range \<Rightarrow> u64 set" where
  "cells r = {rstart r..rend r}"

text \<open>Two ranges are apart when there is an address between them: they neither overlap nor touch.\<close>

definition apart :: "Range \<Rightarrow> Range \<Rightarrow> bool" where
  "apart a b \<longleftrightarrow> saturating_add (rend a) 1 < rstart b \<or> saturating_add (rend b) 1 < rstart a"

definition cover :: "Range list \<Rightarrow> u64 set" where
  "cover es = (\<Union>r \<in> set es. cells r)"

definition separated :: "Range list \<Rightarrow> bool" where
  "separated es \<longleftrightarrow> (\<forall>r \<in> set es. valid_range r) \<and> sorted_wrt apart es"

abbreviation rs_cover :: "RangeSet \<Rightarrow> u64 set" where
  "rs_cover rs \<equiv> cover (entries rs)"

text \<open>The invariant of a \<open>RangeSet\<close>.\<close>

definition rs_inv :: "RangeSet \<Rightarrow> bool" where
  "rs_inv rs \<longleftrightarrow> in_use rs \<le> length (ranges rs) \<and> length (ranges rs) \<le> u32_max
     \<and> separated (entries rs)"

subsection \<open>Lists of ranges\<close>

lemma cover_simps [simp]:
  "cover [] = {}"
  "cover (r # es) = cells r \<union> cover es"
  "cover (es @ fs) = cover es \<union> cover fs"
  by (auto simp: cover_def)

lemma apart_sym: "apart a b = apart b a"
  by (auto simp: apart_def)

lemma separated_simps [simp]:
  "separated []"
  "separated (r # es) \<longleftrightarrow> valid_range r \<and> (\<forall>e \<in> set es. apart r e) \<and> separated es"
  by (auto simp: separated_def)

lemma separated_append [simp]:
  "separated (es @ fs) \<longleftrightarrow> separated es \<and> separated fs \<and> (\<forall>e \<in> set es. \<forall>f \<in> set fs. apart e f)"
  by (induction es) auto

lemma separated_valid: "separated es \<Longrightarrow> r \<in> set es \<Longrightarrow> valid_range r"
  by (auto simp: separated_def)

lemma saturating_succ_mono: "(a::'a::len word) \<le> b \<Longrightarrow> saturating_add a 1 \<le> saturating_add b 1"
  by (metis order.trans order_le_less saturating_succ_ge saturating_succ_le)

lemma apart_shrink:
  "apart a b \<Longrightarrow> rstart a \<le> rstart a' \<Longrightarrow> rend a' \<le> rend a \<Longrightarrow> apart a' b"
  unfolding apart_def using saturating_succ_mono by fastforce

lemma apart_disjoint:
  "apart a b \<Longrightarrow> cells a \<inter> cells b = {}"
  unfolding apart_def cells_def
  using saturating_succ_ge [of "rend a"] saturating_succ_ge [of "rend b"] by auto

lemma separated_apart:
  "separated es \<Longrightarrow> x \<in> set es \<Longrightarrow> y \<in> set es \<Longrightarrow> x \<noteq> y \<Longrightarrow> apart x y"
  by (induction es) (auto simp: apart_sym)

lemma apart_cover_disjoint:
  "\<forall>e \<in> set es. apart r e \<Longrightarrow> cells r \<inter> cover es = {}"
  using apart_disjoint by (fastforce simp: cover_def)

lemma not_apart_next:
  assumes "valid_range e'" "saturating_add (rend e) 1 \<in> cells e'" "rend e < x" "valid_range e"
  shows "\<not> apart e e'"
proof -
  have "rstart e \<le> rend e" "rend e < saturating_add (rend e) 1"
    using assms(4) saturating_succ_greater [OF assms(3)] by (simp_all add: valid_range_def)
  then have "rstart e < rend e'" using assms(2) by (auto simp: cells_def)
  moreover have "rend e' \<le> saturating_add (rend e') 1" by (rule saturating_succ_ge)
  ultimately show ?thesis using assms(2) by (auto simp: apart_def cells_def)
qed

lemma cover_connected:
  assumes "separated es" "valid_range r"
  shows "cells r \<subseteq> cover es \<longleftrightarrow> (\<exists>e \<in> set es. cells r \<subseteq> cells e)"
proof
  assume sub: "cells r \<subseteq> cover es"
  have "rstart r \<in> cells r" using assms(2) by (simp add: cells_def valid_range_def)
  with sub obtain e where e: "e \<in> set es" "rstart r \<in> cells e" by (auto simp: cover_def)
  have "rend r \<le> rend e"
  proof (rule ccontr)
    assume "\<not> rend r \<le> rend e"
    then have lt: "rend e < rend r" by simp
    have "saturating_add (rend e) 1 \<in> cells r"
      using saturating_succ_le [OF lt] order.trans [OF _ saturating_succ_ge, of "rstart r" "rend e"] e(2)
      by (auto simp: cells_def)
    with sub obtain e' where e': "e' \<in> set es" "saturating_add (rend e) 1 \<in> cells e'" by (auto simp: cover_def)
    have v: "valid_range e" "valid_range e'" using e(1) e'(1) assms(1) separated_valid by auto
    have "\<not> apart e e'" using not_apart_next [OF v(2) e'(2) lt v(1)] .
    moreover have "e \<noteq> e'" using e'(2) saturating_succ_greater [OF lt] by (auto simp: cells_def)
    ultimately show False using separated_apart [OF assms(1) e(1) e'(1)] by blast
  qed
  with e show "\<exists>e \<in> set es. cells r \<subseteq> cells e" by (auto simp: cells_def)
qed (auto simp: cover_def)

lemma ordered_range_valid [simp]: "valid_range r \<Longrightarrow> ordered_range r = r"
  by (simp add: ordered_range_def valid_range_def)

lemma valid_range_succ: "valid_range r \<Longrightarrow> valid_range \<lparr>rstart = rstart r, rend = saturating_add (rend r) 1\<rparr>"
  unfolding valid_range_def using saturating_succ_ge order.trans by fastforce

lemma overlaps_None_iff:
  "valid_range a \<Longrightarrow> valid_range b \<Longrightarrow> overlaps a b = None \<longleftrightarrow> cells a \<inter> cells b = {}"
  by (auto simp: overlaps_def Let_def cells_def valid_range_def disjoint_iff)

lemma contains_iff:
  "valid_range a \<Longrightarrow> valid_range b \<Longrightarrow> contains a b \<longleftrightarrow> cells a \<subseteq> cells b"
  by (auto simp: contains_def Let_def cells_def valid_range_def)

lemma touches_iff: "valid_range a \<Longrightarrow> valid_range b \<Longrightarrow> touches a b \<longleftrightarrow> \<not> apart a b"
  by (auto simp: touches_def overlaps_def Let_def valid_range_succ apart_def)

lemma merge_range_valid: "valid_range a \<Longrightarrow> valid_range b \<Longrightarrow> valid_range (merge_range a b)"
  by (auto simp: valid_range_def merge_range_def min_def max_def)

lemma merge_range_cells:
  assumes "valid_range a" "valid_range b" "\<not> apart a b"
  shows "cells (merge_range a b) = cells a \<union> cells b"
proof -
  from assms(3) have ab: "rstart b \<le> saturating_add (rend a) 1" and ba: "rstart a \<le> saturating_add (rend b) 1"
    by (auto simp: apart_def)
  have a: "rstart b \<le> x" if "rend a < x" for x
    using ab saturating_succ_le [OF that] by (rule order.trans)
  have b: "rstart a \<le> x" if "rend b < x" for x
    using ba saturating_succ_le [OF that] by (rule order.trans)
  show ?thesis
  proof (rule set_eqI)
    fix x
    show "x \<in> cells (merge_range a b) \<longleftrightarrow> x \<in> cells a \<union> cells b"
      using a [of x] b [of x]
      by (auto simp: cells_def merge_range_def min_le_iff_disj le_max_iff_disj intro: leI)
  qed
qed

subsection \<open>The array and its entries\<close>

lemma length_entries: "in_use rs \<le> length (ranges rs) \<Longrightarrow> length (entries rs) = in_use rs"
  by (simp add: entries_def)

lemma rs_inv_length [simp]: "rs_inv rs \<Longrightarrow> length (entries rs) = in_use rs"
  by (simp add: rs_inv_def length_entries)

lemma entries_nth: "i < in_use rs \<Longrightarrow> entries rs ! i = ranges rs ! i"
  by (simp add: entries_def)

lemma length_swap [simp]: "length (swap i j xs) = length xs"
  by (simp add: swap_def)

lemma swap_adjacent: "swap (length ys) (Suc (length ys)) (ys @ a # b # zs) = ys @ b # a # zs"
  by (simp add: swap_def nth_append list_update_append)

text \<open>Swapping an element upwards step by step moves it behind the elements it passes.\<close>

lemma fold_swap:
  "fold (\<lambda>ii. swap ii (Suc ii)) [length ys..<length ys + length zs] (ys @ x # zs @ ws) = ys @ zs @ x # ws"
proof (induction zs arbitrary: ys)
  case Nil
  then show ?case by simp
next
  case (Cons z zs)
  have "[length ys..<length ys + length (z # zs)] = length ys # [length (ys @ [z])..<length (ys @ [z]) + length zs]"
    by (simp add: upt_conv_Cons del: upt_Suc)
  with Cons [of "ys @ [z]"] swap_adjacent [of ys x z "zs @ ws"] show ?case
    by simp
qed

lemma fold_swap_length [simp]: "length (fold (\<lambda>ii. swap ii (Suc ii)) is xs) = length xs"
  by (induction "is" arbitrary: xs) simp_all

lemma delete_range_entries:
  assumes "in_use rs \<le> length (ranges rs)" "entries rs = ys @ x # zs" "length ys = idx"
  obtains rs' where "delete_range rs idx = Some rs'" "entries rs' = ys @ zs"
    "length (ranges rs') = length (ranges rs)" "in_use rs' = in_use rs - 1"
    "in_use rs' < length (ranges rs')"
proof -
  let ?ws = "drop (in_use rs) (ranges rs)"
  have ranges: "ranges rs = ys @ x # zs @ ?ws"
    using assms(2) append_take_drop_id [of "in_use rs" "ranges rs"] by (simp add: entries_def)
  have n: "in_use rs = Suc (idx + length zs)"
    using length_entries [OF assms(1)] assms(2,3) by simp
  let ?rs = "rs\<lparr>ranges := ys @ zs @ x # ?ws, in_use := in_use rs - 1\<rparr>"
  have "delete_range rs idx = Some ?rs"
    using fold_swap [of ys zs x ?ws] ranges n assms(3) by (simp add: delete_range_def run_simps)
  moreover have "entries ?rs = ys @ zs"
    using n assms(3) by (simp add: entries_def)
  moreover have "length (ranges ?rs) = length (ranges rs)"
    using arg_cong [OF ranges, of length] by simp
  ultimately show thesis
    using that [of ?rs] n assms(1) by simp
qed

text \<open>The same at an index below the number of entries.\<close>

lemma delete_range_nth:
  assumes "in_use rs \<le> length (ranges rs)" "idx < in_use rs"
  obtains rs' where "delete_range rs idx = Some rs'" "entries rs' = remove_at idx (entries rs)"
    "length (ranges rs') = length (ranges rs)" "in_use rs' = in_use rs - 1"
    "in_use rs' < length (ranges rs')"
proof -
  from assms have "idx < length (entries rs)" by (simp add: length_entries)
  then have "entries rs = take idx (entries rs) @ entries rs ! idx # drop (Suc idx) (entries rs)"
    "length (take idx (entries rs)) = idx"
    by (simp_all add: id_take_nth_drop [symmetric])
  from delete_range_entries [OF assms(1) this] that show thesis
    by (metis remove_at_def)
qed

lemma position_entries:
  assumes "position P (entries rs) = Some ii" "rs_inv rs"
  obtains ys zs where "entries rs = ys @ ranges rs ! ii # zs" "length ys = ii" "P (ranges rs ! ii)"
    "ii < in_use rs"
proof -
  from assms(1) obtain ys x zs where es: "entries rs = ys @ x # zs" "length ys = ii" "P x"
    by (rule position_split)
  have ii: "ii < in_use rs" using position_less [OF assms(1)] assms(2) by simp
  then have "x = ranges rs ! ii" using es entries_nth [of ii rs] by (simp add: nth_append)
  with es ii that show thesis by blast
qed

lemma entries_update:
  assumes "entries rs = ys @ x # zs" "length ys = ii"
  shows "entries (rs\<lparr>ranges := (ranges rs)[ii := y]\<rparr>) = ys @ y # zs"
  using assms by (simp add: entries_def take_update_swap list_update_append)

subsection \<open>Insertion\<close>

lemma insert_merge_correct:
  assumes "rs_inv rs" "valid_range r"
  shows "\<exists>rs' r'. insert_merge rs r = Some (rs', r') \<and> rs_inv rs' \<and> valid_range r'
    \<and> rs_cover rs' \<union> cells r' = rs_cover rs \<union> cells r
    \<and> (\<forall>e \<in> set (entries rs'). apart r' e)
    \<and> length (ranges rs') = length (ranges rs)
    \<and> in_use rs' \<le> in_use rs
    \<and> ((\<exists>e \<in> set (entries rs). \<not> apart r e) \<longrightarrow> in_use rs' < in_use rs)"
  using assms
proof (induction rs r rule: insert_merge.induct)
  case (1 rs r)
  have valid: "valid_range e" if "e \<in> set (entries rs)" for e
    using 1(2) that by (auto simp: rs_inv_def dest: separated_valid)
  show ?case
  proof (cases "position (touches r) (entries rs)")
    case None
    then have "\<forall>e \<in> set (entries rs). apart r e"
      using touches_iff valid 1(3) by (auto simp: position_None)
    moreover have "insert_merge rs r = Some (rs, r)"
      by (simp add: insert_merge.simps [of rs r] None)
    ultimately show ?thesis using 1(2,3) by simp
  next
    case (Some ii)
    from Some 1(2) obtain ys x zs where es: "entries rs = ys @ x # zs" "length ys = ii" "touches r x"
      and x: "x = ranges rs ! ii"
      by (metis position_entries)
    have touch: "\<not> apart r x" using es touches_iff 1(3) valid by auto
    obtain rs' where rs': "delete_range rs ii = Some rs'" "entries rs' = ys @ zs"
      "length (ranges rs') = length (ranges rs)" "in_use rs' = in_use rs - 1"
      "in_use rs' < length (ranges rs')"
      using delete_range_entries [OF _ es(1,2)] 1(2) by (auto simp: rs_inv_def)
    have lt: "in_use rs' < in_use rs" using rs'(1) by (rule delete_range_in_use)
    have "rs_inv rs'" using 1(2) es rs' by (auto simp: rs_inv_def)
    moreover have "valid_range (merge_range r x)" using 1(3) valid es by (auto intro: merge_range_valid)
    ultimately obtain rs'' r' where res: "insert_merge rs' (merge_range r x) = Some (rs'', r')" "rs_inv rs''"
      "valid_range r'" "rs_cover rs'' \<union> cells r' = rs_cover rs' \<union> cells (merge_range r x)"
      "\<forall>e \<in> set (entries rs''). apart r' e" "length (ranges rs'') = length (ranges rs')"
      "in_use rs'' \<le> in_use rs'"
      using 1(1) [OF Some rs'(1)] x by blast
    have "cells (merge_range r x) = cells r \<union> cells x"
      using 1(3) valid es touch by (intro merge_range_cells) auto
    with res Some rs' es x touch lt show ?thesis
      by (auto simp: insert_merge.simps [of rs r])
  qed
qed

lemma insert_range_Some:
  assumes "rs_inv rs" "valid_range r" "in_use rs < length (ranges rs) \<or> (\<exists>e \<in> set (entries rs). touches r e)"
  obtains rs' where "insert_range rs r = Some rs'" "rs_inv rs'" "rs_cover rs' = rs_cover rs \<union> cells r"
    "length (ranges rs') = length (ranges rs)" "in_use rs' \<le> Suc (in_use rs)"
proof -
  from insert_merge_correct [OF assms(1,2)] obtain rs1 r1 where m: "insert_merge rs r = Some (rs1, r1)"
    "rs_inv rs1" "valid_range r1" "rs_cover rs1 \<union> cells r1 = rs_cover rs \<union> cells r"
    "\<forall>e \<in> set (entries rs1). apart r1 e" "length (ranges rs1) = length (ranges rs)"
    "in_use rs1 \<le> in_use rs" "(\<exists>e \<in> set (entries rs). \<not> apart r e) \<longrightarrow> in_use rs1 < in_use rs"
    by blast
  have lt: "in_use rs1 < length (ranges rs1)"
    using m(6,7,8) assms touches_iff [OF assms(2)]
    by (auto simp: rs_inv_def dest: separated_valid)
  let ?rs = "rs1\<lparr>ranges := (ranges rs1)[in_use rs1 := r1], in_use := in_use rs1 + 1\<rparr>"
  have es: "entries ?rs = entries rs1 @ [r1]"
    using lt by (simp add: entries_def take_Suc_conv_app_nth)
  have "insert_range rs r = Some ?rs"
    using m(1) lt assms(2) by (simp add: insert_range_def run_simps valid_range_def)
  moreover have "rs_inv ?rs"
    using m(2,3,5) lt es by (auto simp: rs_inv_def apart_sym)
  moreover have "rs_cover ?rs = rs_cover rs \<union> cells r"
    using es m(4) by (auto simp: cover_def)
  ultimately show thesis using that [of ?rs] m(6,7) by simp
qed

lemma insert_range_None:
  assumes "rs_inv rs"
  shows "insert_range rs r = None \<longleftrightarrow>
    \<not> valid_range r \<or> in_use rs = length (ranges rs) \<and> (\<forall>e \<in> set (entries rs). \<not> touches r e)"
proof (cases "valid_range r")
  case False
  then show ?thesis by (simp add: insert_range_def valid_range_def assert_that_bind)
next
  case True
  show ?thesis
  proof (cases "in_use rs < length (ranges rs) \<or> (\<exists>e \<in> set (entries rs). touches r e)")
    case sp: True
    from insert_range_Some [OF assms True sp] obtain rs' where "insert_range rs r = Some rs'"
      by blast
    with sp True show ?thesis by auto
  next
    case False
    then have "position (touches r) (entries rs) = None" by (simp add: position_None)
    then have "insert_merge rs r = Some (rs, r)" by (simp add: insert_merge.simps [of rs r])
    with False True assms show ?thesis
      by (auto simp: insert_range_def assert_that_bind valid_range_def rs_inv_def)
  qed
qed

subsection \<open>Removal\<close>

text \<open>The three ways \<open>remove\<close> changes an entry that overlaps the removed range only in part.\<close>

lemma trim_low:
  assumes "rstart r \<le> rstart e" "rstart e \<le> rend r" "rend r < rend e"
  defines "e' \<equiv> e\<lparr>rstart := saturating_add (rend r) 1\<rparr>"
  shows "valid_range e'" "cells e' = cells e - cells r" "rstart e \<le> rstart e'" "rend e' = rend e"
proof -
  show "valid_range e'"
    using saturating_succ_le [OF assms(3)] by (simp add: e'_def valid_range_def)
  show "cells e' = cells e - cells r"
    using assms(1-3) by (auto simp: e'_def cells_def atLeastAtMost_saturating_succ)
  show "rstart e \<le> rstart e'"
    using order.trans [OF assms(2) saturating_succ_ge] by (simp add: e'_def)
qed (simp add: e'_def)

lemma trim_high:
  assumes "rstart e < rstart r" "rstart r \<le> rend e" "rend e \<le> rend r"
  defines "e' \<equiv> e\<lparr>rend := saturating_sub (rstart r) 1\<rparr>"
  shows "valid_range e'" "cells e' = cells e - cells r" "rstart e' = rstart e" "rend e' \<le> rend e"
proof -
  show "valid_range e'"
    using saturating_pred_ge [OF assms(1)] by (simp add: e'_def valid_range_def)
  show "cells e' = cells e - cells r"
    using assms(1-3) by (auto simp: e'_def cells_def atLeastAtMost_saturating_pred)
  show "rend e' \<le> rend e"
    using saturating_pred_less [OF assms(1)] assms(2) by (simp add: e'_def)
qed (simp add: e'_def)

lemma split_middle:
  assumes "rstart e < rstart r" "valid_range r" "rend r < rend e"
  defines "hi \<equiv> e\<lparr>rstart := saturating_add (rend r) 1\<rparr>"
    and "lo \<equiv> \<lparr>rstart = rstart e, rend = saturating_sub (rstart r) 1\<rparr>"
  shows "valid_range hi" "valid_range lo" "cells hi \<union> cells lo = cells e - cells r" "apart hi lo"
    "rstart e \<le> rstart hi" "rend hi = rend e" "rstart lo = rstart e" "rend lo \<le> rend e"
proof -
  have r: "rstart r \<le> rend r" using assms(2) by (simp add: valid_range_def)
  show "valid_range hi"
    using saturating_succ_le [OF assms(3)] by (simp add: hi_def valid_range_def)
  show "valid_range lo"
    using saturating_pred_ge [OF assms(1)] by (simp add: lo_def valid_range_def)
  show "cells hi \<union> cells lo = cells e - cells r"
    using assms(1,3) r
    by (auto simp: hi_def lo_def cells_def atLeastAtMost_saturating_succ atLeastAtMost_saturating_pred)
  have "rstart r < saturating_add (rend r) 1"
    using r saturating_succ_greater [OF assms(3)] by simp
  then show "apart hi lo" and "rstart e \<le> rstart hi"
    using assms(1) by (auto simp: apart_def hi_def lo_def saturating_succ_pred)
  show "rend lo \<le> rend e"
    using saturating_pred_less [OF assms(1)] r assms(3) by (simp add: lo_def)
qed (simp_all add: hi_def lo_def)

lemma apart_all_shrink:
  assumes "\<forall>b \<in> S. apart a b" "rstart a \<le> rstart a'" "rend a' \<le> rend a"
  shows "\<forall>b \<in> S. apart a' b"
  using assms apart_shrink by blast

abbreviation overlapping :: "Range \<Rightarrow> RangeSet \<Rightarrow> Range list" where
  "overlapping r rs \<equiv> filter (\<lambda>e. overlaps r e \<noteq> None) (entries rs)"

text \<open>The range lies strictly inside an entry, so that its removal needs a slot for the second half.\<close>

definition splits_entry :: "Range \<Rightarrow> RangeSet \<Rightarrow> bool" where
  "splits_entry r rs \<longleftrightarrow> (\<exists>e \<in> set (entries rs). rstart e < rstart r \<and> rend r < rend e)"

lemma overlaps_None_valid:
  "valid_range r \<Longrightarrow> valid_range e \<Longrightarrow> cells e \<inter> cells r = {} \<Longrightarrow> overlaps r e = None"
  by (simp add: overlaps_None_iff Int_commute)

lemma overlaps_SomeD:
  assumes "overlaps r e \<noteq> None" "valid_range r" "valid_range e"
  shows "rstart e \<le> rend r" "rstart r \<le> rend e"
  using assms by (auto simp: overlaps_def Let_def split: if_splits)

lemma splits_entry_overlap:
  assumes "splits_entry r rs" "valid_range r" "rs_inv rs"
  shows "\<exists>e \<in> set (entries rs). overlaps r e \<noteq> None"
proof -
  from assms(1) obtain e where e: "e \<in> set (entries rs)" "rstart e < rstart r" "rend r < rend e"
    by (auto simp: splits_entry_def)
  with assms(2,3) have "valid_range e" "rstart r \<in> cells r \<inter> cells e"
    by (auto simp: rs_inv_def cells_def valid_range_def dest: separated_valid)
  with e assms(2) show ?thesis using overlaps_None_iff by blast
qed

lemma rs_inv_update:
  assumes "rs_inv rs" "entries rs = ys @ x # zs" "length ys = ii" "valid_range y"
    "rstart x \<le> rstart y" "rend y \<le> rend x"
  shows "rs_inv (rs\<lparr>ranges := (ranges rs)[ii := y]\<rparr>)"
  using assms entries_update [OF assms(2,3), of y] apart_shrink [of x _ y]
  by (auto simp: rs_inv_def) (metis apart_sym)

text \<open>
  The loop of \<open>remove\<close> at index \<open>ii\<close>: the entries before \<open>ii\<close> do not overlap the range. Each
  iteration leads to another such state (\<open>advances\<close>) with fewer overlapping entries or a
  greater index, and with the same addresses outside the range.
\<close>

definition loop_ok :: "Range \<Rightarrow> RangeSet \<Rightarrow> nat \<Rightarrow> bool" where
  "loop_ok r rs ii \<longleftrightarrow> rs_inv rs \<and> valid_range r \<and> ii \<le> in_use rs
     \<and> (splits_entry r rs \<longrightarrow> in_use rs < length (ranges rs))
     \<and> (\<forall>e \<in> set (take ii (entries rs)). overlaps r e = None)"

definition loop_measure :: "Range \<Rightarrow> RangeSet \<times> nat \<Rightarrow> nat \<times> nat" where
  "loop_measure r = (\<lambda>(rs, ii). (length (overlapping r rs), in_use rs - ii))"

abbreviation slots_needed :: "Range \<Rightarrow> RangeSet \<Rightarrow> nat" where
  "slots_needed r rs \<equiv> in_use rs + (if splits_entry r rs then 1 else 0)"

definition advances :: "Range \<Rightarrow> RangeSet \<times> nat \<Rightarrow> RangeSet \<times> nat \<Rightarrow> bool" where
  "advances r st st' \<longleftrightarrow> remove_loop r (fst st) (snd st) = remove_loop r (fst st') (snd st')
     \<and> loop_ok r (fst st') (snd st')
     \<and> (loop_measure r st', loop_measure r st) \<in> less_than <*lex*> less_than
     \<and> rs_cover (fst st') - cells r = rs_cover (fst st) - cells r
     \<and> length (ranges (fst st')) = length (ranges (fst st))
     \<and> slots_needed r (fst st') \<le> slots_needed r (fst st)"

text \<open>The loop looks at entry \<open>e\<close>, with \<open>ys\<close> before and \<open>zs\<close> after it.\<close>

definition at_entry :: "Range \<Rightarrow> RangeSet \<Rightarrow> Range list \<Rightarrow> Range \<Rightarrow> Range list \<Rightarrow> bool" where
  "at_entry r rs ys e zs \<longleftrightarrow> loop_ok r rs (length ys) \<and> entries rs = ys @ e # zs"

lemma loop_okD:
  assumes "loop_ok r rs ii" "ii < in_use rs"
  shows "at_entry r rs (take ii (entries rs)) (ranges rs ! ii) (drop (Suc ii) (entries rs))"
proof -
  from assms have "ii < length (entries rs)" by (simp add: loop_ok_def)
  with assms id_take_nth_drop [OF this] show ?thesis
    by (simp add: at_entry_def entries_nth)
qed

lemma at_entryD:
  assumes "at_entry r rs ys e zs"
  shows "rs_inv rs" "valid_range r" "valid_range e" "ranges rs ! length ys = e" "length ys < in_use rs"
    "\<forall>y \<in> set ys. overlaps r y = None" "\<forall>y \<in> set ys. apart y e" "\<forall>z \<in> set zs. apart e z"
    "\<forall>z \<in> set zs. valid_range z" "splits_entry r rs \<longrightarrow> in_use rs < length (ranges rs)"
    "entries rs = ys @ e # zs"
proof -
  show es: "entries rs = ys @ e # zs" using assms by (simp add: at_entry_def)
  from assms have ok: "loop_ok r rs (length ys)" by (simp add: at_entry_def)
  then show inv: "rs_inv rs" and "valid_range r" and "\<forall>y \<in> set ys. overlaps r y = None"
    and "splits_entry r rs \<longrightarrow> in_use rs < length (ranges rs)"
    using es by (auto simp: loop_ok_def)
  have "in_use rs = Suc (length ys + length zs)" using rs_inv_length [OF inv] es by simp
  then show "length ys < in_use rs" by simp
  then show "ranges rs ! length ys = e" using entries_nth [of "length ys" rs] es by simp
  show "valid_range e" "\<forall>y \<in> set ys. apart y e" "\<forall>z \<in> set zs. apart e z" "\<forall>z \<in> set zs. valid_range z"
    using inv es by (auto simp: rs_inv_def dest: separated_valid)
qed

lemma remove_loop_at_entry:
  assumes "at_entry r rs ys e zs"
  shows "remove_loop r rs (length ys) = (if overlaps r e = None then remove_loop r rs (Suc (length ys))
      else if contains e r then Option.bind (delete_range rs (length ys)) (\<lambda>rs'. remove_loop r rs' 0)
      else if rstart r \<le> rstart e
      then remove_loop r (rs\<lparr>ranges := (ranges rs)[length ys := e\<lparr>rstart := saturating_add (rend r) 1\<rparr>]\<rparr>)
        (Suc (length ys))
      else if rend e \<le> rend r
      then remove_loop r (rs\<lparr>ranges := (ranges rs)[length ys := e\<lparr>rend := saturating_sub (rstart r) 1\<rparr>]\<rparr>)
        (Suc (length ys))
      else Option.bind (assert_that (in_use rs < length (ranges rs))) (\<lambda>_.
        remove_loop r (rs\<lparr>ranges := (ranges rs)[length ys := e\<lparr>rstart := saturating_add (rend r) 1\<rparr>,
            in_use rs := \<lparr>rstart = rstart e, rend = saturating_sub (rstart r) 1\<rparr>],
          in_use := in_use rs + 1\<rparr>) 0))"
  using at_entryD(4,5) [OF assms] by (subst remove_loop.simps) (simp add: Let_def)

lemma advance_skip:
  assumes "at_entry r rs ys e zs" "overlaps r e = None"
  shows "advances r (rs, length ys) (rs, Suc (length ys))"
  using assms at_entryD [OF assms(1)] remove_loop_at_entry [OF assms(1)]
  by (auto simp: advances_def loop_ok_def loop_measure_def)

lemma advance_delete:
  assumes at: "at_entry r rs ys e zs" and ov: "overlaps r e \<noteq> None" "contains e r"
  obtains rs1 where "advances r (rs, length ys) (rs1, 0)"
proof -
  note d = at_entryD [OF at]
  obtain rs1 where rs1: "delete_range rs (length ys) = Some rs1" "entries rs1 = ys @ zs"
    "length (ranges rs1) = length (ranges rs)" "in_use rs1 = in_use rs - 1" "in_use rs1 < length (ranges rs1)"
    using delete_range_entries [OF _ d(11)] d(1) by (auto simp: rs_inv_def)
  have "cells e \<subseteq> cells r" using ov contains_iff d by auto
  then have "advances r (rs, length ys) (rs1, 0)"
    using ov rs1 d remove_loop_at_entry [OF at]
    by (auto simp: advances_def loop_ok_def loop_measure_def rs_inv_def splits_entry_def)
  then show thesis by (rule that)
qed

text \<open>An entry replaced by a part of it that avoids the range, as both trims do.\<close>

lemma advance_trim:
  assumes at: "at_entry r rs ys e zs" and ov: "overlaps r e \<noteq> None"
    and e': "valid_range e'" "cells e' = cells e - cells r" "rstart e \<le> rstart e'" "rend e' \<le> rend e"
    and loop: "remove_loop r rs (length ys)
      = remove_loop r (rs\<lparr>ranges := (ranges rs)[length ys := e']\<rparr>) (Suc (length ys))"
  shows "advances r (rs, length ys) (rs\<lparr>ranges := (ranges rs)[length ys := e']\<rparr>, Suc (length ys))"
proof -
  note d = at_entryD [OF at]
  let ?rs = "rs\<lparr>ranges := (ranges rs)[length ys := e']\<rparr>"
  have es1: "entries ?rs = ys @ e' # zs" using d(11) by (rule entries_update) simp
  have inv1: "rs_inv ?rs" using d(1,11) e' by (intro rs_inv_update) auto
  have no: "overlaps r e' = None" using e' d(2) by (intro overlaps_None_valid) auto
  have sp: "splits_entry r ?rs \<longrightarrow> splits_entry r rs"
    using d(11) es1 e'(3,4) by (fastforce simp: splits_entry_def)
  show ?thesis
    using ov d es1 inv1 no sp e'(2) loop by (auto simp: advances_def loop_ok_def loop_measure_def)
qed

lemma advance_split:
  assumes at: "at_entry r rs ys e zs" and ov: "overlaps r e \<noteq> None" "\<not> contains e r"
    and mid: "rstart e < rstart r" "rend r < rend e"
  obtains rs1 where "advances r (rs, length ys) (rs1, 0)"
proof -
  note d = at_entryD [OF at]
  note t = split_middle [OF mid(1) d(2) mid(2)]
  let ?hi = "e\<lparr>rstart := saturating_add (rend r) 1\<rparr>"
  let ?lo = "\<lparr>rstart = rstart e, rend = saturating_sub (rstart r) 1\<rparr>"
  let ?rs = "rs\<lparr>ranges := (ranges rs)[length ys := ?hi, in_use rs := ?lo], in_use := in_use rs + 1\<rparr>"
  have split: "splits_entry r rs" using mid d(11) by (auto simp: splits_entry_def)
  with d(10) have lt: "in_use rs < length (ranges rs)" by simp
  have es1: "entries ?rs = ys @ ?hi # zs @ [?lo]"
    using entries_update [OF d(11) refl, of ?hi] lt by (simp add: entries_def take_Suc_conv_app_nth)
  have sub: "cells r \<subseteq> cells e" using mid by (auto simp: cells_def)
  have "overlaps r ?hi = None" "overlaps r ?lo = None"
    using t(1-3) d(2) by (auto intro!: overlaps_None_valid)
  moreover have "overlaps r z = None" if "z \<in> set zs" for z
    using that d(2,8,9) sub apart_disjoint [of e z] by (intro overlaps_None_valid) auto
  ultimately have no: "\<forall>x \<in> set (entries ?rs). overlaps r x = None"
    using es1 d(6) by auto
  have ap: "apart ?hi b \<and> apart ?lo b" if "apart e b" for b
    using that t apart_shrink [of e b ?hi] apart_shrink [of e b ?lo] by simp
  have ap': "apart b ?hi \<and> apart b ?lo" if "apart b e" for b
    using ap [of b] that by (simp add: apart_sym)
  have "separated (entries ?rs)"
    unfolding es1 using d(1,11) t(1,2,4) ap ap'
    by (auto simp: rs_inv_def apart_sym)
  then have inv1: "rs_inv ?rs" using d(1) lt by (simp add: rs_inv_def)
  have sp: "\<not> splits_entry r ?rs"
    using splits_entry_overlap [OF _ d(2) inv1] no by auto
  have "remove_loop r rs (length ys) = remove_loop r ?rs 0"
    unfolding remove_loop_at_entry [OF at] using ov mid lt by (auto simp: not_le [symmetric])
  moreover have "loop_ok r ?rs 0" using inv1 d(2) sp by (simp add: loop_ok_def)
  moreover have "overlapping r ?rs = []" using no by (simp add: filter_empty_conv)
  then have "(loop_measure r (?rs, 0), loop_measure r (rs, length ys)) \<in> less_than <*lex*> less_than"
    unfolding loop_measure_def using d(11) ov(1) by simp
  moreover have "rs_cover ?rs - cells r = rs_cover rs - cells r"
    unfolding es1 d(11) using t(3) by auto
  ultimately have "advances r (rs, length ys) (?rs, 0)"
    using sp split by (simp add: advances_def)
  then show thesis by (rule that)
qed

lemma loop_advances:
  assumes "loop_ok r rs ii" "ii < in_use rs"
  obtains st where "advances r (rs, ii) st"
proof -
  define ys where "ys = take ii (entries rs)"
  obtain e zs where at: "at_entry r rs ys e zs" and ii: "length ys = ii"
    using loop_okD [OF assms] assms by (auto simp: ys_def loop_ok_def)
  note d = at_entryD [OF at]
  have shape: "rend r < rend e" if "\<not> contains e r" "rstart r \<le> rstart e"
    using that d(2,3) by (auto simp: contains_def Let_def)
  consider (none) "overlaps r e = None" | (del) "overlaps r e \<noteq> None" "contains e r"
    | (low) "overlaps r e \<noteq> None" "\<not> contains e r" "rstart r \<le> rstart e"
    | (high) "overlaps r e \<noteq> None" "\<not> contains e r" "rstart e < rstart r" "rend e \<le> rend r"
    | (mid) "overlaps r e \<noteq> None" "\<not> contains e r" "rstart e < rstart r" "rend r < rend e"
    by (meson linorder_not_le)
  then show thesis
  proof cases
    case none
    with advance_skip [OF at] ii that show thesis by auto
  next
    case del
    with advance_delete [OF at] ii that show thesis by metis
  next
    case low
    note t = trim_low [OF low(3) overlaps_SomeD(1) [OF low(1) d(2,3)] shape [OF low(2,3)]]
    from low remove_loop_at_entry [OF at]
    have "advances r (rs, ii) (rs\<lparr>ranges := (ranges rs)[ii := e\<lparr>rstart := saturating_add (rend r) 1\<rparr>]\<rparr>, Suc ii)"
      unfolding ii [symmetric] by (intro advance_trim [OF at low(1) t(1-3) eq_refl [OF t(4)]]) auto
    then show thesis by (rule that)
  next
    case high
    note t = trim_high [OF high(3) overlaps_SomeD(2) [OF high(1) d(2,3)] high(4)]
    from high remove_loop_at_entry [OF at]
    have "advances r (rs, ii) (rs\<lparr>ranges := (ranges rs)[ii := e\<lparr>rend := saturating_sub (rstart r) 1\<rparr>]\<rparr>, Suc ii)"
      unfolding ii [symmetric]
      by (intro advance_trim [OF at high(1) t(1,2) eq_refl [OF t(3) [symmetric]] t(4)]) auto
    then show thesis by (rule that)
  next
    case mid
    with advance_split [OF at] ii that show thesis by metis
  qed
qed

lemma loop_end:
  assumes "loop_ok r rs (in_use rs)"
  shows "rs_cover rs \<inter> cells r = {}"
proof -
  have "cells r \<inter> cells e = {}" if "e \<in> set (entries rs)" for e
    using assms that overlaps_None_iff [of r e]
    by (auto simp: loop_ok_def rs_inv_def dest: separated_valid)
  then show ?thesis by (auto simp: cover_def)
qed

lemma remove_loop_correct:
  "loop_ok r (fst st) (snd st) \<Longrightarrow>
   \<exists>rs'. remove_loop r (fst st) (snd st) = Some rs' \<and> rs_inv rs'
     \<and> rs_cover rs' = rs_cover (fst st) - cells r
     \<and> length (ranges rs') = length (ranges (fst st)) \<and> in_use rs' \<le> slots_needed r (fst st)"
proof (induction "loop_measure r st" arbitrary: st
    rule: wf_induct_rule [OF wf_lex_prod [OF wf_less_than wf_less_than]])
  case (1 st)
  show ?case
  proof (cases "snd st < in_use (fst st)")
    case True
    with loop_advances [OF 1(2)] obtain st' where st': "advances r st st'" by auto
    then have "loop_ok r (fst st') (snd st')"
      and "(loop_measure r st', loop_measure r st) \<in> less_than <*lex*> less_than"
      by (simp_all add: advances_def)
    from 1(1) [OF this(2) this(1)] st' show ?thesis
      by (fastforce simp: advances_def)
  next
    case False
    with 1(2) have "snd st = in_use (fst st)" by (simp add: loop_ok_def)
    with loop_end [of r "fst st"] 1(2) have "rs_cover (fst st) - cells r = rs_cover (fst st)"
      by (metis Diff_triv)
    moreover have "remove_loop r (fst st) (snd st) = Some (fst st)"
      using False by (subst remove_loop.simps) simp
    ultimately show ?thesis using 1(2) by (auto simp: loop_ok_def)
  qed
qed

lemma remove_range_Some:
  assumes "rs_inv rs" "valid_range r" "splits_entry r rs \<longrightarrow> in_use rs < length (ranges rs)"
  obtains rs' where "remove_range rs r = Some rs'" "rs_inv rs'" "rs_cover rs' = rs_cover rs - cells r"
    "length (ranges rs') = length (ranges rs)" "in_use rs' \<le> slots_needed r rs"
proof -
  have "loop_ok r (fst (rs, 0)) (snd (rs, 0))" using assms by (simp add: loop_ok_def)
  from remove_loop_correct [OF this] assms(2) that show thesis
    by (auto simp: remove_range_def run_simps valid_range_def)
qed

lemma remove_loop_full:
  assumes "rs_inv rs" "valid_range r" "in_use rs = length (ranges rs)"
    "entries rs = ys @ e # zs" "rstart e < rstart r" "rend r < rend e" "ii \<le> length ys"
  shows "remove_loop r rs ii = None"
  using assms(7)
proof (induction "length ys - ii" arbitrary: ii)
  case 0
  then have ii: "ii = length ys" by simp
  have len: "length (entries rs) = in_use rs" using assms(1) by simp
  then have lt: "ii < in_use rs" using assms(4) ii by simp
  then have nth: "ranges rs ! ii = e" using entries_nth [OF lt] assms(4) ii by simp
  have "valid_range e" using assms(1,4) by (auto simp: rs_inv_def)
  moreover have "rstart r \<in> cells r \<inter> cells e" using assms(2,5,6) by (auto simp: cells_def valid_range_def)
  ultimately have ov: "overlaps r e \<noteq> None" using overlaps_None_iff assms(2) by blast
  have "\<not> cells e \<subseteq> cells r" using \<open>valid_range e\<close> assms(5) by (auto simp: cells_def valid_range_def)
  then have "\<not> contains e r" using contains_iff [OF \<open>valid_range e\<close> assms(2)] by simp
  with lt nth ov assms(3,5,6) show ?case
    by (subst remove_loop.simps) (auto simp: Let_def assert_that_bind)
next
  case (Suc n)
  then have ii: "ii < length ys" by simp
  have len: "length (entries rs) = in_use rs" using assms(1) by simp
  then have lt: "ii < in_use rs" using assms(4) ii by simp
  let ?x = "ranges rs ! ii"
  have x: "?x = ys ! ii" using entries_nth [OF lt] assms(4) ii by (simp add: nth_append)
  then have xs: "?x \<in> set ys" using ii by simp
  then have "apart ?x e" and vx: "valid_range ?x" using assms(1,4) by (auto simp: rs_inv_def dest: separated_valid)
  then have "cells ?x \<inter> cells e = {}" by (intro apart_disjoint)
  moreover have "cells r \<subseteq> cells e" using assms(5,6) by (auto simp: cells_def)
  ultimately have "overlaps r ?x = None" using vx assms(2) by (intro overlaps_None_valid) auto
  with lt Suc ii show ?case by (subst remove_loop.simps) (simp add: Let_def)
qed

lemma remove_range_None:
  assumes "rs_inv rs"
  shows "remove_range rs r = None \<longleftrightarrow> \<not> valid_range r \<or> splits_entry r rs \<and> in_use rs = length (ranges rs)"
proof (cases "valid_range r \<and> \<not> (splits_entry r rs \<and> in_use rs = length (ranges rs))")
  case True
  then have "splits_entry r rs \<longrightarrow> in_use rs < length (ranges rs)" using assms by (auto simp: rs_inv_def)
  with True assms obtain rs' where "remove_range rs r = Some rs'" using remove_range_Some by metis
  with True show ?thesis by auto
next
  case False
  have "remove_range rs r = None"
  proof (cases "valid_range r")
    case True
    with False obtain e where e: "e \<in> set (entries rs)" "rstart e < rstart r" "rend r < rend e"
      and full: "in_use rs = length (ranges rs)" by (auto simp: splits_entry_def)
    from e(1) obtain ys zs where "entries rs = ys @ e # zs" by (auto dest: split_list)
    with remove_loop_full [OF assms True full this e(2,3)] show ?thesis
      by (simp add: remove_range_def assert_that_bind)
  qed (simp add: remove_range_def assert_that_bind valid_range_def)
  with False show ?thesis by blast
qed

lemma remove_range_SomeD:
  assumes "rs_inv rs" "remove_range rs r = Some rs'"
  shows "rs_inv rs'" "rs_cover rs' = rs_cover rs - cells r" "length (ranges rs') = length (ranges rs)"
    "in_use rs' \<le> slots_needed r rs"
proof -
  have "valid_range r" "splits_entry r rs \<longrightarrow> in_use rs < length (ranges rs)"
    using remove_range_None [OF assms(1), of r] assms by (auto simp: rs_inv_def)
  from remove_range_Some [OF assms(1) this] assms(2)
  show "rs_inv rs'" "rs_cover rs' = rs_cover rs - cells r" "length (ranges rs') = length (ranges rs)"
    "in_use rs' \<le> slots_needed r rs" by (metis option.inject)+
qed

lemma insert_range_SomeD:
  assumes "rs_inv rs" "insert_range rs r = Some rs'"
  shows "rs_inv rs'" "rs_cover rs' = rs_cover rs \<union> cells r" "length (ranges rs') = length (ranges rs)"
    "in_use rs' \<le> Suc (in_use rs)"
proof -
  have "valid_range r" "in_use rs < length (ranges rs) \<or> (\<exists>e \<in> set (entries rs). touches r e)"
    using insert_range_None [OF assms(1), of r] assms by (auto simp: rs_inv_def)
  from insert_range_Some [OF assms(1) this] assms(2)
  show "rs_inv rs'" "rs_cover rs' = rs_cover rs \<union> cells r" "length (ranges rs') = length (ranges rs)"
    "in_use rs' \<le> Suc (in_use rs)" by (metis option.inject)+
qed

subsection \<open>Allocation\<close>

text \<open>
  A candidate \<open>(base, end, ptr)\<close> of the search: an aligned block of \<open>size\<close> bytes at \<open>ptr\<close> that
  ends at \<open>end\<close>, inside one entry.
\<close>

definition block_at :: "u64 \<Rightarrow> u64 \<Rightarrow> u64 set" where
  "block_at p size0 = {p..p + (size0 - 1)}"

definition alloc_fit :: "u64 \<Rightarrow> u64 \<Rightarrow> Range list \<Rightarrow> u64 \<times> u64 \<times> u64 \<Rightarrow> bool" where
  "alloc_fit size0 align es = (\<lambda>(b, e, p). (\<exists>ent \<in> set es. rstart ent \<le> b \<and> e \<le> rend ent) \<and> b \<le> p
     \<and> e = p + (size0 - 1) \<and> unat p + unat (size0 - 1) < 2 ^ 64 \<and> unat p mod unat align = 0)"

lemma alloc_fit_le: "alloc_fit size0 align es (b, e, p) \<Longrightarrow> p \<le> e \<and> b \<le> e"
  by (auto simp: alloc_fit_def word_le_nat_alt unat_add_no_overflow)

lemma alloc_fit_mono: "alloc_fit size0 align es a \<Longrightarrow> set es \<subseteq> set fs \<Longrightarrow> alloc_fit size0 align fs a"
  by (auto simp: alloc_fit_def)

lemma alloc_fit_cover:
  "alloc_fit size0 align es (b, e, p) \<Longrightarrow> {b..e} \<subseteq> cover es \<and> block_at p size0 \<subseteq> {b..e}"
  by (auto simp: alloc_fit_def cover_def cells_def block_at_def) (meson order.trans)+

lemma fit_at_front:
  assumes "count_ones align = 1"
    and "Option.bind (checked_add (rstart ent) (size0 - 1))
      (\<lambda>e. checked_add e ((align - (rstart ent AND (align - 1))) AND (align - 1))) = Some end_incl"
    and "end_incl \<le> rend ent"
  shows "alloc_fit size0 align [ent]
    (rstart ent, end_incl, rstart ent + ((align - (rstart ent AND (align - 1))) AND (align - 1)))"
proof -
  let ?fx = "(align - (rstart ent AND (align - 1))) AND (align - 1)"
  obtain k where k: "k < 64" "align = 2 ^ k" using count_ones_1 [OF assms(1)] by auto
  from assms(2) have e: "end_incl = rstart ent + (size0 - 1) + ?fx"
    and sum: "unat (rstart ent) + unat (size0 - 1) + unat ?fx < 2 ^ 64"
    by (auto simp: bind_eq_Some_conv checked_word unat_add_no_overflow)
  have p: "unat (rstart ent + ?fx) = unat (rstart ent) + unat ?fx"
    using sum by (intro unat_add_no_overflow) simp
  have "rstart ent \<le> rstart ent + ?fx" by (simp add: word_le_nat_alt p)
  moreover have "end_incl = (rstart ent + ?fx) + (size0 - 1)" using e by (simp add: algebra_simps)
  moreover have "unat (rstart ent + ?fx) + unat (size0 - 1) < 2 ^ 64" using sum p by simp
  moreover have "unat (rstart ent + ?fx) mod unat align = 0"
    using align_fix_correct [of k "rstart ent"] k(1) by (simp only: p) (simp add: k unat_exp)
  ultimately show ?thesis using assms(3) by (simp add: alloc_fit_def)
qed

lemma region_search_fit:
  assumes "region_search size0 (align - 1) ent regions = Fit (b, e, p)" "count_ones align = 1"
    "valid_range ent" "\<forall>r \<in> set regions. valid_range r"
  shows "alloc_fit size0 align [ent] (b, e, p) \<and> b = p \<and> {b..e} \<subseteq> cover regions"
  using assms(1,4)
proof (induction regions)
  case (Cons region regions)
  show ?case
  proof (cases "region_search size0 (align - 1) ent regions = Fit (b, e, p)")
    case True
    with Cons show ?thesis by auto
  next
    case False
    obtain k where k: "k < 64" "align = 2 ^ k" using count_ones_1 [OF assms(2)] by auto
    from False Cons.prems obtain ov where ov: "overlaps ent region = Some ov"
      and le: "rstart ov \<le> p" "p \<le> rend ov" "size0 - 1 \<le> rend ov - p"
      and bep: "b = p" "p = (rstart ov + (align - 1)) AND NOT (align - 1)" "e = p + (size0 - 1)"
      by (auto simp: Let_def split: option.splits if_splits)
    have in_ent: "rstart ent \<le> rstart ov" "rend ov \<le> rend ent" "rstart region \<le> rstart ov" "rend ov \<le> rend region"
      using ov assms(3) Cons.prems(2) by (auto simp: overlaps_def Let_def split: if_splits)
    have sum: "unat p + unat (size0 - 1) \<le> unat (rend ov)"
      using le by (simp add: word_le_nat_alt unat_sub)
    then have fin: "unat p + unat (size0 - 1) < 2 ^ 64"
      using word_unat_lt by (rule le_less_trans)
    then have "e \<le> rend ov" using sum bep by (simp add: word_le_nat_alt unat_add_no_overflow)
    moreover have "unat p mod unat align = 0"
      using align_down_correct k by (simp add: bep unat_exp)
    ultimately show ?thesis
      using bep in_ent le fin by (auto simp: alloc_fit_def cells_def)
  qed
qed simp

text \<open>
  What the search promises of its result, by the kind of request: without regions the candidate
  starts at an entry, with forced regions it lies in them.
\<close>

definition chosen :: "u64 \<Rightarrow> u64 \<Rightarrow> Range list option \<Rightarrow> bool \<Rightarrow> Range list \<Rightarrow> u64 \<times> u64 \<times> u64 \<Rightarrow> bool" where
  "chosen size0 align regions force_regions es a \<longleftrightarrow> alloc_fit size0 align es a
     \<and> (regions = None \<longrightarrow> fst a \<in> rstart ` set es)
     \<and> (\<forall>rgs. regions = Some rgs \<and> force_regions \<longrightarrow>
           {fst a..fst (snd a)} \<subseteq> cover rgs \<and> fst a = snd (snd a))"

lemma allocation_search_chosen:
  assumes "allocation_search size0 align regions force_regions es allocation = Some (Some a)"
    "count_ones align = 1" "\<forall>e \<in> set es. valid_range e"
    "\<forall>rgs. regions = Some rgs \<longrightarrow> (\<forall>r \<in> set rgs. valid_range r)"
    "\<forall>a. allocation = Some a \<longrightarrow> chosen size0 align regions force_regions all a" "set es \<subseteq> set all"
  shows "chosen size0 align regions force_regions all a"
  using assms(1,3,5,6)
proof (induction es arbitrary: allocation)
  case (Cons ent es)
  let ?fx = "(align - (rstart ent AND (align - 1))) AND (align - 1)"
  let ?P = "chosen size0 align regions force_regions all"
  obtain end_incl where e: "Option.bind (checked_add (rstart ent) (size0 - 1)) (\<lambda>e. checked_add e ?fx) = Some end_incl"
    using Cons.prems(1) by (auto simp: Let_def split: option.splits)
  show ?case
  proof (cases "end_incl \<le> rend ent")
    case False
    with e Cons show ?thesis by (auto simp: Let_def usize_max_def not_le)
  next
    case True
    have front: "?P (rstart ent, end_incl, rstart ent + ?fx)" if "\<not> force_regions"
      using fit_at_front [OF assms(2) e True] Cons.prems(4) that by (auto simp: chosen_def elim: alloc_fit_mono)
    show ?thesis
    proof (cases "case regions of None \<Rightarrow> No_Fit | Some rgs \<Rightarrow> region_search size0 (align - 1) ent rgs")
      case No_Fit
      with e True Cons.prems(1) obtain al
        where "allocation_search size0 align regions force_regions es al = Some (Some a)"
          and "al = allocation \<or> \<not> force_regions \<and> al = Some (rstart ent, end_incl, rstart ent + ?fx)"
        by (auto simp: Let_def usize_max_def not_less split: option.splits if_splits)
      with Cons.prems front show ?thesis by (intro Cons.IH [of al]) auto
    next
      case Skip
      with e True Cons show ?thesis by (auto simp: Let_def usize_max_def not_less split: if_splits)
    next
      case (Fit f)
      then obtain rgs b en p where rgs: "regions = Some rgs" and f: "f = (b, en, p)"
        "region_search size0 (align - 1) ent rgs = Fit (b, en, p)" by (cases f) (auto split: option.splits)
      have "?P f"
        using region_search_fit [OF f(2) assms(2)] rgs f Cons.prems(2,4) assms(4)
        by (auto simp: chosen_def elim!: alloc_fit_mono)
      moreover from e True Cons.prems(1) Fit have "a = f"
        by (auto simp: Let_def usize_max_def not_less split: if_splits)
      ultimately show ?thesis by simp
    qed
  qed
qed simp

lemma front_no_split:
  assumes "rs_inv rs" "b \<in> rstart ` set (entries rs)" "b \<le> e"
  shows "\<not> splits_entry \<lparr>rstart = b, rend = e\<rparr> rs"
proof
  assume "splits_entry \<lparr>rstart = b, rend = e\<rparr> rs"
  then obtain x where x: "x \<in> set (entries rs)" "rstart x < b" "e < rend x" by (auto simp: splits_entry_def)
  from assms(2) obtain y where y: "y \<in> set (entries rs)" "rstart y = b" by auto
  from assms(1) have sep: "separated (entries rs)" by (simp add: rs_inv_def)
  have "b \<in> cells x" "b \<in> cells y"
    using x y sep assms(3) by (auto simp: cells_def dest: separated_valid simp: valid_range_def)
  then have "x = y" using separated_apart [OF sep x(1) y(1)] apart_disjoint by blast
  with x y show False by simp
qed

definition request_valid :: "RegionRequest \<Rightarrow> bool" where
  "request_valid request = (\<forall>rgs. fst (request_regions request) = Some rgs \<longrightarrow> (\<forall>r \<in> set rgs. valid_range r))"

lemma request_valid_simps [simp]:
  "request_valid Any"
  "rs_inv rgs \<Longrightarrow> request_valid (Preference rgs)"
  "rs_inv rgs \<Longrightarrow> request_valid (Forced rgs)"
  by (auto simp: request_valid_def rs_inv_def separated_def)

definition allocated ::
  "RangeSet \<Rightarrow> u64 \<Rightarrow> u64 \<Rightarrow> RegionRequest \<Rightarrow> RangeSet \<Rightarrow> u64 \<Rightarrow> bool" where
  "allocated rs size0 align request rs' p \<longleftrightarrow> size0 \<noteq> 0 \<and> unat p mod unat align = 0
     \<and> unat p + unat (size0 - 1) < 2 ^ 64
     \<and> block_at p size0 \<subseteq> rs_cover rs \<and> rs_cover rs' \<subseteq> rs_cover rs - block_at p size0
     \<and> (\<forall>rgs. request = Forced rgs \<longrightarrow>
           block_at p size0 \<subseteq> rs_cover rgs \<and> rs_cover rs' = rs_cover rs - block_at p size0)"

text \<open>The result of a search and of the removal of its candidate.\<close>

lemma chosen_removed:
  assumes "rs_inv rs" "request_valid request" "request_regions request = (regions, force_regions)"
    and "size0 \<noteq> 0" "count_ones align = 1"
    and s: "allocation_search size0 align regions force_regions (entries rs) None = Some (Some (b, e, p))"
  shows "valid_range \<lparr>rstart = b, rend = e\<rparr>" "request = Any \<longrightarrow> \<not> splits_entry \<lparr>rstart = b, rend = e\<rparr> rs"
    and "rs_cover rs' = rs_cover rs - cells \<lparr>rstart = b, rend = e\<rparr> \<Longrightarrow> allocated rs size0 align request rs' p"
proof -
  have ch: "chosen size0 align regions force_regions (entries rs) (b, e, p)"
    using assms by (intro allocation_search_chosen) (auto simp: rs_inv_def separated_def request_valid_def)
  then have fit: "alloc_fit size0 align (entries rs) (b, e, p)" by (simp add: chosen_def)
  note le = alloc_fit_le [OF fit] and cov = alloc_fit_cover [OF fit]
  show "valid_range \<lparr>rstart = b, rend = e\<rparr>" using le by (simp add: valid_range_def)
  show "request = Any \<longrightarrow> \<not> splits_entry \<lparr>rstart = b, rend = e\<rparr> rs"
    using front_no_split [OF assms(1), of b e] ch le assms(3) by (auto simp: chosen_def)
  have "block_at p size0 \<subseteq> rs_cover rgs \<and> cells \<lparr>rstart = b, rend = e\<rparr> = block_at p size0" if "request = Forced rgs" for rgs
  proof -
    from that assms(3) ch have "{b..e} \<subseteq> rs_cover rgs" "b = p" by (auto simp: chosen_def)
    with cov fit show ?thesis by (auto simp: alloc_fit_def cells_def block_at_def)
  qed
  then show "allocated rs size0 align request rs' p" if "rs_cover rs' = rs_cover rs - cells \<lparr>rstart = b, rend = e\<rparr>"
    using cov assms(4) fit that by (auto simp: allocated_def alloc_fit_def cells_def)
qed

lemma allocate_prefer_cases:
  assumes "rs_inv rs" "request_valid request"
  obtains "allocate_prefer rs size0 align request = Some (rs, None)"
  | b e p where "allocate_prefer rs size0 align request =
        Option.bind (remove_range rs \<lparr>rstart = b, rend = e\<rparr>) (\<lambda>rs'. Some (rs', Some p))"
      "valid_range \<lparr>rstart = b, rend = e\<rparr>" "request = Any \<longrightarrow> \<not> splits_entry \<lparr>rstart = b, rend = e\<rparr> rs"
      "\<And>rs'. rs_cover rs' = rs_cover rs - cells \<lparr>rstart = b, rend = e\<rparr> \<Longrightarrow> allocated rs size0 align request rs' p"
proof -
  obtain regions force_regions where rq: "request_regions request = (regions, force_regions)" by force
  let ?s = "allocation_search size0 align regions force_regions (entries rs) None"
  show thesis
  proof (cases "size0 = 0 \<or> count_ones align \<noteq> 1 \<or> ?s = None \<or> ?s = Some None")
    case True
    then show thesis using rq that(1) by (auto simp: allocate_prefer_def)
  next
    case False
    then obtain b e p where s: "?s = Some (Some (b, e, p))" by auto
    show thesis
      using s False rq chosen_removed [OF assms rq _ _ s] by (intro that(2)) (simp_all add: allocate_prefer_def)
  qed
qed

lemma allocate_prefer_SomeD:
  assumes "rs_inv rs" "request_valid request" "allocate_prefer rs size0 align request = Some (rs', res)"
  shows "rs_inv rs'" "length (ranges rs') = length (ranges rs)" "request = Any \<longrightarrow> in_use rs' \<le> in_use rs"
    "case res of None \<Rightarrow> rs' = rs | Some p \<Rightarrow> allocated rs size0 align request rs' p"
proof -
  let ?C = "rs_inv rs' \<and> length (ranges rs') = length (ranges rs) \<and> (request = Any \<longrightarrow> in_use rs' \<le> in_use rs)
    \<and> (case res of None \<Rightarrow> rs' = rs | Some p \<Rightarrow> allocated rs size0 align request rs' p)"
  have ?C using assms(1,2)
  proof (rule allocate_prefer_cases [of _ _ size0 align])
    assume "allocate_prefer rs size0 align request = Some (rs, None)"
    with assms(1,3) show ?C by auto
  next
    fix b e p
    assume a: "allocate_prefer rs size0 align request =
          Option.bind (remove_range rs \<lparr>rstart = b, rend = e\<rparr>) (\<lambda>rs'. Some (rs', Some p))"
      "request = Any \<longrightarrow> \<not> splits_entry \<lparr>rstart = b, rend = e\<rparr> rs"
      "\<And>rs'. rs_cover rs' = rs_cover rs - cells \<lparr>rstart = b, rend = e\<rparr> \<Longrightarrow> allocated rs size0 align request rs' p"
    with assms(3) have r: "remove_range rs \<lparr>rstart = b, rend = e\<rparr> = Some rs'" "res = Some p"
      by (auto simp: run_simps)
    from remove_range_SomeD [OF assms(1) r(1)] a(2,3) r(2) show ?C by auto
  qed
  then show "rs_inv rs'" "length (ranges rs') = length (ranges rs)" "request = Any \<longrightarrow> in_use rs' \<le> in_use rs"
    "case res of None \<Rightarrow> rs' = rs | Some p \<Rightarrow> allocated rs size0 align request rs' p" by blast+
qed

lemma allocate_prefer_total:
  assumes "rs_inv rs" "request_valid request" "request = Any \<or> in_use rs < length (ranges rs)"
  shows "allocate_prefer rs size0 align request \<noteq> None"
  using assms(1,2)
proof (rule allocate_prefer_cases [of _ _ size0 align])
  fix b e p
  assume a: "allocate_prefer rs size0 align request =
        Option.bind (remove_range rs \<lparr>rstart = b, rend = e\<rparr>) (\<lambda>rs'. Some (rs', Some p))"
    "valid_range \<lparr>rstart = b, rend = e\<rparr>" "request = Any \<longrightarrow> \<not> splits_entry \<lparr>rstart = b, rend = e\<rparr> rs"
  with assms(3) have "remove_range rs \<lparr>rstart = b, rend = e\<rparr> \<noteq> None"
    using remove_range_None [OF assms(1)] by auto
  with a(1) show ?thesis by auto
qed simp

text \<open>When the search without regions finds a block.\<close>

definition front_end :: "u64 \<Rightarrow> u64 \<Rightarrow> Range \<Rightarrow> u64 option" where
  "front_end size0 align ent = Option.bind (checked_add (rstart ent) (size0 - 1))
     (\<lambda>e. checked_add e ((align - (rstart ent AND (align - 1))) AND (align - 1)))"

definition front_fits :: "u64 \<Rightarrow> u64 \<Rightarrow> Range \<Rightarrow> bool" where
  "front_fits size0 align ent \<longleftrightarrow> (\<exists>e \<le> rend ent. front_end size0 align ent = Some e)"

lemma search_overflow_iff:
  "allocation_search size0 align None False es al = None \<longleftrightarrow> (\<exists>ent \<in> set es. front_end size0 align ent = None)"
  by (induction es arbitrary: al) (auto simp: Let_def front_end_def split: option.splits if_splits)

lemma search_nothing_iff:
  "\<forall>ent \<in> set es. front_end size0 align ent \<noteq> None \<Longrightarrow>
   allocation_search size0 align None False es al = Some None
     \<longleftrightarrow> al = None \<and> (\<forall>ent \<in> set es. \<not> front_fits size0 align ent)"
  by (induction es arbitrary: al)
    (auto simp: Let_def front_end_def front_fits_def usize_max_def not_less split: option.splits if_splits)

lemma search_forced_succeeds:
  assumes "\<forall>ent \<in> set es. front_end size0 align ent \<noteq> None"
    "ent \<in> set es" "front_fits size0 align ent" "region_search size0 (align - 1) ent rgs = Fit a"
  shows "\<exists>a. allocation_search size0 align (Some rgs) True es al = Some (Some a)"
  using assms(1,2)
proof (induction es arbitrary: al)
  case (Cons x es)
  show ?case
  proof (cases "x = ent")
    case True
    with assms(3,4) show ?thesis
      by (cases a) (auto simp: Let_def front_fits_def front_end_def usize_max_def not_less [symmetric])
  next
    case False
    with Cons show ?thesis
      by (auto simp: Let_def front_end_def split: option.splits region_choice.splits)
  qed
qed simp

lemma allocate_result_iff:
  assumes "rs_inv rs" "allocate rs size0 align = Some (rs', res)"
  shows "res \<noteq> None \<longleftrightarrow> size0 \<noteq> 0 \<and> count_ones align = 1
    \<and> (\<forall>ent \<in> set (entries rs). front_end size0 align ent \<noteq> None)
    \<and> (\<exists>ent \<in> set (entries rs). front_fits size0 align ent)"
proof -
  let ?s = "allocation_search size0 align None False (entries rs) None"
  have "res \<noteq> None \<longleftrightarrow> size0 \<noteq> 0 \<and> count_ones align = 1 \<and> ?s \<noteq> None \<and> ?s \<noteq> Some None"
    using assms(2) by (auto simp: allocate_def allocate_prefer_def run_simps split: option.splits if_splits)
  also have "?s \<noteq> None \<and> ?s \<noteq> Some None \<longleftrightarrow> (\<forall>ent \<in> set (entries rs). front_end size0 align ent \<noteq> None)
    \<and> (\<exists>ent \<in> set (entries rs). front_fits size0 align ent)"
    using search_overflow_iff [of size0 align "entries rs" None] search_nothing_iff [of "entries rs" size0 align None]
    by (cases "?s = None") auto
  finally show ?thesis .
qed

subsection \<open>Removal from one entry\<close>

lemma shrink_entry:
  assumes "rs_inv rs" "entries rs = ys @ x # zs" "length ys = ii" "valid_range y"
    "rstart x \<le> rstart y" "rend y \<le> rend x" "cells y = cells x - S" "S \<subseteq> cells x"
  shows "rs_inv (rs\<lparr>ranges := (ranges rs)[ii := y]\<rparr>)"
    and "rs_cover (rs\<lparr>ranges := (ranges rs)[ii := y]\<rparr>) = rs_cover rs - S"
proof -
  show "rs_inv (rs\<lparr>ranges := (ranges rs)[ii := y]\<rparr>)" using assms by (intro rs_inv_update)
  have "cells x \<inter> cover (ys @ zs) = {}"
    using assms(1,2) by (intro apart_cover_disjoint) (auto simp: rs_inv_def apart_sym)
  then show "rs_cover (rs\<lparr>ranges := (ranges rs)[ii := y]\<rparr>) = rs_cover rs - S"
    using assms(2,7,8) entries_update [OF assms(2,3)] by auto
qed

text \<open>
  What \<open>remove_if_exist\<close> takes out of the entry that holds the range. Strictly inside an entry the
  first address of the range stays: the code ends the lower half at \<open>range.start\<close>.
\<close>

definition removed_cells :: "RangeSet \<Rightarrow> Range \<Rightarrow> u64 set" where
  "removed_cells rs r = (if splits_entry r rs then cells r - {rstart r} else cells r)"

lemma within_no_split:
  assumes "rs_inv rs" "e \<in> set (entries rs)" "cells r \<subseteq> cells e" "valid_range r"
    "rstart r = rstart e \<or> rend r = rend e"
  shows "\<not> splits_entry r rs"
proof
  assume "splits_entry r rs"
  then obtain x where x: "x \<in> set (entries rs)" "rstart x < rstart r" "rend r < rend x" by (auto simp: splits_entry_def)
  have "rstart r \<in> cells x" "rstart r \<in> cells e"
    using x assms(3,4) by (auto simp: cells_def valid_range_def)
  then have "x = e" using separated_apart [OF _ x(1) assms(2)] assms(1) apart_disjoint by (auto simp: rs_inv_def)
  with x assms(5) show False by auto
qed

text \<open>The search of \<open>remove_if_exist\<close> has found the entry \<open>e\<close> that holds the range.\<close>

definition held_in :: "RangeSet \<Rightarrow> Range \<Rightarrow> Range list \<Rightarrow> Range \<Rightarrow> Range list \<Rightarrow> bool" where
  "held_in rs r ys e zs \<longleftrightarrow> rs_inv rs \<and> rstart r \<le> rend r \<and> cells r \<subseteq> cells e
     \<and> entries rs = ys @ e # zs
     \<and> position (\<lambda>e. r = e \<or> contains r e) (entries rs) = Some (length ys)"

definition held_removed :: "RangeSet \<Rightarrow> Range \<Rightarrow> bool" where
  "held_removed rs r \<longleftrightarrow> (\<exists>rs'. remove_if_exist rs r = Some (rs', True) \<and> rs_inv rs'
     \<and> rs_cover rs' = rs_cover rs - removed_cells rs r)"

lemma held_inD:
  assumes "held_in rs r ys e zs"
  shows "rs_inv rs" "rstart r \<le> rend r" "cells r \<subseteq> cells e" "rstart e \<le> rstart r" "rend r \<le> rend e"
    "entries rs = ys @ e # zs" "ranges rs ! length ys = e" "length ys < in_use rs"
    "rstart r = rstart e \<or> rend r = rend e \<Longrightarrow> removed_cells rs r = cells r"
    "position (\<lambda>e. r = e \<or> contains r e) (entries rs) = Some (length ys)"
proof -
  show *: "rs_inv rs" "rstart r \<le> rend r" "cells r \<subseteq> cells e" "entries rs = ys @ e # zs"
    using assms by (auto simp: held_in_def)
  then show "rstart e \<le> rstart r" "rend r \<le> rend e" by (auto simp: cells_def)
  from *(1) have "length (entries rs) = in_use rs" by simp
  with *(4) show lt: "length ys < in_use rs" by simp
  with * entries_nth [OF lt] show "ranges rs ! length ys = e" by simp
  show "removed_cells rs r = cells r" if "rstart r = rstart e \<or> rend r = rend e"
    using within_no_split [OF *(1) _ *(3) _ that] * by (simp add: removed_cells_def valid_range_def)
  show "position (\<lambda>e. r = e \<or> contains r e) (entries rs) = Some (length ys)"
    using assms unfolding held_in_def by blast
qed

lemma remove_held_equal:
  assumes h: "held_in rs e ys e zs"
  shows "held_removed rs e"
proof -
  note h = held_inD [OF h]
  have "in_use rs \<le> length (ranges rs)" using h(1) by (simp add: rs_inv_def)
  then obtain rs' where d: "delete_range rs (length ys) = Some rs'"
    "entries rs' = remove_at (length ys) (entries rs)" "length (ranges rs') = length (ranges rs)"
    "in_use rs' = in_use rs - 1" "in_use rs' < length (ranges rs')" by (rule delete_range_nth [OF _ h(8)])
  have es: "entries rs' = ys @ zs" using d(2) h(6) by (simp add: remove_at_def)
  have "cells e \<inter> cover (ys @ zs) = {}"
    using h(1,6) by (intro apart_cover_disjoint) (auto simp: rs_inv_def apart_sym)
  moreover have "rs_inv rs'" using h(1,6) es d(3,5) by (auto simp: rs_inv_def)
  moreover have "remove_if_exist rs e = Some (rs', True)"
    by (simp add: remove_if_exist_def h(7,10) d(1))
  ultimately show ?thesis
    using h(6,9) es by (auto simp: held_removed_def)
qed

lemma remove_held_front:
  assumes h: "held_in rs r ys e zs" and l: "rstart r < rend r" and r: "rstart r = rstart e" "rend r < rend e"
  shows "held_removed rs r"
proof -
  note h = held_inD [OF h]
  let ?y = "e\<lparr>rstart := saturating_add (rend r) 1\<rparr>"
  have t: "valid_range ?y" "cells ?y = cells e - cells r" "rstart e \<le> rstart ?y" "rend ?y = rend e"
    using trim_low [of r e] r l by auto
  have "remove_if_exist rs r = Some (rs\<lparr>ranges := (ranges rs)[length ys := ?y]\<rparr>, True)"
    using r l by (auto simp: remove_if_exist_def Let_def run_simps h(7,10) checked_succ [OF r(2)])
  with shrink_entry [OF h(1,6) refl t(1,3) _ t(2) h(3)] t(4) h(9) r show ?thesis
    by (simp add: held_removed_def)
qed

lemma remove_held_back:
  assumes h: "held_in rs r ys e zs" and l: "rstart r < rend r" and r: "rstart e < rstart r" "rend r = rend e"
  shows "held_removed rs r"
proof -
  note h = held_inD [OF h]
  let ?y = "e\<lparr>rend := saturating_sub (rstart r) 1\<rparr>"
  have t: "valid_range ?y" "cells ?y = cells e - cells r" "rstart ?y = rstart e" "rend ?y \<le> rend e"
    using trim_high [of e r] r l by auto
  have "remove_if_exist rs r = Some (rs\<lparr>ranges := (ranges rs)[length ys := ?y]\<rparr>, True)"
    using r l by (auto simp: remove_if_exist_def Let_def run_simps h(7,10) checked_pred [OF r(1)])
  with shrink_entry [OF h(1,6) refl t(1) _ t(4) t(2) h(3)] t(3) h(9) r show ?thesis
    by (simp add: held_removed_def)
qed

lemma remove_held_middle:
  assumes h: "held_in rs r ys e zs" and l: "rstart r < rend r" and r: "rstart e < rstart r" "rend r < rend e"
    and sp: "in_use rs < length (ranges rs)"
  shows "held_removed rs r"
proof -
  note h = held_inD [OF h]
  let ?y = "e\<lparr>rend := rstart r\<rparr>"
  let ?hi = "\<lparr>rstart = saturating_add (rend r) 1, rend = rend e\<rparr>"
  let ?rs = "rs\<lparr>ranges := (ranges rs)[length ys := ?y]\<rparr>"
  have split: "splits_entry r rs" using r h(6) by (auto simp: splits_entry_def)
  have hi: "valid_range ?hi" "cells ?hi = {x. rend r < x \<and> x \<le> rend e}"
    using saturating_succ_le [OF r(2)] r(2) by (auto simp: valid_range_def cells_def atLeastAtMost_saturating_succ)
  have y: "cells ?y = cells e - {x. rstart r < x \<and> x \<le> rend e}" using h(4,5) l by (auto simp: cells_def)
  have "valid_range ?y" "rstart e \<le> rstart ?y" "rend ?y \<le> rend e" "{x. rstart r < x \<and> x \<le> rend e} \<subseteq> cells e"
    using h(4,5) l by (auto simp: valid_range_def cells_def)
  note shrink = shrink_entry [OF h(1,6) refl this(1-3) y this(4)]
  have inv: "rs_inv ?rs" "rs_cover ?rs = rs_cover rs - {x. rstart r < x \<and> x \<le> rend e}"
    by (fact shrink)+
  from insert_range_Some [OF inv(1) hi(1)] sp obtain rs' where
    i: "insert_range ?rs ?hi = Some rs'" "rs_inv rs'" "rs_cover rs' = rs_cover ?rs \<union> cells ?hi" by auto
  have "remove_if_exist rs r = Some (rs', True)"
    using r l by (auto simp: remove_if_exist_def Let_def run_simps h(7,10) checked_succ [OF r(2)] i(1))
  moreover have rem: "removed_cells rs r = {x. rstart r < x \<and> x \<le> rend r}"
    using split by (auto simp: removed_cells_def cells_def)
  moreover have sub: "{x. rend r < x \<and> x \<le> rend e} \<subseteq> rs_cover rs"
    using h(4,6) l by (auto simp: cells_def)
  moreover have "rs_cover rs' = rs_cover rs - removed_cells rs r"
    unfolding i(3) inv(2) hi(2) rem using sub l r(2) by auto
  ultimately show ?thesis using i(2) by (simp add: held_removed_def)
qed

lemma remove_if_exist_Some:
  assumes "rs_inv rs" "rstart r < rend r" "splits_entry r rs \<longrightarrow> in_use rs < length (ranges rs)"
  obtains rs' b where "remove_if_exist rs r = Some (rs', b)" "rs_inv rs'"
    "b \<longleftrightarrow> (\<exists>e \<in> set (entries rs). cells r \<subseteq> cells e)"
    "rs_cover rs' = (if b then rs_cover rs - removed_cells rs r else rs_cover rs)"
proof (cases "position (\<lambda>e. r = e \<or> contains r e) (entries rs)")
  case None
  then have "\<not> (\<exists>e \<in> set (entries rs). cells r \<subseteq> cells e)"
    using assms(1,2) contains_iff by (auto simp: position_None rs_inv_def separated_def valid_range_def)
  with None assms(1) that [of rs False] show thesis by (simp add: remove_if_exist_def)
next
  case (Some ii)
  from position_entries [OF Some assms(1)] obtain ys zs where
    "entries rs = ys @ ranges rs ! ii # zs" "length ys = ii" "r = ranges rs ! ii \<or> contains r (ranges rs ! ii)" .
  then obtain e where es: "entries rs = ys @ e # zs" "length ys = ii" and e: "r = e \<or> contains r e" by blast
  then have "valid_range e" using assms(1) by (auto simp: rs_inv_def)
  then have sub: "cells r \<subseteq> cells e" using e contains_iff assms(2) by (auto simp: valid_range_def)
  then have h: "held_in rs r ys e zs" using assms(1,2) es Some by (auto simp: held_in_def)
  consider "r = e" | "rstart r = rstart e" "rend r < rend e"
    | "rstart r > rstart e" "rend r = rend e" | "rstart r > rstart e" "rend r < rend e"
    using held_inD(4,5) [OF h] Range.equality [of r e] by (metis order_le_less unit_eq)
  then have "held_removed rs r"
  proof cases
    case 1
    with h show ?thesis using remove_held_equal by simp
  next
    case 4
    then have "splits_entry r rs" using es by (auto simp: splits_entry_def)
    with 4 h assms(2,3) show ?thesis by (intro remove_held_middle) simp_all
  qed (fact remove_held_front [OF h assms(2)] remove_held_back [OF h assms(2)])+
  then obtain rs' where "remove_if_exist rs r = Some (rs', True)" "rs_inv rs'"
     "rs_cover rs' = rs_cover rs - removed_cells rs r" by (auto simp: held_removed_def)
  then show thesis using es(1) sub by (intro that [of rs' True]) auto
qed

lemma remove_held_full:
  assumes h: "held_in rs r ys e zs" and l: "rstart r < rend r" and r: "rstart e < rstart r" "rend r < rend e"
    and full: "in_use rs = length (ranges rs)"
  shows "remove_if_exist rs r = None"
proof -
  note h = held_inD [OF h]
  let ?y = "e\<lparr>rend := rstart r\<rparr>"
  let ?hi = "\<lparr>rstart = saturating_add (rend r) 1, rend = rend e\<rparr>"
  let ?rs = "rs\<lparr>ranges := (ranges rs)[length ys := ?y]\<rparr>"
  have vy: "valid_range ?y" "rstart e \<le> rstart ?y" "rend ?y \<le> rend e" using h(4,5) l by (auto simp: valid_range_def)
  have inv: "rs_inv ?rs" using rs_inv_update [OF h(1,6) refl vy] .
  have es: "entries ?rs = ys @ ?y # zs" using entries_update [OF h(6) refl] .
  have vh: "valid_range ?hi" using saturating_succ_le [OF r(2)] by (simp add: valid_range_def)
  have lt: "rend r < saturating_add (rend r) 1" using saturating_succ_greater [OF r(2)] .
  have "saturating_add (rstart r) 1 \<le> rend r" using saturating_succ_le [OF l] .
  then have "apart ?hi ?y" using le_less_trans [OF _ lt] by (simp add: apart_def)
  moreover have "apart ?hi x" if "x \<in> set (ys @ zs)" for x
  proof (rule apart_shrink)
    show "apart e x" using h(1,6) that by (auto simp: rs_inv_def apart_sym)
  qed (use lt h(4) l in auto)
  ultimately have "\<forall>x \<in> set (entries ?rs). \<not> touches ?hi x"
    using inv vh es touches_iff [OF vh] by (auto simp: rs_inv_def dest: separated_valid)
  then have "insert_range ?rs ?hi = None" using insert_range_None [OF inv] full by simp
  then show ?thesis
    using r l by (auto simp: remove_if_exist_def Let_def assert_that_bind h(7,10) checked_succ [OF r(2)])
qed

lemma remove_if_exist_None:
  assumes "rs_inv rs" "rstart r < rend r"
  shows "remove_if_exist rs r = None \<longleftrightarrow> splits_entry r rs \<and> in_use rs = length (ranges rs)"
proof (cases "splits_entry r rs \<and> in_use rs = length (ranges rs)")
  case True
  then obtain e where e: "e \<in> set (entries rs)" "rstart e < rstart r" "rend r < rend e" by (auto simp: splits_entry_def)
  have sub: "cells r \<subseteq> cells e" using e by (auto simp: cells_def)
  have v: "valid_range r" "valid_range e" using assms e by (auto simp: valid_range_def rs_inv_def dest: separated_valid)
  then have "contains r e" using sub contains_iff by blast
  then obtain ii where Some: "position (\<lambda>e. r = e \<or> contains r e) (entries rs) = Some ii"
    using e(1) by (cases "position (\<lambda>e. r = e \<or> contains r e) (entries rs)") (auto simp: position_None)
  from position_entries [OF Some assms(1)] obtain ys zs where
    "entries rs = ys @ ranges rs ! ii # zs" "length ys = ii" "r = ranges rs ! ii \<or> contains r (ranges rs ! ii)" .
  then obtain x where es: "entries rs = ys @ x # zs" "length ys = ii" and x: "r = x \<or> contains r x" by blast
  have vx: "valid_range x" using assms(1) es by (auto simp: rs_inv_def)
  then have subx: "cells r \<subseteq> cells x" using x contains_iff v(1) by auto
  have "rstart r \<in> cells x \<inter> cells e" using subx sub assms(2) by (auto simp: cells_def)
  then have "x = e" using separated_apart [of "entries rs" x e] apart_disjoint e(1) es assms(1) by (auto simp: rs_inv_def)
  then have "held_in rs r ys e zs" using es subx Some assms by (auto simp: held_in_def)
  with e True assms(2) show ?thesis by (auto intro: remove_held_full)
next
  case False
  with assms have "splits_entry r rs \<longrightarrow> in_use rs < length (ranges rs)" by (auto simp: rs_inv_def)
  from remove_if_exist_Some [OF assms this] False show ?thesis by (metis option.distinct(1))
qed

lemma remove_if_exist_SomeD:
  assumes "rs_inv rs" "rstart r < rend r" "remove_if_exist rs r = Some (rs', b)"
  shows "rs_inv rs'" "b \<longleftrightarrow> (\<exists>e \<in> set (entries rs). cells r \<subseteq> cells e)"
    "rs_cover rs' = (if b then rs_cover rs - removed_cells rs r else rs_cover rs)"
proof -
  have "splits_entry r rs \<longrightarrow> in_use rs < length (ranges rs)"
    using remove_if_exist_None [OF assms(1,2)] assms(1,3) by (auto simp: rs_inv_def)
  from remove_if_exist_Some [OF assms(1,2) this] obtain rs1 b1 where "remove_if_exist rs r = Some (rs1, b1)"
    "rs_inv rs1" "b1 \<longleftrightarrow> (\<exists>e \<in> set (entries rs). cells r \<subseteq> cells e)"
    "rs_cover rs1 = (if b1 then rs_cover rs - removed_cells rs r else rs_cover rs)" .
  with assms(3) show "rs_inv rs'" "b \<longleftrightarrow> (\<exists>e \<in> set (entries rs). cells r \<subseteq> cells e)"
    "rs_cover rs' = (if b then rs_cover rs - removed_cells rs r else rs_cover rs)" by simp_all
qed

text \<open>
  A range of one address. At the edge of a longer entry the assertions fail; inside an entry the two halves touch at the address that
  stays, and the insertion of the upper half joins them again.
\<close>

definition at_edge :: "Range \<Rightarrow> RangeSet \<Rightarrow> bool" where
  "at_edge r rs \<longleftrightarrow> (\<exists>e \<in> set (entries rs). rstart e < rend e \<and> (rstart r = rstart e \<or> rend r = rend e))"

lemma remove_if_exist_cases:
  assumes "rs_inv rs" "rstart r \<le> rend r"
  obtains (missing) "remove_if_exist rs r = Some (rs, False)" "\<not> (\<exists>e \<in> set (entries rs). cells r \<subseteq> cells e)"
    | (held) ys e zs where "held_in rs r ys e zs"
proof (cases "position (\<lambda>e. r = e \<or> contains r e) (entries rs)")
  case None
  then have "\<not> (\<exists>e \<in> set (entries rs). cells r \<subseteq> cells e)"
    using assms contains_iff by (auto simp: position_None rs_inv_def separated_def valid_range_def)
  with None show thesis using missing by (simp add: remove_if_exist_def)
next
  case (Some ii)
  from position_entries [OF Some assms(1)] obtain ys zs where
    es: "entries rs = ys @ ranges rs ! ii # zs" "length ys = ii" "r = ranges rs ! ii \<or> contains r (ranges rs ! ii)" .
  then have "valid_range (ranges rs ! ii)" using assms(1) separated_valid [of "entries rs" "ranges rs ! ii"] by (simp add: rs_inv_def)
  then have "cells r \<subseteq> cells (ranges rs ! ii)" using es(3) contains_iff assms(2) by (auto simp: valid_range_def)
  then have "held_in rs r ys (ranges rs ! ii) zs" using assms es(1,2) Some by (simp add: held_in_def)
  then show thesis by (rule held)
qed

lemma held_entry:
  assumes "held_in rs r ys e zs" "x \<in> set (entries rs)" "rstart r \<in> cells x"
  shows "x = e"
proof -
  note h = held_inD [OF assms(1)]
  have "rstart r \<in> cells e" using h(2,3) by (auto simp: cells_def)
  then show ?thesis using separated_apart [of "entries rs" x e] apart_disjoint h(1,6) assms(2,3) by (auto simp: rs_inv_def)
qed

lemma remove_held_edge:
  assumes h: "held_in rs r ys e zs" and one: "rstart r = rend r" and e: "rstart e < rend e" "rstart r = rstart e \<or> rend r = rend e"
  shows "remove_if_exist rs r = None"
proof -
  note h = held_inD [OF h]
  have "r \<noteq> e" using one e(1) by auto
  then show ?thesis using one e by (auto simp: remove_if_exist_def Let_def assert_that_bind h(7,10))
qed

lemma remove_held_inside:
  assumes h: "held_in rs r ys e zs" and one: "rstart r = rend r" and r: "rstart e < rstart r" "rend r < rend e"
  shows "held_removed rs r"
proof -
  note h = held_inD [OF h]
  let ?y = "e\<lparr>rend := rstart r\<rparr>"
  let ?hi = "\<lparr>rstart = saturating_add (rend r) 1, rend = rend e\<rparr>"
  let ?rs = "rs\<lparr>ranges := (ranges rs)[length ys := ?y]\<rparr>"
  have split: "splits_entry r rs" using r h(6) by (auto simp: splits_entry_def)
  have hi: "valid_range ?hi" "cells ?hi = {x. rend r < x \<and> x \<le> rend e}"
    using saturating_succ_le [OF r(2)] r(2) by (auto simp: valid_range_def cells_def atLeastAtMost_saturating_succ)
  have y: "cells ?y = cells e - {x. rend r < x \<and> x \<le> rend e}" using r one by (auto simp: cells_def)
  have vy: "valid_range ?y" "rstart e \<le> rstart ?y" "rend ?y \<le> rend e" "{x. rend r < x \<and> x \<le> rend e} \<subseteq> cells e"
    using r one by (auto simp: valid_range_def cells_def)
  have inv: "rs_inv ?rs" "rs_cover ?rs = rs_cover rs - {x. rend r < x \<and> x \<le> rend e}"
    using shrink_entry [OF h(1,6) refl vy(1-3) y vy(4)] by blast+
  have "entries ?rs = ys @ ?y # zs" using entries_update [OF h(6) refl] .
  moreover have "rstart e < rend e" using r one by simp
  then have "rstart e \<le> saturating_add (rend e) 1" by (rule order_trans [OF less_imp_le saturating_succ_ge])
  then have "\<not> apart ?hi ?y" using one by (simp add: apart_def)
  ultimately have "\<exists>x \<in> set (entries ?rs). touches ?hi x" using touches_iff [OF hi(1) vy(1)] by simp
  with insert_range_Some [OF inv(1) hi(1)] obtain rs' where
    i: "insert_range ?rs ?hi = Some rs'" "rs_inv rs'" "rs_cover rs' = rs_cover ?rs \<union> cells ?hi" by metis
  have "remove_if_exist rs r = Some (rs', True)"
    using r one i(1) by (auto simp: remove_if_exist_def Let_def run_simps h(7,10) checked_succ [OF r(2)])
  moreover have "removed_cells rs r = {}" using split one by (simp add: removed_cells_def cells_def)
  moreover have "{x. rend r < x \<and> x \<le> rend e} \<subseteq> rs_cover rs" using vy(4) h(6) by auto
  ultimately show ?thesis unfolding held_removed_def using i(2,3) inv(2) hi(2) by auto
qed

lemma remove_one_address:
  assumes "rs_inv rs" "rstart r = rend r"
  shows "if at_edge r rs then remove_if_exist rs r = None
    else \<exists>rs' b. remove_if_exist rs r = Some (rs', b) \<and> rs_inv rs' \<and> (b \<longleftrightarrow> (\<exists>e \<in> set (entries rs). cells r \<subseteq> cells e))
      \<and> rs_cover rs' = (if b then rs_cover rs - removed_cells rs r else rs_cover rs)"
proof -
  have le: "rstart r \<le> rend r" using assms(2) by simp
  show ?thesis using assms(1) le
  proof (cases rule: remove_if_exist_cases)
    case missing
    have "\<not> at_edge r rs" using missing(2) assms(2) by (auto simp: at_edge_def cells_def)
    then show ?thesis using missing assms(1) by auto
  next
    case (held ys e zs)
    note h = held_inD [OF held]
    have edge: "at_edge r rs \<longleftrightarrow> rstart e < rend e \<and> (rstart r = rstart e \<or> rend r = rend e)"
    proof -
      have "x = e" if "x \<in> set (entries rs)" "rstart x < rend x" "rstart r = rstart x \<or> rend r = rend x" for x
        using held_entry [OF held that(1)] that(2,3) assms(2) by (auto simp: cells_def)
      moreover have "e \<in> set (entries rs)" using h(6) by simp
      ultimately show ?thesis unfolding at_edge_def by blast
    qed
    consider "at_edge r rs" | "r = e" "\<not> at_edge r rs" | "rstart e < rstart r" "rend r < rend e" "\<not> at_edge r rs"
      using edge h(4,5) assms(2) Range.equality [of r e] by fastforce
    then show ?thesis
    proof cases
      case 1
      then show ?thesis using remove_held_edge [OF held assms(2)] edge by simp
    next
      case 2
      then have "held_removed rs r" using remove_held_equal held by simp
      then show ?thesis using 2(2) h(3,6) by (auto simp: held_removed_def)
    next
      case 3
      then have "held_removed rs r" using remove_held_inside [OF held assms(2)] by simp
      then show ?thesis using 3(3) h(3,6) by (auto simp: held_removed_def)
    qed
  qed
qed

lemma remove_all_Some:
  assumes "rs_inv rs" "\<forall>r \<in> set rgs. valid_range r" "in_use rs + length rgs \<le> length (ranges rs)"
  obtains rs' where "remove_all rs rgs = Some rs'" "rs_inv rs'" "rs_cover rs' = rs_cover rs - cover rgs"
    "length (ranges rs') = length (ranges rs)"
  using assms
proof (induction rgs arbitrary: rs thesis)
  case Nil
  then show ?case by simp
next
  case (Cons r rgs)
  obtain rs1 where 1: "remove_range rs r = Some rs1" "rs_inv rs1" "rs_cover rs1 = rs_cover rs - cells r"
    "length (ranges rs1) = length (ranges rs)" "in_use rs1 \<le> slots_needed r rs"
    using remove_range_Some [OF Cons.prems(2), of r] Cons.prems(3,4) by auto
  have "in_use rs1 + length rgs \<le> length (ranges rs1)" using 1(4,5) Cons.prems(4) by (simp split: if_splits)
  from Cons.IH [OF _ 1(2) _ this] Cons.prems(3) obtain rs' where "remove_all rs1 rgs = Some rs'" "rs_inv rs'"
    "rs_cover rs' = rs_cover rs1 - cover rgs" "length (ranges rs') = length (ranges rs1)" by auto
  with 1 show ?case by (intro Cons.prems(1) [of rs']) auto
qed

subsection \<open>Sum\<close>

lemma card_cells: "valid_range r \<Longrightarrow> card (cells r) = unat (rend r) - unat (rstart r) + 1"
  unfolding cells_def
  using card_image [of unat "{rstart r..rend r}"] unat_image_interval [of "rstart r" "rend r"]
  by (simp add: inj_on_def word_unat_eq_iff valid_range_def word_le_nat_alt Suc_diff_le)

lemma finite_cover [simp]: "finite (cover es)"
  by simp

lemma card_cover_Cons:
  "separated (r # es) \<Longrightarrow> card (cover (r # es)) = card (cells r) + card (cover es)"
  using apart_cover_disjoint [of es r] by (simp add: card_Un_disjoint)

lemma sum_entries_correct:
  assumes "separated es" "unat acc + card (cover es) < 2 ^ 64"
  shows "sum_entries acc es = Some (Some (acc + word_of_nat (card (cover es))))"
  using assms
proof (induction es arbitrary: acc)
  case (Cons r es)
  let ?d = "rend r - rstart r"
  have v: "valid_range r" using Cons.prems(1) by simp
  note split = card_cover_Cons [OF Cons.prems(1)] card_cells [OF v]
  have d: "unat ?d = unat (rend r) - unat (rstart r)" using v by (simp add: unat_sub valid_range_def)
  have c: "checked_sub (rend r) (rstart r) = Some ?d" using v by (simp add: checked_sub_def valid_range_def)
  have n: "unat (?d + 1) = card (cells r)" "checked_add ?d 1 = Some (?d + 1)"
    using Cons.prems(2) split d unat_add_no_overflow [of ?d 1] by (simp_all add: checked_word)
  have acc: "unat (acc + (?d + 1)) = unat acc + card (cells r)" "checked_add acc (?d + 1) = Some (acc + (?d + 1))"
    using Cons.prems(2) split(1) n(1) unat_add_no_overflow [of acc "?d + 1"] by (simp_all add: checked_word)
  have w: "?d + 1 = word_of_nat (card (cells r))" by (subst n(1) [symmetric]) simp
  have "sum_entries acc (r # es) = sum_entries (acc + (?d + 1)) es"
    by (simp add: c n(2) acc(2))
  also have "\<dots> = Some (Some (acc + (?d + 1) + word_of_nat (card (cover es))))"
    using Cons.prems split(1) acc(1) by (intro Cons.IH) simp_all
  finally show ?case by (simp only: split(1) w of_nat_add add.assoc)
qed simp

lemma sum_range_set_correct:
  "rs_inv rs \<Longrightarrow> card (rs_cover rs) < 2 ^ 64 \<Longrightarrow> sum_range_set rs = Some (Some (word_of_nat (card (rs_cover rs))))"
  using sum_entries_correct [of "entries rs" 0] by (simp add: sum_range_set_def rs_inv_def)

section \<open>Properties\<close>

text \<open>
  (C1) Inserting a valid range adds exactly its addresses, merging every entry it overlaps or
  adjoins, and keeps the entries disjoint and not adjacent. It fails only when the range is new
  and the set is full.
\<close>

theorem insert_range_correct:
  assumes "rs_inv rs"
  shows "case insert_range rs r of
      None \<Rightarrow> \<not> valid_range r \<or> in_use rs = length (ranges rs) \<and> (\<forall>e \<in> set (entries rs). \<not> touches r e)
    | Some rs' \<Rightarrow> rs_inv rs' \<and> rs_cover rs' = rs_cover rs \<union> cells r"
  using insert_range_None [OF assms, of r] insert_range_SomeD(1,2) [OF assms, of r] by (auto split: option.split)

definition two_ranges :: RangeSet where
  "two_ranges = \<lparr>ranges = [\<lparr>rstart = 16, rend = 31\<rparr>, \<lparr>rstart = 64, rend = 127\<rparr>, \<lparr>rstart = 0, rend = 0\<rparr>], in_use = 2\<rparr>"

lemma two_ranges_inv: "rs_inv two_ranges"
  by (simp add: two_ranges_def rs_inv_def entries_def u32_max_def valid_range_def apart_def saturating_add_def)

theorem insert_range_correct_witness:
  "case insert_range two_ranges \<lparr>rstart = 32, rend = 63\<rparr> of None \<Rightarrow> False
   | Some rs' \<Rightarrow> rs_inv rs' \<and> rs_cover rs' = rs_cover two_ranges \<union> {32..63}"
  using insert_range_correct [OF two_ranges_inv, of "\<lparr>rstart = 32, rend = 63\<rparr>"]
  by (auto simp: valid_range_def cells_def two_ranges_def split: option.splits)

text \<open>
  (C2) Removing a valid range takes exactly its addresses out of the set, whatever entries it
  meets, and the search loop, which restarts after each deletion or split, ends. The only case
  that needs a free slot is a range strictly inside one entry.
\<close>

theorem remove_range_correct:
  assumes "rs_inv rs"
  shows "case remove_range rs r of
      None \<Rightarrow> \<not> valid_range r \<or> splits_entry r rs \<and> in_use rs = length (ranges rs)
    | Some rs' \<Rightarrow> rs_inv rs' \<and> rs_cover rs' = rs_cover rs - cells r
        \<and> in_use rs' \<le> in_use rs + (if splits_entry r rs then 1 else 0)"
  using remove_range_None [OF assms, of r] remove_range_SomeD(1,2,4) [OF assms, of r] by (auto split: option.split)

theorem remove_range_correct_witness:
  "case remove_range two_ranges \<lparr>rstart = 80, rend = 95\<rparr> of None \<Rightarrow> False
   | Some rs' \<Rightarrow> rs_inv rs' \<and> rs_cover rs' = rs_cover two_ranges - {80..95}"
  using remove_range_correct [OF two_ranges_inv, of "\<lparr>rstart = 80, rend = 95\<rparr>"]
  by (auto simp: valid_range_def cells_def two_ranges_def split: option.splits)

text \<open>
  (C6) An allocation never panics, keeps the set well formed, and either leaves it unchanged or returns an aligned
  block of free addresses that are no longer free afterwards; a forced region request is answered from
  the region. Only a region request needs a free slot: without regions the block is cut from the start
  of an entry.
\<close>

theorem allocate_prefer_correct:
  assumes "rs_inv rs" "request_valid request" "request = Any \<or> in_use rs < length (ranges rs)"
  shows "case allocate_prefer rs size0 align request of None \<Rightarrow> False
    | Some (rs', None) \<Rightarrow> rs' = rs
    | Some (rs', Some p) \<Rightarrow> rs_inv rs' \<and> allocated rs size0 align request rs' p"
  using allocate_prefer_total [OF assms, of size0 align] allocate_prefer_SomeD(1,4) [OF assms(1,2), of size0 align]
  by (fastforce split: option.split)

theorem allocate_prefer_correct_witness:
  "case allocate_prefer two_ranges 8 64 (Forced two_ranges) of None \<Rightarrow> False
   | Some (rs', None) \<Rightarrow> rs' = two_ranges
   | Some (rs', Some p) \<Rightarrow> rs_inv rs' \<and> allocated two_ranges 8 64 (Forced two_ranges) rs' p"
proof -
  have "in_use two_ranges < length (ranges two_ranges)" by code_simp
  with allocate_prefer_correct [OF two_ranges_inv, of "Forced two_ranges" 8 64] two_ranges_inv
  show ?thesis by simp
qed

text \<open>
  (C7) Without regions an allocation succeeds exactly when the size is not zero, the alignment is a
  power of two, some entry can hold the block behind its alignment padding, and the padded block
  overflows the address space at no entry: one entry at the top of the address space makes
  every request fail that is too big for it.
\<close>

theorem allocate_succeeds_iff:
  assumes "rs_inv rs"
  shows "(\<exists>rs' p. allocate rs size0 align = Some (rs', Some p)) \<longleftrightarrow> size0 \<noteq> 0 \<and> count_ones align = 1
    \<and> (\<forall>ent \<in> set (entries rs). front_end size0 align ent \<noteq> None)
    \<and> (\<exists>ent \<in> set (entries rs). front_fits size0 align ent)"
proof -
  obtain rs' res where "allocate rs size0 align = Some (rs', res)"
    using allocate_prefer_total [OF assms, of Any size0 align] by (auto simp: allocate_def)
  with allocate_result_iff [OF assms this] show ?thesis by (cases res) auto
qed

theorem allocate_succeeds_iff_witness:
  "\<exists>rs' p. allocate two_ranges 16 32 = Some (rs', Some p)"
proof -
  have "count_ones (32 :: u64) = 1" by code_simp
  moreover have "\<forall>ent \<in> set (entries two_ranges). front_end 16 32 ent \<noteq> None"
    by (simp add: two_ranges_def entries_def front_end_def checked_add_def)
  moreover have "\<lparr>rstart = 64, rend = 127\<rparr> \<in> set (entries two_ranges)" by code_simp
  moreover have "front_end 16 32 \<lparr>rstart = 64, rend = 127\<rparr> = Some 79"
    by (simp add: front_end_def checked_add_def)
  then have "front_fits 16 32 \<lparr>rstart = 64, rend = 127\<rparr>" by (simp add: front_fits_def)
  ultimately show ?thesis using allocate_succeeds_iff [OF two_ranges_inv, of 16 32] by auto
qed

text \<open>
  (C8) \<open>remove_if_exist\<close> on a valid range, in all its cases. It panics exactly for a range strictly inside an entry when it has more than
  one address and the array is full, and for a single address that is the first or the last of a longer entry. Otherwise it reports
  whether the whole range is in the set, and takes it out; but a range strictly inside an entry keeps its first address in the set, so a
  single address there is reported as removed and stays.
\<close>

theorem remove_if_exist_correct:
  assumes "rs_inv rs" "rstart r \<le> rend r"
  shows "if (if rstart r = rend r then at_edge r rs else splits_entry r rs \<and> in_use rs = length (ranges rs)) then remove_if_exist rs r = None
    else \<exists>rs' b. remove_if_exist rs r = Some (rs', b) \<and> rs_inv rs' \<and> (b \<longleftrightarrow> cells r \<subseteq> rs_cover rs)
      \<and> rs_cover rs' = (if b then rs_cover rs - (if splits_entry r rs then cells r - {rstart r} else cells r) else rs_cover rs)"
proof -
  have sub: "cells r \<subseteq> rs_cover rs \<longleftrightarrow> (\<exists>e \<in> set (entries rs). cells r \<subseteq> cells e)"
    using assms by (intro cover_connected) (auto simp: rs_inv_def valid_range_def)
  show ?thesis
  proof (cases "rstart r = rend r")
    case True
    then show ?thesis using remove_one_address [OF assms(1) True] unfolding sub removed_cells_def by simp
  next
    case False
    then have l: "rstart r < rend r" using assms(2) by simp
    then show ?thesis
      using remove_if_exist_None [OF assms(1) l] remove_if_exist_SomeD [OF assms(1) l] False
      by (cases "remove_if_exist rs r") (auto simp: sub removed_cells_def split: if_splits)
  qed
qed

theorem remove_if_exist_correct_witness:
  "(case remove_if_exist two_ranges \<lparr>rstart = 80, rend = 95\<rparr> of None \<Rightarrow> False
    | Some (rs', b) \<Rightarrow> b \<and> rs_cover rs' = rs_cover two_ranges - {81..95})
   \<and> remove_if_exist two_ranges \<lparr>rstart = 64, rend = 64\<rparr> = None"
proof -
  let ?r = "\<lparr>rstart = 80, rend = 95\<rparr>" and ?s = "\<lparr>rstart = 64, rend = 64\<rparr>"
  have "splits_entry ?r two_ranges" "in_use two_ranges < length (ranges two_ranges)" "rstart ?r \<le> rend ?r" "rstart ?r \<noteq> rend ?r" "at_edge ?s two_ranges"
    by code_simp+
  moreover have "{80..95} \<subseteq> {64..(127::u64)}" by simp
  then have "cells ?r \<subseteq> rs_cover two_ranges"
    by (simp add: two_ranges_def entries_def cells_def le_supI2)
  moreover have "cells ?r - {rstart ?r} = {81..95}" by (simp add: cells_def) code_simp
  ultimately show ?thesis
    using remove_if_exist_correct [OF two_ranges_inv, of ?r] remove_if_exist_correct [OF two_ranges_inv, of ?s] by auto
qed

text \<open>
  Subtracting a set removes all of its addresses, given one free slot for each of its ranges.
\<close>

lemma subtract_correct:
  assumes "rs_inv rs" "rs_inv other" "in_use rs + in_use other \<le> length (ranges rs)"
  shows "\<exists>rs'. subtract rs other = Some rs' \<and> rs_inv rs' \<and> rs_cover rs' = rs_cover rs - rs_cover other"
proof -
  have "\<forall>r \<in> set (entries other). valid_range r" "length (entries other) = in_use other"
    using assms(2) by (auto simp: rs_inv_def separated_def)
  with remove_all_Some [OF assms(1), of "entries other"] assms(3) show ?thesis
    unfolding subtract_def by metis
qed

lemma sum_range_set_two:
  "sum_range_set two_ranges = Some (Some 80)"
proof -
  let ?a = "\<lparr>rstart = 16, rend = 31\<rparr>" and ?b = "\<lparr>rstart = 64, rend = 127\<rparr>"
  have es: "entries two_ranges = [?a, ?b]" by (simp add: two_ranges_def entries_def)
  have "separated [?a, ?b]" using two_ranges_inv by (simp only: rs_inv_def es)
  then have "card (rs_cover two_ranges) = 80"
    using card_cover_Cons [of ?a "[?b]"] by (simp add: es card_cells)
  with sum_range_set_correct [OF two_ranges_inv] show ?thesis by simp
qed

end
