(* ===== verification/Mem_Pages.thy ===== *)
theory Mem_Pages
  imports Range_Set
begin

text \<open>
  Pages and frames, as both allocators of the kernel use them
  (\<open>wasabi-kernel/src/mem/structs.rs\<close>). The types \<open>PhysAddr\<close>, \<open>VirtAddr\<close>, \<open>PhysFrame\<close> and \<open>Page\<close>
  come from the crate \<open>x86_64\<close>; a frame or page is represented by its start address and its
  size, and the constructors of the crate, which may panic, are the fields of the record
  \<open>x86_64\<close> that the operations take as an argument. The locale \<open>page_pool\<close> states what an
  allocator promises its clients, and proves once that the pages handed out never overlap.
\<close>

section \<open>Page sizes and the address types\<close>

datatype PageSize = Size4KiB | Size2MiB | Size1GiB

fun SIZE :: "PageSize \<Rightarrow> u64" where
  "SIZE Size4KiB = 4096"
| "SIZE Size2MiB = 2097152"
| "SIZE Size1GiB = 1073741824"

record x86_64 =
  PhysAddr_new :: "u64 \<Rightarrow> u64 run"
  VirtAddr_new :: "u64 \<Rightarrow> u64 run"
  from_start_address :: "PageSize \<Rightarrow> u64 \<Rightarrow> u64 option"
  containing_address :: "PageSize \<Rightarrow> u64 \<Rightarrow> u64"
  frame_add :: "PageSize \<Rightarrow> u64 \<Rightarrow> u64 \<Rightarrow> u64 run"
  page_add :: "PageSize \<Rightarrow> u64 \<Rightarrow> u64 \<Rightarrow> u64 run"
  virt_add :: "u64 \<Rightarrow> u64 \<Rightarrow> u64 run"
  page_sub :: "PageSize \<Rightarrow> u64 \<Rightarrow> u64 \<Rightarrow> u64 run"
  virt_align_down :: "u64 \<Rightarrow> u64 \<Rightarrow> u64"
  virt_align_up :: "u64 \<Rightarrow> u64 \<Rightarrow> u64"

definition canonical :: "u64 \<Rightarrow> bool" where
  "canonical a \<longleftrightarrow> unat a < 2 ^ 47 \<or> 2 ^ 64 - 2 ^ 47 \<le> unat a"

text \<open>
  The documented behaviour of the crate: \<open>PhysAddr::new\<close> panics on an address of more than 52
  bits, \<open>VirtAddr::new\<close> on one that is not canonical; \<open>from_start_address\<close> is an error when the
  address is not aligned to the size, \<open>containing_address\<close> aligns down, and the additions and
  subtractions of a number of pages or bytes panic when they leave the address space. The two
  alignments of an address return a multiple of the alignment next to it.
\<close>

definition phys_addr_documented :: "x86_64 \<Rightarrow> bool" where
  "phys_addr_documented X \<longleftrightarrow> PhysAddr_new X = (\<lambda>a. if unat a < 2 ^ 52 then Some a else None)"

definition virt_addr_documented :: "x86_64 \<Rightarrow> bool" where
  "virt_addr_documented X \<longleftrightarrow> VirtAddr_new X = (\<lambda>a. if canonical a then Some a else None)"

definition from_start_documented :: "x86_64 \<Rightarrow> bool" where
  "from_start_documented X \<longleftrightarrow>
     from_start_address X = (\<lambda>S a. if unat a mod unat (SIZE S) = 0 then Some a else None)"

definition containing_documented :: "x86_64 \<Rightarrow> bool" where
  "containing_documented X \<longleftrightarrow> containing_address X = (\<lambda>S a. a - word_of_nat (unat a mod unat (SIZE S)))"

definition frame_add_documented :: "x86_64 \<Rightarrow> bool" where
  "frame_add_documented X \<longleftrightarrow> frame_add X = (\<lambda>S a n.
     if unat a + unat (SIZE S) * unat n < 2 ^ 52 then Some (a + SIZE S * n) else None)"

definition page_add_documented :: "x86_64 \<Rightarrow> bool" where
  "page_add_documented X \<longleftrightarrow> page_add X = (\<lambda>S a n.
     if unat a + unat (SIZE S) * unat n < 2 ^ 64 \<and> canonical (a + SIZE S * n)
     then Some (a + SIZE S * n) else None)"

definition virt_add_documented :: "x86_64 \<Rightarrow> bool" where
  "virt_add_documented X \<longleftrightarrow> virt_add X = (\<lambda>a n.
     if unat a + unat n < 2 ^ 64 \<and> canonical (a + n) then Some (a + n) else None)"

definition page_sub_documented :: "x86_64 \<Rightarrow> bool" where
  "page_sub_documented X \<longleftrightarrow> page_sub X = (\<lambda>S a n.
     if unat (SIZE S) * unat n \<le> unat a \<and> canonical (a - SIZE S * n) then Some (a - SIZE S * n) else None)"

definition virt_align_documented :: "x86_64 \<Rightarrow> bool" where
  "virt_align_documented X \<longleftrightarrow>
     virt_align_down X = (\<lambda>a n. a - word_of_nat (unat a mod unat n))
     \<and> virt_align_up X = (\<lambda>a n. a + word_of_nat ((unat n - unat a mod unat n) mod unat n))"

definition x86_64_model :: x86_64 where
  "x86_64_model = \<lparr>PhysAddr_new = (\<lambda>a. if unat a < 2 ^ 52 then Some a else None),
     VirtAddr_new = (\<lambda>a. if canonical a then Some a else None),
     from_start_address = (\<lambda>S a. if unat a mod unat (SIZE S) = 0 then Some a else None),
     containing_address = (\<lambda>S a. a - word_of_nat (unat a mod unat (SIZE S))),
     frame_add = (\<lambda>S a n. if unat a + unat (SIZE S) * unat n < 2 ^ 52 then Some (a + SIZE S * n) else None),
     page_add = (\<lambda>S a n. if unat a + unat (SIZE S) * unat n < 2 ^ 64 \<and> canonical (a + SIZE S * n)
       then Some (a + SIZE S * n) else None),
     virt_add = (\<lambda>a n. if unat a + unat n < 2 ^ 64 \<and> canonical (a + n) then Some (a + n) else None),
     page_sub = (\<lambda>S a n. if unat (SIZE S) * unat n \<le> unat a \<and> canonical (a - SIZE S * n)
       then Some (a - SIZE S * n) else None),
     virt_align_down = (\<lambda>a n. a - word_of_nat (unat a mod unat n)),
     virt_align_up = (\<lambda>a n. a + word_of_nat ((unat n - unat a mod unat n) mod unat n))\<rparr>"

lemmas x86_64_documented = phys_addr_documented_def virt_addr_documented_def from_start_documented_def
  containing_documented_def frame_add_documented_def page_add_documented_def virt_add_documented_def
  page_sub_documented_def virt_align_documented_def

lemma x86_64_model_documented:
  "phys_addr_documented x86_64_model" "virt_addr_documented x86_64_model" "from_start_documented x86_64_model"
  "containing_documented x86_64_model" "frame_add_documented x86_64_model" "page_add_documented x86_64_model"
  "virt_add_documented x86_64_model" "page_sub_documented x86_64_model" "virt_align_documented x86_64_model"
  by (simp_all add: x86_64_model_def x86_64_documented)

section \<open>Consecutive pages\<close>

record Pages =
  first_page :: u64
  page_size :: PageSize
  page_count :: u64

definition start_addr :: "Pages \<Rightarrow> u64" where
  "start_addr ps = first_page ps"

definition size_bytes :: "Pages \<Rightarrow> u64 run" where
  "size_bytes ps = checked_mul (SIZE (page_size ps)) (page_count ps)"

definition end_addr :: "x86_64 \<Rightarrow> Pages \<Rightarrow> u64 run" where
  "end_addr X ps = do {
     past \<leftarrow> page_add X (page_size ps) (first_page ps) (page_count ps);
     last_page \<leftarrow> page_sub X (page_size ps) past 1;
     virt_add X last_page (SIZE (page_size ps) - 1)
   }"

text \<open>\<open>contains\<close> of \<open>Pages\<close>; the second comparison is evaluated only when the first holds.\<close>

definition pages_contains :: "x86_64 \<Rightarrow> Pages \<Rightarrow> u64 \<Rightarrow> bool run" where
  "pages_contains X ps vaddr =
     (if start_addr ps \<le> vaddr then do { e \<leftarrow> end_addr X ps; Some (vaddr \<le> e) } else Some False)"

text \<open>
  \<open>Pages::from_ref\<close> of a value of \<open>len0\<close> bytes at \<open>ptr\<close>: its pages, and the offset of the value
  in the first one.
\<close>

definition from_ref :: "x86_64 \<Rightarrow> PageSize \<Rightarrow> u64 \<Rightarrow> u64 \<Rightarrow> (Pages \<times> u64) run" where
  "from_ref X S ptr len0 = do {
     aligned_page_count \<leftarrow> Some (word_of_nat (counts_required_for (unat (SIZE S)) (unat len0)));
     let start_page = containing_address X S ptr;
     offset \<leftarrow> checked_sub ptr start_page;
     page_count \<leftarrow> (if offset = 0 then Some aligned_page_count else checked_add aligned_page_count 1);
     Some (\<lparr>first_page = start_page, page_size = S, page_count = page_count\<rparr>, offset)
   }"

record PagesIter =
  iter_pages :: Pages
  iter_index :: u64

definition pages_iter :: "Pages \<Rightarrow> PagesIter" where
  "pages_iter ps = \<lparr>iter_pages = ps, iter_index = 0\<rparr>"

definition pages_next :: "x86_64 \<Rightarrow> PagesIter \<Rightarrow> (PagesIter \<times> u64 option) run" where
  "pages_next X it =
     (if page_count (iter_pages it) \<le> iter_index it then Some (it, None)
      else do {
        res \<leftarrow> page_add X (page_size (iter_pages it)) (first_page (iter_pages it)) (iter_index it);
        index \<leftarrow> checked_add (iter_index it) 1;
        Some (it\<lparr>iter_index := index\<rparr>, Some res)
      })"

definition pages_size_hint :: "PagesIter \<Rightarrow> u64 run" where
  "pages_size_hint it = checked_sub (page_count (iter_pages it)) (iter_index it)"

definition pages_partial_cmp :: "PagesIter \<Rightarrow> PagesIter \<Rightarrow> Ordering option" where
  "pages_partial_cmp a b =
     (if first_page (iter_pages a) \<noteq> first_page (iter_pages b) then None
      else Some (cmp (iter_index a) (iter_index b)))"

record GuardedPages =
  head_guard :: "u64 option"
  tail_guard :: "u64 option"
  guarded :: Pages

text \<open>The pages as a list of start addresses.\<close>

definition page_at :: "Pages \<Rightarrow> nat \<Rightarrow> u64" where
  "page_at ps i = first_page ps + SIZE (page_size ps) * word_of_nat i"

definition pages_list :: "Pages \<Rightarrow> u64 list" where
  "pages_list ps = map (page_at ps) [0..<unat (page_count ps)]"

section \<open>Pages as sets of addresses\<close>

type_synonym page = "u64 \<times> PageSize"

definition page_cells :: "page \<Rightarrow> u64 set" where
  "page_cells pg = block_at (fst pg) (SIZE (snd pg))"

text \<open>A page of the hardware: aligned to its size, and inside the address space.\<close>

fun page_ok :: "page \<Rightarrow> bool" where
  "page_ok (p, S) \<longleftrightarrow> unat p mod unat (SIZE S) = 0 \<and> unat p + unat (SIZE S) \<le> 2 ^ 64"

text \<open>
  The second address of each 4KiB unit of a page. Two pages overlap only if they share a whole
  unit, so these marks are enough to tell pages apart.
\<close>

definition page_marks :: "page \<Rightarrow> u64 set" where
  "page_marks pg = {a \<in> page_cells pg. unat a mod 4096 = 1}"

lemma SIZE_units: "4096 dvd unat (SIZE S)" "0 < unat (SIZE S)" "4096 \<le> unat (SIZE S)" "unat (SIZE S) \<le> 1073741824"
  by (cases S; simp)+

lemma count_ones_SIZE: "count_ones (SIZE S) = 1"
proof -
  have "count_ones (4096 :: u64) = 1" "count_ones (2097152 :: u64) = 1" "count_ones (1073741824 :: u64) = 1"
    by code_simp+
  then show ?thesis by (cases S) simp_all
qed

lemma page_cells_unat:
  assumes "page_ok (p, S)"
  shows "page_cells (p, S) = {a. unat p \<le> unat a \<and> unat a < unat p + unat (SIZE S)}"
proof -
  have "unat (SIZE S - 1) = unat (SIZE S) - 1" by (cases S) simp_all
  moreover have "unat (p + (SIZE S - 1)) = unat p + unat (SIZE S - 1)"
    using assms SIZE_units(2) [of S] calculation by (intro unat_add_no_overflow) (simp del: One_nat_def, linarith)
  ultimately show ?thesis
    using SIZE_units(2) [of S] by (auto simp: page_cells_def block_at_def word_le_nat_alt)
qed

lemma unit_mark:
  fixes a r n :: nat
  assumes "4096 dvd r" "4096 dvd n" "r \<le> a" "a < r + n"
  shows "r \<le> a div 4096 * 4096 + 1" "a div 4096 * 4096 + 1 < r + n"
proof -
  obtain x where r: "r = 4096 * x" using assms(1) by (rule dvdE)
  obtain y where n: "n = 4096 * y" using assms(2) by (rule dvdE)
  have "x \<le> a div 4096" using assms(3) r by simp
  moreover have "a div 4096 < x + y" using assms(4) r n by (intro less_mult_imp_div_less) simp
  ultimately show "r \<le> a div 4096 * 4096 + 1" "a div 4096 * 4096 + 1 < r + n"
    by (simp_all add: r n)
qed

lemma overlapping_pages_share_mark:
  assumes "page_ok P" "page_ok Q" "a \<in> page_cells P" "a \<in> page_cells Q"
  shows "page_marks P \<inter> page_marks Q \<noteq> {}"
proof -
  obtain p S q R where [simp]: "P = (p, S)" "Q = (q, R)" by force
  let ?m = "unat a div 4096 * 4096 + 1"
  have dvd: "4096 dvd unat p" "4096 dvd unat q"
    using assms(1,2) SIZE_units(1) by (auto intro: dvd_trans)
  have pq: "unat p \<le> ?m \<and> ?m < unat p + unat (SIZE S)" "unat q \<le> ?m \<and> ?m < unat q + unat (SIZE R)"
    using assms dvd unit_mark [OF _ SIZE_units(1)] by (auto simp: page_cells_unat)
  then have "unat (word_of_nat ?m :: u64) = ?m"
    using assms(1) by (intro unat_of_nat_eq_u64) simp
  moreover have "?m mod 4096 = 1" using mod_mult_self3 [of "unat a div 4096" 4096 1] by simp
  ultimately have "word_of_nat ?m \<in> page_marks P \<inter> page_marks Q"
    using pq assms(1,2) by (simp add: page_marks_def page_cells_unat)
  then show ?thesis by blast
qed

lemma page_ok_block:
  assumes "unat p mod unat (SIZE S) = 0" "unat p + unat (SIZE S - 1) < 2 ^ 64"
  shows "page_ok (p, S)"
proof -
  have "unat (SIZE S - 1) = unat (SIZE S) - 1" by (cases S) simp_all
  with assms SIZE_units(2) [of S] show ?thesis by simp
qed

text \<open>The pages of a block of \<open>count\<close> consecutive ones.\<close>

definition page_seq :: "u64 \<Rightarrow> PageSize \<Rightarrow> u64 \<Rightarrow> page list" where
  "page_seq p S count = map (\<lambda>q. (q, S)) (pages_list \<lparr>first_page = p, page_size = S, page_count = count\<rparr>)"

lemma unat_page_at:
  assumes "checked_mul (SIZE S) count = Some n" "unat p + unat (n - 1) < 2 ^ 64" "i < unat count"
  shows "unat (page_at \<lparr>first_page = p, page_size = S, page_count = count\<rparr> i) = unat p + unat (SIZE S) * i"
    and "unat p + unat (SIZE S) * i + unat (SIZE S) \<le> unat p + unat n"
    and "unat (n - 1) = unat n - 1" "0 < unat n"
proof -
  have n: "unat n = unat (SIZE S) * unat count"
    using assms(1) by (auto simp: checked_mul_def unat_mult_no_overflow split: if_splits)
  show pos: "0 < unat n" using n assms(3) SIZE_units(2) [of S] by simp
  then show n1: "unat (n - 1) = unat n - 1" by (simp add: unat_minus_one_pos)
  have "unat (SIZE S) * i + unat (SIZE S) \<le> unat n"
    unfolding n using assms(3) mult_le_mono2 [of "Suc i" "unat count" "unat (SIZE S)"] by simp
  then show le: "unat p + unat (SIZE S) * i + unat (SIZE S) \<le> unat p + unat n" by simp
  have lt: "unat p + unat (SIZE S) * i < 2 ^ 64"
    using le SIZE_units(2) [of S] assms(2) n1 by linarith
  have "unat (word_of_nat i :: u64) = i" using assms(3) word_unat_lt [of count] by (intro unat_of_nat_eq_u64) simp
  then have "unat (SIZE S * word_of_nat i) = unat (SIZE S) * i"
    using lt by (subst unat_mult_no_overflow) auto
  then show "unat (page_at \<lparr>first_page = p, page_size = S, page_count = count\<rparr> i) = unat p + unat (SIZE S) * i"
    using lt by (simp add: page_at_def unat_add_no_overflow)
qed

abbreviation disjoint_from :: "page \<Rightarrow> page \<Rightarrow> bool" where
  "disjoint_from P Q \<equiv> page_cells P \<inter> page_cells Q = {}"

definition disjoint_pages :: "page list \<Rightarrow> bool" where
  "disjoint_pages ps \<longleftrightarrow> (\<forall>P \<in> set ps. page_ok P) \<and> sorted_wrt disjoint_from ps"

lemma page_seq_ok:
  assumes "checked_mul (SIZE S) count = Some n" "unat p + unat (n - 1) < 2 ^ 64"
    "unat p mod unat (SIZE S) = 0"
  shows "disjoint_pages (page_seq p S count)"
    and "P \<in> set (page_seq p S count) \<Longrightarrow> page_cells P \<subseteq> block_at p n"
proof -
  let ?at = "page_at \<lparr>first_page = p, page_size = S, page_count = count\<rparr>"
  note at = unat_page_at [OF assms(1,2)]
  have ok: "page_ok (?at i, S)" if "i < unat count" for i
    using at [OF that] assms(2,3) by simp
  have cells: "page_cells (?at i, S) = {a. unat p + unat (SIZE S) * i \<le> unat a
      \<and> unat a < unat p + unat (SIZE S) * Suc i}" if "i < unat count" for i
    using page_cells_unat [OF ok [OF that]] at(1) [OF that] by (simp add: algebra_simps)
  have "disjoint_from (?at i, S) (?at j, S)" if "i < j" "j < unat count" for i j
  proof -
    have "unat (SIZE S) * Suc i \<le> unat (SIZE S) * j" using that by (intro mult_le_mono2) simp
    then show ?thesis using cells that by auto
  qed
  then show "disjoint_pages (page_seq p S count)"
    using ok by (auto simp: disjoint_pages_def page_seq_def pages_list_def sorted_wrt_iff_nth_less)
  show "page_cells P \<subseteq> block_at p n" if "P \<in> set (page_seq p S count)"
  proof
    fix a assume a: "a \<in> page_cells P"
    from that obtain i where i: "i < unat count" "P = (?at i, S)" by (auto simp: page_seq_def pages_list_def)
    have "unat (p + (n - 1)) = unat p + unat (n - 1)" using assms(2) by (intro unat_add_no_overflow) simp
    then show "a \<in> block_at p n"
      using a cells [OF i(1)] at [OF i(1)] i(2) by (auto simp: block_at_def word_le_nat_alt algebra_simps)
  qed
qed

lemma page_seq_single: "page_seq p S 1 = [(p, S)]"
  by (simp add: page_seq_def pages_list_def page_at_def)

section \<open>The contract of an allocator\<close>

text \<open>
  \<open>takes\<close>: pages leave the free addresses \<open>F\<close>. All their addresses were free; of the addresses
  left (\<open>F'\<close>) none is a mark of the pages.
\<close>

definition takes :: "u64 set \<Rightarrow> u64 set \<Rightarrow> page list \<Rightarrow> bool" where
  "takes F F' ps \<longleftrightarrow> disjoint_pages ps \<and> F' \<subseteq> F
     \<and> (\<forall>P \<in> set ps. page_cells P \<subseteq> F \<and> page_marks P \<inter> F' = {})"

definition pool_inv :: "u64 set \<Rightarrow> page list \<Rightarrow> bool" where
  "pool_inv F out \<longleftrightarrow> disjoint_pages out \<and> (\<forall>P \<in> set out. page_marks P \<inter> F = {})"

lemma pool_inv_takes:
  assumes "pool_inv F out" "takes F F' ps"
  shows "pool_inv F' (ps @ out)"
proof -
  have "disjoint_from P Q" if "P \<in> set ps" "Q \<in> set out" for P Q
  proof (rule ccontr)
    assume "\<not> disjoint_from P Q"
    then obtain a where a: "a \<in> page_cells P" "a \<in> page_cells Q" by blast
    have "page_ok P" "page_ok Q" using assms that by (auto simp: takes_def pool_inv_def disjoint_pages_def)
    with a have "page_marks P \<inter> page_marks Q \<noteq> {}" by (intro overlapping_pages_share_mark)
    moreover have "page_marks P \<subseteq> F" using assms(2) that(1) by (auto simp: takes_def page_marks_def)
    ultimately show False using assms(1) that(2) by (auto simp: pool_inv_def)
  qed
  moreover have "\<forall>P \<in> set (ps @ out). page_marks P \<inter> F' = {}"
    using assms unfolding pool_inv_def takes_def by fastforce
  ultimately show ?thesis using assms by (auto simp: pool_inv_def takes_def disjoint_pages_def sorted_wrt_append)
qed

lemma sorted_wrt_remove1_sym:
  "sorted_wrt R xs \<Longrightarrow> (\<And>a b. R a b \<Longrightarrow> R b a) \<Longrightarrow> x \<in> set xs \<Longrightarrow> \<forall>y \<in> set (remove1 x xs). R x y"
  by (induction xs) auto

lemma sorted_wrt_remove1: "sorted_wrt R xs \<Longrightarrow> sorted_wrt R (remove1 x xs)"
  by (induction xs) (use set_remove1_subset in \<open>fastforce+\<close>)

lemma pool_inv_gives:
  assumes "pool_inv F out" "P \<in> set out"
  shows "pool_inv (F \<union> page_cells P) (remove1 P out)"
proof -
  have "\<forall>Q \<in> set (remove1 P out). disjoint_from P Q"
    using assms by (intro sorted_wrt_remove1_sym) (auto simp: pool_inv_def disjoint_pages_def)
  then have "\<forall>Q \<in> set (remove1 P out). page_marks Q \<inter> (F \<union> page_cells P) = {}"
    using assms(1) set_remove1_subset [of P out] by (fastforce simp: pool_inv_def page_marks_def)
  then show ?thesis
    using assms(1) set_remove1_subset [of P out] by (auto simp: pool_inv_def disjoint_pages_def intro!: sorted_wrt_remove1)
qed

lemma checked_mul_1: "checked_mul (SIZE S) 1 = Some (SIZE S)"
  using word_unat_lt [of "SIZE S"] by (simp add: checked_mul_def)

lemma allocated_takes:
  assumes "allocated rs n (SIZE S) request rs' p" "checked_mul (SIZE S) count = Some n"
  shows "takes (rs_cover rs) (rs_cover rs') (page_seq p S count)"
proof -
  note seq = page_seq_ok [OF assms(2), of p]
  from assms(1) have "unat p mod unat (SIZE S) = 0" "unat p + unat (n - 1) < 2 ^ 64"
    and "block_at p n \<subseteq> rs_cover rs" "rs_cover rs' \<subseteq> rs_cover rs - block_at p n"
    by (auto simp: allocated_def)
  with seq show ?thesis by (fastforce simp: takes_def page_marks_def)
qed

lemma takes_empty: "takes F F []"
  by (simp add: takes_def disjoint_pages_def)

lemma page_cells_start: "page_ok (p, S) \<Longrightarrow> p \<in> page_cells (p, S)"
  using SIZE_units(2) [of S] by (simp add: page_cells_unat)

text \<open>
  What an allocator promises, with the pages its clients hold as a ghost list: every step either
  takes pages out of the free addresses, or gives one page back that a client holds.
\<close>

locale page_pool =
  fixes free_of :: "'s \<Rightarrow> u64 set"
    and good :: "'s \<Rightarrow> bool"
    and step :: "'s \<times> page list \<Rightarrow> 's \<times> page list \<Rightarrow> bool"
  assumes step_law: "step (s, out) (s', out') \<Longrightarrow> good s \<Longrightarrow> \<forall>P \<in> set out. page_ok P \<Longrightarrow>
    good s' \<and> ((\<exists>ps. takes (free_of s) (free_of s') ps \<and> out' = ps @ out)
      \<or> (\<exists>P \<in> set out. free_of s' = free_of s \<union> page_cells P \<and> out' = remove1 P out))"
begin

lemma step_inv:
  assumes "step (s, out) (s', out')" "good s" "pool_inv (free_of s) out"
  shows "good s' \<and> pool_inv (free_of s') out'"
proof -
  have "\<forall>P \<in> set out. page_ok P" using assms(3) by (simp add: pool_inv_def disjoint_pages_def)
  from step_law [OF assms(1,2) this] show ?thesis
    using pool_inv_takes [OF assms(3)] pool_inv_gives [OF assms(3)] by auto
qed

lemma run_inv:
  assumes "step\<^sup>*\<^sup>* (s, out) (s', out')" "good s" "pool_inv (free_of s) out"
  shows "good s' \<and> pool_inv (free_of s') out'"
  using assms by (induction rule: rtranclp_induct2) (auto dest: step_inv)

lemma run_disjoint:
  "step\<^sup>*\<^sup>* (s, []) (s', out') \<Longrightarrow> good s \<Longrightarrow> disjoint_pages out'"
  using run_inv [of s "[]" s' out'] by (simp add: pool_inv_def disjoint_pages_def)

end

end
