(* ===== verification/Frame_Allocator.thy ===== *)
theory Frame_Allocator
  imports Mem_Pages
begin

text \<open>
  The physical frame allocators of \<open>wasabi-kernel/src/mem/frame_allocator.rs\<close>, and the
  reservation of the trampoline frame in \<open>cpu/apic/ap_startup.rs\<close>. \<open>PhysAllocator\<close> keeps the
  free physical addresses in a \<open>RangeSet\<close> of 256 ranges; \<open>FrameAllocator\<close> reaches it through a
  lock and is modelled with the allocator it refers to. The build without the feature
  \<open>mem-stats\<close> is modelled; \<open>mem-backed-guard-page\<close> is an argument of \<open>guard_frame\<close>.
\<close>

section \<open>Physical allocator\<close>

text \<open>The errors of the memory subsystem; the last three need the feature \<open>freeze-heap\<close>.\<close>

datatype PageTableMapError = FrameAllocationFailed | ParentEntryHugePage
  | PageAllreadyMapped4k u64 | PageAllreadyMapped2m u64 | PageAllreadyMapped1g u64
  | InvalidFrameAddress u64 | PageNotMapped | FlagUpdateNotMapped | FlagUpdateHuge

datatype MemError = NotInit | OutOfMemory | OutOfPages | NullAddress | PageInUse
  | InvalidAllocSize u64 u64 | InvalidAllocAlign u64 u64 | ZeroSizeAllocation
  | PtrNotAllocated u64 | FreeFailed u64 | PageTableMap PageTableMapError | AllocError
  | MaxHeapCountReached | HeapNotFullyFreed | NoFreezeHeapExists

record PhysAllocator =
  memory_ranges :: RangeSet

definition phys_ranges :: nat where
  "phys_ranges = 256"

text \<open>The frame at an address that the range set returned.\<close>

definition frame_of_start :: "x86_64 \<Rightarrow> PageSize \<Rightarrow> u64 \<Rightarrow> u64 run" where
  "frame_of_start X S s = do { a \<leftarrow> PhysAddr_new X s; from_start_address X S a }"

definition phys_alloc :: "x86_64 \<Rightarrow> PageSize \<Rightarrow> PhysAllocator \<Rightarrow> (PhysAllocator \<times> u64 option) run" where
  "phys_alloc X S pa = do {
     (rs, alloc_start) \<leftarrow> allocate (memory_ranges pa) (SIZE S) (SIZE S);
     (case alloc_start of
        None \<Rightarrow> Some (pa\<lparr>memory_ranges := rs\<rparr>, None)
      | Some s \<Rightarrow> do {
          frame \<leftarrow> frame_of_start X S s;
          Some (pa\<lparr>memory_ranges := rs\<rparr>, Some frame)
        })
   }"

definition phys_alloc_in_range ::
  "x86_64 \<Rightarrow> PageSize \<Rightarrow> RegionRequest \<Rightarrow> PhysAllocator \<Rightarrow> (PhysAllocator \<times> u64 option) run" where
  "phys_alloc_in_range X S request pa = do {
     (rs, alloc_start) \<leftarrow> allocate_prefer (memory_ranges pa) (SIZE S) (SIZE S) request;
     (case alloc_start of
        None \<Rightarrow> Some (pa\<lparr>memory_ranges := rs\<rparr>, None)
      | Some s \<Rightarrow> do {
          frame \<leftarrow> frame_of_start X S s;
          Some (pa\<lparr>memory_ranges := rs\<rparr>, Some frame)
        })
   }"

text \<open>\<open>alloc_range\<close>: the first and the last frame of \<open>count\<close> contiguous ones.\<close>

definition phys_alloc_range ::
  "x86_64 \<Rightarrow> PageSize \<Rightarrow> u64 \<Rightarrow> PhysAllocator \<Rightarrow> (PhysAllocator \<times> (u64 \<times> u64) option) run" where
  "phys_alloc_range X S count pa = do {
     assert_that (count \<noteq> 0);
     size0 \<leftarrow> checked_mul (SIZE S) count;
     (rs, alloc_start) \<leftarrow> allocate (memory_ranges pa) size0 (SIZE S);
     (case alloc_start of
        None \<Rightarrow> Some (pa\<lparr>memory_ranges := rs\<rparr>, None)
      | Some s \<Rightarrow> do {
          start_frame \<leftarrow> frame_of_start X S s;
          end_frame \<leftarrow> frame_add X S start_frame (count - 1);
          Some (pa\<lparr>memory_ranges := rs\<rparr>, Some (start_frame, end_frame))
        })
   }"

definition phys_free :: "PageSize \<Rightarrow> u64 \<Rightarrow> PhysAllocator \<Rightarrow> PhysAllocator run" where
  "phys_free S frame pa = do {
     e \<leftarrow> checked_add frame (SIZE S);
     e' \<leftarrow> checked_sub e 1;
     rs \<leftarrow> insert_range (memory_ranges pa) \<lparr>rstart = frame, rend = e'\<rparr>;
     Some (pa\<lparr>memory_ranges := rs\<rparr>)
   }"

fun phys_free_all :: "PageSize \<Rightarrow> u64 list \<Rightarrow> PhysAllocator \<Rightarrow> PhysAllocator run" where
  "phys_free_all S [] pa = Some pa"
| "phys_free_all S (frame # frames) pa = do { pa' \<leftarrow> phys_free S frame pa; phys_free_all S frames pa' }"

section \<open>Initialisation\<close>

datatype MemoryRegionKind = Usable | Bootloader | UnknownUefi u32 | UnknownBios u32

record MemoryRegion =
  region_start :: u64
  region_end :: u64
  region_kind :: MemoryRegionKind

fun insert_regions :: "RangeSet \<Rightarrow> MemoryRegion list \<Rightarrow> RangeSet run" where
  "insert_regions rs [] = Some rs"
| "insert_regions rs (region # regions) =
     (if region_kind region = Usable
      then do {
        e \<leftarrow> checked_sub (region_end region) 1;
        rs' \<leftarrow> insert_range rs \<lparr>rstart = region_start region, rend = e\<rparr>;
        insert_regions rs' regions
      }
      else insert_regions rs regions)"

definition TRAMPOLINE_ADDR :: u64 where
  "TRAMPOLINE_ADDR = 32768"

text \<open>
  \<open>ap_startup::reserve_phys_frames\<close>, with the static \<open>AP_FRAME_ALLOCATED\<close> passed in and out. A
  failed allocation is an \<open>expect\<close>.
\<close>

definition reserve_phys_frames :: "x86_64 \<Rightarrow> bool \<Rightarrow> PhysAllocator \<Rightarrow> (bool \<times> PhysAllocator) run" where
  "reserve_phys_frames X ap_frame_allocated pa = do {
     assert_that (\<not> ap_frame_allocated);
     boot_range0 \<leftarrow> new_range_set 256;
     e \<leftarrow> checked_add TRAMPOLINE_ADDR (SIZE Size4KiB);
     boot_range \<leftarrow> insert_range boot_range0 \<lparr>rstart = TRAMPOLINE_ADDR, rend = e\<rparr>;
     (pa', frame) \<leftarrow> phys_alloc_in_range X Size4KiB (Forced boot_range) pa;
     assert_that (frame \<noteq> None);
     Some (True, pa')
   }"

definition frame_init :: "x86_64 \<Rightarrow> bool \<Rightarrow> MemoryRegion list \<Rightarrow> (bool \<times> PhysAllocator) run" where
  "frame_init X ap_frame_allocated regions = do {
     ranges0 \<leftarrow> new_range_set phys_ranges;
     ranges1 \<leftarrow> insert_regions ranges0 regions;
     reserve_phys_frames X ap_frame_allocated \<lparr>memory_ranges = ranges1\<rparr>
   }"

section \<open>Frame allocator\<close>

record FrameAllocator =
  phys :: PhysAllocator
  guard_frame_cache :: "u64 option"

definition frame_allocator_new :: "PhysAllocator \<Rightarrow> FrameAllocator" where
  "frame_allocator_new pa = \<lparr>phys = pa, guard_frame_cache = None\<rparr>"

definition alloc_no_stats :: "x86_64 \<Rightarrow> PageSize \<Rightarrow> FrameAllocator \<Rightarrow> (FrameAllocator \<times> (MemError + u64)) run" where
  "alloc_no_stats X S fa = do {
     (pa, frame) \<leftarrow> phys_alloc X S (phys fa);
     Some (fa\<lparr>phys := pa\<rparr>, case frame of None \<Rightarrow> Inl OutOfMemory | Some f \<Rightarrow> Inr f)
   }"

definition frame_alloc :: "x86_64 \<Rightarrow> PageSize \<Rightarrow> FrameAllocator \<Rightarrow> (FrameAllocator \<times> (MemError + u64)) run" where
  "frame_alloc X S fa = alloc_no_stats X S fa"

definition alloc_4k :: "x86_64 \<Rightarrow> FrameAllocator \<Rightarrow> (FrameAllocator \<times> (MemError + u64)) run" where
  "alloc_4k X fa = frame_alloc X Size4KiB fa"

definition alloc_2m :: "x86_64 \<Rightarrow> FrameAllocator \<Rightarrow> (FrameAllocator \<times> (MemError + u64)) run" where
  "alloc_2m X fa = frame_alloc X Size2MiB fa"

definition alloc_1g :: "x86_64 \<Rightarrow> FrameAllocator \<Rightarrow> (FrameAllocator \<times> (MemError + u64)) run" where
  "alloc_1g X fa = frame_alloc X Size1GiB fa"

definition frame_alloc_range ::
  "x86_64 \<Rightarrow> PageSize \<Rightarrow> u64 \<Rightarrow> FrameAllocator \<Rightarrow> (FrameAllocator \<times> (MemError + u64 \<times> u64)) run" where
  "frame_alloc_range X S count fa = do {
     (pa, frames) \<leftarrow> phys_alloc_range X S count (phys fa);
     Some (fa\<lparr>phys := pa\<rparr>, case frames of None \<Rightarrow> Inl OutOfMemory | Some fs \<Rightarrow> Inr fs)
   }"

definition free_no_stats :: "PageSize \<Rightarrow> u64 \<Rightarrow> FrameAllocator \<Rightarrow> FrameAllocator run" where
  "free_no_stats S frame fa = do { pa \<leftarrow> phys_free S frame (phys fa); Some (fa\<lparr>phys := pa\<rparr>) }"

definition frame_free :: "PageSize \<Rightarrow> u64 \<Rightarrow> FrameAllocator \<Rightarrow> FrameAllocator run" where
  "frame_free S frame fa = free_no_stats S frame fa"

text \<open>\<open>guard_frame\<close>; without the feature \<open>mem-backed-guard-page\<close> it is the frame at address 0.\<close>

definition guard_frame :: "bool \<Rightarrow> x86_64 \<Rightarrow> FrameAllocator \<Rightarrow> (FrameAllocator \<times> (MemError + u64)) run" where
  "guard_frame mem_backed X fa =
     (if mem_backed then
        (case guard_frame_cache fa of
           Some frame \<Rightarrow> Some (fa, Inr frame)
         | None \<Rightarrow> do {
             (fa', r) \<leftarrow> alloc_no_stats X Size4KiB fa;
             (case r of
                Inl e \<Rightarrow> Some (fa', Inl e)
              | Inr frame \<Rightarrow> Some (fa'\<lparr>guard_frame_cache := Some frame\<rparr>, Inr frame))
           })
      else Some (fa, Inr 0))"

text \<open>The traits of the crate: \<open>allocate_frame\<close> and \<open>deallocate_frame\<close>, for the three sizes.\<close>

definition allocate_frame :: "x86_64 \<Rightarrow> PageSize \<Rightarrow> FrameAllocator \<Rightarrow> (FrameAllocator \<times> u64 option) run" where
  "allocate_frame X S fa = do {
     (fa', r) \<leftarrow> alloc_no_stats X S fa;
     Some (fa', case r of Inl e \<Rightarrow> None | Inr f \<Rightarrow> Some f)
   }"

definition deallocate_frame :: "PageSize \<Rightarrow> u64 \<Rightarrow> FrameAllocator \<Rightarrow> FrameAllocator run" where
  "deallocate_frame S frame fa = free_no_stats S frame fa"

section \<open>Correctness\<close>

abbreviation free_memory :: "PhysAllocator \<Rightarrow> u64 set" where
  "free_memory pa \<equiv> rs_cover (memory_ranges pa)"

abbreviation phys_inv :: "PhysAllocator \<Rightarrow> bool" where
  "phys_inv pa \<equiv> rs_inv (memory_ranges pa)"

text \<open>All addresses of the set are physical addresses: they have at most 52 bits.\<close>

definition addressable :: "u64 set \<Rightarrow> bool" where
  "addressable F \<longleftrightarrow> (\<forall>a \<in> F. unat a < 2 ^ 52)"

definition crate_documented :: "x86_64 \<Rightarrow> bool" where
  "crate_documented X \<longleftrightarrow> phys_addr_documented X \<and> from_start_documented X \<and> frame_add_documented X"

lemma crate_documented_model: "crate_documented x86_64_model"
  by (simp add: crate_documented_def x86_64_model_documented)

lemma frame_of_start_Some:
  "crate_documented X \<Longrightarrow> frame_of_start X S s = Some f \<longleftrightarrow>
     f = s \<and> unat s < 2 ^ 52 \<and> unat s mod unat (SIZE S) = 0"
  by (auto simp: frame_of_start_def crate_documented_def phys_addr_documented_def from_start_documented_def run_simps)

subsection \<open>Allocation\<close>

text \<open>The three allocations share this: a search, then the frame at the address found.\<close>

lemma allocate_prefer_start:
  assumes "rs_inv rs" "request_valid request" "allocate_prefer rs n (SIZE S) request = Some (rs', Some s)"
    "crate_documented X" "addressable (rs_cover rs)"
  shows "frame_of_start X S s = Some s"
proof -
  from allocate_prefer_SomeD(4) [OF assms(1-3)] have al: "allocated rs n (SIZE S) request rs' s" by simp
  then have "unat s \<le> unat (s + (n - 1))" by (auto simp: allocated_def unat_add_no_overflow)
  then have "s \<in> rs_cover rs" using al by (auto simp: allocated_def block_at_def word_le_nat_alt)
  with al assms(5) show ?thesis
    using frame_of_start_Some [OF assms(4)] by (auto simp: addressable_def allocated_def)
qed

lemma phys_alloc_in_range_SomeD:
  assumes "phys_alloc_in_range X S request pa = Some (pa', res)" "crate_documented X"
    "phys_inv pa" "request_valid request"
  shows "phys_inv pa'" "case res of None \<Rightarrow> pa' = pa | Some f \<Rightarrow> takes (free_memory pa) (free_memory pa') [(f, S)]"
    "\<And>f. res = Some f \<Longrightarrow> free_memory pa' \<subseteq> free_memory pa - page_cells (f, S)"
    "\<And>f rgs. res = Some f \<Longrightarrow> request = Forced rgs \<Longrightarrow> page_cells (f, S) \<subseteq> rs_cover rgs
       \<and> free_memory pa' = free_memory pa - page_cells (f, S)"
proof -
  from assms(1) obtain rs st where a: "allocate_prefer (memory_ranges pa) (SIZE S) (SIZE S) request = Some (rs, st)"
    and pa': "pa' = pa\<lparr>memory_ranges := rs\<rparr>" and res: "res = st"
    using frame_of_start_Some [OF assms(2)]
    by (auto simp: phys_alloc_in_range_def run_simps split: option.splits)
  note d = allocate_prefer_SomeD [OF assms(3,4) a]
  show "phys_inv pa'" using d(1) pa' by simp
  show "case res of None \<Rightarrow> pa' = pa | Some f \<Rightarrow> takes (free_memory pa) (free_memory pa') [(f, S)]"
    using d(4) res pa' allocated_takes [OF _ checked_mul_1] by (auto simp: page_seq_single split: option.splits)
  show "free_memory pa' \<subseteq> free_memory pa - page_cells (f, S)" if "res = Some f" for f
    using d(4) res that pa' by (auto simp: allocated_def page_cells_def)
  show "page_cells (f, S) \<subseteq> rs_cover rgs \<and> free_memory pa' = free_memory pa - page_cells (f, S)"
    if "res = Some f" "request = Forced rgs" for f rgs
    using d(4) res that pa' by (auto simp: allocated_def page_cells_def)
qed

lemma phys_alloc_is_any: "phys_alloc X S pa = phys_alloc_in_range X S Any pa"
  by (simp add: phys_alloc_def phys_alloc_in_range_def allocate_def)

lemma phys_alloc_in_range_total:
  assumes "crate_documented X" "phys_inv pa" "addressable (free_memory pa)" "request_valid request"
    "request = Any \<or> in_use (memory_ranges pa) < length (ranges (memory_ranges pa))"
  shows "phys_alloc_in_range X S request pa \<noteq> None"
proof -
  obtain rs st where a: "allocate_prefer (memory_ranges pa) (SIZE S) (SIZE S) request = Some (rs, st)"
    using allocate_prefer_total [OF assms(2,4,5)] by fastforce
  with allocate_prefer_start [OF assms(2,4) _ assms(1,3)] show ?thesis
    by (cases st) (auto simp: phys_alloc_in_range_def)
qed

lemma phys_alloc_range_SomeD:
  assumes "phys_alloc_range X S count pa = Some (pa', res)" "crate_documented X" "phys_inv pa"
  shows "phys_inv pa'"
    "case res of None \<Rightarrow> pa' = pa
     | Some (f, l) \<Rightarrow> takes (free_memory pa) (free_memory pa') (page_seq f S count)
         \<and> l = f + SIZE S * (count - 1)"
proof -
  from assms(1) obtain n rs st where a: "allocate_prefer (memory_ranges pa) n (SIZE S) Any = Some (rs, st)"
    and n: "checked_mul (SIZE S) count = Some n"
    by (auto simp: phys_alloc_range_def allocate_def run_simps)
  with assms(1) have pa': "pa' = pa\<lparr>memory_ranges := rs\<rparr>"
    and res: "case res of None \<Rightarrow> st = None | Some (f, l) \<Rightarrow> st = Some f \<and> l = f + SIZE S * (count - 1)"
    using frame_of_start_Some [OF assms(2)] assms(2)
    by (cases st; auto simp: phys_alloc_range_def allocate_def run_simps crate_documented_def
        frame_add_documented_def split: if_splits)+
  note d = allocate_prefer_SomeD [OF assms(3) _ a]
  show "phys_inv pa'" using d(1) pa' by simp
  show "case res of None \<Rightarrow> pa' = pa
     | Some (f, l) \<Rightarrow> takes (free_memory pa) (free_memory pa') (page_seq f S count)
         \<and> l = f + SIZE S * (count - 1)"
    using d(4) res pa' allocated_takes [OF _ n] by (auto split: option.splits)
qed

subsection \<open>Deallocation\<close>

lemma phys_free_SomeD:
  assumes "phys_free S f pa = Some pa'" "phys_inv pa"
  shows "phys_inv pa'" "free_memory pa' = free_memory pa \<union> page_cells (f, S)"
proof -
  from assms(1) obtain rs where i: "insert_range (memory_ranges pa) \<lparr>rstart = f, rend = f + SIZE S - 1\<rparr> = Some rs"
    and pa': "pa' = pa\<lparr>memory_ranges := rs\<rparr>"
    by (auto simp: phys_free_def run_simps checked_word)
  from insert_range_SomeD [OF assms(2) i] pa'
  show "phys_inv pa'" "free_memory pa' = free_memory pa \<union> page_cells (f, S)"
    by (simp_all add: cells_def page_cells_def block_at_def add_diff_eq)
qed

subsection \<open>Runs of the allocator\<close>

text \<open>
  The calls of the clients, with the frames they hold. A frame that is freed must be held by a
  client (the safety condition of \<open>free\<close>). A range of frames is given by its first and last frame; the last
  one is always the one that the count gives (\<open>phys_alloc_range_SomeD\<close>).
\<close>

inductive frame_step :: "x86_64 \<Rightarrow> PhysAllocator \<times> page list \<Rightarrow> PhysAllocator \<times> page list \<Rightarrow> bool" for X where
  step_alloc: "phys_alloc X S pa = Some (pa', Some f) \<Longrightarrow> frame_step X (pa, out) (pa', (f, S) # out)"
| step_alloc_in_range: "phys_alloc_in_range X S request pa = Some (pa', Some f) \<Longrightarrow> request_valid request \<Longrightarrow>
    frame_step X (pa, out) (pa', (f, S) # out)"
| step_alloc_range: "phys_alloc_range X S count pa = Some (pa', Some (f, l)) \<Longrightarrow>
    frame_step X (pa, out) (pa', page_seq f S count @ out)"
| step_free: "(f, S) \<in> set out \<Longrightarrow> phys_free S f pa = Some pa' \<Longrightarrow>
    frame_step X (pa, out) (pa', remove1 (f, S) out)"

lemma frame_step_law:
  assumes "crate_documented X" "frame_step X (pa, out) (pa', out')" "phys_inv pa"
  shows "phys_inv pa' \<and> ((\<exists>ps. takes (free_memory pa) (free_memory pa') ps \<and> out' = ps @ out)
      \<or> (\<exists>P \<in> set out. free_memory pa' = free_memory pa \<union> page_cells P \<and> out' = remove1 P out))"
  using assms(2)
proof (cases rule: frame_step.cases)
  case (step_alloc S f)
  with phys_alloc_in_range_SomeD [OF _ assms(1,3), of S Any pa' "Some f"] show ?thesis
    by (auto simp: phys_alloc_is_any intro!: exI [of _ "[(f, S)]"])
next
  case (step_alloc_in_range S request f)
  with phys_alloc_in_range_SomeD [OF _ assms(1,3), of S request pa' "Some f"] show ?thesis
    by (auto intro!: exI [of _ "[(f, S)]"])
next
  case (step_alloc_range S count f l)
  with phys_alloc_range_SomeD [OF _ assms(1,3), of S count pa' "Some (f, l)"] show ?thesis by auto
next
  case (step_free f S)
  with phys_free_SomeD [OF _ assms(3), of S f pa'] show ?thesis by auto
qed

lemma frame_pool:
  "crate_documented X \<Longrightarrow> page_pool (\<lambda>pa. free_memory pa) (\<lambda>pa. phys_inv pa) (frame_step X)"
  by unfold_locales (rule frame_step_law)

interpretation frames: page_pool "\<lambda>pa. free_memory pa" "\<lambda>pa. phys_inv pa" "frame_step x86_64_model"
  by (rule frame_pool [OF crate_documented_model])

subsection \<open>Initialisation\<close>

definition usable_memory :: "MemoryRegion list \<Rightarrow> u64 set" where
  "usable_memory regions = (\<Union>r \<in> {r \<in> set regions. region_kind r = Usable}. {region_start r..region_end r - 1})"

definition regions_valid :: "MemoryRegion list \<Rightarrow> bool" where
  "regions_valid regions \<longleftrightarrow> (\<forall>r \<in> set regions. region_kind r = Usable \<longrightarrow> region_start r < region_end r)"

lemma usable_memory_Cons:
  "usable_memory (r # rs) = (if region_kind r = Usable then {region_start r..region_end r - 1} else {}) \<union> usable_memory rs"
  by (auto simp: usable_memory_def)

lemma insert_regions_Some:
  assumes "rs_inv rs" "regions_valid regions"
    "in_use rs + length (filter (\<lambda>r. region_kind r = Usable) regions) \<le> length (ranges rs)"
  shows "\<exists>rs'. insert_regions rs regions = Some rs' \<and> rs_inv rs' \<and> rs_cover rs' = rs_cover rs \<union> usable_memory regions
    \<and> length (ranges rs') = length (ranges rs)
    \<and> in_use rs' \<le> in_use rs + length (filter (\<lambda>r. region_kind r = Usable) regions)"
  using assms
proof (induction regions arbitrary: rs)
  case Nil
  then show ?case by (simp add: usable_memory_def)
next
  case (Cons r regions)
  show ?case
  proof (cases "region_kind r = Usable")
    case False
    with Cons show ?thesis by (simp add: usable_memory_Cons regions_valid_def)
  next
    case True
    let ?g = "\<lparr>rstart = region_start r, rend = region_end r - 1\<rparr>"
    have lt: "region_start r < region_end r" using Cons.prems(2) True by (simp add: regions_valid_def)
    then have sub: "checked_sub (region_end r) 1 = Some (region_end r - 1)"
      by (auto simp: checked_sub_def word_less_nat_alt word_le_nat_alt)
    have v: "valid_range ?g"
      using lt unat_minus_one_pos [of "region_end r"] by (simp add: valid_range_def word_le_nat_alt word_less_nat_alt)
    obtain rs1 where 1: "insert_range rs ?g = Some rs1" "rs_inv rs1" "rs_cover rs1 = rs_cover rs \<union> cells ?g"
      "length (ranges rs1) = length (ranges rs)" "in_use rs1 \<le> Suc (in_use rs)"
      using insert_range_Some [OF Cons.prems(1) v] Cons.prems(3) True by auto
    have "regions_valid regions" "in_use rs1 + length (filter (\<lambda>r. region_kind r = Usable) regions) \<le> length (ranges rs1)"
      using Cons.prems(2,3) 1(4,5) True by (auto simp: regions_valid_def)
    from Cons.IH [OF 1(2) this] 1 sub True show ?thesis
      by (auto simp: usable_memory_Cons cells_def)
  qed
qed

lemma insert_into_empty:
  assumes "valid_range r" "0 < N" "N \<le> u32_max"
  shows "\<exists>rs0 rs. new_range_set N = Some rs0 \<and> insert_range rs0 r = Some rs \<and> entries rs = [r] \<and> rs_inv rs"
proof -
  let ?empty = "\<lparr>ranges = replicate N \<lparr>rstart = 0, rend = 0\<rparr>, in_use = 0\<rparr>"
  let ?rs = "\<lparr>ranges = (replicate N \<lparr>rstart = 0, rend = 0\<rparr>)[0 := r], in_use = 1\<rparr>"
  have "insert_merge ?empty r = Some (?empty, r)" by (subst insert_merge.simps) (simp add: entries_def)
  then have "insert_range ?empty r = Some ?rs"
    using assms by (simp add: insert_range_def assert_that_bind valid_range_def)
  moreover have "entries ?rs = [r]" using assms(2) by (cases N) (simp_all add: entries_def)
  moreover have "new_range_set N = Some ?empty" using assms(3) by (simp add: new_range_set_def)
  ultimately show ?thesis using assms by (intro exI conjI) (auto simp: rs_inv_def)
qed

abbreviation trampoline :: page where
  "trampoline \<equiv> (TRAMPOLINE_ADDR, Size4KiB)"

lemma trampoline_cells: "page_cells trampoline = {32768..36863}"
  by (simp add: page_cells_def block_at_def TRAMPOLINE_ADDR_def)

lemma front_fits_trampoline:
  assumes "valid_range ent" "{32768..36863} \<subseteq> cells ent" "\<forall>a \<in> cells ent. unat a < 2 ^ 52"
  shows "front_fits 4096 4096 ent"
    and "region_search 4096 4095 ent [\<lparr>rstart = 32768, rend = 36864\<rparr>] = Fit (32768, 36863, 32768)"
proof -
  let ?fx = "(4096 - (rstart ent AND (4096 - 1))) AND (4096 - 1) :: u64"
  have "32768 \<in> {32768..(36863::u64)}" "36863 \<in> {32768..(36863::u64)}" by simp_all
  then have bounds: "rstart ent \<le> 32768" "36863 \<le> rend ent" using assms(2) by (auto simp: cells_def)
  have fx: "(unat (rstart ent) + unat ?fx) mod 4096 = 0" "unat ?fx < 4096"
    using align_fix_correct [of 12 "rstart ent"] unat_and_mask [of "4096 - (rstart ent AND (4096 - 1))" 12] by simp_all
  have "unat (rstart ent) \<le> 32768" using bounds(1) by (simp add: word_le_nat_alt)
  then have le: "unat (rstart ent) + unat ?fx \<le> 32768" using aligned_up_le [OF fx, of 32768] by simp
  have "front_end 4096 4096 ent = Some (rstart ent + 4095 + ?fx)"
    and e: "unat (rstart ent + 4095 + ?fx) = unat (rstart ent) + 4095 + unat ?fx"
    using le unat_add_no_overflow [of "rstart ent" 4095] unat_add_no_overflow [of "rstart ent + 4095" ?fx]
    by (simp_all add: front_end_def checked_add_def)
  moreover have "rstart ent + 4095 + ?fx \<le> 36863"
    unfolding word_le_nat_alt e using le by simp
  ultimately show "front_fits 4096 4096 ent" using bounds(2) by (auto simp: front_fits_def)
  let ?ov = "\<lparr>rstart = 32768, rend = min (rend ent) 36864\<rparr>"
  have ends: "rstart ent \<le> 36864" "32768 \<le> rend ent"
    using order.trans [OF bounds(1), of 36864] order.trans [OF _ bounds(2), of 32768] by simp_all
  have ov: "overlaps ent \<lparr>rstart = 32768, rend = 36864\<rparr> = Some ?ov"
    using assms(1) ends by (simp add: overlaps_def valid_range_def max_absorb2 bounds(1))
  have m: "36863 \<le> rend ?ov" using bounds(2) by simp
  then have m': "32768 \<le> rend ?ov" by (rule order.trans [rotated]) simp
  have "4095 \<le> rend ?ov - 32768"
    using m m' by (simp add: word_le_nat_alt unat_sub)
  with m' ov show "region_search 4096 4095 ent [\<lparr>rstart = 32768, rend = 36864\<rparr>] = Fit (32768, 36863, 32768)"
    by (simp add: Let_def usize_max_def)
qed

lemma front_end_addressable:
  assumes "unat (rstart ent) < 2 ^ 52"
  shows "front_end 4096 4096 ent \<noteq> None"
proof -
  let ?fx = "(4096 - (rstart ent AND (4096 - 1))) AND (4096 - 1) :: u64"
  have "unat ?fx < 4096" using unat_and_mask [of "4096 - (rstart ent AND (4096 - 1))" 12] by simp
  with assms unat_add_no_overflow [of "rstart ent" 4095] show ?thesis
    by (simp add: front_end_def checked_add_def)
qed

lemma forced_trampoline:
  assumes "rs_inv rs" "addressable (rs_cover rs)" "{32768..36863} \<subseteq> rs_cover rs"
    "in_use rs < length (ranges rs)" "entries boot = [\<lparr>rstart = 32768, rend = 36864\<rparr>]" "rs_inv boot"
  shows "\<exists>rs'. allocate_prefer rs 4096 4096 (Forced boot) = Some (rs', Some 32768)"
proof -
  let ?r = "\<lparr>rstart = 32768, rend = 36863\<rparr> :: Range"
  have "\<exists>e \<in> set (entries rs). cells ?r \<subseteq> cells e"
    using assms(1,3) cover_connected [of "entries rs" ?r] by (auto simp: rs_inv_def valid_range_def cells_def)
  then obtain e where e: "e \<in> set (entries rs)" "{32768..36863} \<subseteq> cells e" by (auto simp: cells_def)
  have sep: "valid_range x \<and> (\<forall>a \<in> cells x. unat a < 2 ^ 52)" if "x \<in> set (entries rs)" for x
    using assms(1,2) that by (auto simp: rs_inv_def addressable_def cover_def dest: separated_valid)
  have "\<forall>x \<in> set (entries rs). front_end 4096 4096 x \<noteq> None"
    using sep front_end_addressable by (auto simp: cells_def valid_range_def)
  moreover have "front_fits 4096 4096 e" "region_search 4096 (4096 - 1) e [\<lparr>rstart = 32768, rend = 36864\<rparr>] = Fit (32768, 36863, 32768)"
    using front_fits_trampoline e sep by auto
  ultimately obtain a where "allocation_search 4096 4096 (Some (entries boot)) True (entries rs) None = Some (Some a)"
    using search_forced_succeeds [OF _ e(1)] assms(5) by metis
  moreover have "allocate_prefer rs 4096 4096 (Forced boot) \<noteq> None"
    using assms by (intro allocate_prefer_total) auto
  ultimately obtain rs' p where al: "allocate_prefer rs 4096 4096 (Forced boot) = Some (rs', Some p)"
    using count_ones_SIZE [of Size4KiB] by (cases a) (auto simp: allocate_prefer_def run_simps)
  have "allocated rs 4096 4096 (Forced boot) rs' p"
    using allocate_prefer_SomeD(4) [OF assms(1) _ al] assms(6) by simp
  then have p: "block_at p 4096 \<subseteq> {32768..36864}" "unat p mod 4096 = 0" "unat p + 4095 < 2 ^ 64"
    using assms(5) by (auto simp: allocated_def cells_def)
  have "unat (p + 4095) = unat p + 4095" using p(3) unat_add_no_overflow [of p 4095] by simp
  then have "p \<in> block_at p 4096" "p + 4095 \<in> block_at p 4096" by (auto simp: block_at_def word_le_nat_alt)
  then have "32768 \<le> p" "p + 4095 \<le> 36864" using p(1) by auto
  then have "32768 \<le> unat p" "unat p \<le> 32769" using \<open>unat (p + 4095) = unat p + 4095\<close> by (auto simp: word_le_nat_alt)
  then have "unat p = 32768 \<or> unat p = 32769" by linarith
  then have "unat p = 32768" using p(2) by auto
  then have "p = 32768" by (simp add: word_unat_eq_iff)
  with al show ?thesis by blast
qed

lemma reserve_phys_frames_Some:
  assumes "crate_documented X" "phys_inv pa" "addressable (free_memory pa)" "page_cells trampoline \<subseteq> free_memory pa"
    "in_use (memory_ranges pa) < length (ranges (memory_ranges pa))"
  shows "\<exists>pa'. reserve_phys_frames X False pa = Some (True, pa') \<and> phys_inv pa'
    \<and> free_memory pa' = free_memory pa - page_cells trampoline"
proof -
  let ?r = "\<lparr>rstart = 32768, rend = 36864\<rparr> :: Range"
  obtain boot0 boot where b: "new_range_set 256 = Some boot0" "insert_range boot0 ?r = Some boot"
    "entries boot = [?r]" "rs_inv boot"
    using insert_into_empty [of ?r 256] by (auto simp: valid_range_def u32_max_def)
  from forced_trampoline [OF assms(2,3) _ assms(5) b(3,4)] assms(4)
  obtain rs' where a: "allocate_prefer (memory_ranges pa) 4096 4096 (Forced boot) = Some (rs', Some 32768)"
    by (auto simp: trampoline_cells)
  have "frame_of_start X Size4KiB 32768 = Some 32768" using frame_of_start_Some [OF assms(1)] by simp
  with a have p: "phys_alloc_in_range X Size4KiB (Forced boot) pa = Some (pa\<lparr>memory_ranges := rs'\<rparr>, Some TRAMPOLINE_ADDR)"
    by (simp add: phys_alloc_in_range_def TRAMPOLINE_ADDR_def)
  have rv: "request_valid (Forced boot)" using b(4) by simp
  note d = phys_alloc_in_range_SomeD(1) [OF p assms(1,2) rv]
    conjunct2 [OF phys_alloc_in_range_SomeD(4) [OF p assms(1,2) rv refl refl]]
  have "reserve_phys_frames X False pa = Some (True, pa\<lparr>memory_ranges := rs'\<rparr>)"
    using b(1,2) p by (simp add: reserve_phys_frames_def checked_add_def TRAMPOLINE_ADDR_def)
  with d show ?thesis by blast
qed

section \<open>Properties\<close>

text \<open>
  (C3) The frames that clients hold never overlap: after any sequence of allocations of frames,
  of frames in a region and of contiguous frames, and of deallocations of held frames, in any order,
  the frames held are aligned and pairwise disjoint.
\<close>

theorem frames_unique:
  assumes "crate_documented X" "phys_inv pa" "(frame_step X)\<^sup>*\<^sup>* (pa, []) (pa', out)"
  shows "disjoint_pages out"
  using page_pool.run_disjoint [OF frame_pool [OF assms(1)] assms(3,2)] .

definition low_memory :: PhysAllocator where
  "low_memory = \<lparr>memory_ranges = \<lparr>ranges = [\<lparr>rstart = 4096, rend = 65535\<rparr>, \<lparr>rstart = 0, rend = 0\<rparr>], in_use = 1\<rparr>\<rparr>"

lemma low_memory_inv: "phys_inv low_memory" "addressable (free_memory low_memory)"
  by (auto simp: low_memory_def rs_inv_def entries_def u32_max_def valid_range_def addressable_def cells_def word_le_nat_alt)

lemma low_memory_alloc:
  "phys_alloc x86_64_model Size4KiB low_memory =
     Some (\<lparr>memory_ranges = \<lparr>ranges = [\<lparr>rstart = 8192, rend = 65535\<rparr>, \<lparr>rstart = 0, rend = 0\<rparr>], in_use = 1\<rparr>\<rparr>, Some 4096)"
proof -
  have "count_ones (4096 :: u64) = 1" using count_ones_SIZE [of Size4KiB] by simp
  then show ?thesis
    by (simp add: phys_alloc_def low_memory_def allocate_def allocate_prefer_def entries_def Let_def checked_add_def
        usize_max_def remove_range_def remove_loop.simps overlaps_def ordered_range_def contains_def saturating_add_def
        frame_of_start_def x86_64_model_def)
qed

theorem frames_unique_witness:
  "\<exists>pa. (frame_step x86_64_model)\<^sup>*\<^sup>* (low_memory, []) (pa, [(4096, Size4KiB)])
     \<and> disjoint_pages [(4096, Size4KiB)]"
  using frames_unique [OF crate_documented_model low_memory_inv(1)] step_alloc [OF low_memory_alloc] by blast

text \<open>
  An allocation of physical memory never panics: the range set returns only addresses
  that are aligned and within the physical address space, which the code expects. Either there is no
  block and nothing changes, or all addresses of the frame were free and none is afterwards.
\<close>

lemma phys_alloc_correct:
  assumes "crate_documented X" "phys_inv pa" "addressable (free_memory pa)"
  shows "case phys_alloc X S pa of None \<Rightarrow> False
    | Some (pa', None) \<Rightarrow> pa' = pa
    | Some (pa', Some f) \<Rightarrow> phys_inv pa' \<and> page_ok (f, S) \<and> page_cells (f, S) \<subseteq> free_memory pa
        \<and> free_memory pa' \<subseteq> free_memory pa - page_cells (f, S)"
proof -
  have "phys_alloc X S pa \<noteq> None"
    using phys_alloc_in_range_total [OF assms, of Any] by (simp add: phys_alloc_is_any)
  then obtain pa' r where r: "phys_alloc X S pa = Some (pa', r)" by fastforce
  note d = phys_alloc_in_range_SomeD(1,2,3) [OF r [unfolded phys_alloc_is_any] assms(1,2)]
  show ?thesis
  proof (cases "\<exists>f. r = Some f")
    case True
    with d r show ?thesis by (auto simp: takes_def disjoint_pages_def)
  next
    case False
    with d(2) r show ?thesis by simp
  qed
qed

text \<open>
  (C9) Initialisation from the memory map of the boot loader makes exactly the usable memory
  available, without the trampoline frame at 0x8000, whenever the map has at most 255 usable regions,
  is within the physical address space and leaves the trampoline frame usable.
\<close>

theorem frame_init_correct:
  assumes "crate_documented X" "regions_valid regions" "addressable (usable_memory regions)"
    "length (filter (\<lambda>r. region_kind r = Usable) regions) < phys_ranges"
    "page_cells trampoline \<subseteq> usable_memory regions"
  shows "\<exists>pa. frame_init X False regions = Some (True, pa) \<and> phys_inv pa
    \<and> free_memory pa = usable_memory regions - page_cells trampoline"
proof -
  let ?empty = "\<lparr>ranges = replicate phys_ranges \<lparr>rstart = 0, rend = 0\<rparr>, in_use = 0\<rparr>"
  have new: "new_range_set phys_ranges = Some ?empty" by (simp add: new_range_set_def u32_max_def phys_ranges_def)
  have "rs_inv ?empty" "rs_cover ?empty = {}" by (simp_all add: rs_inv_def entries_def u32_max_def phys_ranges_def)
  then obtain rs where i: "insert_regions ?empty regions = Some rs" "rs_inv rs" "rs_cover rs = usable_memory regions"
    "length (ranges rs) = phys_ranges" "in_use rs < phys_ranges"
    using insert_regions_Some [of ?empty, OF _ assms(2)] assms(4) by fastforce
  then have "\<exists>pa'. reserve_phys_frames X False \<lparr>memory_ranges = rs\<rparr> = Some (True, pa') \<and> phys_inv pa'
    \<and> free_memory pa' = free_memory \<lparr>memory_ranges = rs\<rparr> - page_cells trampoline"
    using assms by (intro reserve_phys_frames_Some) simp_all
  with new i(1,3) show ?thesis by (simp add: frame_init_def)
qed

theorem frame_init_correct_witness:
  "\<exists>pa. frame_init x86_64_model False [\<lparr>region_start = 4096, region_end = 65536, region_kind = Usable\<rparr>] = Some (True, pa)
    \<and> free_memory pa = {4096..65535} - {32768..36863}"
proof -
  let ?r = "[\<lparr>region_start = 4096, region_end = 65536, region_kind = Usable\<rparr>]"
  have u: "usable_memory ?r = {4096..65535}" by (simp add: usable_memory_def)
  then have "regions_valid ?r" "addressable (usable_memory ?r)" "page_cells trampoline \<subseteq> usable_memory ?r"
    by (simp_all add: regions_valid_def addressable_def trampoline_cells word_le_nat_alt)
  with frame_init_correct [OF crate_documented_model this(1,2) _ this(3)] u show ?thesis
    by (auto simp: phys_ranges_def trampoline_cells)
qed

text \<open>
  An allocation with an alignment above that of the free memory loses memory: with 4KiB up
  to 4MiB free, a 2MiB frame leaves nothing free, although the 511 frames below the returned one are not
  in use.
\<close>

lemma phys_alloc_loses_padding:
  "\<exists>pa'. phys_alloc x86_64_model Size2MiB
       \<lparr>memory_ranges = \<lparr>ranges = [\<lparr>rstart = 4096, rend = 4194303\<rparr>, \<lparr>rstart = 0, rend = 0\<rparr>], in_use = 1\<rparr>\<rparr>
     = Some (pa', Some 2097152) \<and> free_memory pa' = {}"
proof -
  have "count_ones (2097152 :: u64) = 1" using count_ones_SIZE [of Size2MiB] by simp
  then show ?thesis
    by (simp add: phys_alloc_def allocate_def allocate_prefer_def entries_def Let_def checked_add_def
        usize_max_def remove_range_def remove_loop.simps overlaps_def ordered_range_def contains_def
        delete_range_def frame_of_start_def x86_64_model_def)
qed

end
