(* ===== verification/Page_Allocator.thy ===== *)
theory Page_Allocator
  imports Frame_Allocator
begin

text \<open>
  The virtual page allocator of \<open>wasabi-kernel/src/mem/page_allocator.rs\<close>: its initialisation
  from the page tables that the boot loader left, its operations, and the reservation of the
  trampoline page in \<open>cpu/apic/ap_startup.rs\<close>. The page tables are read through the recursive
  mapping: the memory at the address of a table is an argument of the walk, as is the frame
  that the crate \<open>x86_64\<close> reads from an entry. The build without \<open>mem-stats\<close> is modelled.
\<close>

section \<open>Model\<close>

record PageAllocator =
  vaddrs :: RangeSet

subsection \<open>The walk over the page tables\<close>

datatype frame_result = Frame_Ok | FrameNotPresent | OtherFrameError

record pt_entry =
  present :: bool
  huge_page :: bool
  entry_frame :: frame_result

definition MAX_VIRT_ADDR :: u64 where
  "MAX_VIRT_ADDR = 0x0000ffffffffffff"

definition MIN_ALLOCATED_PAGE :: u64 where
  "MIN_ALLOCATED_PAGE = 2"

definition vaddr_of_indices :: "u64 \<Rightarrow> u64 \<Rightarrow> u64 \<Rightarrow> u64 \<Rightarrow> u64" where
  "vaddr_of_indices l4 l3 l2 l1 = push_bit 39 l4 OR push_bit 30 l3 OR push_bit 21 l2 OR push_bit 12 l1"

definition vaddr_from_index :: "x86_64 \<Rightarrow> u64 \<Rightarrow> u64 \<Rightarrow> u64 \<Rightarrow> u64 \<Rightarrow> u64 \<Rightarrow> u64 run" where
  "vaddr_from_index X l4 l3 l2 l1 offset = VirtAddr_new X (vaddr_of_indices l4 l3 l2 l1 OR (offset AND 0xfff))"

definition remove_vaddrs :: "u64 \<Rightarrow> PageSize \<Rightarrow> RangeSet \<Rightarrow> RangeSet run" where
  "remove_vaddrs virt_addr S vs = do {
     e \<leftarrow> checked_add virt_addr (SIZE S - 1);
     remove_range vs \<lparr>rstart = virt_addr, rend = e\<rparr>
   }"

text \<open>
  The two places of \<open>recurse_page_tables_remove_mapped\<close> that remove addresses, for the entry
  \<open>i1\<close> of a table. \<open>l2\<close> and \<open>l1\<close> are the last two indices of the address of the table.
\<close>

definition remove_huge :: "nat \<Rightarrow> pt_entry \<Rightarrow> u64 \<Rightarrow> u64 \<Rightarrow> u64 \<Rightarrow> RangeSet \<Rightarrow> RangeSet run" where
  "remove_huge level entry l2 l1 i1 vs =
     (if huge_page entry \<and> level = 3 then remove_vaddrs (vaddr_of_indices l1 i1 0 0) Size1GiB vs
      else if huge_page entry \<and> level = 2 then remove_vaddrs (vaddr_of_indices l2 l1 i1 0) Size2MiB vs
      else Some vs)"

definition remove_frame :: "pt_entry \<Rightarrow> u64 \<Rightarrow> RangeSet \<Rightarrow> RangeSet run" where
  "remove_frame entry vaddr vs =
     (case entry_frame entry of
        Frame_Ok \<Rightarrow> remove_vaddrs vaddr Size4KiB vs
      | FrameNotPresent \<Rightarrow> Some vs
      | OtherFrameError \<Rightarrow> remove_vaddrs vaddr Size4KiB vs)"

text \<open>
  \<open>recurse_page_tables_remove_mapped\<close> from entry \<open>i\<close> of a table on, with the four indices of the
  address of the table. \<open>table\<close> is the memory: the page table at an address. A huge page of level 3
  or 2 is removed, and the walk goes on to the table at its address, as in the code.
\<close>

function walk_table ::
  "(u64 \<Rightarrow> pt_entry list) \<Rightarrow> nat \<Rightarrow> pt_entry list \<Rightarrow> nat \<Rightarrow> u64 \<times> u64 \<times> u64 \<times> u64 \<Rightarrow> RangeSet \<Rightarrow> RangeSet run" where
  "walk_table table level [] i ix vs = Some vs"
| "walk_table table level (entry # es) i (l4, l3, l2, l1) vs =
     (if \<not> present entry then walk_table table level es (Suc i) (l4, l3, l2, l1) vs
      else if \<not> i < 512 then None
      else if huge_page entry \<and> level \<noteq> 3 \<and> level \<noteq> 2
      then walk_table table level es (Suc i) (l4, l3, l2, l1) vs
      else do {
        vs1 \<leftarrow> remove_huge level entry l2 l1 (word_of_nat i) vs;
        vs2 \<leftarrow> (if level = 1 then remove_frame entry (vaddr_of_indices l3 l2 l1 (word_of_nat i)) vs1
                else if level = 0 then None
                else walk_table table (level - 1) (table (vaddr_of_indices l3 l2 l1 (word_of_nat i))) 0
                  (l3, l2, l1, word_of_nat i) vs1);
        walk_table table level es (Suc i) (l4, l3, l2, l1) vs2
      })"
  by pat_completeness auto
termination
  by (relation "measures [\<lambda>(table, level, es, i, ix, vs). level, \<lambda>(table, level, es, i, ix, vs). length es]")
    auto

subsection \<open>Operations\<close>

definition page_of_start :: "x86_64 \<Rightarrow> PageSize \<Rightarrow> u64 \<Rightarrow> u64 run" where
  "page_of_start X S s = do { a \<leftarrow> VirtAddr_new X s; from_start_address X S a }"

definition try_allocate_page :: "PageSize \<Rightarrow> u64 \<Rightarrow> PageAllocator \<Rightarrow> (PageAllocator \<times> (MemError + unit)) run" where
  "try_allocate_page S page pa =
     (if page = 0 then Some (pa, Inl NullAddress)
      else do {
        e \<leftarrow> checked_add page (SIZE S - 1);
        (vs, existed) \<leftarrow> remove_if_exist (vaddrs pa) \<lparr>rstart = page, rend = e\<rparr>;
        Some (pa\<lparr>vaddrs := vs\<rparr>, if existed then Inr () else Inl PageInUse)
      })"

definition allocate_page :: "x86_64 \<Rightarrow> PageSize \<Rightarrow> PageAllocator \<Rightarrow> (PageAllocator \<times> (MemError + u64)) run" where
  "allocate_page X S pa = do {
     (vs, start) \<leftarrow> allocate (vaddrs pa) (SIZE S) (SIZE S);
     (case start of
        None \<Rightarrow> Some (pa\<lparr>vaddrs := vs\<rparr>, Inl OutOfPages)
      | Some s \<Rightarrow> do { page \<leftarrow> page_of_start X S s; Some (pa\<lparr>vaddrs := vs\<rparr>, Inr page) })
   }"

definition allocate_page_4k :: "x86_64 \<Rightarrow> PageAllocator \<Rightarrow> (PageAllocator \<times> (MemError + u64)) run" where
  "allocate_page_4k X pa = allocate_page X Size4KiB pa"

definition allocate_page_2m :: "x86_64 \<Rightarrow> PageAllocator \<Rightarrow> (PageAllocator \<times> (MemError + u64)) run" where
  "allocate_page_2m X pa = allocate_page X Size2MiB pa"

definition allocate_page_1g :: "x86_64 \<Rightarrow> PageAllocator \<Rightarrow> (PageAllocator \<times> (MemError + u64)) run" where
  "allocate_page_1g X pa = allocate_page X Size1GiB pa"

definition allocate_pages :: "x86_64 \<Rightarrow> PageSize \<Rightarrow> u64 \<Rightarrow> PageAllocator \<Rightarrow> (PageAllocator \<times> (MemError + Pages)) run" where
  "allocate_pages X S count pa = do {
     size0 \<leftarrow> checked_mul (SIZE S) count;
     (vs, start) \<leftarrow> allocate (vaddrs pa) size0 (SIZE S);
     (case start of
        None \<Rightarrow> Some (pa\<lparr>vaddrs := vs\<rparr>, Inl OutOfPages)
      | Some s \<Rightarrow> do {
          page \<leftarrow> page_of_start X S s;
          Some (pa\<lparr>vaddrs := vs\<rparr>, Inr \<lparr>first_page = page, page_size = S, page_count = count\<rparr>)
        })
   }"

fun guarded_align :: "PageSize \<Rightarrow> bool \<Rightarrow> u64" where
  "guarded_align S False = SIZE S"
| "guarded_align Size4KiB True = SIZE Size4KiB"
| "guarded_align S True = SIZE S - SIZE Size4KiB"

definition guarded_size :: "PageSize \<Rightarrow> u64 \<Rightarrow> bool \<Rightarrow> bool \<Rightarrow> u64 run" where
  "guarded_size S count head tail = do {
     size0 \<leftarrow> checked_mul (SIZE S) count;
     size1 \<leftarrow> (if head then checked_add size0 (SIZE Size4KiB) else Some size0);
     (if tail then checked_add size1 (SIZE Size4KiB) else Some size1)
   }"

definition allocate_guarded_pages ::
  "x86_64 \<Rightarrow> PageSize \<Rightarrow> u64 \<Rightarrow> bool \<Rightarrow> bool \<Rightarrow> PageAllocator \<Rightarrow> (PageAllocator \<times> (MemError + GuardedPages)) run" where
  "allocate_guarded_pages X S count head tail pa =
     (if \<not> head \<and> \<not> tail then do {
        (pa', pages) \<leftarrow> allocate_pages X S count pa;
        Some (pa', case pages of
            Inl e \<Rightarrow> Inl e
          | Inr ps \<Rightarrow> Inr \<lparr>head_guard = None, tail_guard = None, guarded = ps\<rparr>)
      } else do {
        size0 \<leftarrow> guarded_size S count head tail;
        (vs, found) \<leftarrow> allocate (vaddrs pa) size0 (guarded_align S head);
        (case found of
           None \<Rightarrow> Some (pa\<lparr>vaddrs := vs\<rparr>, Inl OutOfPages)
         | Some s \<Rightarrow> do {
             start0 \<leftarrow> VirtAddr_new X s;
             (start1, head_page) \<leftarrow> (if head then do {
                 g \<leftarrow> from_start_address X Size4KiB start0;
                 s1 \<leftarrow> virt_add X start0 (SIZE Size4KiB);
                 Some (s1, Some g)
               } else Some (start0, None));
             first \<leftarrow> from_start_address X S start1;
             bytes \<leftarrow> checked_mul (SIZE S) count;
             start2 \<leftarrow> virt_add X start1 bytes;
             tail_page \<leftarrow> (if tail then do {
                 g \<leftarrow> from_start_address X Size4KiB start2;
                 Some (Some g)
               } else Some None);
             Some (pa\<lparr>vaddrs := vs\<rparr>, Inr \<lparr>head_guard = head_page, tail_guard = tail_page,
                guarded = \<lparr>first_page = first, page_size = S, page_count = count\<rparr>\<rparr>)
           })
      })"

definition free_page :: "PageSize \<Rightarrow> u64 \<Rightarrow> PageAllocator \<Rightarrow> PageAllocator run" where
  "free_page S page pa = do {
     e \<leftarrow> checked_add page (SIZE S - 1);
     vs \<leftarrow> insert_range (vaddrs pa) \<lparr>rstart = page, rend = e\<rparr>;
     Some (pa\<lparr>vaddrs := vs\<rparr>)
   }"

lemma pages_next_index:
  "pages_next X it = Some (it', Some p) \<Longrightarrow>
     unat (page_count (iter_pages it')) - unat (iter_index it') < unat (page_count (iter_pages it)) - unat (iter_index it)"
  by (auto simp: pages_next_def run_simps checked_add_def word_le_nat_alt unat_add_no_overflow split: if_splits)

function free_pages_loop :: "x86_64 \<Rightarrow> PagesIter \<Rightarrow> PageAllocator \<Rightarrow> PageAllocator run" where
  "free_pages_loop X it pa =
     (case pages_next X it of
        None \<Rightarrow> None
      | Some (it', None) \<Rightarrow> Some pa
      | Some (it', Some p) \<Rightarrow> do {
          pa' \<leftarrow> free_page (page_size (iter_pages it)) p pa;
          free_pages_loop X it' pa'
        })"
  by pat_completeness auto
termination
  by (relation "measure (\<lambda>(X, it, pa). unat (page_count (iter_pages it)) - unat (iter_index it))")
    (auto dest: pages_next_index)

definition free_pages :: "x86_64 \<Rightarrow> Pages \<Rightarrow> PageAllocator \<Rightarrow> PageAllocator run" where
  "free_pages X ps pa = free_pages_loop X (pages_iter ps) pa"

definition free_guard :: "u64 option \<Rightarrow> PageAllocator \<Rightarrow> PageAllocator run" where
  "free_guard guard pa = (case guard of None \<Rightarrow> Some pa | Some g \<Rightarrow> free_page Size4KiB g pa)"

definition free_guarded_pages :: "x86_64 \<Rightarrow> GuardedPages \<Rightarrow> PageAllocator \<Rightarrow> PageAllocator run" where
  "free_guarded_pages X gp pa = do {
     pa1 \<leftarrow> free_pages X (guarded gp) pa;
     pa2 \<leftarrow> free_guard (head_guard gp) pa1;
     free_guard (tail_guard gp) pa2
   }"

subsection \<open>Initialisation\<close>

text \<open>
  \<open>init\<close>, given the recursive index and the level 4 table; \<open>ap_startup::reserve_pages\<close> with the
  static \<open>AP_PAGE_ALLOCATED\<close>.
\<close>

definition reserve_pages :: "x86_64 \<Rightarrow> bool \<Rightarrow> PageAllocator \<Rightarrow> (bool \<times> PageAllocator) run" where
  "reserve_pages X ap_page_allocated pa = do {
     assert_that (\<not> ap_page_allocated);
     page \<leftarrow> page_of_start X Size4KiB TRAMPOLINE_ADDR;
     (pa', r) \<leftarrow> try_allocate_page Size4KiB page pa;
     (case r of Inl e \<Rightarrow> None | Inr _ \<Rightarrow> Some (True, pa'))
   }"

definition page_init ::
  "x86_64 \<Rightarrow> (u64 \<Rightarrow> pt_entry list) \<Rightarrow> u64 \<Rightarrow> pt_entry list \<Rightarrow> bool \<Rightarrow> (bool \<times> PageAllocator) run" where
  "page_init X table recursive_index level_4_table ap_page_allocated = do {
     vs0 \<leftarrow> new_range_set 256;
     first \<leftarrow> checked_mul MIN_ALLOCATED_PAGE (SIZE Size4KiB);
     vs1 \<leftarrow> insert_range vs0 \<lparr>rstart = first, rend = MAX_VIRT_ADDR\<rparr>;
     vs2 \<leftarrow> walk_table table 4 level_4_table 0
              (recursive_index, recursive_index, recursive_index, recursive_index) vs1;
     page_table_start \<leftarrow> vaddr_from_index X recursive_index 0 0 0 0;
     page_table_end_inclusive \<leftarrow> vaddr_from_index X recursive_index 511 511 511 0;
     vs3 \<leftarrow> remove_range vs2 \<lparr>rstart = page_table_start, rend = page_table_end_inclusive\<rparr>;
     reserve_pages X ap_page_allocated \<lparr>vaddrs = vs3\<rparr>
   }"

section \<open>The walk removes every mapped page\<close>

lemma remove_vaddrs_SomeD:
  assumes "remove_vaddrs a S vs = Some vs'" "rs_inv vs"
  shows "rs_inv vs'" "rs_cover vs' = rs_cover vs - page_cells (a, S)"
  using assms remove_range_SomeD(1,2) [OF assms(2)]
  by (auto simp: remove_vaddrs_def run_simps checked_word cells_def page_cells_def block_at_def)

lemma remove_huge_SomeD:
  "remove_huge level e l2 l1 i vs = Some vs' \<Longrightarrow> rs_inv vs \<Longrightarrow> rs_inv vs' \<and> rs_cover vs' \<subseteq> rs_cover vs"
  by (auto simp: remove_huge_def remove_vaddrs_SomeD split: if_splits)

lemma remove_frame_SomeD:
  "remove_frame e a vs = Some vs' \<Longrightarrow> rs_inv vs \<Longrightarrow> rs_inv vs' \<and> rs_cover vs' \<subseteq> rs_cover vs
     \<and> (entry_frame e \<noteq> FrameNotPresent \<longrightarrow> page_cells (a, Size4KiB) \<inter> rs_cover vs' = {})"
  by (auto simp: remove_frame_def remove_vaddrs_SomeD split: frame_result.splits)

lemma walk_table_Nil: "walk_table table level [] i ix = Some"
  by (rule ext) simp

lemma walk_table_Cons:
  "walk_table table level (e # es) i ix vs =
     Option.bind (walk_table table level [e] i ix vs) (walk_table table level es (Suc i) ix)"
  by (cases ix) (simp add: bind_assoc walk_table_Nil)

lemma walk_table_shrinks:
  "walk_table table level es i ix vs = Some vs' \<Longrightarrow> rs_inv vs \<Longrightarrow> rs_inv vs' \<and> rs_cover vs' \<subseteq> rs_cover vs"
proof (induction table level es i ix vs arbitrary: vs' rule: walk_table.induct)
  case (2 table level entry es i l4 l3 l2 l1 vs)
  show ?case
  proof (cases "present entry \<and> \<not> (huge_page entry \<and> level \<noteq> 3 \<and> level \<noteq> 2)")
    case False
    with 2 show ?thesis by (auto split: if_splits)
  next
    case True
    let ?a = "vaddr_of_indices l3 l2 l1 (word_of_nat i)"
    have i: "i < 512" using True "2.prems"(1) by (auto split: if_splits)
    have c: "(\<not> present entry) = False" "(\<not> i < 512) = False" "(huge_page entry \<and> level \<noteq> 3 \<and> level \<noteq> 2) = False"
      using True i by auto
    from "2.prems"(1) obtain v1 v2 where 1: "remove_huge level entry l2 l1 (word_of_nat i) vs = Some v1"
      and 2: "(if level = 1 then remove_frame entry ?a v1 else if level = 0 then None
        else walk_table table (level - 1) (table ?a) 0 (l3, l2, l1, word_of_nat i) v1) = Some v2"
      and 3: "walk_table table level es (Suc i) (l4, l3, l2, l1) v2 = Some vs'"
      unfolding walk_table.simps c if_False bind_eq_Some_conv by blast
    from remove_huge_SomeD [OF 1 "2.prems"(2)] have v1: "rs_inv v1" "rs_cover v1 \<subseteq> rs_cover vs" by auto
    have "rs_inv v2 \<and> rs_cover v2 \<subseteq> rs_cover v1"
    proof (cases "level = 1")
      case True
      with 2 v1(1) remove_frame_SomeD show ?thesis by simp
    next
      case False
      with 2 have "walk_table table (level - 1) (table ?a) 0 (l3, l2, l1, word_of_nat i) v1 = Some v2" "level \<noteq> 0"
        by (auto split: if_splits)
      with "2.IH"(3) [of v1 v2] c 1 v1(1) False show ?thesis by simp
    qed
    moreover have "rs_inv vs' \<and> rs_cover vs' \<subseteq> rs_cover v2" if "rs_inv v2"
      using "2.IH"(4) [OF _ _ _ 1 2 3 that] c by simp
    ultimately show ?thesis using v1 by auto
  qed
qed simp

lemma walk_table_nth:
  assumes "walk_table table level es i ix vs = Some vs'" "rs_inv vs" "k < length es"
  obtains v1 v2 where "walk_table table level [es ! k] (i + k) ix v1 = Some v2" "rs_inv v1" "rs_cover vs' \<subseteq> rs_cover v2"
  using assms
proof (induction es arbitrary: i vs k thesis)
  case (Cons e es)
  from Cons.prems(2) walk_table_Cons [of table level e es] obtain v2 where
    e: "walk_table table level [e] i ix vs = Some v2" and es: "walk_table table level es (Suc i) ix v2 = Some vs'"
    by (auto simp: run_simps)
  have v2: "rs_inv v2" using walk_table_shrinks [OF e Cons.prems(3)] by simp
  show ?case
  proof (cases k)
    case 0
    with Cons.prems(1,3) e walk_table_shrinks [OF es v2] show ?thesis by auto
  next
    case (Suc k')
    with Cons.prems(4) have "k' < length es" by simp
    from Cons.IH [OF _ es v2 this] Cons.prems(1) Suc show ?thesis by auto
  qed
qed simp

lemma walk_entry_down:
  assumes "walk_table table level [e] i (l4, l3, l2, l1) v1 = Some v2" "present e" "\<not> huge_page e" "1 < level"
  shows "walk_table table (level - 1) (table (vaddr_of_indices l3 l2 l1 (word_of_nat i))) 0
    (l3, l2, l1, word_of_nat i) v1 = Some v2"
  using assms by (auto simp: remove_huge_def walk_table_Nil split: if_splits)

lemma walk_entry_frame:
  assumes "walk_table table 1 [e] i (l4, l3, l2, l1) v1 = Some v2" "present e" "\<not> huge_page e"
    "entry_frame e \<noteq> FrameNotPresent" "rs_inv v1"
  shows "page_cells (vaddr_of_indices l3 l2 l1 (word_of_nat i), Size4KiB) \<inter> rs_cover v2 = {}"
  using assms remove_frame_SomeD [OF _ assms(5)]
  by (auto simp: remove_huge_def walk_table_Nil split: if_splits)

lemma walk_entry_huge:
  assumes "walk_table table level [e] i (l4, l3, l2, l1) v1 = Some v2" "present e" "huge_page e" "rs_inv v1"
  shows "level = 3 \<Longrightarrow> page_cells (vaddr_of_indices l1 (word_of_nat i) 0 0, Size1GiB) \<inter> rs_cover v2 = {}"
    and "level = 2 \<Longrightarrow> page_cells (vaddr_of_indices l2 l1 (word_of_nat i) 0, Size2MiB) \<inter> rs_cover v2 = {}"
proof -
  have "\<exists>v. remove_huge level e l2 l1 (word_of_nat i) v1 = Some v \<and> rs_cover v2 \<subseteq> rs_cover v" if l: "level = 3 \<or> level = 2"
  proof -
    from l assms(1-3) obtain v where v: "remove_huge level e l2 l1 (word_of_nat i) v1 = Some v"
      and w: "walk_table table (level - 1) (table (vaddr_of_indices l3 l2 l1 (word_of_nat i))) 0
        (l3, l2, l1, word_of_nat i) v = Some v2"
      by (auto simp: run_simps walk_table_Nil split: if_splits)
    from remove_huge_SomeD [OF v assms(4)] walk_table_shrinks [OF w] v show ?thesis by auto
  qed
  then show "level = 3 \<Longrightarrow> page_cells (vaddr_of_indices l1 (word_of_nat i) 0 0, Size1GiB) \<inter> rs_cover v2 = {}"
    and "level = 2 \<Longrightarrow> page_cells (vaddr_of_indices l2 l1 (word_of_nat i) 0, Size2MiB) \<inter> rs_cover v2 = {}"
    using assms(3,4) remove_vaddrs_SomeD(2) by (fastforce simp: remove_huge_def)+
qed

text \<open>
  The pages that the tables map. Table \<open>T4\<close> is the level 4 table, and the tables below it are read
  at the addresses of the recursive mapping with index \<open>r\<close>.
\<close>

definition table_entry :: "pt_entry list \<Rightarrow> nat \<Rightarrow> bool" where
  "table_entry T i \<longleftrightarrow> i < length T \<and> present (T ! i) \<and> \<not> huge_page (T ! i)"

definition huge_entry :: "pt_entry list \<Rightarrow> nat \<Rightarrow> bool" where
  "huge_entry T i \<longleftrightarrow> i < length T \<and> present (T ! i) \<and> huge_page (T ! i)"

inductive mapped_page :: "(u64 \<Rightarrow> pt_entry list) \<Rightarrow> u64 \<Rightarrow> pt_entry list \<Rightarrow> page \<Rightarrow> bool"
  for table :: "u64 \<Rightarrow> pt_entry list" and r T4 where
  mapped_4k: "table_entry T4 i4 \<Longrightarrow> l4 = word_of_nat i4 \<Longrightarrow>
    table_entry (table (vaddr_of_indices r r r l4)) i3 \<Longrightarrow> l3 = word_of_nat i3 \<Longrightarrow>
    table_entry (table (vaddr_of_indices r r l4 l3)) i2 \<Longrightarrow> l2 = word_of_nat i2 \<Longrightarrow>
    table_entry (table (vaddr_of_indices r l4 l3 l2)) i1 \<Longrightarrow>
    entry_frame (table (vaddr_of_indices r l4 l3 l2) ! i1) \<noteq> FrameNotPresent \<Longrightarrow>
    mapped_page table r T4 (vaddr_of_indices l4 l3 l2 (word_of_nat i1), Size4KiB)"
| mapped_2m: "table_entry T4 i4 \<Longrightarrow> l4 = word_of_nat i4 \<Longrightarrow>
    table_entry (table (vaddr_of_indices r r r l4)) i3 \<Longrightarrow> l3 = word_of_nat i3 \<Longrightarrow>
    huge_entry (table (vaddr_of_indices r r l4 l3)) i2 \<Longrightarrow>
    mapped_page table r T4 (vaddr_of_indices l4 l3 (word_of_nat i2) 0, Size2MiB)"
| mapped_1g: "table_entry T4 i4 \<Longrightarrow> l4 = word_of_nat i4 \<Longrightarrow>
    huge_entry (table (vaddr_of_indices r r r l4)) i3 \<Longrightarrow>
    mapped_page table r T4 (vaddr_of_indices l4 (word_of_nat i3) 0 0, Size1GiB)"

lemma walk_down:
  assumes "walk_table table level T 0 (l4, l3, l2, l1) vs = Some vs'" "rs_inv vs" "table_entry T i" "1 < level"
  obtains v1 v2 where "walk_table table (level - 1) (table (vaddr_of_indices l3 l2 l1 (word_of_nat i))) 0
      (l3, l2, l1, word_of_nat i) v1 = Some v2" "rs_inv v1" "rs_cover vs' \<subseteq> rs_cover v2"
proof -
  from assms(3) have i: "i < length T" "present (T ! i)" "\<not> huge_page (T ! i)" by (auto simp: table_entry_def)
  from walk_table_nth [OF assms(1,2) i(1)] obtain v1 v2 where
    w: "walk_table table level [T ! i] (0 + i) (l4, l3, l2, l1) v1 = Some v2" "rs_inv v1" "rs_cover vs' \<subseteq> rs_cover v2" .
  from walk_entry_down [OF w(1) i(2,3) assms(4)] w(2,3) show thesis by (intro that) simp_all
qed

lemma walk_huge:
  assumes "walk_table table level T 0 (l4, l3, l2, l1) vs = Some vs'" "rs_inv vs" "huge_entry T i"
  shows "level = 3 \<Longrightarrow> page_cells (vaddr_of_indices l1 (word_of_nat i) 0 0, Size1GiB) \<inter> rs_cover vs' = {}"
    and "level = 2 \<Longrightarrow> page_cells (vaddr_of_indices l2 l1 (word_of_nat i) 0, Size2MiB) \<inter> rs_cover vs' = {}"
proof -
  have i: "i < length T" "present (T ! i)" "huge_page (T ! i)" using assms(3) by (auto simp: huge_entry_def)
  from walk_table_nth [OF assms(1,2) i(1)] obtain a b where
    w: "walk_table table level [T ! i] (0 + i) (l4, l3, l2, l1) a = Some b" "rs_inv a" "rs_cover vs' \<subseteq> rs_cover b" .
  from walk_entry_huge [OF w(1) i(2,3) w(2)] w(3)
  show "level = 3 \<Longrightarrow> page_cells (vaddr_of_indices l1 (word_of_nat i) 0 0, Size1GiB) \<inter> rs_cover vs' = {}"
    and "level = 2 \<Longrightarrow> page_cells (vaddr_of_indices l2 l1 (word_of_nat i) 0, Size2MiB) \<inter> rs_cover vs' = {}" by auto
qed

lemma walk_frame:
  assumes "walk_table table 1 T 0 (l4, l3, l2, l1) vs = Some vs'" "rs_inv vs" "table_entry T i"
    "entry_frame (T ! i) \<noteq> FrameNotPresent"
  shows "page_cells (vaddr_of_indices l3 l2 l1 (word_of_nat i), Size4KiB) \<inter> rs_cover vs' = {}"
proof -
  have i: "i < length T" "present (T ! i)" "\<not> huge_page (T ! i)" using assms(3) by (auto simp: table_entry_def)
  from walk_table_nth [OF assms(1,2) i(1)] obtain a b where
    w: "walk_table table 1 [T ! i] (0 + i) (l4, l3, l2, l1) a = Some b" "rs_inv a" "rs_cover vs' \<subseteq> rs_cover b" .
  from walk_entry_frame [OF w(1) i(2,3) assms(4) w(2)] w(3) show ?thesis by auto
qed

lemma walk_removes_mapped:
  assumes "walk_table table 4 T4 0 (r, r, r, r) vs = Some vs'" "rs_inv vs" "mapped_page table r T4 P"
  shows "page_cells P \<inter> rs_cover vs' = {}"
  using assms(3)
proof (cases rule: mapped_page.cases)
  case (mapped_4k i4 l4 i3 l3 i2 l2 i1)
  from walk_down [OF assms(1,2) mapped_4k(2)] mapped_4k(3) obtain v w where
    3: "walk_table table 3 (table (vaddr_of_indices r r r l4)) 0 (r, r, r, l4) v = Some w" "rs_inv v"
      "rs_cover vs' \<subseteq> rs_cover w" by auto
  from walk_down [OF 3(1,2) mapped_4k(4)] mapped_4k(5) obtain v' w' where
    2: "walk_table table 2 (table (vaddr_of_indices r r l4 l3)) 0 (r, r, l4, l3) v' = Some w'" "rs_inv v'"
      "rs_cover w \<subseteq> rs_cover w'" by auto
  from walk_down [OF 2(1,2) mapped_4k(6)] mapped_4k(7) obtain v'' w'' where
    1: "walk_table table 1 (table (vaddr_of_indices r l4 l3 l2)) 0 (r, l4, l3, l2) v'' = Some w''" "rs_inv v''"
      "rs_cover w' \<subseteq> rs_cover w''" by auto
  from walk_frame [OF 1(1,2) mapped_4k(8,9)] mapped_4k(1) 1(3) 2(3) 3(3) show ?thesis by blast
next
  case (mapped_2m i4 l4 i3 l3 i2)
  from walk_down [OF assms(1,2) mapped_2m(2)] mapped_2m(3) obtain v w where
    3: "walk_table table 3 (table (vaddr_of_indices r r r l4)) 0 (r, r, r, l4) v = Some w" "rs_inv v"
      "rs_cover vs' \<subseteq> rs_cover w" by auto
  from walk_down [OF 3(1,2) mapped_2m(4)] mapped_2m(5) obtain v' w' where
    2: "walk_table table 2 (table (vaddr_of_indices r r l4 l3)) 0 (r, r, l4, l3) v' = Some w'" "rs_inv v'"
      "rs_cover w \<subseteq> rs_cover w'" by auto
  from walk_huge(2) [OF 2(1,2) mapped_2m(6) refl] mapped_2m(1) 2(3) 3(3) show ?thesis by blast
next
  case (mapped_1g i4 l4 i3)
  from walk_down [OF assms(1,2) mapped_1g(2)] mapped_1g(3) obtain v w where
    3: "walk_table table 3 (table (vaddr_of_indices r r r l4)) 0 (r, r, r, l4) v = Some w" "rs_inv v"
      "rs_cover vs' \<subseteq> rs_cover w" by auto
  from walk_huge(1) [OF 3(1,2) mapped_1g(4) refl] mapped_1g(1) 3(3) show ?thesis by blast
qed

section \<open>The allocator as a pool of pages\<close>

abbreviation free_vaddrs :: "PageAllocator \<Rightarrow> u64 set" where
  "free_vaddrs pa \<equiv> rs_cover (vaddrs pa)"

abbreviation page_inv :: "PageAllocator \<Rightarrow> bool" where
  "page_inv pa \<equiv> rs_inv (vaddrs pa)"

definition virt_documented :: "x86_64 \<Rightarrow> bool" where
  "virt_documented X \<longleftrightarrow> virt_addr_documented X \<and> from_start_documented X \<and> page_add_documented X
     \<and> virt_add_documented X"

lemma virt_documented_model: "virt_documented x86_64_model"
  by (simp add: virt_documented_def x86_64_model_documented)

lemma from_start_Some:
  "virt_documented X \<Longrightarrow> from_start_address X S s = Some f \<longleftrightarrow> f = s \<and> unat s mod unat (SIZE S) = 0"
  by (auto simp: virt_documented_def from_start_documented_def)

lemma VirtAddr_new_Some: "virt_documented X \<Longrightarrow> VirtAddr_new X s = Some a \<longleftrightarrow> a = s \<and> canonical s"
  by (auto simp: virt_documented_def virt_addr_documented_def)

lemma virt_add_Some:
  "virt_documented X \<Longrightarrow> virt_add X a n = Some b \<longleftrightarrow> b = a + n \<and> unat a + unat n < 2 ^ 64 \<and> canonical b"
  by (auto simp: virt_documented_def virt_add_documented_def)

lemma page_of_start_Some:
  "virt_documented X \<Longrightarrow> page_of_start X S s = Some f \<longleftrightarrow> f = s \<and> canonical s \<and> unat s mod unat (SIZE S) = 0"
  by (auto simp: page_of_start_def run_simps VirtAddr_new_Some from_start_Some)

lemma first_not_mark: "page_ok (p, S) \<Longrightarrow> p \<notin> page_marks (p, S)"
proof
  assume "page_ok (p, S)" "p \<in> page_marks (p, S)"
  then have "4096 dvd unat p" "unat p mod 4096 = 1"
    using SIZE_units(1) [of S] by (auto simp: page_marks_def intro: dvd_trans)
  then show False by simp
qed

lemma page_range:
  assumes "page_ok (p, S)"
  shows "checked_add p (SIZE S - 1) = Some (p + (SIZE S - 1))" "p < p + (SIZE S - 1)"
    "cells \<lparr>rstart = p, rend = p + (SIZE S - 1)\<rparr> = page_cells (p, S)"
proof -
  have "unat (SIZE S - 1) = unat (SIZE S) - 1" by (cases S) simp_all
  then have "unat p + unat (SIZE S - 1) < 2 ^ 64" "0 < unat (SIZE S - 1)" using assms SIZE_units(2,3) [of S] by auto
  then show "checked_add p (SIZE S - 1) = Some (p + (SIZE S - 1))" "p < p + (SIZE S - 1)"
    by (simp_all add: checked_add_def word_less_nat_alt unat_add_no_overflow)
  show "cells \<lparr>rstart = p, rend = p + (SIZE S - 1)\<rparr> = page_cells (p, S)"
    by (simp add: cells_def page_cells_def block_at_def)
qed

lemma try_allocate_page_SomeD:
  assumes "try_allocate_page S p pa = Some (pa', res)" "page_inv pa" "page_ok (p, S)"
  shows "page_inv pa'" "case res of Inl e \<Rightarrow> free_vaddrs pa' = free_vaddrs pa
    | Inr _ \<Rightarrow> takes (free_vaddrs pa) (free_vaddrs pa') [(p, S)]"
proof -
  note pr = page_range [OF assms(3)]
  have "page_inv pa' \<and> (case res of Inl e \<Rightarrow> free_vaddrs pa' = free_vaddrs pa
    | Inr _ \<Rightarrow> takes (free_vaddrs pa) (free_vaddrs pa') [(p, S)])"
  proof (cases "p = 0")
    case True
    with assms(1,2) show ?thesis by (auto simp: try_allocate_page_def)
  next
    case False
    let ?r = "\<lparr>rstart = p, rend = p + (SIZE S - 1)\<rparr>"
    from False assms(1) obtain vs b where vs: "remove_if_exist (vaddrs pa) ?r = Some (vs, b)"
      and pa': "pa' = pa\<lparr>vaddrs := vs\<rparr>" and res: "res = (if b then Inr () else Inl PageInUse)"
      by (auto simp: try_allocate_page_def pr(1) run_simps)
    from remove_if_exist_SomeD [OF assms(2) _ vs] pr(2,3)
    have d: "rs_inv vs" "b \<longleftrightarrow> (\<exists>e \<in> set (entries (vaddrs pa)). page_cells (p, S) \<subseteq> cells e)"
      "rs_cover vs = (if b then free_vaddrs pa - removed_cells (vaddrs pa) ?r else free_vaddrs pa)" by simp_all
    have "page_marks (p, S) \<subseteq> removed_cells (vaddrs pa) ?r"
      using first_not_mark [OF assms(3)] by (auto simp: removed_cells_def pr(3) page_marks_def)
    moreover have "page_cells (p, S) \<subseteq> free_vaddrs pa" if b using that d(2) by (auto simp: cover_def)
    ultimately show ?thesis
      using d pa' res assms(3) by (auto simp: takes_def disjoint_pages_def)
  qed
  then show "page_inv pa'" "case res of Inl e \<Rightarrow> free_vaddrs pa' = free_vaddrs pa
    | Inr _ \<Rightarrow> takes (free_vaddrs pa) (free_vaddrs pa') [(p, S)]" by blast+
qed

lemma allocate_pages_SomeD:
  assumes "allocate_pages X S count pa = Some (pa', res)" "virt_documented X" "page_inv pa"
  shows "page_inv pa'" "case res of Inl e \<Rightarrow> pa' = pa
    | Inr ps \<Rightarrow> ps = \<lparr>first_page = first_page ps, page_size = S, page_count = count\<rparr>
        \<and> takes (free_vaddrs pa) (free_vaddrs pa') (page_seq (first_page ps) S count)"
proof -
  from assms(1) obtain n rs st where a: "allocate_prefer (vaddrs pa) n (SIZE S) Any = Some (rs, st)"
    and n: "checked_mul (SIZE S) count = Some n"
    by (auto simp: allocate_pages_def allocate_def run_simps)
  with assms(1) have pa': "pa' = pa\<lparr>vaddrs := rs\<rparr>"
    and res: "case res of Inl e \<Rightarrow> st = None
      | Inr ps \<Rightarrow> \<exists>f. st = Some f \<and> ps = \<lparr>first_page = f, page_size = S, page_count = count\<rparr>"
    by (cases st; auto simp: allocate_pages_def allocate_def run_simps page_of_start_Some [OF assms(2)])+
  note d = allocate_prefer_SomeD [OF assms(3) _ a]
  show "page_inv pa'" using d(1) pa' by simp
  show "case res of Inl e \<Rightarrow> pa' = pa
    | Inr ps \<Rightarrow> ps = \<lparr>first_page = first_page ps, page_size = S, page_count = count\<rparr>
        \<and> takes (free_vaddrs pa) (free_vaddrs pa') (page_seq (first_page ps) S count)"
    using d(4) res pa' allocated_takes [OF _ n] by (auto split: sum.splits)
qed

lemma allocate_page_as_pages:
  "allocate_page X S pa = Option.bind (allocate_pages X S 1 pa)
     (\<lambda>(pa', r). Some (pa', case r of Inl e \<Rightarrow> Inl e | Inr ps \<Rightarrow> Inr (first_page ps)))"
proof (cases "allocate (vaddrs pa) (SIZE S) (SIZE S)")
  case (Some r)
  obtain vs st where [simp]: "r = (vs, st)" by (cases r)
  show ?thesis
  proof (cases st)
    case (Some a)
    with \<open>allocate _ _ _ = Some r\<close> show ?thesis
      by (cases "page_of_start X S a") (simp_all add: allocate_page_def allocate_pages_def checked_mul_1)
  qed (use Some in \<open>simp add: allocate_page_def allocate_pages_def checked_mul_1\<close>)
qed (simp add: allocate_page_def allocate_pages_def checked_mul_1)

lemma allocate_page_SomeD:
  assumes "allocate_page X S pa = Some (pa', res)" "virt_documented X" "page_inv pa"
  shows "page_inv pa'" "case res of Inl e \<Rightarrow> pa' = pa
    | Inr p \<Rightarrow> takes (free_vaddrs pa) (free_vaddrs pa') [(p, S)]"
proof -
  from assms(1) obtain r where r: "allocate_pages X S 1 pa = Some (pa', r)"
    "res = (case r of Inl e \<Rightarrow> Inl e | Inr ps \<Rightarrow> Inr (first_page ps))"
    by (auto simp: allocate_page_as_pages run_simps)
  from allocate_pages_SomeD [OF r(1) assms(2,3)] r(2)
  show "page_inv pa'" "case res of Inl e \<Rightarrow> pa' = pa
    | Inr p \<Rightarrow> takes (free_vaddrs pa) (free_vaddrs pa') [(p, S)]"
    by (auto simp: page_seq_single split: sum.splits)
qed

lemma free_page_SomeD:
  assumes "free_page S p pa = Some pa'" "page_inv pa"
  shows "page_inv pa'" "free_vaddrs pa' = free_vaddrs pa \<union> page_cells (p, S)"
proof -
  from assms(1) obtain vs where i: "insert_range (vaddrs pa) \<lparr>rstart = p, rend = p + (SIZE S - 1)\<rparr> = Some vs"
    and pa': "pa' = pa\<lparr>vaddrs := vs\<rparr>"
    by (auto simp: free_page_def run_simps checked_word)
  from insert_range_SomeD [OF assms(2) i] pa'
  show "page_inv pa'" "free_vaddrs pa' = free_vaddrs pa \<union> page_cells (p, S)"
    by (simp_all add: cells_def page_cells_def block_at_def)
qed

subsection \<open>Guarded pages\<close>

definition guard_pages :: "u64 option \<Rightarrow> page list" where
  "guard_pages guard = (case guard of None \<Rightarrow> [] | Some g \<Rightarrow> [(g, Size4KiB)])"

definition guarded_list :: "GuardedPages \<Rightarrow> page list" where
  "guarded_list gp = guard_pages (head_guard gp)
     @ page_seq (first_page (guarded gp)) (page_size (guarded gp)) (page_count (guarded gp))
     @ guard_pages (tail_guard gp)"

definition within :: "page list \<Rightarrow> nat \<Rightarrow> nat \<Rightarrow> bool" where
  "within ps lo hi \<longleftrightarrow> disjoint_pages ps \<and> (\<forall>P \<in> set ps. page_cells P \<subseteq> {a. lo \<le> unat a \<and> unat a < hi})"

lemma within_Nil: "within [] lo hi"
  by (simp add: within_def disjoint_pages_def)

lemma within_append:
  assumes "within ps lo mid" "within qs mid hi" "lo \<le> mid" "mid \<le> hi"
  shows "within (ps @ qs) lo hi"
proof -
  have "page_cells P \<inter> page_cells Q = {}" if "P \<in> set ps" "Q \<in> set qs" for P Q
    using assms(1,2) that unfolding within_def by fastforce
  with assms show ?thesis by (fastforce simp: within_def disjoint_pages_def sorted_wrt_append)
qed

lemma within_page:
  assumes "unat g mod 4096 = 0" "unat g + 4096 \<le> 2 ^ 64"
  shows "within [(g, Size4KiB)] (unat g) (unat g + 4096)"
proof -
  have ok: "page_ok (g, Size4KiB)" using assms by simp
  from page_cells_unat [OF this] ok show ?thesis by (simp add: within_def disjoint_pages_def)
qed

lemma within_page_seq:
  assumes "checked_mul (SIZE S) count = Some n" "unat p + unat n \<le> 2 ^ 64" "unat p mod unat (SIZE S) = 0"
  shows "within (page_seq p S count) (unat p) (unat p + unat n)"
proof (cases "count = 0")
  case True
  then show ?thesis by (simp add: page_seq_def pages_list_def within_Nil)
next
  case False
  have "unat n = unat (SIZE S) * unat count"
    using assms(1) by (auto simp: checked_mul_def unat_mult_no_overflow split: if_splits)
  moreover have "0 < unat count" using False by (simp add: unat_gt_0)
  ultimately have pos: "0 < unat n" using SIZE_units(2) [of S] by simp
  then have n1: "unat (n - 1) = unat n - 1" by (rule unat_minus_one_pos)
  have lt: "unat p + unat (n - 1) < 2 ^ 64" using n1 pos assms(2) by linarith
  note seq = page_seq_ok [OF assms(1) lt assms(3)]
  have "unat (p + (n - 1)) = unat p + unat (n - 1)" using lt by (intro unat_add_no_overflow) simp
  then have "block_at p n \<subseteq> {a. unat p \<le> unat a \<and> unat a < unat p + unat n}"
    using n1 pos by (auto simp: block_at_def word_le_nat_alt)
  with seq show ?thesis by (auto simp: within_def)
qed

lemma allocated_takes_within:
  assumes "allocated rs n align request rs' p" "within ps (unat p) (unat p + unat n)"
  shows "takes (rs_cover rs) (rs_cover rs') ps"
proof -
  from assms(1) have al: "n \<noteq> 0" "unat p + unat (n - 1) < 2 ^ 64" "block_at p n \<subseteq> rs_cover rs"
    "rs_cover rs' \<subseteq> rs_cover rs - block_at p n" by (auto simp: allocated_def)
  from al(1) have "unat (n - 1) = unat n - 1" "0 < unat n" by (simp_all add: unat_minus_one_pos unat_gt_0)
  moreover have "unat (p + (n - 1)) = unat p + unat (n - 1)" using al(2) by (intro unat_add_no_overflow) simp
  ultimately have "{a. unat p \<le> unat a \<and> unat a < unat p + unat n} \<subseteq> block_at p n"
    by (auto simp: block_at_def word_le_nat_alt)
  with assms(2) al(3,4) show ?thesis by (fastforce simp: within_def takes_def page_marks_def)
qed

text \<open>The layout of a block with guards: head guard, pages, tail guard, with no gap.\<close>

lemma guarded_layout:
  fixes s :: u64
  assumes "guarded_size S count head tail = Some n" "checked_mul (SIZE S) count = Some b"
    "unat s + unat (n - 1) < 2 ^ 64" "n \<noteq> 0"
    "head \<longrightarrow> unat s mod 4096 = 0" "s1 = (if head then s + 4096 else s)" "unat s1 mod unat (SIZE S) = 0"
    "s2 = s1 + b" "tail \<longrightarrow> unat s2 mod 4096 = 0"
  shows "within (guard_pages (if head then Some s else None) @ page_seq s1 S count
      @ guard_pages (if tail then Some s2 else None)) (unat s) (unat s + unat n)"
proof -
  let ?h = "if head then 4096 else 0 :: nat" and ?t = "if tail then 4096 else 0 :: nat"
  have n: "unat n = ?h + unat b + ?t"
    using assms(1,2) by (auto simp: guarded_size_def run_simps checked_word unat_add_no_overflow split: if_splits)
  have le: "unat s + unat n \<le> 2 ^ 64"
    using assms(3,4) unat_minus_one_pos [of n] by (auto simp: unat_gt_0)
  show ?thesis
  proof (cases "unat b + ?t = 0")
    case True
    then have "\<not> tail" "b = 0" by (auto simp: unat_eq_0 split: if_splits)
    then have "unat (SIZE S) * unat count = 0"
      using assms(2) unat_mult_no_overflow [of "SIZE S" count] by (auto simp: checked_mul_def split: if_splits)
    then have "page_seq s1 S count = []" using SIZE_units(2) [of S] by (simp add: page_seq_def pages_list_def)
    with \<open>\<not> tail\<close> n le True assms(5) show ?thesis
      by (auto simp: guard_pages_def intro: within_page within_Nil)
  next
    case False
    then have s1: "unat s1 = unat s + ?h"
      using assms(6) n le unat_add_no_overflow [of s 4096] by (auto split: if_splits)
    have head: "within (guard_pages (if head then Some s else None)) (unat s) (unat s1)"
      using assms(5) s1 n le within_page [of s] by (auto simp: guard_pages_def within_Nil)
    have seq: "within (page_seq s1 S count) (unat s1) (unat s1 + unat b)"
      using s1 n le by (intro within_page_seq assms) simp
    have tail: "within (guard_pages (if tail then Some s2 else None)) (unat s1 + unat b) (unat s1 + unat b + ?t)"
    proof (cases tail)
      case True
      then have "unat s2 = unat s1 + unat b"
        unfolding assms(8) using s1 n le by (intro unat_add_no_overflow) simp
      with True assms(9) within_page [of s2] s1 n le show ?thesis by (simp add: guard_pages_def)
    qed (simp add: guard_pages_def within_Nil)
    have "within (guard_pages (if head then Some s else None) @ page_seq s1 S count
      @ guard_pages (if tail then Some s2 else None)) (unat s) (unat s1 + unat b + ?t)"
      using s1 by (intro within_append [OF head within_append [OF seq tail]]) simp_all
    moreover have "unat s1 + unat b + ?t = unat s + unat n" using s1 n by simp
    ultimately show ?thesis by simp
  qed
qed

lemma allocate_guarded_pages_SomeD:
  assumes "allocate_guarded_pages X S count head tail pa = Some (pa', res)" "virt_documented X" "page_inv pa"
  shows "page_inv pa' \<and> (case res of Inl e \<Rightarrow> pa' = pa
    | Inr gp \<Rightarrow> takes (free_vaddrs pa) (free_vaddrs pa') (guarded_list gp))"
proof (cases "\<not> head \<and> \<not> tail")
  case True
  with assms(1) obtain r where r: "allocate_pages X S count pa = Some (pa', r)"
    "res = (case r of Inl e \<Rightarrow> Inl e | Inr ps \<Rightarrow> Inr \<lparr>head_guard = None, tail_guard = None, guarded = ps\<rparr>)"
    by (auto simp: allocate_guarded_pages_def run_simps)
  from allocate_pages_SomeD [OF r(1) assms(2,3)] r(2) show ?thesis
    by (auto simp: guarded_list_def guard_pages_def split: sum.splits) (metis Pages.select_convs)
next
  case False
  with assms(1) obtain n rs st where n: "guarded_size S count head tail = Some n"
    and a: "allocate_prefer (vaddrs pa) n (guarded_align S head) Any = Some (rs, st)"
    by (auto simp: allocate_guarded_pages_def allocate_def run_simps)
  note d = allocate_prefer_SomeD [OF assms(3) _ a]
  show ?thesis
  proof (cases st)
    case None
    with False assms(1,3) n a d(4) show ?thesis by (auto simp: allocate_guarded_pages_def allocate_def)
  next
    case (Some s)
    let ?s1 = "if head then s + 4096 else s"
    from Some False assms(1) n a obtain b where b: "checked_mul (SIZE S) count = Some b"
      and pa': "pa' = pa\<lparr>vaddrs := rs\<rparr>" and al: "head \<longrightarrow> unat s mod 4096 = 0" "unat ?s1 mod unat (SIZE S) = 0"
        "tail \<longrightarrow> unat (?s1 + b) mod 4096 = 0"
      and res: "res = Inr \<lparr>head_guard = (if head then Some s else None),
          tail_guard = (if tail then Some (?s1 + b) else None),
          guarded = \<lparr>first_page = ?s1, page_size = S, page_count = count\<rparr>\<rparr>"
      by (auto simp: allocate_guarded_pages_def allocate_def run_simps VirtAddr_new_Some [OF assms(2)]
          from_start_Some [OF assms(2)] virt_add_Some [OF assms(2)] split: if_splits)
    from d(4) Some have ald: "allocated (vaddrs pa) n (guarded_align S head) Any rs s" by simp
    then have "within (guarded_list (projr res)) (unat s) (unat s + unat n)"
      using guarded_layout [OF n b _ _ al(1) refl al(2) refl al(3)] res
      by (simp add: guarded_list_def allocated_def)
    from allocated_takes_within [OF ald this] d(1) pa' res show ?thesis by simp
  qed
qed

subsection \<open>Runs of the allocator\<close>

text \<open>
  The calls of the clients with the pages they hold. A page that is asked for by address is a \<open>Page\<close>,
  hence aligned; a page that is freed is held by a client (the safety condition of \<open>free_page\<close>).
  \<open>free_pages\<close> and \<open>free_guarded_pages\<close> are sequences of \<open>free_page\<close>.
\<close>

inductive page_step :: "x86_64 \<Rightarrow> PageAllocator \<times> page list \<Rightarrow> PageAllocator \<times> page list \<Rightarrow> bool" for X where
  step_try_allocate: "try_allocate_page S p pa = Some (pa', Inr ()) \<Longrightarrow> page_ok (p, S) \<Longrightarrow>
    page_step X (pa, out) (pa', (p, S) # out)"
| step_allocate_page: "allocate_page X S pa = Some (pa', Inr p) \<Longrightarrow> page_step X (pa, out) (pa', (p, S) # out)"
| step_allocate_pages: "allocate_pages X S count pa = Some (pa', Inr ps) \<Longrightarrow>
    page_step X (pa, out) (pa', page_seq (first_page ps) S count @ out)"
| step_allocate_guarded: "allocate_guarded_pages X S count head tail pa = Some (pa', Inr gp) \<Longrightarrow>
    page_step X (pa, out) (pa', guarded_list gp @ out)"
| step_free_page: "(p, S) \<in> set out \<Longrightarrow> free_page S p pa = Some pa' \<Longrightarrow>
    page_step X (pa, out) (pa', remove1 (p, S) out)"

lemma page_step_law:
  assumes "virt_documented X" "page_step X (pa, out) (pa', out')" "page_inv pa"
  shows "page_inv pa' \<and> ((\<exists>ps. takes (free_vaddrs pa) (free_vaddrs pa') ps \<and> out' = ps @ out)
      \<or> (\<exists>P \<in> set out. free_vaddrs pa' = free_vaddrs pa \<union> page_cells P \<and> out' = remove1 P out))"
  using assms(2)
proof (cases rule: page_step.cases)
  case (step_try_allocate S p)
  with try_allocate_page_SomeD [OF _ assms(3), of S p pa' "Inr ()"] show ?thesis
    by (auto intro!: exI [of _ "[(p, S)]"])
next
  case (step_allocate_page S p)
  with allocate_page_SomeD [OF _ assms(1,3), of S pa' "Inr p"] show ?thesis
    by (auto intro!: exI [of _ "[(p, S)]"])
next
  case (step_allocate_pages S count ps)
  with allocate_pages_SomeD [OF _ assms(1,3), of S count pa' "Inr ps"] show ?thesis by auto
next
  case (step_allocate_guarded S count head tail gp)
  with allocate_guarded_pages_SomeD [OF _ assms(1,3), of S count head tail pa' "Inr gp"] show ?thesis by auto
next
  case (step_free_page p S)
  with free_page_SomeD [OF _ assms(3), of S p pa'] show ?thesis by auto
qed

lemma page_pool_documented:
  "virt_documented X \<Longrightarrow> page_pool (\<lambda>pa. free_vaddrs pa) (\<lambda>pa. page_inv pa) (page_step X)"
  by unfold_locales (rule page_step_law)

interpretation pages: page_pool "\<lambda>pa. free_vaddrs pa" "\<lambda>pa. page_inv pa" "page_step x86_64_model"
  by (rule page_pool_documented [OF virt_documented_model])

subsection \<open>Freeing several pages\<close>

lemma free_pages_loop_SomeD:
  assumes "free_pages_loop X it pa = Some pa'" "virt_documented X" "page_inv pa"
    "iter_pages it = \<lparr>first_page = p, page_size = S, page_count = count\<rparr>"
  shows "page_inv pa' \<and> free_vaddrs pa' = free_vaddrs pa
    \<union> (\<Union>i \<in> {unat (iter_index it)..<unat count}. page_cells (page_at (iter_pages it) i, S))"
  using assms
proof (induction X it pa rule: free_pages_loop.induct)
  case (1 X it pa)
  let ?ps = "iter_pages it" and ?ix = "iter_index it"
  show ?case
  proof (cases "count \<le> ?ix")
    case True
    with "1.prems" show ?thesis
      by (subst (asm) free_pages_loop.simps) (auto simp: pages_next_def word_le_nat_alt)
  next
    case False
    let ?it = "it\<lparr>iter_index := ?ix + 1\<rparr>"
    have ix: "checked_add ?ix 1 = Some (?ix + 1)" "unat (?ix + 1) = Suc (unat ?ix)"
      using False checked_succ [of ?ix count] word_unat_lt [of count] unat_add_no_overflow [of ?ix 1]
      by (auto simp: checked_add_def word_less_nat_alt not_le)
    obtain q where q: "page_add X S p ?ix = Some q" "q = page_at ?ps (unat ?ix)" "pages_next X it = Some (?it, Some q)"
      using "1.prems" False ix(1)
      by (subst (asm) free_pages_loop.simps)
        (auto simp: pages_next_def virt_documented_def page_add_documented_def page_at_def split: if_splits)
    obtain pa1 where f: "free_page S q pa = Some pa1" "free_pages_loop X ?it pa1 = Some pa'"
      using "1.prems"(1,4) q(3) by (subst (asm) free_pages_loop.simps) (auto simp: run_simps)
    note d = free_page_SomeD [OF f(1) "1.prems"(3)]
    have lt: "unat ?ix < unat count" using False by (simp add: word_le_nat_alt)
    have "page_inv pa' \<and> free_vaddrs pa' = free_vaddrs pa1
      \<union> (\<Union>i \<in> {unat (iter_index ?it)..<unat count}. page_cells (page_at (iter_pages ?it) i, S))"
      using "1.IH" [OF q(3) refl refl _ f(2) "1.prems"(2) d(1)] f(1) "1.prems"(4) by simp
    moreover have "{unat ?ix..<unat count} = insert (unat ?ix) {Suc (unat ?ix)..<unat count}" using lt by auto
    ultimately show ?thesis using d(2) q(2) ix(2) by auto
  qed
qed

section \<open>Properties\<close>

lemma reserve_pages_SomeD:
  assumes "reserve_pages X flag pa = Some (flag', pa')" "from_start_documented X" "virt_addr_documented X" "page_inv pa"
  shows "page_inv pa'" "free_vaddrs pa' \<subseteq> free_vaddrs pa"
proof -
  have "page_ok (TRAMPOLINE_ADDR, Size4KiB)" by (simp add: TRAMPOLINE_ADDR_def)
  moreover from assms(1) have "try_allocate_page Size4KiB TRAMPOLINE_ADDR pa = Some (pa', Inr ())"
    using assms(2,3)
    by (auto simp: reserve_pages_def run_simps page_of_start_def virt_addr_documented_def from_start_documented_def
        split: sum.splits if_splits) (metis (full_types) old.unit.exhaust sum.exhaust)
  ultimately show "page_inv pa'" "free_vaddrs pa' \<subseteq> free_vaddrs pa"
    using try_allocate_page_SomeD [OF _ assms(4), of Size4KiB TRAMPOLINE_ADDR pa' "Inr ()"] by (simp_all add: takes_def)
qed

text \<open>
  (C4) Initialisation never offers a mapped page: after \<open>init\<close> no address of a page that
  the page tables of the boot loader map, with 4KiB, 2MiB or 1GiB pages, is free in the page allocator,
  and the set of free addresses is well formed.
\<close>

theorem page_init_excludes_mapped:
  assumes "from_start_documented X" "virt_addr_documented X" "mapped_page table r T4 P"
    "page_init X table r T4 flag = Some (flag', pa)"
  shows "page_inv pa \<and> page_cells P \<inter> free_vaddrs pa = {}"
proof -
  let ?all = "\<lparr>rstart = 8192, rend = MAX_VIRT_ADDR\<rparr>"
  from assms(4) obtain vs0 vs1 vs2 vs3 a b where v: "new_range_set 256 = Some vs0" "insert_range vs0 ?all = Some vs1"
    "walk_table table 4 T4 0 (r, r, r, r) vs1 = Some vs2" "remove_range vs2 \<lparr>rstart = a, rend = b\<rparr> = Some vs3"
    "reserve_pages X flag \<lparr>vaddrs = vs3\<rparr> = Some (flag', pa)"
    by (auto simp: page_init_def run_simps checked_mul_def MIN_ALLOCATED_PAGE_def)
  have "rs_inv vs0" using v(1) by (auto simp: new_range_set_def run_simps rs_inv_def entries_def)
  then have 1: "rs_inv vs1" using insert_range_SomeD(1) v(2) by blast
  have 2: "rs_inv vs2" using walk_table_shrinks [OF v(3) 1] by simp
  note 3 = remove_range_SomeD(1,2) [OF 2 v(4)]
  have "page_inv pa" "free_vaddrs pa \<subseteq> rs_cover vs3"
    using reserve_pages_SomeD [OF v(5) assms(1,2)] 3(1) by simp_all
  with walk_removes_mapped [OF v(3) 1 assms(3)] 3(2) show ?thesis by auto
qed

definition one_page_tables :: "u64 \<Rightarrow> pt_entry list" where
  "one_page_tables a =
     (let e = \<lparr>present = True, huge_page = False, entry_frame = Frame_Ok\<rparr>;
          n = \<lparr>present = False, huge_page = False, entry_frame = FrameNotPresent\<rparr>
      in if a = vaddr_of_indices 1 1 1 0 \<or> a = vaddr_of_indices 1 1 0 0 then [e]
         else if a = vaddr_of_indices 1 0 0 0 then [n, n, n, e] else [])"

lemma remove_range_room:
  assumes "rs_inv rs" "valid_range r" "in_use rs < length (ranges rs)"
  shows "\<exists>rs'. remove_range rs r = Some rs' \<and> rs_inv rs' \<and> rs_cover rs' = rs_cover rs - cells r
    \<and> length (ranges rs') = length (ranges rs) \<and> in_use rs' \<le> Suc (in_use rs)"
proof -
  from remove_range_None [OF assms(1), of r] assms(2,3) obtain rs' where r: "remove_range rs r = Some rs'" by auto
  from remove_range_SomeD [OF assms(1) r] r show ?thesis by (auto split: if_splits)
qed

lemma one_page_init:
  "\<exists>pa. page_init x86_64_model one_page_tables 1
     [\<lparr>present = True, huge_page = False, entry_frame = Frame_Ok\<rparr>] False = Some (True, pa)"
proof -
  let ?all = "\<lparr>rstart = 8192, rend = MAX_VIRT_ADDR\<rparr>" and ?p = "\<lparr>rstart = 12288, rend = 16383\<rparr> :: Range"
    and ?pt = "\<lparr>rstart = 0x8000000000, rend = 0xfffffff000\<rparr> :: Range" and ?t = "\<lparr>rstart = 32768, rend = 36863\<rparr> :: Range"
  obtain vs0 vs1 where 1: "new_range_set 256 = Some vs0" "insert_range vs0 ?all = Some vs1" "entries vs1 = [?all]" "rs_inv vs1"
    using insert_into_empty [of ?all 256] by (auto simp: valid_range_def u32_max_def MAX_VIRT_ADDR_def)
  have "length (ranges vs0) = 256" "rs_inv vs0"
    using 1(1) by (auto simp: new_range_set_def run_simps rs_inv_def entries_def u32_max_def)
  then have c1: "length (ranges vs1) = 256" "in_use vs1 = 1"
    using insert_range_SomeD(3) [OF _ 1(2)] rs_inv_length [OF 1(4)] 1(3) by simp_all
  obtain vs2 where 2: "remove_range vs1 ?p = Some vs2" "rs_inv vs2" "rs_cover vs2 = rs_cover vs1 - cells ?p"
    "length (ranges vs2) = 256" "in_use vs2 \<le> 2"
    using remove_range_room [OF 1(4), of ?p] c1 by (auto simp: valid_range_def)
  obtain vs3 where 3: "remove_range vs2 ?pt = Some vs3" "rs_inv vs3" "rs_cover vs3 = rs_cover vs2 - cells ?pt"
    "length (ranges vs3) = 256" "in_use vs3 \<le> 3"
    using remove_range_room [OF 2(2), of ?pt] 2(4,5) by (auto simp: valid_range_def)
  have "cells ?t \<subseteq> cells ?all" "cells ?t \<inter> cells ?p = {}" "cells ?t \<inter> cells ?pt = {}"
    by (simp_all add: cells_def MAX_VIRT_ADDR_def ivl_disj_int)
  then have "cells ?t \<subseteq> rs_cover vs3" using 1(3) 2(3) 3(3) by auto
  then have "\<exists>e \<in> set (entries vs3). cells ?t \<subseteq> cells e"
    using 3(2) cover_connected [of "entries vs3" ?t] by (auto simp: rs_inv_def valid_range_def)
  then obtain vs4 where 4: "remove_if_exist vs3 ?t = Some (vs4, True)"
    using remove_if_exist_Some [OF 3(2), of ?t] 3(4,5) by (auto simp: numeral_3_eq_3) metis
  have w: "walk_table one_page_tables 4 [\<lparr>present = True, huge_page = False, entry_frame = Frame_Ok\<rparr>] 0 (1, 1, 1, 1) vs1 = Some vs2"
    using 2(1) by (simp add: walk_table_Nil Let_def one_page_tables_def vaddr_of_indices_def remove_huge_def remove_frame_def remove_vaddrs_def checked_add_def)
  show ?thesis
    using 1(1,2) w 3(1) 4 by (simp add: page_init_def checked_mul_def MIN_ALLOCATED_PAGE_def vaddr_from_index_def
      vaddr_of_indices_def x86_64_model_def canonical_def reserve_pages_def page_of_start_def TRAMPOLINE_ADDR_def
      try_allocate_page_def checked_add_def del: walk_table.simps)
qed

theorem page_init_excludes_mapped_witness:
  "\<exists>pa. page_init x86_64_model one_page_tables 1
      [\<lparr>present = True, huge_page = False, entry_frame = Frame_Ok\<rparr>] False = Some (True, pa)
    \<and> page_cells (12288, Size4KiB) \<inter> free_vaddrs pa = {}"
proof -
  have "mapped_page one_page_tables 1 [\<lparr>present = True, huge_page = False, entry_frame = Frame_Ok\<rparr>]
    (vaddr_of_indices 0 0 0 (word_of_nat 3), Size4KiB)"
    by (rule mapped_4k [of _ 0 _ _ _ 0 _ 0 _ 3])
      (simp_all add: table_entry_def one_page_tables_def vaddr_of_indices_def Let_def)
  then have "mapped_page one_page_tables 1 [\<lparr>present = True, huge_page = False, entry_frame = Frame_Ok\<rparr>] (12288, Size4KiB)"
    by (simp add: vaddr_of_indices_def)
  from page_init_excludes_mapped [OF x86_64_model_documented(3,2) this] one_page_init show ?thesis by blast
qed

text \<open>
  (C5) The pages that clients hold never overlap, whatever sequence of allocations (of given pages,
  of pages of any size, of consecutive pages, and of pages with guards) and deallocations of held pages led
  there. It holds although a page taken by address may keep its first address in the set.
\<close>

theorem pages_unique:
  assumes "virt_documented X" "page_inv pa" "(page_step X)\<^sup>*\<^sup>* (pa, []) (pa', out)"
  shows "disjoint_pages out"
  using page_pool.run_disjoint [OF page_pool_documented [OF assms(1)] assms(3,2)] .

definition low_pages :: PageAllocator where
  "low_pages = \<lparr>vaddrs = \<lparr>ranges = [\<lparr>rstart = 8192, rend = 65535\<rparr>, \<lparr>rstart = 0, rend = 0\<rparr>], in_use = 1\<rparr>\<rparr>"

lemma low_pages_inv: "page_inv low_pages"
  by (simp add: low_pages_def rs_inv_def entries_def u32_max_def valid_range_def)

lemma low_pages_alloc:
  "\<exists>pa. allocate_page x86_64_model Size4KiB low_pages = Some (pa, Inr 8192)"
proof -
  have "count_ones (4096 :: u64) = 1" using count_ones_SIZE [of Size4KiB] by simp
  then show ?thesis
    by (simp add: allocate_page_def low_pages_def allocate_def allocate_prefer_def entries_def Let_def checked_add_def
        usize_max_def remove_range_def remove_loop.simps overlaps_def ordered_range_def contains_def saturating_add_def
        page_of_start_def x86_64_model_def canonical_def)
qed

theorem pages_unique_witness:
  "\<exists>pa. (page_step x86_64_model)\<^sup>*\<^sup>* (low_pages, []) (pa, [(8192, Size4KiB)]) \<and> disjoint_pages [(8192, Size4KiB)]"
  using pages_unique [OF virt_documented_model low_pages_inv] low_pages_alloc step_allocate_page by blast

text \<open>
  (C10) A block of 2MiB or 1GiB pages with a head guard can never be allocated: the alignment that the
  code asks for, the page size less 4KiB, is not a power of two, which the range set refuses. The call
  returns \<open>OutOfPages\<close> whatever is free (or panics, when the size overflows).
\<close>

theorem guarded_huge_pages_fail:
  assumes "S \<noteq> Size4KiB"
  shows "allocate_guarded_pages X S count True tail pa \<in> {None, Some (pa, Inl OutOfPages)}"
proof -
  have "count_ones (2093056 :: u64) \<noteq> 1" "count_ones (1073737728 :: u64) \<noteq> 1" by code_simp+
  then have "count_ones (guarded_align S True) \<noteq> 1" using assms by (cases S) simp_all
  then have "allocate (vaddrs pa) n (guarded_align S True) = Some (vaddrs pa, None)" for n
    by (simp add: allocate_def allocate_prefer_def)
  then show ?thesis
    by (cases "guarded_size S count True tail") (simp_all add: allocate_guarded_pages_def)
qed

theorem guarded_huge_pages_fail_witness:
  "allocate_guarded_pages x86_64_model Size2MiB 1 True True low_pages \<in> {None, Some (low_pages, Inl OutOfPages)}"
  using guarded_huge_pages_fail [of Size2MiB x86_64_model 1 True low_pages] by simp

text \<open>
  Freeing consecutive pages makes exactly their addresses free again.
\<close>

lemma free_pages_correct:
  assumes "virt_documented X" "page_inv pa"
    "free_pages X \<lparr>first_page = p, page_size = S, page_count = count\<rparr> pa = Some pa'"
  shows "page_inv pa' \<and> free_vaddrs pa' = free_vaddrs pa \<union> (\<Union>P \<in> set (page_seq p S count). page_cells P)"
  using free_pages_loop_SomeD [OF assms(3) [unfolded free_pages_def] assms(1,2)]
  by (auto simp: pages_iter_def page_seq_def pages_list_def)

lemma low_pages_free:
  "\<exists>pa. free_pages x86_64_model \<lparr>first_page = 65536, page_size = Size4KiB, page_count = 1\<rparr> low_pages = Some pa"
proof -
  let ?ps = "\<lparr>first_page = 65536, page_size = Size4KiB, page_count = 1\<rparr>"
  obtain vs where "insert_range (vaddrs low_pages) \<lparr>rstart = 65536, rend = 69631\<rparr> = Some vs"
    using insert_range_None [OF low_pages_inv, of "\<lparr>rstart = 65536, rend = 69631\<rparr>"]
    by (auto simp: valid_range_def low_pages_def)
  then have "free_page Size4KiB 65536 low_pages = Some (low_pages\<lparr>vaddrs := vs\<rparr>)"
    by (simp add: free_page_def checked_add_def)
  moreover have "pages_next x86_64_model (pages_iter ?ps) = Some (\<lparr>iter_pages = ?ps, iter_index = 1\<rparr>, Some 65536)"
    by (simp add: pages_next_def pages_iter_def x86_64_model_def canonical_def checked_add_def)
  moreover have "pages_next x86_64_model \<lparr>iter_pages = ?ps, iter_index = 1\<rparr> = Some (\<lparr>iter_pages = ?ps, iter_index = 1\<rparr>, None)"
    by (simp add: pages_next_def)
  ultimately have "free_pages_loop x86_64_model (pages_iter ?ps) low_pages = Some (low_pages\<lparr>vaddrs := vs\<rparr>)"
    by (simp add: free_pages_loop.simps [of _ "\<lparr>iter_pages = ?ps, iter_index = 0\<rparr>"] free_pages_loop.simps [of _ "\<lparr>iter_pages = ?ps, iter_index = 1\<rparr>"]
        pages_iter_def del: free_pages_loop.simps)
  then show ?thesis by (simp add: free_pages_def del: free_pages_loop.simps)
qed

lemma front_end_low:
  assumes "unat (rstart ent) < 2 ^ 64 - 2 ^ 47"
  shows "front_end (SIZE S) (SIZE S) ent \<noteq> None"
proof -
  let ?pad = "(SIZE S - (rstart ent AND (SIZE S - 1))) AND (SIZE S - 1)"
  have "?pad \<le> SIZE S - 1" by (rule word_and_le1)
  then have p: "unat ?pad \<le> unat (SIZE S - 1)" by (simp add: word_le_nat_alt)
  have s: "unat (SIZE S - 1) \<le> 1073741824" by (cases S) simp_all
  then have "unat (rstart ent) + unat (SIZE S - 1) < 2 ^ 64" using assms by simp
  then obtain e where e: "checked_add (rstart ent) (SIZE S - 1) = Some e" "unat e = unat (rstart ent) + unat (SIZE S - 1)"
    by (simp add: checked_add_def unat_add_no_overflow)
  have "unat e + unat ?pad < 2 ^ 64" using e(2) s p assms by simp
  then have "checked_add e ?pad \<noteq> None" by (simp add: checked_add_def)
  then show ?thesis using e(1) by (simp add: front_end_def)
qed

text \<open>
  (C11) The free addresses of the allocator reach up to 2 ^ 48, but those from 2 ^ 47 on are not canonical. When no canonical address is
  left, the allocation of a page of any size is an error only if no entry has room for the page; otherwise it panics in \<open>VirtAddr::new\<close>.
\<close>

theorem upper_half_panics:
  assumes "virt_documented X" "page_inv pa" "\<forall>a \<in> free_vaddrs pa. \<not> canonical a"
  shows "allocate_page X S pa = (if \<exists>ent \<in> set (entries (vaddrs pa)). front_fits (SIZE S) (SIZE S) ent then None else Some (pa, Inl OutOfPages))"
proof -
  obtain rs res where a: "allocate (vaddrs pa) (SIZE S) (SIZE S) = Some (rs, res)"
    using allocate_prefer_total [OF assms(2), of Any "SIZE S" "SIZE S"] by (auto simp: allocate_def)
  note d = allocate_prefer_SomeD [OF assms(2) _ a [unfolded allocate_def]]
  have "unat (rstart ent) < 2 ^ 64 - 2 ^ 47" if "ent \<in> set (entries (vaddrs pa))" for ent
  proof -
    have "rstart ent \<in> free_vaddrs pa" using that assms(2) by (force simp: cover_def cells_def rs_inv_def separated_def valid_range_def)
    then show ?thesis using assms(3) by (auto simp: canonical_def)
  qed
  moreover have "SIZE S \<noteq> 0" by (cases S) simp_all
  ultimately have fits: "res \<noteq> None \<longleftrightarrow> (\<exists>ent \<in> set (entries (vaddrs pa)). front_fits (SIZE S) (SIZE S) ent)"
    using allocate_result_iff [OF assms(2) a] front_end_low count_ones_SIZE [of S] by auto
  show ?thesis
  proof (cases res)
    case None
    then show ?thesis using a fits d(4) by (simp add: allocate_page_def)
  next
    case (Some p)
    then have "allocated (vaddrs pa) (SIZE S) (SIZE S) Any rs p" using d(4) by simp
    then have "p \<le> p + (SIZE S - 1)" "block_at p (SIZE S) \<subseteq> free_vaddrs pa"
      by (auto simp: allocated_def word_le_nat_alt unat_add_no_overflow)
    then have "p \<in> free_vaddrs pa" by (auto simp: block_at_def)
    then have "page_of_start X S p = None" using assms(1,3) page_of_start_Some [of X S p] by (cases "page_of_start X S p") auto
    then show ?thesis using a fits Some by (simp add: allocate_page_def)
  qed
qed

definition upper_half :: PageAllocator where
  "upper_half = \<lparr>vaddrs = \<lparr>ranges = [\<lparr>rstart = 0x0000800000000000, rend = MAX_VIRT_ADDR\<rparr>], in_use = 1\<rparr>\<rparr>"

theorem upper_half_panics_witness:
  "allocate_page x86_64_model Size2MiB upper_half = None"
proof -
  have inv: "page_inv upper_half" by (simp add: upper_half_def rs_inv_def entries_def u32_max_def valid_range_def MAX_VIRT_ADDR_def)
  have free: "\<forall>a \<in> free_vaddrs upper_half. \<not> canonical a"
    by (auto simp: upper_half_def entries_def cells_def canonical_def MAX_VIRT_ADDR_def word_le_nat_alt)
  have "front_end (SIZE Size2MiB) (SIZE Size2MiB) \<lparr>rstart = 0x0000800000000000, rend = MAX_VIRT_ADDR\<rparr> = Some 0x00008000001FFFFF"
    by (simp add: front_end_def checked_add_def)
  then have "front_fits (SIZE Size2MiB) (SIZE Size2MiB) \<lparr>rstart = 0x0000800000000000, rend = MAX_VIRT_ADDR\<rparr>" by (simp add: front_fits_def MAX_VIRT_ADDR_def)
  then show ?thesis using upper_half_panics [OF virt_documented_model inv free, of Size2MiB] by (simp add: upper_half_def entries_def)
qed

end
