(* ===== verification/Page_Table.thy ===== *)
theory Page_Table
  imports Page_Allocator
begin

text \<open>
  The kernel page table of \<open>wasabi-kernel/src/mem/page_table.rs\<close>, the mapping of guarded pages in
  \<open>mem/structs.rs\<close>, and the stacks of application processors in \<open>cpu/apic/ap_startup.rs\<close>, which
  use the frame allocator, the page allocator and the page table together. The trait \<open>Mapper\<close> of the
  crate \<open>x86_64\<close> is a record of functions; \<open>mapper_documented\<close> is what the crate promises of them.
\<close>

section \<open>Page table\<close>

subsection \<open>The mapper of the crate\<close>

datatype MapToError = MapFrameAllocationFailed | MapParentEntryHugePage | PageAlreadyMapped u64

datatype UnmapError = UnmapParentEntryHugePage | UnmapPageNotMapped | UnmapInvalidFrameAddress u64

datatype FlagUpdateError = FlagPageNotMapped | FlagParentEntryHugePage

datatype UnmappedFrame = Present u64 u64 | NotPresent u64

record 'pt Mapper =
  map_to_with_table_flags ::
    "PageSize \<Rightarrow> u64 \<Rightarrow> u64 \<Rightarrow> u64 \<Rightarrow> u64 \<Rightarrow> 'pt \<Rightarrow> FrameAllocator
      \<Rightarrow> ('pt \<times> FrameAllocator \<times> (MapToError + unit)) run"
  mapper_unmap :: "PageSize \<Rightarrow> u64 \<Rightarrow> 'pt \<Rightarrow> ('pt \<times> (UnmapError + u64 \<times> u64)) run"
  mapper_update_flags :: "PageSize \<Rightarrow> u64 \<Rightarrow> u64 \<Rightarrow> 'pt \<Rightarrow> ('pt \<times> (FlagUpdateError + unit)) run"
  mapper_clear :: "PageSize \<Rightarrow> u64 \<Rightarrow> 'pt \<Rightarrow> ('pt \<times> (UnmapError + UnmappedFrame)) run"

definition PRESENT :: u64 where
  "PRESENT = 1"

definition WRITABLE :: u64 where
  "WRITABLE = 2"

definition NO_CACHE :: u64 where
  "NO_CACHE = 16"

definition GUARD :: u64 where
  "GUARD = 512"

definition NO_EXECUTE :: u64 where
  "NO_EXECUTE = 0x8000000000000000"

definition PRESENT_OR_USED :: u64 where
  "PRESENT_OR_USED = PRESENT OR GUARD"

definition KERNEL_TABLE_FLAGS :: u64 where
  "KERNEL_TABLE_FLAGS = PRESENT OR WRITABLE"

subsection \<open>The wrapper\<close>

record 'pt PageTable =
  inner :: 'pt

definition page_table_new :: "'pt \<Rightarrow> 'pt PageTable" where
  "page_table_new pt = \<lparr>inner = pt\<rparr>"

fun from_flag_update_error :: "FlagUpdateError \<Rightarrow> PageTableMapError" where
  "from_flag_update_error FlagPageNotMapped = FlagUpdateNotMapped"
| "from_flag_update_error FlagParentEntryHugePage = FlagUpdateHuge"

fun from_unmap_error :: "UnmapError \<Rightarrow> PageTableMapError" where
  "from_unmap_error UnmapParentEntryHugePage = ParentEntryHugePage"
| "from_unmap_error UnmapPageNotMapped = PageNotMapped"
| "from_unmap_error (UnmapInvalidFrameAddress paddr) = InvalidFrameAddress paddr"

fun from_map_to_error :: "PageSize \<Rightarrow> MapToError \<Rightarrow> PageTableMapError" where
  "from_map_to_error S MapFrameAllocationFailed = FrameAllocationFailed"
| "from_map_to_error S MapParentEntryHugePage = ParentEntryHugePage"
| "from_map_to_error Size4KiB (PageAlreadyMapped f) = PageAllreadyMapped4k f"
| "from_map_to_error Size2MiB (PageAlreadyMapped f) = PageAllreadyMapped2m f"
| "from_map_to_error Size1GiB (PageAlreadyMapped f) = PageAllreadyMapped1g f"

definition map_kernel ::
  "'pt Mapper \<Rightarrow> PageSize \<Rightarrow> u64 \<Rightarrow> u64 \<Rightarrow> u64 \<Rightarrow> 'pt PageTable \<Rightarrow> FrameAllocator
    \<Rightarrow> ('pt PageTable \<times> FrameAllocator \<times> (PageTableMapError + unit)) run" where
  "map_kernel M S page frame flags pt fa = do {
     (pt', fa', r) \<leftarrow> map_to_with_table_flags M S page frame flags KERNEL_TABLE_FLAGS (inner pt) fa;
     Some (pt\<lparr>inner := pt'\<rparr>, fa', map_sum (from_map_to_error S) id r)
   }"

definition unmap_kernel :: "'pt Mapper \<Rightarrow> PageSize \<Rightarrow> u64 \<Rightarrow> 'pt PageTable \<Rightarrow> ('pt PageTable \<times> (PageTableMapError + u64 \<times> u64)) run" where
  "unmap_kernel M S page pt = do {
     (pt', r) \<leftarrow> mapper_unmap M S page (inner pt);
     Some (pt\<lparr>inner := pt'\<rparr>, map_sum from_unmap_error id r)
   }"

definition update_flags :: "'pt Mapper \<Rightarrow> PageSize \<Rightarrow> u64 \<Rightarrow> u64 \<Rightarrow> 'pt PageTable \<Rightarrow> ('pt PageTable \<times> (PageTableMapError + unit)) run" where
  "update_flags M S page flags pt = do {
     (pt', r) \<leftarrow> mapper_update_flags M S page flags (inner pt);
     Some (pt\<lparr>inner := pt'\<rparr>, map_sum from_flag_update_error id r)
   }"

definition clear_kernel :: "'pt Mapper \<Rightarrow> PageSize \<Rightarrow> u64 \<Rightarrow> 'pt PageTable \<Rightarrow> ('pt PageTable \<times> (PageTableMapError + UnmappedFrame)) run" where
  "clear_kernel M S page pt = do {
     (pt', r) \<leftarrow> mapper_clear M S page (inner pt);
     Some (pt\<lparr>inner := pt'\<rparr>, map_sum from_unmap_error id r)
   }"

subsection \<open>Addresses through the recursive entry\<close>

definition l4_table_vaddr :: "x86_64 \<Rightarrow> u64 \<Rightarrow> u64 run" where
  "l4_table_vaddr X r = VirtAddr_new X (vaddr_of_indices r r r r)"

definition l3_table_vaddr :: "x86_64 \<Rightarrow> u64 \<Rightarrow> u64 \<Rightarrow> u64 run" where
  "l3_table_vaddr X r l4 = VirtAddr_new X (vaddr_of_indices r r r l4)"

definition l2_table_vaddr :: "x86_64 \<Rightarrow> u64 \<Rightarrow> u64 \<Rightarrow> u64 \<Rightarrow> u64 run" where
  "l2_table_vaddr X r l4 l3 = VirtAddr_new X (vaddr_of_indices r r l4 l3)"

definition l1_table_vaddr :: "x86_64 \<Rightarrow> u64 \<Rightarrow> u64 \<Rightarrow> u64 \<Rightarrow> u64 \<Rightarrow> u64 run" where
  "l1_table_vaddr X r l4 l3 l2 = VirtAddr_new X (vaddr_of_indices r l4 l3 l2)"

definition p4_index :: "u64 \<Rightarrow> u64" where
  "p4_index a = drop_bit 39 a AND 511"

definition recursive_index_of :: "x86_64 \<Rightarrow> u64 \<Rightarrow> u64 run" where
  "recursive_index_of X level_4_table = do {
     vaddr \<leftarrow> VirtAddr_new X level_4_table;
     Some (p4_index (containing_address X Size4KiB vaddr))
   }"

section \<open>Guarded pages\<close>

subsection \<open>Loops over pages\<close>

text \<open>\<open>for page in pages.iter()\<close> with a body that may return early with an error.\<close>

function for_pages :: "x86_64 \<Rightarrow> (u64 \<Rightarrow> 's \<Rightarrow> ('s \<times> ('e + unit)) run) \<Rightarrow> PagesIter \<Rightarrow> 's \<Rightarrow> ('s \<times> ('e + unit)) run" where
  "for_pages X body it s =
     (case pages_next X it of
        None \<Rightarrow> None
      | Some (it', None) \<Rightarrow> Some (s, Inr ())
      | Some (it', Some page) \<Rightarrow>
          (case body page s of
             None \<Rightarrow> None
           | Some (s', Inl e) \<Rightarrow> Some (s', Inl e)
           | Some (s', Inr _) \<Rightarrow> for_pages X body it' s'))"
  by pat_completeness auto
termination
  by (relation "measure (\<lambda>(X, body, it, s). unat (page_count (iter_pages it)) - unat (iter_index it))")
    (auto dest: pages_next_index)

declare for_pages.simps [simp del]

subsection \<open>Mapping and unmapping\<close>

type_synonym 'pt paging = "FrameAllocator \<times> 'pt PageTable"

definition map_page :: "x86_64 \<Rightarrow> 'pt Mapper \<Rightarrow> PageSize \<Rightarrow> u64 \<Rightarrow> u64 \<Rightarrow> 'pt paging \<Rightarrow> ('pt paging \<times> (MemError + unit)) run" where
  "map_page X M S flags page s = do {
     (fa1, r) \<leftarrow> frame_alloc X S (fst s);
     (case r of
        Inl e \<Rightarrow> Some ((fa1, snd s), Inl e)
      | Inr frame \<Rightarrow> do {
          (pt, fa2, r') \<leftarrow> map_kernel M S page frame flags (snd s) fa1;
          Some ((fa2, pt), map_sum PageTableMap id r')
        })
   }"

definition map_guard :: "'pt Mapper \<Rightarrow> u64 option \<Rightarrow> u64 \<Rightarrow> 'pt paging \<Rightarrow> ('pt paging \<times> (MemError + unit)) run" where
  "map_guard M guard frame s =
     (case guard of
        None \<Rightarrow> Some (s, Inr ())
      | Some page \<Rightarrow> do {
          (pt, fa, r) \<leftarrow> map_kernel M Size4KiB page frame GUARD (snd s) (fst s);
          Some ((fa, pt), map_sum PageTableMap id r)
        })"

text \<open>The second half of \<open>map\<close>: the guards, when there are any, share the guard frame.\<close>

definition map_guards :: "bool \<Rightarrow> x86_64 \<Rightarrow> 'pt Mapper \<Rightarrow> GuardedPages \<Rightarrow> 'pt paging \<Rightarrow> ('pt paging \<times> (MemError + GuardedPages)) run" where
  "map_guards mem_backed X M gp s =
     (if head_guard gp = None \<and> tail_guard gp = None then Some (s, Inr gp)
      else do {
        (fa, r1) \<leftarrow> guard_frame mem_backed X (fst s);
        (case r1 of
           Inl e \<Rightarrow> Some ((fa, snd s), Inl e)
         | Inr frame \<Rightarrow> do {
             (s2, r2) \<leftarrow> map_guard M (head_guard gp) frame (fa, snd s);
             (case r2 of
                Inl e \<Rightarrow> Some (s2, Inl e)
              | Inr _ \<Rightarrow> do {
                  (s3, r3) \<leftarrow> map_guard M (tail_guard gp) frame s2;
                  Some (s3, case r3 of Inl e \<Rightarrow> Inl e | Inr _ \<Rightarrow> Inr gp)
                })
           })
      })"

definition guarded_map :: "bool \<Rightarrow> x86_64 \<Rightarrow> 'pt Mapper \<Rightarrow> GuardedPages \<Rightarrow> 'pt paging \<Rightarrow> ('pt paging \<times> (MemError + GuardedPages)) run" where
  "guarded_map mem_backed X M gp s = do {
     let flags = WRITABLE OR PRESENT OR NO_EXECUTE;
     (s1, r) \<leftarrow> for_pages X (map_page X M (page_size (guarded gp)) flags) (pages_iter (guarded gp)) s;
     (case r of
        Inl e \<Rightarrow> Some (s1, Inl e)
      | Inr _ \<Rightarrow> map_guards mem_backed X M gp s1)
   }"

definition unmap_page :: "'pt Mapper \<Rightarrow> PageSize \<Rightarrow> u64 \<Rightarrow> 'pt paging \<Rightarrow> ('pt paging \<times> (PageTableMapError + unit)) run" where
  "unmap_page M S page s = do {
     (pt, r) \<leftarrow> unmap_kernel M S page (snd s);
     (case r of
        Inl e \<Rightarrow> Some ((fst s, pt), Inl e)
      | Inr (frame, flags) \<Rightarrow> do {
          fa \<leftarrow> frame_free S frame (fst s);
          Some ((fa, pt), Inr ())
        })
   }"

text \<open>The guard pages are cleared; an entry that is present fails the assertion.\<close>

definition unmap_guard :: "'pt Mapper \<Rightarrow> u64 option \<Rightarrow> 'pt paging \<Rightarrow> ('pt paging \<times> (PageTableMapError + unit)) run" where
  "unmap_guard M guard s =
     (case guard of
        None \<Rightarrow> Some (s, Inr ())
      | Some page \<Rightarrow> do {
          (pt, r) \<leftarrow> clear_kernel M Size4KiB page (snd s);
          (case r of
             Inl e \<Rightarrow> Some ((fst s, pt), Inl e)
           | Inr (Present frame flags) \<Rightarrow> None
           | Inr (NotPresent entry) \<Rightarrow> Some ((fst s, pt), Inr ()))
        })"

definition guarded_unmap :: "x86_64 \<Rightarrow> 'pt Mapper \<Rightarrow> GuardedPages \<Rightarrow> 'pt paging \<Rightarrow> ('pt paging \<times> (PageTableMapError + GuardedPages)) run" where
  "guarded_unmap X M gp s = do {
     (s1, r1) \<leftarrow> for_pages X (unmap_page M (page_size (guarded gp))) (pages_iter (guarded gp)) s;
     (case r1 of
        Inl e \<Rightarrow> Some (s1, Inl e)
      | Inr _ \<Rightarrow> do {
          (s2, r2) \<leftarrow> unmap_guard M (head_guard gp) s1;
          (case r2 of
             Inl e \<Rightarrow> Some (s2, Inl e)
           | Inr _ \<Rightarrow> do {
               (s3, r3) \<leftarrow> unmap_guard M (tail_guard gp) s2;
               Some (s3, case r3 of Inl e \<Rightarrow> Inl e | Inr _ \<Rightarrow> Inr gp)
             })
        })
   }"

section \<open>Stacks of application processors\<close>


datatype ApStackError = Alloc MemError | StackAlreadyExists

definition STACK_ALIGN :: u64 where
  "STACK_ALIGN = 16"

definition DEFAULT_STACK_SIZE :: u64 where
  "DEFAULT_STACK_SIZE = 80 * 1024"

definition DEFAULT_STACK_PAGE_COUNT :: u64 where
  "DEFAULT_STACK_PAGE_COUNT = DEFAULT_STACK_SIZE div SIZE Size4KiB"

text \<open>
  The kernel state the stacks are made of: the three locks, and the static \<open>AP_STACK_PTR\<close>, through
  which the address of the next stack is passed to the core that starts.
\<close>

record 'pt ap_state =
  ap_pages :: PageAllocator
  ap_paging :: "'pt paging"
  AP_STACK_PTR :: u64

definition compare_exchange_ptr :: "u64 \<Rightarrow> u64 \<Rightarrow> 'pt ap_state \<Rightarrow> 'pt ap_state \<times> bool" where
  "compare_exchange_ptr expected new st =
     (if AP_STACK_PTR st = expected then (st\<lparr>AP_STACK_PTR := new\<rparr>, True) else (st, False))"

definition unmap_and_free :: "x86_64 \<Rightarrow> 'pt Mapper \<Rightarrow> GuardedPages \<Rightarrow> 'pt ap_state \<Rightarrow> 'pt ap_state run" where
  "unmap_and_free X M pages st = do {
     (s, r) \<leftarrow> guarded_unmap X M pages (ap_paging st);
     let st' = st\<lparr>ap_paging := s\<rparr>;
     (case r of
        Inl e \<Rightarrow> Some st'
      | Inr unmapped \<Rightarrow> do {
          pa \<leftarrow> free_guarded_pages X unmapped (ap_pages st');
          Some (st'\<lparr>ap_pages := pa\<rparr>)
        })
   }"

definition stack_alloc :: "bool \<Rightarrow> x86_64 \<Rightarrow> 'pt Mapper \<Rightarrow> 'pt ap_state \<Rightarrow> ('pt ap_state \<times> (ApStackError + GuardedPages)) run" where
  "stack_alloc mem_backed X M st = do {
     (pa, r) \<leftarrow> allocate_guarded_pages X Size4KiB DEFAULT_STACK_PAGE_COUNT True True (ap_pages st);
     let st1 = st\<lparr>ap_pages := pa\<rparr>;
     (case r of
        Inl e \<Rightarrow> Some (st1, Inl (Alloc e))
      | Inr gp \<Rightarrow> do {
          (s, r') \<leftarrow> guarded_map mem_backed X M gp (ap_paging st1);
          let st2 = st1\<lparr>ap_paging := s\<rparr>;
          (case r' of
             Inl e \<Rightarrow> Some (st2, Inl (Alloc e))
           | Inr pages \<Rightarrow> do {
               let start = start_addr (guarded pages);
               last \<leftarrow> end_addr X (guarded pages);
               let stack_top = virt_align_down X last STACK_ALIGN;
               assert_that (virt_align_down X start STACK_ALIGN = start);
               assert_that (virt_align_down X stack_top STACK_ALIGN = stack_top);
               let (st3, ok) = compare_exchange_ptr 0 stack_top st2;
               (if ok then Some (st3, Inr pages)
                else do {
                  st4 \<leftarrow> unmap_and_free X M pages st3;
                  Some (st4, Inl StackAlreadyExists)
                })
             })
        })
   }"

text \<open>\<open>end\<close> and \<open>drop\<close> of \<open>ApStack\<close>.\<close>

definition stack_end :: "x86_64 \<Rightarrow> GuardedPages \<Rightarrow> u64 run" where
  "stack_end X pages = do { e \<leftarrow> end_addr X (guarded pages); virt_add X e 1 }"

definition stack_drop :: "x86_64 \<Rightarrow> 'pt Mapper \<Rightarrow> GuardedPages \<Rightarrow> 'pt ap_state \<Rightarrow> 'pt ap_state run" where
  "stack_drop X M pages st = do {
     e \<leftarrow> stack_end X pages;
     let (st', ok) = compare_exchange_ptr e 0 st;
     (if ok then unmap_and_free X M pages st' else Some st')
   }"

text \<open>\<open>find_stack\<close> in \<open>ap_entry\<close>: the pages of the stack, from the address the core got.\<close>

definition find_stack :: "x86_64 \<Rightarrow> u64 \<Rightarrow> Pages run" where
  "find_stack X stack_top = do {
     page_after_last \<leftarrow> from_start_address X Size4KiB (virt_align_up X stack_top (SIZE Size4KiB));
     start_page \<leftarrow> page_sub X Size4KiB page_after_last DEFAULT_STACK_PAGE_COUNT;
     Some \<lparr>first_page = start_page, page_size = Size4KiB, page_count = DEFAULT_STACK_PAGE_COUNT\<rparr>
   }"

section \<open>What the mapper promises\<close>

type_synonym mappings = "page \<Rightarrow> (u64 \<times> u64) option"

definition present_flags :: "u64 \<Rightarrow> bool" where
  "present_flags flags \<longleftrightarrow> bit flags 0"

text \<open>
  \<open>view\<close> are the entries of the page table that are in use: for a page its frame and its flags. A
  successful \<open>map_to\<close> adds the entry of an unused page, and an error adds none; page tables that are
  missing come from the frame allocator. \<open>unmap\<close> removes the entry of a present page and \<open>clear\<close>
  that of any page.
\<close>

definition paging_ok :: "FrameAllocator \<Rightarrow> bool" where
  "paging_ok fa \<longleftrightarrow> phys_inv (phys fa) \<and> addressable (free_memory (phys fa))"

definition map_to_documented :: "'pt Mapper \<Rightarrow> ('pt \<Rightarrow> mappings) \<Rightarrow> bool" where
  "map_to_documented M view \<longleftrightarrow> (\<forall>S page frame flags table_flags pt fa. paging_ok fa \<longrightarrow>
     (\<exists>pt' fa' r. map_to_with_table_flags M S page frame flags table_flags pt fa = Some (pt', fa', r)
       \<and> phys_inv (phys fa') \<and> guard_frame_cache fa' = guard_frame_cache fa
       \<and> (\<exists>ts. takes (free_memory (phys fa)) (free_memory (phys fa')) ts)
       \<and> (case r of
            Inl e \<Rightarrow> view pt' = view pt
          | Inr _ \<Rightarrow> view pt (page, S) = None \<and> view pt' = (view pt)((page, S) \<mapsto> (frame, flags)))))"

definition unmap_documented :: "'pt Mapper \<Rightarrow> ('pt \<Rightarrow> mappings) \<Rightarrow> bool" where
  "unmap_documented M view \<longleftrightarrow> (\<forall>S page pt. \<exists>pt' r. mapper_unmap M S page pt = Some (pt', r)
     \<and> (case r of
          Inl e \<Rightarrow> view pt' = view pt \<and> (\<forall>frame flags. view pt (page, S) = Some (frame, flags) \<longrightarrow> \<not> present_flags flags)
        | Inr (frame, flags) \<Rightarrow> view pt (page, S) = Some (frame, flags) \<and> present_flags flags
            \<and> view pt' = (view pt)((page, S) := None)))"

definition clear_documented :: "'pt Mapper \<Rightarrow> ('pt \<Rightarrow> mappings) \<Rightarrow> bool" where
  "clear_documented M view \<longleftrightarrow> (\<forall>S page pt. \<exists>pt' r. mapper_clear M S page pt = Some (pt', r)
     \<and> (case r of
          Inl e \<Rightarrow> view pt' = view pt \<and> view pt (page, S) = None
        | Inr (Present frame flags) \<Rightarrow> view pt (page, S) = Some (frame, flags) \<and> present_flags flags
            \<and> view pt' = (view pt)((page, S) := None)
        | Inr (NotPresent entry) \<Rightarrow> (\<forall>frame flags. view pt (page, S) = Some (frame, flags) \<longrightarrow> \<not> present_flags flags)
            \<and> view pt' = (view pt)((page, S) := None)))"

text \<open>A mapper over the entries themselves.\<close>

definition mapper_model :: "mappings Mapper" where
  "mapper_model = \<lparr>
     map_to_with_table_flags = (\<lambda>S page frame flags table_flags pt fa.
       case pt (page, S) of
         Some (f, fl) \<Rightarrow> Some (pt, fa, Inl (PageAlreadyMapped f))
       | None \<Rightarrow> Some (pt((page, S) \<mapsto> (frame, flags)), fa, Inr ())),
     mapper_unmap = (\<lambda>S page pt.
       case pt (page, S) of
         Some (f, fl) \<Rightarrow> if present_flags fl then Some (pt((page, S) := None), Inr (f, fl))
             else Some (pt, Inl UnmapPageNotMapped)
       | None \<Rightarrow> Some (pt, Inl UnmapPageNotMapped)),
     mapper_update_flags = (\<lambda>S page flags pt.
       case pt (page, S) of
         Some (f, fl) \<Rightarrow> Some (pt((page, S) \<mapsto> (f, flags)), Inr ())
       | None \<Rightarrow> Some (pt, Inl FlagPageNotMapped)),
     mapper_clear = (\<lambda>S page pt.
       case pt (page, S) of
         Some (f, fl) \<Rightarrow> if present_flags fl then Some (pt((page, S) := None), Inr (Present f fl))
             else Some (pt((page, S) := None), Inr (NotPresent fl))
       | None \<Rightarrow> Some (pt, Inr (NotPresent 0)))\<rparr>"

lemma mapper_model_map: "map_to_documented mapper_model id"
proof -
  have "\<exists>pt' fa' r. map_to_with_table_flags mapper_model S page frame flags table_flags pt fa = Some (pt', fa', r)
      \<and> phys_inv (phys fa') \<and> guard_frame_cache fa' = guard_frame_cache fa
      \<and> (\<exists>ts. takes (free_memory (phys fa)) (free_memory (phys fa')) ts)
      \<and> (case r of Inl e \<Rightarrow> id pt' = id pt
         | Inr _ \<Rightarrow> id pt (page, S) = None \<and> id pt' = (id pt)((page, S) \<mapsto> (frame, flags)))"
    if "paging_ok fa" for S page frame flags table_flags pt fa
    using that takes_empty [of "free_memory (phys fa)"]
    by (cases "pt (page, S)") (auto simp: mapper_model_def paging_ok_def)
  then show ?thesis by (simp only: map_to_documented_def) blast
qed

lemma mapper_model_unmap: "unmap_documented mapper_model id"
  by (simp add: unmap_documented_def mapper_model_def split: option.split)

lemma mapper_model_clear: "clear_documented mapper_model id"
  by (auto simp: clear_documented_def mapper_model_def split: option.split)

section \<open>Loops over pages\<close>

fun try_each :: "('a \<Rightarrow> 's \<Rightarrow> ('s \<times> ('e + unit)) run) \<Rightarrow> 'a list \<Rightarrow> 's \<Rightarrow> ('s \<times> ('e + unit)) run" where
  "try_each body [] s = Some (s, Inr ())"
| "try_each body (x # xs) s =
     (case body x s of
        None \<Rightarrow> None
      | Some (s', Inl e) \<Rightarrow> Some (s', Inl e)
      | Some (s', Inr _) \<Rightarrow> try_each body xs s')"

definition pages_valid :: "x86_64 \<Rightarrow> Pages \<Rightarrow> bool" where
  "pages_valid X ps \<longleftrightarrow>
     (\<forall>i < unat (page_count ps). page_add X (page_size ps) (first_page ps) (word_of_nat i) = Some (page_at ps i))"

lemma for_pages_from:
  assumes "pages_valid X ps" "k \<le> unat (page_count ps)"
  shows "for_pages X body \<lparr>iter_pages = ps, iter_index = word_of_nat k\<rparr> s = try_each body (map (page_at ps) [k..<unat (page_count ps)]) s"
  using assms(2)
proof (induction "unat (page_count ps) - k" arbitrary: k s)
  case 0
  then have "k = unat (page_count ps)" by simp
  then show ?case by (simp add: for_pages.simps [of X body "\<lparr>iter_pages = ps, iter_index = _\<rparr>"] pages_next_def)
next
  case (Suc n)
  then have k: "k < unat (page_count ps)" by simp
  then have u: "unat (word_of_nat k :: u64) = k"
    using word_unat_lt [of "page_count ps"] by (intro unat_of_nat_eq_u64) simp
  have "pages_next X \<lparr>iter_pages = ps, iter_index = word_of_nat k\<rparr>
      = Some (\<lparr>iter_pages = ps, iter_index = word_of_nat (Suc k)\<rparr>, Some (page_at ps k))"
  proof -
    have "checked_add (word_of_nat k :: u64) 1 = Some (word_of_nat k + 1)"
      using k u word_unat_lt [of "page_count ps"] by (simp add: checked_add_def)
    moreover have "\<not> page_count ps \<le> word_of_nat k" using k u by (simp add: word_le_nat_alt)
    moreover have "word_of_nat k + 1 = (word_of_nat (Suc k) :: u64)" by (simp add: add.commute)
    ultimately show ?thesis using k assms(1) by (simp add: pages_next_def pages_valid_def)
  qed
  moreover have "[k..<unat (page_count ps)] = k # [Suc k..<unat (page_count ps)]" using k by (rule upt_conv_Cons)
  moreover note Suc.hyps(1) [of "Suc k"] Suc.hyps(2) k
  ultimately show ?case
    by (simp add: for_pages.simps [of X body "\<lparr>iter_pages = ps, iter_index = word_of_nat k\<rparr>"] split: option.split sum.split)
qed

lemma for_pages_list:
  "pages_valid X ps \<Longrightarrow> for_pages X body (pages_iter ps) s = try_each body (pages_list ps) s"
  using for_pages_from [of X ps 0 body s] by (simp add: pages_iter_def pages_list_def)

section \<open>Mapping\<close>

lemma pool_inv_mono: "pool_inv F out \<Longrightarrow> F' \<subseteq> F \<Longrightarrow> pool_inv F' out"
  by (auto simp: pool_inv_def)

lemma addressable_mono: "addressable F \<Longrightarrow> F' \<subseteq> F \<Longrightarrow> addressable F'"
  by (auto simp: addressable_def)

lemma takes_subset: "takes F F' ps \<Longrightarrow> F' \<subseteq> F"
  by (simp add: takes_def)

text \<open>One frame: it is new for every client, and the frame allocator stays well formed.\<close>

lemma frame_alloc_cases:
  assumes "crate_documented X" "paging_ok fa"
  shows "\<exists>fa' r. frame_alloc X S fa = Some (fa', r) \<and> paging_ok fa' \<and> guard_frame_cache fa' = guard_frame_cache fa
    \<and> (case r of Inl e \<Rightarrow> fa' = fa \<and> e = OutOfMemory
        | Inr f \<Rightarrow> takes (free_memory (phys fa)) (free_memory (phys fa')) [(f, S)])"
proof -
  have inv: "phys_inv (phys fa)" "addressable (free_memory (phys fa))" using assms(2) by (simp_all add: paging_ok_def)
  obtain pa r where a: "phys_alloc_in_range X S Any (phys fa) = Some (pa, r)"
    using phys_alloc_in_range_total [OF assms(1) inv, of Any S] by fastforce
  note d = phys_alloc_in_range_SomeD(1,2) [OF a assms(1) inv(1)]
  have "addressable (free_memory pa)"
    using d(2) inv(2) by (cases r) (auto intro: addressable_mono dest: takes_subset)
  with a d show ?thesis
    by (cases r) (auto simp: frame_alloc_def alloc_no_stats_def phys_alloc_is_any paging_ok_def)
qed

lemma guard_frame_cases:
  assumes "crate_documented X" "paging_ok fa"
  shows "\<exists>fa' r. guard_frame mem_backed X fa = Some (fa', r) \<and> paging_ok fa'
    \<and> free_memory (phys fa') \<subseteq> free_memory (phys fa)"
proof (cases "mem_backed \<and> guard_frame_cache fa = None")
  case True
  obtain fa' r where "frame_alloc X Size4KiB fa = Some (fa', r)" "paging_ok fa'"
    "case r of Inl e \<Rightarrow> fa' = fa \<and> e = OutOfMemory
     | Inr f \<Rightarrow> takes (free_memory (phys fa)) (free_memory (phys fa')) [(f, Size4KiB)]"
    using frame_alloc_cases [OF assms, of Size4KiB] by blast
  with True show ?thesis
    by (cases r) (auto simp: guard_frame_def frame_alloc_def paging_ok_def dest: takes_subset)
next
  case False
  with assms(2) show ?thesis by (auto simp: guard_frame_def split: option.split)
qed

lemma map_to_documentedD:
  assumes "map_to_documented M view" "paging_ok fa"
  shows "\<exists>pt' fa' r. map_to_with_table_flags M S page frame flags table_flags pt fa = Some (pt', fa', r)
       \<and> phys_inv (phys fa') \<and> guard_frame_cache fa' = guard_frame_cache fa
       \<and> (\<exists>ts. takes (free_memory (phys fa)) (free_memory (phys fa')) ts)
       \<and> (case r of
            Inl e \<Rightarrow> view pt' = view pt
          | Inr _ \<Rightarrow> view pt (page, S) = None \<and> view pt' = (view pt)((page, S) \<mapsto> (frame, flags)))"
  using assms by (simp only: map_to_documented_def)

lemma map_kernel_cases:
  assumes "map_to_documented M view" "paging_ok fa"
  shows "\<exists>pt' fa' r. map_kernel M S page frame flags pt fa = Some (pt', fa', r) \<and> paging_ok fa'
    \<and> free_memory (phys fa') \<subseteq> free_memory (phys fa)
    \<and> (case r of Inl e \<Rightarrow> view (inner pt') = view (inner pt)
        | Inr _ \<Rightarrow> view (inner pt) (page, S) = None
            \<and> view (inner pt') = (view (inner pt))((page, S) \<mapsto> (frame, flags)))"
proof -
  from assms obtain pt' fa' r where
    m: "map_to_with_table_flags M S page frame flags KERNEL_TABLE_FLAGS (inner pt) fa = Some (pt', fa', r)"
    and fa': "phys_inv (phys fa')" "free_memory (phys fa') \<subseteq> free_memory (phys fa)"
    and r: "case r of Inl e \<Rightarrow> view pt' = view (inner pt)
        | Inr _ \<Rightarrow> view (inner pt) (page, S) = None \<and> view pt' = (view (inner pt))((page, S) \<mapsto> (frame, flags))"
    using map_to_documentedD [OF assms, of S page frame flags KERNEL_TABLE_FLAGS "inner pt"] takes_subset by blast
  have "paging_ok fa'" using fa' assms(2) by (auto simp: paging_ok_def intro: addressable_mono)
  with m fa' r show ?thesis by (cases r) (auto simp: map_kernel_def)
qed

definition frame_ok :: "u64 \<Rightarrow> PageSize \<Rightarrow> bool" where
  "frame_ok f S \<longleftrightarrow> page_ok (f, S) \<and> unat f < 2 ^ 52"

text \<open>The entries after the pages \<open>ps\<close> got the frames \<open>fs\<close>, as far as there are frames.\<close>

definition map_frames :: "mappings \<Rightarrow> PageSize \<Rightarrow> u64 \<Rightarrow> u64 list \<Rightarrow> u64 list \<Rightarrow> mappings" where
  "map_frames v S flags ps fs = fold (\<lambda>(p, f) v. v((p, S) \<mapsto> (f, flags))) (zip ps fs) v"

lemma map_frames_Cons: "map_frames v S flags (p # ps) (f # fs) = map_frames (v((p, S) \<mapsto> (f, flags))) S flags ps fs"
  by (simp add: map_frames_def)

lemma map_frames_Nil: "map_frames v S flags ps [] = v"
  by (simp add: map_frames_def)

lemma takes_frame_ok:
  assumes "takes F F' [(f, S)]" "addressable F"
  shows "frame_ok f S"
proof -
  have "page_ok (f, S)" "page_cells (f, S) \<subseteq> F" using assms(1) by (simp_all add: takes_def disjoint_pages_def)
  then show ?thesis using page_cells_start [of f S] assms(2) by (auto simp: frame_ok_def addressable_def)
qed

lemma map_page_cases:
  assumes "crate_documented X" "map_to_documented M view" "paging_ok fa" "pool_inv (free_memory (phys fa)) out"
  shows "\<exists>fa' pt' r. map_page X M S flags page (fa, pt) = Some ((fa', pt'), r) \<and> paging_ok fa'
    \<and> (case r of
         Inl e \<Rightarrow> view (inner pt') = view (inner pt) \<and> pool_inv (free_memory (phys fa')) out
       | Inr _ \<Rightarrow> \<exists>f. frame_ok f S \<and> view (inner pt) (page, S) = None
           \<and> view (inner pt') = (view (inner pt))((page, S) \<mapsto> (f, flags))
           \<and> pool_inv (free_memory (phys fa')) ((f, S) # out))"
proof -
  obtain fa1 r1 where a: "frame_alloc X S fa = Some (fa1, r1)" "paging_ok fa1"
    "case r1 of Inl e \<Rightarrow> fa1 = fa \<and> e = OutOfMemory
     | Inr f \<Rightarrow> takes (free_memory (phys fa)) (free_memory (phys fa1)) [(f, S)]"
    using frame_alloc_cases [OF assms(1,3), of S] by blast
  show ?thesis
  proof (cases r1)
    case (Inl e)
    with a assms(4) show ?thesis by (simp add: map_page_def)
  next
    case (Inr f)
    then have t: "takes (free_memory (phys fa)) (free_memory (phys fa1)) [(f, S)]" using a(3) by simp
    have p1: "pool_inv (free_memory (phys fa1)) ((f, S) # out)" using pool_inv_takes [OF assms(4) t] by simp
    have p0: "pool_inv (free_memory (phys fa1)) out" using pool_inv_mono [OF assms(4) takes_subset [OF t]] .
    have f: "frame_ok f S" using takes_frame_ok [OF t] assms(3) by (simp add: paging_ok_def)
    obtain pt' fa' r where m: "map_kernel M S page f flags pt fa1 = Some (pt', fa', r)" "paging_ok fa'"
      "free_memory (phys fa') \<subseteq> free_memory (phys fa1)"
      "case r of Inl e \<Rightarrow> view (inner pt') = view (inner pt)
        | Inr _ \<Rightarrow> view (inner pt) (page, S) = None \<and> view (inner pt') = (view (inner pt))((page, S) \<mapsto> (f, flags))"
      using map_kernel_cases [OF assms(2) a(2), of S page f flags pt] by blast
    show ?thesis using a(1) Inr m f pool_inv_mono [OF p1 m(3)] pool_inv_mono [OF p0 m(3)]
      by (cases r) (auto simp: map_page_def)
  qed
qed

lemma map_pages_cases:
  assumes "crate_documented X" "map_to_documented M view" "paging_ok fa" "pool_inv (free_memory (phys fa)) out"
  shows "\<exists>fa' pt' r fs. try_each (map_page X M S flags) ps (fa, pt) = Some ((fa', pt'), r) \<and> paging_ok fa'
    \<and> length fs \<le> length ps \<and> (\<forall>f \<in> set fs. frame_ok f S)
    \<and> view (inner pt') = map_frames (view (inner pt)) S flags ps fs
    \<and> pool_inv (free_memory (phys fa')) (rev (map (\<lambda>f. (f, S)) fs) @ out)
    \<and> (r = Inr () \<longrightarrow> length fs = length ps \<and> distinct ps \<and> (\<forall>p \<in> set ps. view (inner pt) (p, S) = None))
    \<and> (\<forall>e. r = Inl e \<longrightarrow> length fs < length ps \<and> (\<exists>s. try_each (map_page X M S flags) (take (length fs) ps) (fa, pt) = Some (s, Inr ())
         \<and> map_page X M S flags (ps ! length fs) s = Some ((fa', pt'), Inl e)))"
  using assms(3,4)
proof (induction ps arbitrary: fa pt out)
  case Nil
  then show ?case by (auto simp: map_frames_Nil intro!: exI [of _ "[]"])
next
  case (Cons p ps)
  obtain fa1 pt1 r1 where m: "map_page X M S flags p (fa, pt) = Some ((fa1, pt1), r1)" "paging_ok fa1"
    "case r1 of
         Inl e \<Rightarrow> view (inner pt1) = view (inner pt) \<and> pool_inv (free_memory (phys fa1)) out
       | Inr _ \<Rightarrow> \<exists>f. frame_ok f S \<and> view (inner pt) (p, S) = None
           \<and> view (inner pt1) = (view (inner pt))((p, S) \<mapsto> (f, flags))
           \<and> pool_inv (free_memory (phys fa1)) ((f, S) # out)"
    using map_page_cases [OF assms(1,2) Cons.prems, of S flags p pt] by blast
  show ?case
  proof (cases r1)
    case (Inl e)
    with m show ?thesis by (auto simp: map_frames_Nil intro!: exI [of _ "[]"])
  next
    case (Inr u)
    then obtain f where f: "frame_ok f S" "view (inner pt) (p, S) = None"
      "view (inner pt1) = (view (inner pt))((p, S) \<mapsto> (f, flags))"
      "pool_inv (free_memory (phys fa1)) ((f, S) # out)" using m(3) by auto
    from Cons.IH [OF m(2) f(4), of pt1] obtain fa' pt' r fs where
      e: "try_each (map_page X M S flags) ps (fa1, pt1) = Some ((fa', pt'), r)" "paging_ok fa'"
      and fs: "length fs \<le> length ps" "\<forall>f \<in> set fs. frame_ok f S"
        "view (inner pt') = map_frames (view (inner pt1)) S flags ps fs"
        "pool_inv (free_memory (phys fa')) (rev (map (\<lambda>f. (f, S)) fs) @ (f, S) # out)"
        "r = Inr () \<longrightarrow> length fs = length ps \<and> distinct ps \<and> (\<forall>p \<in> set ps. view (inner pt1) (p, S) = None)"
        "\<forall>e. r = Inl e \<longrightarrow> length fs < length ps \<and> (\<exists>s. try_each (map_page X M S flags) (take (length fs) ps) (fa1, pt1) = Some (s, Inr ())
           \<and> map_page X M S flags (ps ! length fs) s = Some ((fa', pt'), Inl e))"
      by blast
    have "try_each (map_page X M S flags) (p # ps) (fa, pt) = Some ((fa', pt'), r)" using m(1) Inr e(1) by simp
    moreover have "r = Inr () \<longrightarrow> p \<notin> set ps \<and> (\<forall>q \<in> set ps. view (inner pt) (q, S) = None)"
      using fs(5) unfolding f(3) by (auto simp: fun_upd_def simp del: not_None_eq split: if_splits)
    moreover have "\<forall>e. r = Inl e \<longrightarrow> length (f # fs) < length (p # ps)
        \<and> (\<exists>s. try_each (map_page X M S flags) (take (length (f # fs)) (p # ps)) (fa, pt) = Some (s, Inr ())
           \<and> map_page X M S flags ((p # ps) ! length (f # fs)) s = Some ((fa', pt'), Inl e))"
      using fs(6) m(1) Inr by simp
    ultimately show ?thesis using e(2) fs(1-5) f by (intro exI [of _ fa'] exI [of _ pt'] exI [of _ r] exI [of _ "f # fs"])
      (auto simp: map_frames_Cons)
  qed
qed

section \<open>Unmapping\<close>

lemma frame_free_cases:
  assumes "phys_inv (phys fa)" "frame_ok f S" "in_use (memory_ranges (phys fa)) < length (ranges (memory_ranges (phys fa)))"
  shows "\<exists>fa'. frame_free S f fa = Some fa' \<and> phys_inv (phys fa')
    \<and> free_memory (phys fa') = free_memory (phys fa) \<union> page_cells (f, S)
    \<and> in_use (memory_ranges (phys fa')) \<le> Suc (in_use (memory_ranges (phys fa)))
    \<and> length (ranges (memory_ranges (phys fa'))) = length (ranges (memory_ranges (phys fa)))"
proof -
  have u: "unat f + unat (SIZE S) < 2 ^ 64" using assms(2) SIZE_units(4) [of S] by (simp add: frame_ok_def)
  then have c: "checked_add f (SIZE S) = Some (f + SIZE S)" "unat (f + SIZE S) = unat f + unat (SIZE S)"
    by (simp_all add: checked_add_def unat_add_no_overflow)
  have one: "1 \<le> f + SIZE S" using c(2) SIZE_units(2) [of S] by (simp add: word_le_nat_alt)
  then have "unat (f + SIZE S - 1) = unat f + unat (SIZE S) - 1" using c(2) by (simp add: unat_sub)
  then have "valid_range \<lparr>rstart = f, rend = f + SIZE S - 1\<rparr>"
    using SIZE_units(2) [of S] by (simp add: valid_range_def word_le_nat_alt)
  then obtain rs where i: "insert_range (memory_ranges (phys fa)) \<lparr>rstart = f, rend = f + SIZE S - 1\<rparr> = Some rs"
    using insert_range_None [OF assms(1), of "\<lparr>rstart = f, rend = f + SIZE S - 1\<rparr>"] assms(3) by auto
  then have p: "phys_free S f (phys fa) = Some ((phys fa)\<lparr>memory_ranges := rs\<rparr>)"
    using c(1) one by (simp add: phys_free_def checked_sub_def)
  show ?thesis using phys_free_SomeD [OF p assms(1)] insert_range_SomeD(3,4) [OF assms(1) i] p
    by (simp add: frame_free_def free_no_stats_def)
qed

lemma unmap_documentedD:
  assumes "unmap_documented M view"
  shows "\<exists>pt' r. mapper_unmap M S page pt = Some (pt', r)
     \<and> (case r of
          Inl e \<Rightarrow> view pt' = view pt \<and> (\<forall>frame flags. view pt (page, S) = Some (frame, flags) \<longrightarrow> \<not> present_flags flags)
        | Inr (frame, flags) \<Rightarrow> view pt (page, S) = Some (frame, flags) \<and> present_flags flags
            \<and> view pt' = (view pt)((page, S) := None))"
  using assms by (simp only: unmap_documented_def)

lemma unmap_kernel_present:
  assumes "unmap_documented M view" "view (inner pt) (page, S) = Some (f, flags)" "present_flags flags"
  shows "\<exists>pt'. unmap_kernel M S page pt = Some (pt', Inr (f, flags)) \<and> view (inner pt') = (view (inner pt))((page, S) := None)"
proof -
  obtain pt' r where "mapper_unmap M S page (inner pt) = Some (pt', r)"
    "case r of
          Inl e \<Rightarrow> view pt' = view (inner pt) \<and> (\<forall>frame flags. view (inner pt) (page, S) = Some (frame, flags) \<longrightarrow> \<not> present_flags flags)
        | Inr (frame, flags) \<Rightarrow> view (inner pt) (page, S) = Some (frame, flags) \<and> present_flags flags
            \<and> view pt' = (view (inner pt))((page, S) := None)"
    using unmap_documentedD [OF assms(1), of S page "inner pt"] by blast
  with assms(2,3) show ?thesis by (cases r) (auto simp: unmap_kernel_def)
qed

definition present_page :: "mappings \<Rightarrow> PageSize \<Rightarrow> u64 \<Rightarrow> bool" where
  "present_page v S p \<longleftrightarrow> (\<exists>f flags. v (p, S) = Some (f, flags) \<and> present_flags flags \<and> frame_ok f S)"

abbreviation entry_cells :: "mappings \<Rightarrow> PageSize \<Rightarrow> u64 \<Rightarrow> u64 set" where
  "entry_cells v S p \<equiv> page_cells (fst (the (v (p, S))), S)"

definition room :: "FrameAllocator \<Rightarrow> nat \<Rightarrow> bool" where
  "room fa n \<longleftrightarrow> in_use (memory_ranges (phys fa)) + n \<le> length (ranges (memory_ranges (phys fa)))"

lemma unmap_page_cases:
  assumes "unmap_documented M view" "phys_inv (phys fa)" "present_page (view (inner pt)) S p" "room fa (Suc n)"
  shows "\<exists>fa' pt'. unmap_page M S p (fa, pt) = Some ((fa', pt'), Inr ()) \<and> phys_inv (phys fa') \<and> room fa' n
    \<and> view (inner pt') = (view (inner pt))((p, S) := None)
    \<and> free_memory (phys fa') = free_memory (phys fa) \<union> entry_cells (view (inner pt)) S p"
proof -
  from assms(3) obtain f flags where e: "view (inner pt) (p, S) = Some (f, flags)" "present_flags flags" "frame_ok f S"
    by (auto simp: present_page_def)
  obtain pt' where u: "unmap_kernel M S p pt = Some (pt', Inr (f, flags))" "view (inner pt') = (view (inner pt))((p, S) := None)"
    using unmap_kernel_present [OF assms(1) e(1,2)] by blast
  obtain fa' where "frame_free S f fa = Some fa'" "phys_inv (phys fa')"
    "free_memory (phys fa') = free_memory (phys fa) \<union> page_cells (f, S)" "room fa' n"
    using frame_free_cases [OF assms(2) e(3)] assms(4) by (auto simp: room_def)
  with u e(1) show ?thesis by (simp add: unmap_page_def)
qed

lemma unmap_pages_cases:
  assumes "unmap_documented M view" "phys_inv (phys fa)" "\<forall>p \<in> set ps. present_page (view (inner pt)) S p"
    "distinct ps" "room fa (length ps)"
  shows "\<exists>fa' pt'. try_each (unmap_page M S) ps (fa, pt) = Some ((fa', pt'), Inr ()) \<and> phys_inv (phys fa')
    \<and> view (inner pt') = (\<lambda>q. if q \<in> (\<lambda>p. (p, S)) ` set ps then None else view (inner pt) q)
    \<and> free_memory (phys fa') = free_memory (phys fa) \<union> (\<Union>p \<in> set ps. entry_cells (view (inner pt)) S p)"
  using assms(2-)
proof (induction ps arbitrary: fa pt)
  case Nil
  then show ?case by simp
next
  case (Cons p ps)
  obtain fa1 pt1 where u: "unmap_page M S p (fa, pt) = Some ((fa1, pt1), Inr ())" "phys_inv (phys fa1)" "room fa1 (length ps)"
    "view (inner pt1) = (view (inner pt))((p, S) := None)"
    "free_memory (phys fa1) = free_memory (phys fa) \<union> entry_cells (view (inner pt)) S p"
    using unmap_page_cases [OF assms(1) Cons.prems(1), of pt S p "length ps"] Cons.prems(2,4) by auto
  have np: "q \<noteq> p" if "q \<in> set ps" for q using that Cons.prems(3) by auto
  then have "\<forall>q \<in> set ps. present_page (view (inner pt1)) S q" using Cons.prems(2) u(4) by (simp add: present_page_def)
  from Cons.IH [OF u(2) this _ u(3)] Cons.prems(3) obtain fa' pt' where
    e: "try_each (unmap_page M S) ps (fa1, pt1) = Some ((fa', pt'), Inr ())" "phys_inv (phys fa')"
      "view (inner pt') = (\<lambda>q. if q \<in> (\<lambda>p. (p, S)) ` set ps then None else view (inner pt1) q)"
      "free_memory (phys fa') = free_memory (phys fa1) \<union> (\<Union>p \<in> set ps. entry_cells (view (inner pt1)) S p)"
    by auto
  have "view (inner pt') = (\<lambda>q. if q \<in> (\<lambda>p. (p, S)) ` set (p # ps) then None else view (inner pt) q)"
    using e(3) u(4) by auto
  moreover have "(\<Union>q \<in> set ps. entry_cells (view (inner pt1)) S q) = (\<Union>q \<in> set ps. entry_cells (view (inner pt)) S q)"
    using np u(4) by simp
  then have "free_memory (phys fa') = free_memory (phys fa) \<union> (\<Union>q \<in> set (p # ps). entry_cells (view (inner pt)) S q)"
    using e(4) u(5) by auto
  ultimately show ?case using u(1) e(1,2) by simp
qed

section \<open>Guarded pages\<close>

abbreviation DATA_FLAGS :: u64 where
  "DATA_FLAGS \<equiv> WRITABLE OR PRESENT OR NO_EXECUTE"

lemma flags_present: "present_flags DATA_FLAGS" "\<not> present_flags GUARD"
  by (simp_all add: present_flags_def WRITABLE_def PRESENT_def NO_EXECUTE_def GUARD_def bit_0)

definition guard_entry :: "u64 option \<Rightarrow> u64 \<Rightarrow> mappings \<Rightarrow> mappings" where
  "guard_entry guard frame v = (case guard of None \<Rightarrow> v | Some p \<Rightarrow> v((p, Size4KiB) \<mapsto> (frame, GUARD)))"

lemma map_guard_cases:
  assumes "map_to_documented M view" "paging_ok fa"
  shows "\<exists>fa' pt' r. map_guard M guard frame (fa, pt) = Some ((fa', pt'), r) \<and> paging_ok fa'
    \<and> free_memory (phys fa') \<subseteq> free_memory (phys fa)
    \<and> (case r of Inl e \<Rightarrow> view (inner pt') = view (inner pt)
        | Inr _ \<Rightarrow> view (inner pt') = guard_entry guard frame (view (inner pt))
            \<and> (\<forall>p. guard = Some p \<longrightarrow> view (inner pt) (p, Size4KiB) = None))"
proof (cases guard)
  case None
  then show ?thesis using assms(2) by (simp add: map_guard_def guard_entry_def)
next
  case (Some page)
  obtain pt' fa' r where "map_kernel M Size4KiB page frame GUARD pt fa = Some (pt', fa', r)" "paging_ok fa'"
    "free_memory (phys fa') \<subseteq> free_memory (phys fa)"
    "case r of Inl e \<Rightarrow> view (inner pt') = view (inner pt)
        | Inr _ \<Rightarrow> view (inner pt) (page, Size4KiB) = None
            \<and> view (inner pt') = (view (inner pt))((page, Size4KiB) \<mapsto> (frame, GUARD))"
    using map_kernel_cases [OF assms, of Size4KiB page frame GUARD pt] by blast
  with Some show ?thesis by (cases r) (auto simp: map_guard_def guard_entry_def)
qed

text \<open>The entries of a mapped block: a frame for each page, and the guard frame for the guards.\<close>

definition guarded_entries :: "GuardedPages \<Rightarrow> u64 list \<Rightarrow> u64 \<Rightarrow> mappings \<Rightarrow> mappings" where
  "guarded_entries gp fs g v =
     guard_entry (tail_guard gp) g (guard_entry (head_guard gp) g
       (map_frames v (page_size (guarded gp)) DATA_FLAGS (pages_list (guarded gp)) fs))"

definition fresh_entries :: "GuardedPages \<Rightarrow> mappings \<Rightarrow> bool" where
  "fresh_entries gp v \<longleftrightarrow> distinct (guarded_list gp) \<and> (\<forall>q \<in> set (guarded_list gp). v q = None)"

lemma map_frames_None:
  "length fs = length ps \<Longrightarrow> map_frames v S flags ps fs q = None \<longleftrightarrow> v q = None \<and> q \<notin> (\<lambda>p. (p, S)) ` set ps"
proof (induction ps fs arbitrary: v rule: list_induct2')
  case (4 p ps f fs)
  then show ?case by (cases q) (auto simp: map_frames_Cons)
qed (simp_all add: map_frames_Nil)

lemma guard_entry_None:
  "guard_entry guard g v q = None \<longleftrightarrow> v q = None \<and> q \<notin> set (guard_pages guard)"
  by (auto simp: guard_entry_def guard_pages_def split: option.splits)

lemma page_seq_pages_list: "page_seq (first_page ps) (page_size ps) (page_count ps) = map (\<lambda>p. (p, page_size ps)) (pages_list ps)"
  by (cases ps) (simp add: page_seq_def)

lemma fresh_entriesI:
  fixes gp
  defines "S \<equiv> page_size (guarded gp)" and "ps \<equiv> pages_list (guarded gp)"
  assumes "length fs = length ps" "distinct ps" "\<forall>p \<in> set ps. v (p, S) = None"
    "\<forall>q \<in> set (guard_pages (head_guard gp)). map_frames v S flags ps fs q = None"
    "\<forall>q \<in> set (guard_pages (tail_guard gp)). guard_entry (head_guard gp) g (map_frames v S flags ps fs) q = None"
  shows "fresh_entries gp v"
proof -
  have "distinct (guard_pages (head_guard gp))" "distinct (guard_pages (tail_guard gp))"
    by (auto simp: guard_pages_def split: option.split)
  with assms show ?thesis
    by (auto simp: fresh_entries_def guarded_list_def page_seq_pages_list distinct_map inj_on_def map_frames_None guard_entry_None
        simp del: not_None_eq)
qed

text \<open>
  Where the mapping of the guards stopped with the error \<open>e\<close> in the state \<open>s'\<close>, and the entries \<open>v'\<close> it leaves of the entries \<open>v\<close> before it: when
  the guard frame or the entry of the head guard is missing nothing changes, and when the tail guard cannot be mapped the head guard stays.
\<close>

definition guards_stopped ::
    "bool \<Rightarrow> x86_64 \<Rightarrow> 'pt Mapper \<Rightarrow> GuardedPages \<Rightarrow> 'pt paging \<Rightarrow> MemError \<Rightarrow> 'pt paging \<Rightarrow> mappings \<Rightarrow> mappings \<Rightarrow> bool" where
  "guards_stopped mem_backed X M gp s e s' v v' \<longleftrightarrow>
     (guard_frame mem_backed X (fst s) = Some (fst s', Inl e) \<and> v' = v)
     \<or> (\<exists>fa g. guard_frame mem_backed X (fst s) = Some (fa, Inr g)
         \<and> (map_guard M (head_guard gp) g (fa, snd s) = Some (s', Inl e) \<and> v' = v
            \<or> (\<exists>s2. map_guard M (head_guard gp) g (fa, snd s) = Some (s2, Inr ()) \<and> map_guard M (tail_guard gp) g s2 = Some (s', Inl e)
                \<and> v' = guard_entry (head_guard gp) g v)))"

lemma map_guards_cases:
  assumes "crate_documented X" "map_to_documented M view" "paging_ok fa"
  shows "\<exists>fa' pt' r. map_guards mem_backed X M gp (fa, pt) = Some ((fa', pt'), r) \<and> paging_ok fa'
    \<and> free_memory (phys fa') \<subseteq> free_memory (phys fa)
    \<and> (case r of
         Inl e \<Rightarrow> guards_stopped mem_backed X M gp (fa, pt) e (fa', pt') (view (inner pt)) (view (inner pt'))
       | Inr gp' \<Rightarrow> gp' = gp \<and> (\<exists>g.
           view (inner pt') = guard_entry (tail_guard gp) g (guard_entry (head_guard gp) g (view (inner pt)))
           \<and> (\<forall>q \<in> set (guard_pages (head_guard gp)). view (inner pt) q = None)
           \<and> (\<forall>q \<in> set (guard_pages (tail_guard gp)). guard_entry (head_guard gp) g (view (inner pt)) q = None)))"
proof (cases "head_guard gp = None \<and> tail_guard gp = None")
  case True
  then show ?thesis using assms(3) by (simp add: map_guards_def guard_entry_def guard_pages_def)
next
  case False
  obtain fa1 r1 where 1: "guard_frame mem_backed X fa = Some (fa1, r1)" "paging_ok fa1"
    "free_memory (phys fa1) \<subseteq> free_memory (phys fa)"
    using guard_frame_cases [OF assms(1,3)] by blast
  show ?thesis
  proof (cases r1)
    case (Inl e)
    with 1 False show ?thesis by (auto simp: map_guards_def guards_stopped_def)
  next
    case r1: (Inr g)
    obtain fa2 pt2 r2 where 2: "map_guard M (head_guard gp) g (fa1, pt) = Some ((fa2, pt2), r2)" "paging_ok fa2"
      "free_memory (phys fa2) \<subseteq> free_memory (phys fa1)"
      "case r2 of Inl e \<Rightarrow> view (inner pt2) = view (inner pt)
        | Inr _ \<Rightarrow> view (inner pt2) = guard_entry (head_guard gp) g (view (inner pt))
            \<and> (\<forall>p. head_guard gp = Some p \<longrightarrow> view (inner pt) (p, Size4KiB) = None)"
      using map_guard_cases [OF assms(2) 1(2), of "head_guard gp" g pt] by blast
    obtain fa3 pt3 r3 where 3: "map_guard M (tail_guard gp) g (fa2, pt2) = Some ((fa3, pt3), r3)" "paging_ok fa3"
      "free_memory (phys fa3) \<subseteq> free_memory (phys fa2)"
      "case r3 of Inl e \<Rightarrow> view (inner pt3) = view (inner pt2)
        | Inr _ \<Rightarrow> view (inner pt3) = guard_entry (tail_guard gp) g (view (inner pt2))
            \<and> (\<forall>p. tail_guard gp = Some p \<longrightarrow> view (inner pt2) (p, Size4KiB) = None)"
      using map_guard_cases [OF assms(2) 2(2), of "tail_guard gp" g pt2] by blast
    have q: "(\<forall>q \<in> set (guard_pages gd). v q = None) \<longleftrightarrow> (\<forall>p. gd = Some p \<longrightarrow> v (p, Size4KiB) = None)"
      for gd and v :: mappings by (auto simp: guard_pages_def split: option.split)
    show ?thesis
    proof (cases r2)
      case (Inl e)
      with 1 2 r1 False show ?thesis by (auto simp: map_guards_def guards_stopped_def)
    next
      case r2: (Inr u)
      have free: "free_memory (phys fa3) \<subseteq> free_memory (phys fa)" using 1(3) 2(3) 3(3) by blast
      show ?thesis
      proof (cases r3)
        case (Inl e)
        then have "guards_stopped mem_backed X M gp (fa, pt) e (fa3, pt3) (view (inner pt)) (view (inner pt3))"
          using 1(1) 2(1,4) 3(1,4) r1 r2 by (auto simp: guards_stopped_def)
        with 1(1) 2(1) 3 r1 r2 Inl False free show ?thesis by (auto simp: map_guards_def)
      next
        case (Inr w)
        have "map_guards mem_backed X M gp (fa, pt) = Some ((fa3, pt3), Inr gp)"
          using 1(1) 2(1) 3(1) r1 r2 Inr False by (auto simp: map_guards_def)
        moreover have "view (inner pt3) = guard_entry (tail_guard gp) g (guard_entry (head_guard gp) g (view (inner pt)))"
          using 2(4) 3(4) r2 Inr by simp
        ultimately show ?thesis using 2(4) 3(2,4) r2 Inr free unfolding q by auto
      qed
    qed
  qed
qed

lemma guarded_map_cases:
  fixes gp
  defines "S \<equiv> page_size (guarded gp)" and "ps \<equiv> pages_list (guarded gp)"
  assumes "crate_documented X" "map_to_documented M view" "paging_ok fa" "pool_inv (free_memory (phys fa)) out"
    "pages_valid X (guarded gp)"
  shows "\<exists>fa' pt' r fs. guarded_map mem_backed X M gp (fa, pt) = Some ((fa', pt'), r) \<and> paging_ok fa'
    \<and> (\<forall>f \<in> set fs. frame_ok f S) \<and> pool_inv (free_memory (phys fa')) (rev (map (\<lambda>f. (f, S)) fs) @ out)
    \<and> (case r of
         Inl e \<Rightarrow> \<exists>s. try_each (map_page X M S DATA_FLAGS) (take (length fs) ps) (fa, pt) = Some (s, Inr ())
           \<and> (if length fs < length ps
              then map_page X M S DATA_FLAGS (ps ! length fs) s = Some ((fa', pt'), Inl e)
                \<and> view (inner pt') = map_frames (view (inner pt)) S DATA_FLAGS ps fs
              else length fs = length ps
                \<and> guards_stopped mem_backed X M gp s e (fa', pt') (map_frames (view (inner pt)) S DATA_FLAGS ps fs) (view (inner pt')))
       | Inr gp' \<Rightarrow> gp' = gp \<and> length fs = length ps \<and> fresh_entries gp (view (inner pt))
           \<and> (\<exists>g. view (inner pt') = guarded_entries gp fs g (view (inner pt))))"
proof -
  let ?v = "view (inner pt)"
  obtain fa1 pt1 r1 fs where 1: "try_each (map_page X M S DATA_FLAGS) ps (fa, pt) = Some ((fa1, pt1), r1)" "paging_ok fa1"
    "\<forall>f \<in> set fs. frame_ok f S" "view (inner pt1) = map_frames ?v S DATA_FLAGS ps fs"
    "pool_inv (free_memory (phys fa1)) (rev (map (\<lambda>f. (f, S)) fs) @ out)"
    "r1 = Inr () \<longrightarrow> length fs = length ps \<and> distinct ps \<and> (\<forall>p \<in> set ps. ?v (p, S) = None)"
    "\<forall>e. r1 = Inl e \<longrightarrow> length fs < length ps \<and> (\<exists>s. try_each (map_page X M S DATA_FLAGS) (take (length fs) ps) (fa, pt) = Some (s, Inr ())
       \<and> map_page X M S DATA_FLAGS (ps ! length fs) s = Some ((fa1, pt1), Inl e))"
    using map_pages_cases [OF assms(3-6), of S DATA_FLAGS ps pt] by blast
  have loop: "for_pages X (map_page X M (page_size (guarded gp)) DATA_FLAGS) (pages_iter (guarded gp)) (fa, pt) = Some ((fa1, pt1), r1)"
    using 1(1) by (simp add: S_def ps_def for_pages_list [OF assms(7)])
  show ?thesis
  proof (cases r1)
    case (Inl e)
    then have "guarded_map mem_backed X M gp (fa, pt) = Some ((fa1, pt1), Inl e)" using loop by (simp add: guarded_map_def)
    moreover obtain s where "length fs < length ps" "try_each (map_page X M S DATA_FLAGS) (take (length fs) ps) (fa, pt) = Some (s, Inr ())"
      "map_page X M S DATA_FLAGS (ps ! length fs) s = Some ((fa1, pt1), Inl e)" using 1(7) Inl by blast
    ultimately show ?thesis using 1(2-5) by (intro exI [of _ fa1] exI [of _ pt1] exI [of _ "Inl e"] exI [of _ fs]) auto
  next
    case r1: (Inr u)
    obtain fa2 pt2 r2 where 2: "map_guards mem_backed X M gp (fa1, pt1) = Some ((fa2, pt2), r2)" "paging_ok fa2"
      "free_memory (phys fa2) \<subseteq> free_memory (phys fa1)"
      "case r2 of
         Inl e \<Rightarrow> guards_stopped mem_backed X M gp (fa1, pt1) e (fa2, pt2) (view (inner pt1)) (view (inner pt2))
       | Inr gp' \<Rightarrow> gp' = gp \<and> (\<exists>g.
           view (inner pt2) = guard_entry (tail_guard gp) g (guard_entry (head_guard gp) g (view (inner pt1)))
           \<and> (\<forall>q \<in> set (guard_pages (head_guard gp)). view (inner pt1) q = None)
           \<and> (\<forall>q \<in> set (guard_pages (tail_guard gp)). guard_entry (head_guard gp) g (view (inner pt1)) q = None))"
      using map_guards_cases [OF assms(3,4) 1(2), of mem_backed gp pt1] by blast
    have run: "guarded_map mem_backed X M gp (fa, pt) = Some ((fa2, pt2), r2)"
      using loop r1 2(1) by (simp add: guarded_map_def)
    have len: "length fs = length ps" "distinct ps" "\<forall>p \<in> set ps. ?v (p, S) = None" using 1(6) r1 by simp_all
    have "case r2 of
         Inl e \<Rightarrow> guards_stopped mem_backed X M gp (fa1, pt1) e (fa2, pt2) (map_frames ?v S DATA_FLAGS ps fs) (view (inner pt2))
       | Inr gp' \<Rightarrow> gp' = gp \<and> length fs = length ps \<and> fresh_entries gp ?v
           \<and> (\<exists>g. view (inner pt2) = guarded_entries gp fs g ?v)"
      using 2(4) 1(4) len fresh_entriesI [of fs gp ?v DATA_FLAGS]
      by (cases r2) (auto simp: guarded_entries_def S_def ps_def)
    moreover have "try_each (map_page X M S DATA_FLAGS) (take (length fs) ps) (fa, pt) = Some ((fa1, pt1), Inr ())" using 1(1) r1 len(1) by simp
    ultimately show ?thesis using run 2(2) 1(3) pool_inv_mono [OF 1(5) 2(3)] len(1)
      by (intro exI [of _ fa2] exI [of _ pt2] exI [of _ r2] exI [of _ fs]) (auto split: sum.splits)
  qed
qed

subsection \<open>Unmapping a mapped block\<close>

lemma map_frames_other: "q \<notin> (\<lambda>p. (p, S)) ` set ps \<Longrightarrow> map_frames v S flags ps fs q = v q"
proof (induction ps fs arbitrary: v rule: list_induct2')
  case (4 p ps f fs)
  then show ?case by (auto simp: map_frames_Cons)
qed (simp_all add: map_frames_def)

lemma map_frames_nth:
  "length fs = length ps \<Longrightarrow> distinct ps \<Longrightarrow> i < length ps \<Longrightarrow> map_frames v S flags ps fs (ps ! i, S) = Some (fs ! i, flags)"
proof (induction ps fs arbitrary: v i rule: list_induct2')
  case (4 p ps f fs)
  then have "(p, S) \<notin> (\<lambda>p. (p, S)) ` set ps" by auto
  with 4 show ?case by (cases i) (simp_all add: map_frames_Cons map_frames_other)
qed simp_all

lemma guard_entry_other: "q \<notin> set (guard_pages guard) \<Longrightarrow> guard_entry guard g v q = v q"
  by (auto simp: guard_entry_def guard_pages_def split: option.splits)

lemma guard_entry_guard: "q \<in> set (guard_pages guard) \<Longrightarrow> guard_entry guard g v q = Some (g, GUARD)"
  by (auto simp: guard_entry_def guard_pages_def split: option.splits)

lemma clear_documentedD:
  assumes "clear_documented M view"
  shows "\<exists>pt' r. mapper_clear M S page pt = Some (pt', r)
     \<and> (case r of
          Inl e \<Rightarrow> view pt' = view pt \<and> view pt (page, S) = None
        | Inr (Present frame flags) \<Rightarrow> view pt (page, S) = Some (frame, flags) \<and> present_flags flags
            \<and> view pt' = (view pt)((page, S) := None)
        | Inr (NotPresent entry) \<Rightarrow> (\<forall>frame flags. view pt (page, S) = Some (frame, flags) \<longrightarrow> \<not> present_flags flags)
            \<and> view pt' = (view pt)((page, S) := None))"
  using assms by (simp only: clear_documented_def)

definition without :: "page list \<Rightarrow> mappings \<Rightarrow> mappings" where
  "without qs v = (\<lambda>q. if q \<in> set qs then None else v q)"

lemma unmap_guard_cases:
  assumes "clear_documented M view" "\<forall>q \<in> set (guard_pages guard). view (inner pt) q = Some (g, GUARD)"
  shows "\<exists>pt'. unmap_guard M guard (fa, pt) = Some ((fa, pt'), Inr ()) \<and> view (inner pt') = without (guard_pages guard) (view (inner pt))"
proof (cases guard)
  case None
  then show ?thesis by (simp add: unmap_guard_def without_def guard_pages_def)
next
  case (Some p)
  obtain pt' r where c: "mapper_clear M Size4KiB p (inner pt) = Some (pt', r)"
     "case r of
          Inl e \<Rightarrow> view pt' = view (inner pt) \<and> view (inner pt) (p, Size4KiB) = None
        | Inr (Present frame flags) \<Rightarrow> view (inner pt) (p, Size4KiB) = Some (frame, flags) \<and> present_flags flags
            \<and> view pt' = (view (inner pt))((p, Size4KiB) := None)
        | Inr (NotPresent entry) \<Rightarrow> (\<forall>frame flags. view (inner pt) (p, Size4KiB) = Some (frame, flags) \<longrightarrow> \<not> present_flags flags)
            \<and> view pt' = (view (inner pt))((p, Size4KiB) := None)"
    using clear_documentedD [OF assms(1), of Size4KiB p "inner pt"] by blast
  have "view (inner pt) (p, Size4KiB) = Some (g, GUARD)" using assms(2) Some by (simp add: guard_pages_def)
  with c flags_present(2) obtain e where "r = Inr (NotPresent e)" "view pt' = (view (inner pt))((p, Size4KiB) := None)"
    by (cases r) (auto split: UnmappedFrame.splits)
  with c(1) Some show ?thesis
    by (auto simp: unmap_guard_def clear_kernel_def without_def guard_pages_def)
qed

lemma guarded_entries_page:
  fixes gp
  defines "S \<equiv> page_size (guarded gp)" and "ps \<equiv> pages_list (guarded gp)"
  assumes "fresh_entries gp v" "length fs = length ps" "i < length ps"
  shows "guarded_entries gp fs g v (ps ! i, S) = Some (fs ! i, DATA_FLAGS)"
proof -
  let ?h = "guard_pages (head_guard gp)" and ?t = "guard_pages (tail_guard gp)" and ?k = "map (\<lambda>p. (p, S)) ps"
  have keys: "distinct (?h @ ?k @ ?t)"
    using assms(3) by (simp add: fresh_entries_def guarded_list_def page_seq_pages_list S_def ps_def)
  then have d: "distinct ps" by (simp add: distinct_map)
  have "(ps ! i, S) \<in> set ?k" using assms(5) by simp
  then have "(ps ! i, S) \<notin> set ?h" "(ps ! i, S) \<notin> set ?t" using keys by auto
  then show ?thesis
    using map_frames_nth [OF assms(4) d assms(5)] by (simp add: guarded_entries_def guard_entry_other S_def ps_def)
qed

lemma guarded_unmap_cases:
  fixes gp
  defines "S \<equiv> page_size (guarded gp)" and "ps \<equiv> pages_list (guarded gp)"
  assumes "unmap_documented M view" "clear_documented M view" "phys_inv (phys fa)" "pages_valid X (guarded gp)"
    "view (inner pt) = guarded_entries gp fs g v" "fresh_entries gp v" "length fs = length ps"
    "\<forall>f \<in> set fs. frame_ok f S" "room fa (length ps)"
  shows "\<exists>fa' pt'. guarded_unmap X M gp (fa, pt) = Some ((fa', pt'), Inr gp) \<and> phys_inv (phys fa') \<and> view (inner pt') = v
    \<and> free_memory (phys fa') = free_memory (phys fa) \<union> (\<Union>f \<in> set fs. page_cells (f, S))"
proof -
  let ?h = "guard_pages (head_guard gp)" and ?t = "guard_pages (tail_guard gp)" and ?k = "map (\<lambda>p. (p, S)) ps"
  let ?v = "view (inner pt)"
  have keys: "distinct (?h @ ?k @ ?t)" "\<forall>q \<in> set (?h @ ?k @ ?t). v q = None"
    using assms(8) by (simp_all add: fresh_entries_def guarded_list_def page_seq_pages_list S_def ps_def)
  then have d: "distinct ps" by (simp add: distinct_map)
  have page: "?v (ps ! i, S) = Some (fs ! i, DATA_FLAGS)" if "i < length ps" for i
    using guarded_entries_page [of gp v fs i g] assms(8,9) that by (simp add: assms(7) S_def ps_def)
  have tail: "\<forall>q \<in> set ?t. ?v q = Some (g, GUARD)" by (simp add: assms(7) guarded_entries_def guard_entry_guard)
  have head: "\<forall>q \<in> set ?h. ?v q = Some (g, GUARD)"
    using keys(1) by (auto simp: assms(7) guarded_entries_def guard_entry_guard guard_entry_other)
  have other: "?v q = v q" if "q \<notin> set (?h @ ?k @ ?t)" for q
    using that by (simp add: assms(7) guarded_entries_def guard_entry_other map_frames_other S_def ps_def)
  have "\<forall>p \<in> set ps. present_page ?v S p"
    using page assms(9,10) flags_present(1) by (fastforce simp: present_page_def in_set_conv_nth)
  from unmap_pages_cases [OF assms(3,5) this d assms(11)] obtain fa1 pt1 where
    1: "try_each (unmap_page M S) ps (fa, pt) = Some ((fa1, pt1), Inr ())" "phys_inv (phys fa1)"
      "view (inner pt1) = (\<lambda>q. if q \<in> (\<lambda>p. (p, S)) ` set ps then None else ?v q)"
      "free_memory (phys fa1) = free_memory (phys fa) \<union> (\<Union>p \<in> set ps. entry_cells ?v S p)" by blast
  have v1: "view (inner pt1) = without ?k ?v" using 1(3) by (auto simp: without_def)
  then have "\<forall>q \<in> set ?h. view (inner pt1) q = Some (g, GUARD)" using head keys(1) by (auto simp: without_def)
  from unmap_guard_cases [OF assms(4) this, of fa1] obtain pt2 where
    2: "unmap_guard M (head_guard gp) (fa1, pt1) = Some ((fa1, pt2), Inr ())" "view (inner pt2) = without ?h (view (inner pt1))"
    by blast
  have "\<forall>q \<in> set ?t. view (inner pt2) q = Some (g, GUARD)" using tail keys(1) v1 2(2) by (auto simp: without_def)
  from unmap_guard_cases [OF assms(4) this, of fa1] obtain pt3 where
    3: "unmap_guard M (tail_guard gp) (fa1, pt2) = Some ((fa1, pt3), Inr ())" "view (inner pt3) = without ?t (view (inner pt2))"
    by blast
  have run: "guarded_unmap X M gp (fa, pt) = Some ((fa1, pt3), Inr gp)"
    using 1(1) 2(1) 3(1) by (simp add: guarded_unmap_def for_pages_list [OF assms(6)] S_def ps_def)
  have "view (inner pt3) = v"
  proof
    fix q show "view (inner pt3) q = v q"
      using other [of q] keys(2) by (cases "q \<in> set (?h @ ?k @ ?t)") (auto simp: 3(2) 2(2) v1 without_def)
  qed
  moreover have "fs = map (\<lambda>p. fst (the (?v (p, S)))) ps" by (rule nth_equalityI) (simp_all add: page assms(9))
  then have "set fs = (\<lambda>p. fst (the (?v (p, S)))) ` set ps" by (metis list.set_map)
  then have "(\<Union>p \<in> set ps. entry_cells ?v S p) = (\<Union>f \<in> set fs. page_cells (f, S))" by simp
  ultimately show ?thesis using run 1(2,4) by auto
qed

section \<open>The stacks\<close>

definition stack_pages_valid :: "Pages \<Rightarrow> bool" where
  "stack_pages_valid ps \<longleftrightarrow> page_size ps = Size4KiB \<and> page_count ps = DEFAULT_STACK_PAGE_COUNT
     \<and> unat (first_page ps) mod 4096 = 0 \<and> unat (first_page ps) + 4096 * 20 < 2 ^ 47"

lemma stack_page_count: "DEFAULT_STACK_PAGE_COUNT = 20"
  by (simp add: DEFAULT_STACK_PAGE_COUNT_def DEFAULT_STACK_SIZE_def)

lemma canonical_low: "unat a < 2 ^ 47 \<Longrightarrow> canonical a"
  by (simp add: canonical_def)

lemma word_add_unat: "unat (a :: u64) + k < 2 ^ 64 \<Longrightarrow> unat (a + word_of_nat k) = unat a + k"
  by (simp add: unat_add_no_overflow unat_of_nat_eq_u64)

lemma end_addr_stack:
  assumes "page_add_documented X" "page_sub_documented X" "virt_add_documented X" "stack_pages_valid ps"
  shows "end_addr X ps = Some (first_page ps + 81919)"
proof -
  let ?p = "first_page ps"
  have lt: "unat ?p + 81920 < 2 ^ 47" using assms(4) by (simp add: stack_pages_valid_def)
  have u: "unat (?p + 81920) = unat ?p + 81920" "unat (?p + 77824) = unat ?p + 77824" "unat (?p + 81919) = unat ?p + 81919"
    using lt word_add_unat [of ?p 81920] word_add_unat [of ?p 77824] word_add_unat [of ?p 81919] by simp_all
  then have c: "canonical (?p + 81920)" "canonical (?p + 77824)" "canonical (?p + 81919)"
    using lt by (auto intro!: canonical_low)
  note comm = u [unfolded add.commute [of ?p]] c [unfolded add.commute [of ?p]]
  from assms comm u c lt show ?thesis
    by (simp add: end_addr_def page_add_documented_def page_sub_documented_def virt_add_documented_def
        stack_pages_valid_def stack_page_count)
qed

lemma stack_top:
  assumes "virt_align_documented X" "stack_pages_valid ps"
  shows "virt_align_down X (first_page ps + 81919) STACK_ALIGN = first_page ps + 81904"
proof -
  let ?p = "first_page ps"
  have p: "unat ?p mod 4096 = 0" "unat ?p + 81920 < 2 ^ 47" using assms(2) by (simp_all add: stack_pages_valid_def)
  then obtain k where k: "unat ?p = 4096 * k" by fastforce
  have "unat (?p + 81919) = 4096 * k + 81919" using word_add_unat [of ?p 81919] p(2) k by simp
  then have "unat (?p + 81919) = 15 + 16 * (256 * k + 5119)" by simp
  then have "unat (?p + 81919) mod 16 = 15 mod 16" by (simp only: mod_mult_self2)
  then show ?thesis using assms(1) by (simp add: virt_align_documented_def STACK_ALIGN_def)
qed

lemma page_sub_Some:
  "page_sub_documented X \<Longrightarrow> unat (SIZE S) * unat n \<le> unat a \<Longrightarrow> canonical (a - SIZE S * n) \<Longrightarrow>
     page_sub X S a n = Some (a - SIZE S * n)"
  by (simp add: page_sub_documented_def)

lemma stack_bottom:
  assumes "virt_align_documented X" "from_start_documented X" "page_sub_documented X" "stack_pages_valid ps"
  shows "find_stack X (first_page ps + 81904) = Some ps"
proof -
  let ?p = "first_page ps"
  have p: "unat ?p mod 4096 = 0" "unat ?p + 81920 < 2 ^ 47" using assms(4) by (simp_all add: stack_pages_valid_def)
  then obtain k where k: "unat ?p = 4096 * k" by fastforce
  have "unat (?p + 81904) = 4096 * k + 81904" using word_add_unat [of ?p 81904] p(2) k by simp
  then have "unat (?p + 81904) = 4080 + 4096 * (k + 19)" by simp
  then have "unat (?p + 81904) mod 4096 = 4080 mod 4096" by (simp only: mod_mult_self2)
  then have up: "virt_align_up X (?p + 81904) 4096 = ?p + 81920"
    using assms(1) by (simp add: virt_align_documented_def add.assoc)
  have u: "unat (?p + 81920) = unat ?p + 81920" using word_add_unat [of ?p 81920] p(2) by simp
  then have "unat (?p + 81920) = 4096 * (k + 20)" using k by simp
  then have "unat (?p + 81920) mod 4096 = 0" by (metis mod_mult_self1_is_0)
  then have "from_start_address X Size4KiB (?p + 81920) = Some (?p + 81920)"
    using assms(2) by (simp add: from_start_documented_def)
  moreover have "page_sub X Size4KiB (?p + 81920) 20 = Some ?p"
  proof -
    have cancel: "?p + 81920 - SIZE Size4KiB * 20 = ?p" by simp
    have "unat (SIZE Size4KiB) * unat (20 :: u64) \<le> unat (?p + 81920)" unfolding u by simp
    moreover have "canonical (?p + 81920 - SIZE Size4KiB * 20)" unfolding cancel using p(2) by (intro canonical_low) simp
    ultimately show ?thesis using page_sub_Some [OF assms(3), of Size4KiB 20 "?p + 81920"] unfolding cancel by blast
  qed
  moreover have "ps = \<lparr>first_page = ?p, page_size = Size4KiB, page_count = 20\<rparr>"
    using assms(4) by (cases ps) (simp add: stack_pages_valid_def stack_page_count)
  ultimately show ?thesis using up by (simp add: find_stack_def stack_page_count)
qed

section \<open>Page walks through the recursive entry\<close>

text \<open>
  The page walk of the processor, for tables with 4KiB pages: \<open>next frame i\<close> is the frame that entry
  \<open>i\<close> of the table in \<open>frame\<close> points to.
\<close>

definition table_index :: "nat \<Rightarrow> u64 \<Rightarrow> u64" where
  "table_index shift va = drop_bit shift va AND 511"

definition page_walk :: "(u64 \<Rightarrow> u64 \<Rightarrow> u64 option) \<Rightarrow> u64 \<Rightarrow> u64 \<Rightarrow> u64 option" where
  "page_walk next root va = do {
     t3 \<leftarrow> next root (table_index 39 va);
     t2 \<leftarrow> next t3 (table_index 30 va);
     t1 \<leftarrow> next t2 (table_index 21 va);
     next t1 (table_index 12 va)
   }"

lemma and_511: "x AND (511 :: u64) = take_bit 9 x"
  by (simp add: take_bit_eq_mask mask_eq_exp_minus_1)

lemma index_bits:
  assumes "a < (512 :: u64)" "9 \<le> n"
  shows "\<not> bit a n"
proof -
  have "unat (take_bit 9 a) = unat a" using assms(1) by (simp add: unat_take_bit word_less_nat_alt)
  then have "take_bit 9 a = a" by (simp only: word_unat_eq_iff)
  then have "bit a n \<longleftrightarrow> bit (take_bit 9 a) n" by simp
  then show ?thesis using assms(2) by (simp add: bit_take_bit_iff)
qed

lemma table_index_bit: "bit (table_index shift va) n \<longleftrightarrow> n < 9 \<and> bit va (shift + n)"
  by (auto simp: table_index_def and_511 bit_take_bit_iff bit_drop_bit_eq)

lemma table_index_eqI:
  assumes "l < 512" "\<And>n. n < 9 \<Longrightarrow> bit va (shift + n) \<longleftrightarrow> bit l n"
  shows "table_index shift va = l"
proof (rule bit_word_eqI)
  fix n show "bit (table_index shift va) n \<longleftrightarrow> bit l n"
    using assms index_bits [of l n] by (cases "n < 9") (simp_all add: table_index_bit)
qed

lemma table_index_vaddr:
  assumes "l4 < 512" "l3 < 512" "l2 < 512" "l1 < 512"
  shows "table_index 39 (vaddr_of_indices l4 l3 l2 l1) = l4" "table_index 30 (vaddr_of_indices l4 l3 l2 l1) = l3"
    "table_index 21 (vaddr_of_indices l4 l3 l2 l1) = l2" "table_index 12 (vaddr_of_indices l4 l3 l2 l1) = l1"
  using assms
  by (auto intro!: table_index_eqI simp: vaddr_of_indices_def bit_or_iff bit_push_bit_iff index_bits)

section \<open>Properties\<close>

text \<open>
  (C12) Mapping a block of guarded pages never panics. On success every page has a frame of its own:
  the frames were free, are disjoint from each other and from every frame a client holds, the guard
  pages are mapped to the guard frame and are not present, and no other entry changes. On an error the
  entries made so far stay, and so do their frames: either the pages before the first page that cannot be
  mapped are mapped, each to a frame of its own, and nothing else changes, or every page is mapped and the guards stopped, after the
  head guard or before it, with the error of the step that failed.
\<close>

theorem guarded_map_correct:
  fixes gp
  defines "S \<equiv> page_size (guarded gp)" and "ps \<equiv> pages_list (guarded gp)"
  assumes "crate_documented X" "map_to_documented M view" "paging_ok fa" "pool_inv (free_memory (phys fa)) out"
    "pages_valid X (guarded gp)"
  shows "\<exists>fa' pt' r fs. guarded_map mem_backed X M gp (fa, pt) = Some ((fa', pt'), r) \<and> paging_ok fa'
    \<and> (\<forall>f \<in> set fs. frame_ok f S) \<and> pool_inv (free_memory (phys fa')) (rev (map (\<lambda>f. (f, S)) fs) @ out)
    \<and> (case r of
         Inl e \<Rightarrow> \<exists>s. try_each (map_page X M S DATA_FLAGS) (take (length fs) ps) (fa, pt) = Some (s, Inr ())
           \<and> (if length fs < length ps
              then map_page X M S DATA_FLAGS (ps ! length fs) s = Some ((fa', pt'), Inl e)
                \<and> view (inner pt') = map_frames (view (inner pt)) S DATA_FLAGS ps fs
              else length fs = length ps
                \<and> guards_stopped mem_backed X M gp s e (fa', pt') (map_frames (view (inner pt)) S DATA_FLAGS ps fs) (view (inner pt')))
       | Inr gp' \<Rightarrow> gp' = gp \<and> length fs = length ps \<and> fresh_entries gp (view (inner pt))
           \<and> (\<exists>g. view (inner pt') = guarded_entries gp fs g (view (inner pt))))"
  unfolding S_def ps_def using guarded_map_cases [OF assms(3-7)] .

definition one_guarded_page :: GuardedPages where
  "one_guarded_page = \<lparr>head_guard = Some 8192, tail_guard = Some 16384,
     guarded = \<lparr>first_page = 12288, page_size = Size4KiB, page_count = 1\<rparr>\<rparr>"

definition low_frames :: FrameAllocator where
  "low_frames = \<lparr>phys = low_memory, guard_frame_cache = None\<rparr>"

lemma one_guarded_page_valid: "pages_valid x86_64_model (guarded one_guarded_page)"
  by (simp add: pages_valid_def one_guarded_page_def x86_64_model_def canonical_def page_at_def)

lemma low_frames_ok: "paging_ok low_frames" "pool_inv (free_memory (phys low_frames)) []"
  using low_memory_inv by (simp_all add: paging_ok_def low_frames_def pool_inv_def disjoint_pages_def)

lemma one_guarded_page_mapped:
  "\<exists>fa pt. guarded_map False x86_64_model mapper_model one_guarded_page (low_frames, \<lparr>inner = Map.empty\<rparr>)
     = Some ((fa, pt), Inr one_guarded_page) \<and> room fa 1"
proof -
  have "count_ones (4096 :: u64) = 1" using count_ones_SIZE [of Size4KiB] by simp
  then have "phys_alloc x86_64_model Size4KiB low_memory
      = Some (\<lparr>memory_ranges = \<lparr>ranges = [\<lparr>rstart = 8192, rend = 65535\<rparr>, \<lparr>rstart = 0, rend = 0\<rparr>], in_use = 1\<rparr>\<rparr>, Some 4096)"
    by (simp add: phys_alloc_def low_memory_def allocate_def allocate_prefer_def entries_def Let_def checked_add_def
        usize_max_def remove_range_def remove_loop.simps overlaps_def ordered_range_def contains_def saturating_add_def
        frame_of_start_def x86_64_model_def)
  moreover have "pages_list (guarded one_guarded_page) = [12288]"
    by (simp add: one_guarded_page_def pages_list_def page_at_def)
  ultimately show ?thesis
    by (simp add: guarded_map_def map_guards_def for_pages_list [OF one_guarded_page_valid] map_page_def frame_alloc_def
        alloc_no_stats_def map_kernel_def mapper_model_def guard_frame_def map_guard_def low_frames_def room_def)
      (simp add: one_guarded_page_def guard_frame_def map_guard_def map_kernel_def room_def Let_def)
qed

definition no_frames :: FrameAllocator where
  "no_frames = \<lparr>phys = \<lparr>memory_ranges = \<lparr>ranges = [\<lparr>rstart = 0, rend = 0\<rparr>], in_use = 0\<rparr>\<rparr>, guard_frame_cache = None\<rparr>"

lemma no_frames_ok: "paging_ok no_frames" "pool_inv (free_memory (phys no_frames)) []"
  by (simp_all add: paging_ok_def no_frames_def pool_inv_def disjoint_pages_def rs_inv_def entries_def u32_max_def addressable_def)

lemma no_frames_page: "map_page x86_64_model M Size4KiB flags page (no_frames, pt) = Some ((no_frames, pt), Inl OutOfMemory)"
  by (simp add: map_page_def frame_alloc_def alloc_no_stats_def phys_alloc_def allocate_def allocate_prefer_def no_frames_def entries_def)

lemma no_frames_fails:
  "guarded_map False x86_64_model mapper_model one_guarded_page (no_frames, pt) = Some ((no_frames, pt), Inl OutOfMemory)"
proof -
  have "pages_list (guarded one_guarded_page) = [12288]" "page_size (guarded one_guarded_page) = Size4KiB"
    by (simp_all add: one_guarded_page_def pages_list_def page_at_def)
  then show ?thesis by (simp add: guarded_map_def for_pages_list [OF one_guarded_page_valid] no_frames_page)
qed

theorem guarded_map_correct_witness:
  "(\<exists>fa pt f g. guarded_map False x86_64_model mapper_model one_guarded_page (low_frames, \<lparr>inner = Map.empty\<rparr>)
       = Some ((fa, pt), Inr one_guarded_page)
     \<and> paging_ok fa \<and> frame_ok f Size4KiB \<and> pool_inv (free_memory (phys fa)) [(f, Size4KiB)]
     \<and> inner pt = [(12288, Size4KiB) \<mapsto> (f, DATA_FLAGS), (8192, Size4KiB) \<mapsto> (g, GUARD), (16384, Size4KiB) \<mapsto> (g, GUARD)])
   \<and> (\<exists>fs. guarded_map False x86_64_model mapper_model one_guarded_page (no_frames, \<lparr>inner = Map.empty\<rparr>)
       = Some ((no_frames, \<lparr>inner = map_frames Map.empty Size4KiB DATA_FLAGS [12288] fs\<rparr>), Inl OutOfMemory) \<and> fs = []
     \<and> map_page x86_64_model mapper_model Size4KiB DATA_FLAGS ([12288] ! length fs) (no_frames, \<lparr>inner = Map.empty\<rparr>)
       = Some ((no_frames, \<lparr>inner = Map.empty\<rparr>), Inl OutOfMemory))"
proof -
  obtain fa pt where m: "guarded_map False x86_64_model mapper_model one_guarded_page (low_frames, \<lparr>inner = Map.empty\<rparr>)
     = Some ((fa, pt), Inr one_guarded_page)" using one_guarded_page_mapped by blast
  have p: "pages_list (guarded one_guarded_page) = [12288]" "page_size (guarded one_guarded_page) = Size4KiB"
    "head_guard one_guarded_page = Some 8192" "tail_guard one_guarded_page = Some 16384"
    by (simp_all add: one_guarded_page_def pages_list_def page_at_def)
  from guarded_map_correct [OF crate_documented_model mapper_model_map low_frames_ok one_guarded_page_valid, of False "\<lparr>inner = Map.empty\<rparr>"]
  obtain fs g where u: "paging_ok fa" "\<forall>f \<in> set fs. frame_ok f Size4KiB" "length fs = 1"
    "pool_inv (free_memory (phys fa)) (rev (map (\<lambda>f. (f, Size4KiB)) fs))"
    "inner pt = guarded_entries one_guarded_page fs g Map.empty" unfolding m p by auto
  then obtain f where f: "fs = [f]" by (auto simp: length_Suc_conv)
  have v: "inner pt = [(12288, Size4KiB) \<mapsto> (f, DATA_FLAGS), (8192, Size4KiB) \<mapsto> (g, GUARD), (16384, Size4KiB) \<mapsto> (g, GUARD)]"
    by (simp add: u(5) f guarded_entries_def p map_frames_def guard_entry_def)
  have h: "frame_ok f Size4KiB" "pool_inv (free_memory (phys fa)) [(f, Size4KiB)]" using u(2,4) f by simp_all
  from guarded_map_correct [OF crate_documented_model mapper_model_map no_frames_ok one_guarded_page_valid, of False "\<lparr>inner = Map.empty\<rparr>"]
  obtain fs' where fs': "fs' = []" "Map.empty = map_frames Map.empty Size4KiB DATA_FLAGS [12288] fs'"
    "map_page x86_64_model mapper_model Size4KiB DATA_FLAGS ([12288] ! length fs') (no_frames, \<lparr>inner = Map.empty\<rparr>)
       = Some ((no_frames, \<lparr>inner = Map.empty\<rparr>), Inl OutOfMemory)"
    unfolding no_frames_fails p by (auto simp: no_frames_page split: if_splits)
  show ?thesis
    by (intro conjI exI [of _ fa] exI [of _ pt] exI [of _ f] exI [of _ g] exI [of _ fs'])
      (rule m u(1) h v fs'(1,3) | subst fs'(2) [symmetric], rule no_frames_fails)+
qed

text \<open>
  (C13) Unmapping undoes mapping: after a block of guarded pages has been mapped, \<open>unmap\<close> returns
  without an error, restores every entry of the page table and makes exactly the frames free again that
  the entries of the pages pointed to, provided the frame allocator has room for them.
\<close>

theorem unmap_after_map:
  fixes gp
  assumes "crate_documented X" "map_to_documented M view" "unmap_documented M view" "clear_documented M view"
    "paging_ok fa" "pages_valid X (guarded gp)" "guarded_map mem_backed X M gp (fa, pt) = Some ((fa1, pt1), Inr gp1)"
    "room fa1 (unat (page_count (guarded gp)))"
  shows "\<exists>fa2 pt2 fs. guarded_unmap X M gp1 (fa1, pt1) = Some ((fa2, pt2), Inr gp1) \<and> view (inner pt2) = view (inner pt)
    \<and> length fs = unat (page_count (guarded gp))
    \<and> (\<forall>i < length fs. view (inner pt1) (pages_list (guarded gp) ! i, page_size (guarded gp)) = Some (fs ! i, DATA_FLAGS))
    \<and> free_memory (phys fa2) = free_memory (phys fa1) \<union> (\<Union>f \<in> set fs. page_cells (f, page_size (guarded gp)))"
proof -
  have l: "length (pages_list (guarded gp)) = unat (page_count (guarded gp))" by (simp add: pages_list_def)
  obtain fs g where m: "paging_ok fa1" "\<forall>f \<in> set fs. frame_ok f (page_size (guarded gp))" "gp1 = gp"
    "length fs = length (pages_list (guarded gp))" "fresh_entries gp (view (inner pt))"
    "view (inner pt1) = guarded_entries gp fs g (view (inner pt))"
    using guarded_map_cases [OF assms(1,2,5) _ assms(6), of "[]" mem_backed pt] assms(7)
    by (auto simp: pool_inv_def disjoint_pages_def)
  have "phys_inv (phys fa1)" using m(1) by (simp add: paging_ok_def)
  from guarded_unmap_cases [OF assms(3,4) this assms(6) m(6,5,4,2)] assms(8) l obtain fa2 pt2 where
    "guarded_unmap X M gp (fa1, pt1) = Some ((fa2, pt2), Inr gp)" "view (inner pt2) = view (inner pt)"
    "free_memory (phys fa2) = free_memory (phys fa1) \<union> (\<Union>f \<in> set fs. page_cells (f, page_size (guarded gp)))" by auto
  then show ?thesis using m(3,4,5,6) l by (auto simp: guarded_entries_page)
qed

theorem unmap_after_map_witness:
  "\<exists>fa pt fa2 pt2 f. guarded_map False x86_64_model mapper_model one_guarded_page (low_frames, \<lparr>inner = Map.empty\<rparr>)
       = Some ((fa, pt), Inr one_guarded_page)
     \<and> guarded_unmap x86_64_model mapper_model one_guarded_page (fa, pt) = Some ((fa2, pt2), Inr one_guarded_page)
     \<and> inner pt2 = Map.empty \<and> inner pt (12288, Size4KiB) = Some (f, DATA_FLAGS)
     \<and> free_memory (phys fa2) = free_memory (phys fa) \<union> page_cells (f, Size4KiB)"
proof -
  obtain fa pt where m: "guarded_map False x86_64_model mapper_model one_guarded_page (low_frames, \<lparr>inner = Map.empty\<rparr>)
     = Some ((fa, pt), Inr one_guarded_page)" "room fa 1" using one_guarded_page_mapped by blast
  have p: "unat (page_count (guarded one_guarded_page)) = 1" "pages_list (guarded one_guarded_page) = [12288]"
    "page_size (guarded one_guarded_page) = Size4KiB"
    by (simp_all add: one_guarded_page_def pages_list_def page_at_def)
  from unmap_after_map [OF crate_documented_model mapper_model_map mapper_model_unmap mapper_model_clear low_frames_ok(1)
      one_guarded_page_valid m(1)] m(2) p obtain fa2 pt2 fs where
    u: "guarded_unmap x86_64_model mapper_model one_guarded_page (fa, pt) = Some ((fa2, pt2), Inr one_guarded_page)"
      "inner pt2 = Map.empty" "length fs = 1" "\<forall>i < length fs. inner pt ([12288] ! i, Size4KiB) = Some (fs ! i, DATA_FLAGS)"
      "free_memory (phys fa2) = free_memory (phys fa) \<union> (\<Union>f \<in> set fs. page_cells (f, Size4KiB))" by auto
  then obtain f where "fs = [f]" by (auto simp: length_Suc_conv)
  with m(1) u show ?thesis by auto
qed

text \<open>
  (C14) The addresses of the page tables through the recursive entry: when entry \<open>r\<close> of the level 4
  table points to that table itself, the page walk of the address that the code computes for a table ends in
  the frame of that table, for the tables of all four levels.
\<close>

theorem recursive_table_addresses:
  assumes "virt_addr_documented X" "next root r = Some root" "r < 512" "l4 < 512" "l3 < 512" "l2 < 512"
  shows "(\<forall>a. l4_table_vaddr X r = Some a \<longrightarrow> page_walk next root a = Some root)
    \<and> (\<forall>a. l3_table_vaddr X r l4 = Some a \<longrightarrow> page_walk next root a = next root l4)
    \<and> (\<forall>a. l2_table_vaddr X r l4 l3 = Some a \<longrightarrow> page_walk next root a = Option.bind (next root l4) (\<lambda>t3. next t3 l3))
    \<and> (\<forall>a. l1_table_vaddr X r l4 l3 l2 = Some a \<longrightarrow>
         page_walk next root a = Option.bind (next root l4) (\<lambda>t3. Option.bind (next t3 l3) (\<lambda>t2. next t2 l2)))"
  using assms by (auto simp: page_walk_def table_index_vaddr virt_addr_documented_def l4_table_vaddr_def l3_table_vaddr_def
      l2_table_vaddr_def l1_table_vaddr_def)

theorem recursive_table_addresses_witness:
  "l1_table_vaddr x86_64_model 255 1 2 3 = Some 0x7f8040403000
   \<and> page_walk (\<lambda>frame i. if i = 255 then Some frame else Some (frame * 512 + i)) 7 0x7f8040403000 = Some 939787267"
  using recursive_table_addresses [OF x86_64_model_documented(2), of "\<lambda>frame i. if i = 255 then Some frame else Some (frame * 512 + i)" 7 255 1 2 3]
  by (simp add: l1_table_vaddr_def vaddr_of_indices_def x86_64_model_def canonical_def)

text \<open>
  A core that starts finds its stack: from the aligned stack pointer that the boot processor
  publishes, \<open>find_stack\<close> computes exactly the pages that were allocated for the stack.
\<close>

lemma find_stack_correct:
  assumes "virt_documented X" "page_sub_documented X" "virt_align_documented X" "stack_pages_valid (guarded gp)"
  shows "\<exists>e. end_addr X (guarded gp) = Some e
    \<and> find_stack X (virt_align_down X e STACK_ALIGN) = Some (guarded gp)"
  using end_addr_stack [of X "guarded gp"] stack_top [of X "guarded gp"] stack_bottom [of X "guarded gp"] assms
  by (auto simp: virt_documented_def)

text \<open>
  A stack that no core has taken is never freed: \<open>AP_STACK_PTR\<close> holds the stack pointer
  aligned down to 16 bytes, below the last page, and \<open>drop\<close> compares it with the address after the last page,
  so the comparison fails and \<open>drop\<close> changes nothing.
\<close>

lemma unused_stack_leaks:
  assumes "virt_documented X" "page_sub_documented X" "virt_align_documented X" "stack_pages_valid (guarded gp)"
    "end_addr X (guarded gp) = Some e" "AP_STACK_PTR st = virt_align_down X e STACK_ALIGN"
  shows "stack_drop X M gp st = Some st"
proof -
  let ?p = "first_page (guarded gp)"
  have v: "page_add_documented X" "virt_add_documented X" using assms(1) by (simp_all add: virt_documented_def)
  have l: "e = ?p + 81919" using end_addr_stack [OF v(1) assms(2) v(2) assms(4)] assms(5) by simp
  then have ptr: "AP_STACK_PTR st = ?p + 81904" using stack_top [OF assms(3,4)] assms(6) by simp
  have "unat ?p + 81920 < 2 ^ 47" using assms(4) by (simp add: stack_pages_valid_def)
  then have "unat (?p + 81920) < 2 ^ 47" "unat (?p + 81919) + 1 < 2 ^ 64"
    using word_add_unat [of ?p 81920] word_add_unat [of ?p 81919] by simp_all
  then have "virt_add X (?p + 81919) 1 = Some (?p + 81919 + 1)"
    using v(2) canonical_low [of "?p + 81920"] by (simp add: virt_add_documented_def add.commute)
  then have "stack_end X gp = Some (?p + 81920)" using assms(5) l by (simp add: stack_end_def)
  then show ?thesis using ptr by (simp add: stack_drop_def compare_exchange_ptr_def)
qed

end
