(* ===== verification/NVMe_Command.thy ===== *)
theory NVMe_Command
  imports Page_Table
begin

text \<open>
  The data formats of the NVMe driver: the common command and completion entries
  (\<open>pci/nvme/generic_command.rs\<close>), the commands built from them (\<open>io_commands\<close>,
  \<open>admin_commands/io_queue.rs\<close>) and the lists of physical pages a command transfers to or from
  (\<open>prp.rs\<close>). Bit fields are read and written with the crate \<open>bit_field\<close>, whose functions are the
  fields of the record \<open>bits\<close>.
\<close>

section \<open>Bit fields\<close>

record (overloaded) 'a bit_field =
  get_bit :: "'a word \<Rightarrow> nat \<Rightarrow> bool"
  get_bits :: "'a word \<Rightarrow> nat \<Rightarrow> nat \<Rightarrow> 'a word"
  set_bit_to :: "'a word \<Rightarrow> nat \<Rightarrow> bool \<Rightarrow> 'a word"
  set_bits :: "'a word \<Rightarrow> nat \<Rightarrow> nat \<Rightarrow> 'a word \<Rightarrow> 'a word run"

record bits =
  bits16 :: "16 bit_field"
  bits32 :: "32 bit_field"

text \<open>
  The documented behaviour of the crate, for a range from bit \<open>a\<close> to bit \<open>b\<close>, both included:
  \<open>get_bits\<close> returns the bits of the range, \<open>set_bits\<close> replaces them and panics when the value does not fit.
\<close>

definition bit_field_documented :: "'a::len bit_field \<Rightarrow> bool" where
  "bit_field_documented B \<longleftrightarrow>
     get_bit B = (\<lambda>w i. bit w i)
     \<and> get_bits B = (\<lambda>w a b. take_bit (b + 1 - a) (drop_bit a w))
     \<and> set_bit_to B = (\<lambda>w i c. if c then set_bit i w else unset_bit i w)
     \<and> set_bits B = (\<lambda>w a b v. if take_bit (b + 1 - a) v = v
          then Some ((w AND NOT (push_bit a (mask (b + 1 - a)))) OR push_bit a v) else None)"

definition bits_documented :: "bits \<Rightarrow> bool" where
  "bits_documented B \<longleftrightarrow> bit_field_documented (bits16 B) \<and> bit_field_documented (bits32 B)"

definition bit_field_model :: "'a::len bit_field" where
  "bit_field_model = \<lparr>get_bit = (\<lambda>w i. bit w i), get_bits = (\<lambda>w a b. take_bit (b + 1 - a) (drop_bit a w)),
     set_bit_to = (\<lambda>w i c. if c then set_bit i w else unset_bit i w),
     set_bits = (\<lambda>w a b v. if take_bit (b + 1 - a) v = v
          then Some ((w AND NOT (push_bit a (mask (b + 1 - a)))) OR push_bit a v) else None)\<rparr>"

definition bits_model :: bits where
  "bits_model = \<lparr>bits16 = bit_field_model, bits32 = bit_field_model\<rparr>"

lemma bits_model_documented: "bits_documented bits_model"
  by (simp add: bits_documented_def bits_model_def bit_field_documented_def bit_field_model_def)

section \<open>Commands\<close>

datatype PrpOrSgl = Prp | SglMetaContiguBuffer | SglIncludingMeta

fun prp_or_sgl_u8 :: "PrpOrSgl \<Rightarrow> u8" where
  "prp_or_sgl_u8 Prp = 0"
| "prp_or_sgl_u8 SglMetaContiguBuffer = 1"
| "prp_or_sgl_u8 SglIncludingMeta = 2"

text \<open>
  The derive macro \<open>U8Enum\<close>: the conversion from a number matches it against the discriminants of the
  variants, in their order.
\<close>

definition try_from_u8 :: "('e \<Rightarrow> u8) \<Rightarrow> 'e list \<Rightarrow> u8 \<Rightarrow> 'e option" where
  "try_from_u8 discriminant variants v = find (\<lambda>e. discriminant e = v) variants"

subsection \<open>Command dword 0\<close>

definition cdw0_zero :: u32 where
  "cdw0_zero = 0"

definition opcode :: "bits \<Rightarrow> u32 \<Rightarrow> u8" where
  "opcode B w = ucast (get_bits (bits32 B) w 0 7)"

definition set_opcode :: "bits \<Rightarrow> u32 \<Rightarrow> u8 \<Rightarrow> u32 run" where
  "set_opcode B w v = set_bits (bits32 B) w 0 7 (ucast v)"

definition fuse :: "bits \<Rightarrow> u32 \<Rightarrow> u8" where
  "fuse B w = ucast (get_bits (bits32 B) w 8 9)"

definition set_fuse :: "bits \<Rightarrow> u32 \<Rightarrow> u8 \<Rightarrow> u32 run" where
  "set_fuse B w v = set_bits (bits32 B) w 8 9 (ucast v)"

definition prp_or_sgl :: "bits \<Rightarrow> u32 \<Rightarrow> PrpOrSgl run" where
  "prp_or_sgl B w =
     try_from_u8 prp_or_sgl_u8 [Prp, SglMetaContiguBuffer, SglIncludingMeta] (ucast (get_bits (bits32 B) w 14 15))"

definition set_prp_or_sgl :: "bits \<Rightarrow> u32 \<Rightarrow> PrpOrSgl \<Rightarrow> u32 run" where
  "set_prp_or_sgl B w v = set_bits (bits32 B) w 14 15 (ucast (prp_or_sgl_u8 v))"

definition command_identifier :: "bits \<Rightarrow> u32 \<Rightarrow> u16" where
  "command_identifier B w = ucast (get_bits (bits32 B) w 16 31)"

definition set_command_identifier :: "bits \<Rightarrow> u32 \<Rightarrow> u16 \<Rightarrow> u32 run" where
  "set_command_identifier B w v = set_bits (bits32 B) w 16 31 (ucast v)"

subsection \<open>Command and completion entries\<close>

record DataPtr =
  prp_entry_1 :: u64
  prp_entry_2 :: u64

record CommonCommand =
  dword0 :: u32
  namespace_ident :: u32
  dword2 :: u32
  dword3 :: u32
  metadata_ptr :: u64
  data_ptr :: DataPtr
  dword10 :: u32
  dword11 :: u32
  dword12 :: u32
  dword13 :: u32
  dword14 :: u32
  dword15 :: u32

definition SUBMISSION_COMMAND_ENTRY_SIZE :: nat where
  "SUBMISSION_COMMAND_ENTRY_SIZE = 64"

definition default_command :: CommonCommand where
  "default_command = \<lparr>dword0 = 0, namespace_ident = 0, dword2 = 0, dword3 = 0, metadata_ptr = 0,
     data_ptr = \<lparr>prp_entry_1 = 0, prp_entry_2 = 0\<rparr>, dword10 = 0, dword11 = 0, dword12 = 0, dword13 = 0,
     dword14 = 0, dword15 = 0\<rparr>"

record CommonCompletionEntry =
  c_dword0 :: u32
  c_dword1 :: u32
  c_submission_queue_head :: u16
  c_submission_queue_ident :: u16
  c_command_ident :: u16
  status_and_phase :: u16

definition COMPLETION_COMMAND_ENTRY_SIZE :: nat where
  "COMPLETION_COMMAND_ENTRY_SIZE = 16"

definition phase :: "bits \<Rightarrow> CommonCompletionEntry \<Rightarrow> bool" where
  "phase B e = get_bit (bits16 B) (status_and_phase e) 0"

text \<open>The status fields; \<open>try_into().unwrap()\<close> panics when the bits do not fit a byte.\<close>

definition to_u8 :: "u16 \<Rightarrow> u8 run" where
  "to_u8 w = (if unat w < 256 then Some (ucast w) else None)"

definition status_code :: "bits \<Rightarrow> CommonCompletionEntry \<Rightarrow> u8 run" where
  "status_code B e = to_u8 (get_bits (bits16 B) (status_and_phase e) 1 8)"

definition status_code_type :: "bits \<Rightarrow> CommonCompletionEntry \<Rightarrow> u8 run" where
  "status_code_type B e = to_u8 (get_bits (bits16 B) (status_and_phase e) 9 11)"

definition common_retry_delay :: "bits \<Rightarrow> CommonCompletionEntry \<Rightarrow> u8 run" where
  "common_retry_delay B e = to_u8 (get_bits (bits16 B) (status_and_phase e) 12 13)"

definition more :: "bits \<Rightarrow> CommonCompletionEntry \<Rightarrow> bool" where
  "more B e = get_bit (bits16 B) (status_and_phase e) 14"

definition do_not_retry :: "bits \<Rightarrow> CommonCompletionEntry \<Rightarrow> bool" where
  "do_not_retry B e = get_bit (bits16 B) (status_and_phase e) 15"

datatype GenericCommandStatus = Success | InvalidCommandOpcode | InvalidFieldInCommand | CommandIdConflict
  | DataTransferError | CommandAbortedPowerLoss | InternalError | AbortRequested | AbortSQDeletion
  | AbortFailedFuse | AbortMissingFues | InvalidNamespaceFormat | SequenceError | InvalidSgl | InvalidSglCount
  | InvalidSglLength | InvalidMetadataSglLength | InvalidSglType | InvalidUseOfControllerMemBuf
  | InvaldPrpOffset | AtomicWriteExceeded | OperationDenied | InvalidSglOffset | HostIdInconsistentFormat
  | KeepAliveExpired | InvalidKeepAliveTimeout | AbortDueToPreemptAbort | SanitiizeFaild | SanitizeInProgress
  | InvalidSglBlockGranularity | NotSupportedForQueueInCMB | NamespaceWriteProtected | Interrupted
  | TransientTransportError | ProhibitedByLockdown | AdminCommandMediaNotReady | LbaOutOfRange
  | CapacityExceeded | NamespaceNotReady | ReservationConflict | FormatInProgress | InvalidValueSize
  | InvalidKeySize | KvKeyDoesNotExist | UnrecoveredError | KeyExists

definition generic_status_table :: "(u8 \<times> GenericCommandStatus) list" where
  "generic_status_table = [(0, Success), (1, InvalidCommandOpcode), (2, InvalidFieldInCommand), (3, CommandIdConflict),
     (4, DataTransferError), (5, CommandAbortedPowerLoss), (6, InternalError), (7, AbortRequested), (8, AbortSQDeletion),
     (9, AbortFailedFuse), (0xa, AbortMissingFues), (0xb, InvalidNamespaceFormat), (0xc, SequenceError), (0xd, InvalidSgl),
     (0xe, InvalidSglCount), (0xf, InvalidSglLength), (0x10, InvalidMetadataSglLength), (0x11, InvalidSglType),
     (0x12, InvalidUseOfControllerMemBuf), (0x13, InvaldPrpOffset), (0x14, AtomicWriteExceeded), (0x15, OperationDenied),
     (0x16, InvalidSglOffset), (0x18, HostIdInconsistentFormat), (0x19, KeepAliveExpired), (0x1a, InvalidKeepAliveTimeout),
     (0x1b, AbortDueToPreemptAbort), (0x1c, SanitiizeFaild), (0x1d, SanitizeInProgress), (0x1e, InvalidSglBlockGranularity),
     (0x1f, NotSupportedForQueueInCMB), (0x20, NamespaceWriteProtected), (0x21, Interrupted), (0x22, TransientTransportError),
     (0x23, ProhibitedByLockdown), (0x24, AdminCommandMediaNotReady), (0x80, LbaOutOfRange), (0x81, CapacityExceeded),
     (0x82, NamespaceNotReady), (0x83, ReservationConflict), (0x84, FormatInProgress), (0x85, InvalidValueSize),
     (0x86, InvalidKeySize), (0x87, KvKeyDoesNotExist), (0x88, UnrecoveredError), (0x89, KeyExists)]"

definition generic_status_try_from :: "u8 \<Rightarrow> GenericCommandStatus option" where
  "generic_status_try_from v = map_of generic_status_table v"

datatype CommandStatusCode = GenericStatus GenericCommandStatus | UnknownGenericStatus u8 | CommandSpecificStatus u8
  | MediaAndDataIntegrityError u8 | PathRelatedStatus u8 | Reserved u8 u8 | VendorSpecific u8

definition status :: "bits \<Rightarrow> CommonCompletionEntry \<Rightarrow> CommandStatusCode run" where
  "status B e = do {
     t \<leftarrow> status_code_type B e;
     c \<leftarrow> status_code B e;
     (if t = 0 then Some (case generic_status_try_from c of Some s \<Rightarrow> GenericStatus s | None \<Rightarrow> UnknownGenericStatus c)
      else if t = 1 then Some (CommandSpecificStatus c)
      else if t = 2 then Some (MediaAndDataIntegrityError c)
      else if t = 3 then Some (PathRelatedStatus c)
      else if 4 \<le> t \<and> t \<le> 6 then Some (Reserved t c)
      else if t = 7 then Some (VendorSpecific c)
      else None)
   }"

definition is_success :: "CommandStatusCode \<Rightarrow> bool" where
  "is_success s \<longleftrightarrow> s = GenericStatus Success"

definition is_err :: "CommandStatusCode \<Rightarrow> bool" where
  "is_err s \<longleftrightarrow> \<not> is_success s"

definition assert_success :: "CommandStatusCode \<Rightarrow> unit run" where
  "assert_success s = assert_that (s = GenericStatus Success)"

section \<open>Lists of physical pages\<close>

definition PAGE_ENTRY_COUNT :: nat where
  "PAGE_ENTRY_COUNT = 512"

datatype PrpEntryError = NotDwordAligned | OffsetToLarge

text \<open>A \<open>PrpEntry\<close> is a number: the address of a frame, with an offset into it.\<close>

definition prp_new :: "u64 \<Rightarrow> u64" where
  "prp_new frame = frame"

definition prp_zero :: u64 where
  "prp_zero = prp_new 0"

definition with_offset :: "u64 \<Rightarrow> u64 \<Rightarrow> PrpEntryError + u64" where
  "with_offset frame offset =
     (if SIZE Size4KiB \<le> offset then Inl OffsetToLarge
      else if offset AND 3 \<noteq> 0 then Inl NotDwordAligned
      else Inr (frame OR offset))"

definition prp_frame :: "x86_64 \<Rightarrow> u64 \<Rightarrow> u64 run" where
  "prp_frame X e = do { a \<leftarrow> PhysAddr_new X e; Some (containing_address X Size4KiB a) }"

definition prp_offset :: "u64 \<Rightarrow> u64" where
  "prp_offset e = e AND (SIZE Size4KiB - 1)"

definition prp_try_from :: "x86_64 \<Rightarrow> u64 \<Rightarrow> (PrpEntryError + u64) run" where
  "prp_try_from X addr = do {
     let frame = containing_address X Size4KiB addr;
     offset \<leftarrow> checked_sub addr frame;
     Some (with_offset frame offset)
   }"

record PrpList =
  first_entry :: u64
  prp_list_frame :: u64
  mappings :: "(u64 \<times> u64) list"
  entry_count :: nat

datatype Prp = List PrpList | Entry u64 | DoubleEntry u64 u64

fun entry_1 :: "Prp \<Rightarrow> u64" where
  "entry_1 (List l) = first_entry l"
| "entry_1 (Entry e) = e"
| "entry_1 (DoubleEntry e1 e2) = e1"

fun entry_2 :: "Prp \<Rightarrow> u64" where
  "entry_2 (List l) = prp_list_frame l"
| "entry_2 (Entry e) = prp_zero"
| "entry_2 (DoubleEntry e1 e2) = e2"

fun prp_mappings :: "Prp \<Rightarrow> (u64 \<times> u64) list" where
  "prp_mappings (List l) = mappings l"
| "prp_mappings (Entry e) = []"
| "prp_mappings (DoubleEntry e1 e2) = []"

text \<open>
  \<open>PrpList::new\<close>. The closure \<open>alloc_mapping\<close> and the allocation inside \<open>try_reserve\<close> are the
  argument \<open>alloc\<close>, with a state of their own; \<open>mem\<close> is the memory, as the list of the 512 entries
  of each page.
\<close>

record 'a prp_alloc =
  alloc_mapping :: "'a \<Rightarrow> 'a \<times> (MemError + u64 \<times> u64)"
  try_reserve :: "'a \<Rightarrow> 'a \<times> bool"

record 'a prp_state =
  alloc_state :: 'a
  mem :: "u64 \<Rightarrow> u64 list"
  maps :: "(u64 \<times> u64) list"
  prp_page :: u64
  entries_in_page :: nat

definition alloc_page :: "'a prp_alloc \<Rightarrow> 'a \<Rightarrow> 'a \<times> (MemError + u64 \<times> u64)" where
  "alloc_page alloc a =
     (case alloc_mapping alloc a of
        (a1, Inl e) \<Rightarrow> (a1, Inl e)
      | (a1, Inr mapping) \<Rightarrow>
          (case try_reserve alloc a1 of
             (a2, False) \<Rightarrow> (a2, Inl AllocError)
           | (a2, True) \<Rightarrow> (a2, Inr mapping)))"

definition next_prp_page :: "'a prp_alloc \<Rightarrow> 'a prp_state \<Rightarrow> MemError + 'a prp_state" where
  "next_prp_page alloc s =
     (case alloc_page alloc (alloc_state s) of
        (a, Inl e) \<Rightarrow> Inl e
      | (a, Inr (page, frame)) \<Rightarrow>
          (let last_page = prp_page s;
               last_entry = mem s last_page ! (PAGE_ENTRY_COUNT - 1);
               m1 = (mem s)(last_page := (mem s last_page)[PAGE_ENTRY_COUNT - 1 := prp_new frame]);
               m2 = m1(page := (m1 page)[0 := last_entry])
           in Inr \<lparr>alloc_state = a, mem = m2, maps = maps s @ [(page, frame)], prp_page = page, entries_in_page = 1\<rparr>))"

fun fill_prp_list :: "'a prp_alloc \<Rightarrow> u64 list \<Rightarrow> 'a prp_state \<Rightarrow> (MemError + 'a prp_state) run" where
  "fill_prp_list alloc [] s = Some (Inr s)"
| "fill_prp_list alloc (e # es) s =
     (if prp_offset e \<noteq> 0 then None
      else case (if entries_in_page s = PAGE_ENTRY_COUNT then next_prp_page alloc s else Inr s) of
             Inl err \<Rightarrow> Some (Inl err)
           | Inr s1 \<Rightarrow>
               if PAGE_ENTRY_COUNT \<le> entries_in_page s1 then None
               else fill_prp_list alloc es
                 (s1\<lparr>mem := (mem s1)(prp_page s1 := (mem s1 (prp_page s1))[entries_in_page s1 := e]),
                    entries_in_page := entries_in_page s1 + 1\<rparr>))"

definition prp_list_new ::
  "'a prp_alloc \<Rightarrow> u64 list \<Rightarrow> 'a \<Rightarrow> (u64 \<Rightarrow> u64 list) \<Rightarrow> (MemError + 'a prp_state \<times> PrpList) run" where
  "prp_list_new alloc es a m = do {
     assert_that (3 \<le> length es);
     (case alloc_page alloc a of
        (a1, Inl e) \<Rightarrow> Some (Inl e)
      | (a1, Inr (page, frame)) \<Rightarrow> do {
          r \<leftarrow> fill_prp_list alloc (tl es)
                 \<lparr>alloc_state = a1, mem = m, maps = [(page, frame)], prp_page = page, entries_in_page = 0\<rparr>;
          Some (case r of
              Inl e \<Rightarrow> Inl e
            | Inr s \<Rightarrow> Inr (s, \<lparr>first_entry = hd es, prp_list_frame = prp_new frame, mappings = maps s,
                entry_count = length es\<rparr>))
        })
   }"

section \<open>The commands\<close>

datatype IoOpcode = Flush | Write | Read | WriteUncorrectable | Compare | WriteZeroes | DatasetManagment | Verify
  | ReservationRegister | ReservationReport | ReservationAcquire | ReservationRelease | Copy

fun io_opcode :: "IoOpcode \<Rightarrow> u8" where
  "io_opcode Flush = 0x0"
| "io_opcode Write = 0x1"
| "io_opcode Read = 0x2"
| "io_opcode WriteUncorrectable = 0x4"
| "io_opcode Compare = 0x5"
| "io_opcode WriteZeroes = 0x8"
| "io_opcode DatasetManagment = 0x9"
| "io_opcode Verify = 0xc"
| "io_opcode ReservationRegister = 0xd"
| "io_opcode ReservationReport = 0xe"
| "io_opcode ReservationAcquire = 0x11"
| "io_opcode ReservationRelease = 0x15"
| "io_opcode Copy = 0x19"

definition create_read_command :: "bits \<Rightarrow> Prp \<Rightarrow> u64 \<Rightarrow> u16 \<Rightarrow> CommonCommand run" where
  "create_read_command B prp slba block_count = do {
     cdw0 \<leftarrow> set_opcode B cdw0_zero (io_opcode Read);
     cdw0 \<leftarrow> set_prp_or_sgl B cdw0 PrpOrSgl.Prp;
     assert_that (0 < block_count);
     dw12 \<leftarrow> set_bits (bits32 B) 0 0 15 (ucast (block_count - 1));
     Some (default_command\<lparr>dword0 := cdw0, namespace_ident := 1,
       data_ptr := \<lparr>prp_entry_1 = entry_1 prp, prp_entry_2 = entry_2 prp\<rparr>, dword2 := 0, dword3 := 0,
       dword10 := ucast (slba AND 0xffffffff), dword11 := ucast (drop_bit 32 slba), dword12 := dw12, dword13 := 0\<rparr>)
   }"

definition create_write_command :: "bits \<Rightarrow> Prp \<Rightarrow> u64 \<Rightarrow> u16 \<Rightarrow> CommonCommand run" where
  "create_write_command B prp slba block_count = do {
     cdw0 \<leftarrow> set_opcode B cdw0_zero (io_opcode Read);
     cdw0 \<leftarrow> set_prp_or_sgl B cdw0 PrpOrSgl.Prp;
     assert_that (0 < block_count);
     dw12 \<leftarrow> set_bits (bits32 B) 0 0 15 (ucast (block_count - 1));
     Some (default_command\<lparr>dword0 := cdw0, namespace_ident := 1,
       data_ptr := \<lparr>prp_entry_1 = entry_1 prp, prp_entry_2 = entry_2 prp\<rparr>, dword2 := 0, dword3 := 0,
       dword10 := ucast (slba AND 0xffffffff), dword11 := ucast (drop_bit 32 slba), dword12 := dw12, dword13 := 0\<rparr>)
   }"

text \<open>The opcodes of the admin commands that manage the queues.\<close>

datatype QueueOpcode = DeleteIOSubmissionQueue | CreateIOSubmissionQueue | DeleteIOCompletionQueue | CreateIOCompletionQueue

fun queue_opcode :: "QueueOpcode \<Rightarrow> u8" where
  "queue_opcode DeleteIOSubmissionQueue = 0x0"
| "queue_opcode CreateIOSubmissionQueue = 0x1"
| "queue_opcode DeleteIOCompletionQueue = 0x4"
| "queue_opcode CreateIOCompletionQueue = 0x5"

definition create_io_completion_queue :: "bits \<Rightarrow> u16 \<Rightarrow> u16 \<Rightarrow> u64 \<Rightarrow> CommonCommand run" where
  "create_io_completion_queue B queue_ident queue_size queue_frame = do {
     dw0 \<leftarrow> set_opcode B cdw0_zero (queue_opcode CreateIOCompletionQueue);
     dw0 \<leftarrow> set_prp_or_sgl B dw0 PrpOrSgl.Prp;
     dw10 \<leftarrow> set_bits (bits32 B) 0 0 15 (ucast queue_ident);
     assert_that (0 < queue_size);
     dw10 \<leftarrow> set_bits (bits32 B) dw10 16 31 (ucast (queue_size - 1));
     let dw11 = set_bit_to (bits32 B) (set_bit_to (bits32 B) 0 1 False) 0 True;
     Some (default_command\<lparr>dword0 := dw0,
       data_ptr := (data_ptr default_command)\<lparr>prp_entry_1 := prp_new queue_frame\<rparr>, dword10 := dw10, dword11 := dw11\<rparr>)
   }"

definition create_io_submission_queue :: "bits \<Rightarrow> u16 \<Rightarrow> u16 \<Rightarrow> u64 \<Rightarrow> CommonCommand run" where
  "create_io_submission_queue B queue_ident queue_size queue_frame = do {
     dw0 \<leftarrow> set_opcode B cdw0_zero (queue_opcode CreateIOSubmissionQueue);
     dw0 \<leftarrow> set_prp_or_sgl B dw0 PrpOrSgl.Prp;
     dw10 \<leftarrow> set_bits (bits32 B) 0 0 15 (ucast queue_ident);
     assert_that (0 < queue_size);
     dw10 \<leftarrow> set_bits (bits32 B) dw10 16 31 (ucast (queue_size - 1));
     dw11 \<leftarrow> set_bits (bits32 B) 0 16 31 (ucast queue_ident);
     dw11 \<leftarrow> set_bits (bits32 B) dw11 1 2 2;
     let dw11 = set_bit_to (bits32 B) dw11 0 True;
     Some (default_command\<lparr>dword0 := dw0,
       data_ptr := (data_ptr default_command)\<lparr>prp_entry_1 := prp_new queue_frame\<rparr>, dword10 := dw10, dword11 := dw11\<rparr>)
   }"

definition delete_io_completion_queue :: "bits \<Rightarrow> u16 \<Rightarrow> CommonCommand run" where
  "delete_io_completion_queue B queue_ident = do {
     dw0 \<leftarrow> set_opcode B cdw0_zero (queue_opcode DeleteIOCompletionQueue);
     dw0 \<leftarrow> set_prp_or_sgl B dw0 PrpOrSgl.Prp;
     dw10 \<leftarrow> set_bits (bits32 B) 0 0 15 (ucast queue_ident);
     Some (default_command\<lparr>dword0 := dw0, dword10 := dw10\<rparr>)
   }"

definition delete_io_submission_queue :: "bits \<Rightarrow> u16 \<Rightarrow> CommonCommand run" where
  "delete_io_submission_queue B queue_ident = do {
     dw0 \<leftarrow> set_opcode B cdw0_zero (queue_opcode DeleteIOSubmissionQueue);
     dw0 \<leftarrow> set_prp_or_sgl B dw0 PrpOrSgl.Prp;
     dw10 \<leftarrow> set_bits (bits32 B) 0 0 15 (ucast queue_ident);
     Some (default_command\<lparr>dword0 := dw0, dword10 := dw10\<rparr>)
   }"

section \<open>Fields\<close>

lemma get_bits_bit:
  "bit_field_documented B \<Longrightarrow> bit (get_bits B w a b) n \<longleftrightarrow> n < b + 1 - a \<and> bit w (a + n)"
  by (auto simp: bit_field_documented_def bit_simps)

lemma bits_above: "unat (v :: 'a::len word) < 2 ^ k \<Longrightarrow> k \<le> n \<Longrightarrow> \<not> bit v n"
proof -
  assume a: "unat v < 2 ^ k" "k \<le> n"
  have "take_bit k v = v" using a(1) by (simp add: word_unat_eq_iff unat_take_bit)
  then show ?thesis using a(2) by (metis bit_take_bit_iff not_less)
qed

lemma set_bits_Some:
  fixes B :: "'a::len bit_field"
  assumes "bit_field_documented B" "unat v < 2 ^ (b + 1 - a)" "b < LENGTH('a)"
  shows "\<exists>w'. set_bits B w a b v = Some w' \<and> (\<forall>n < LENGTH('a). bit w' n \<longleftrightarrow>
    (if a \<le> n \<and> n \<le> b then bit v (n - a) else bit w n))"
proof -
  have t: "take_bit (b + 1 - a) v = v" using assms(2) by (simp add: word_unat_eq_iff unat_take_bit)
  note hi = bits_above [OF assms(2)]
  let ?w = "(w AND NOT (push_bit a (mask (b + 1 - a)))) OR push_bit a v"
  have "bit ?w n \<longleftrightarrow> (if a \<le> n \<and> n \<le> b then bit v (n - a) else bit w n)" if "n < LENGTH('a)" for n
    using that hi [of "n - a"] by (auto simp: bit_simps not_le)
  moreover have "set_bits B w a b v = Some ?w" using assms(1) t by (simp add: bit_field_documented_def)
  ultimately show ?thesis by blast
qed

text \<open>Writing a field: the field has the value, and a field that does not overlap keeps its value.\<close>

lemma set_get_bits:
  fixes B :: "'a::len bit_field"
  assumes "bit_field_documented B" "unat v < 2 ^ (b + 1 - a)" "b < LENGTH('a)"
  shows "\<exists>w'. set_bits B w a b v = Some w' \<and> get_bits B w' a b = v
    \<and> (\<forall>c d. d < LENGTH('a) \<longrightarrow> d < a \<or> b < c \<longrightarrow> get_bits B w' c d = get_bits B w c d)"
proof -
  obtain w' where w': "set_bits B w a b v = Some w'"
    "\<And>n. n < LENGTH('a) \<Longrightarrow> bit w' n \<longleftrightarrow> (if a \<le> n \<and> n \<le> b then bit v (n - a) else bit w n)"
    using set_bits_Some [OF assms, of w] by blast
  note hi = bits_above [OF assms(2)]
  have "get_bits B w' a b = v"
  proof (rule bit_word_eqI)
    fix n show "bit (get_bits B w' a b) n \<longleftrightarrow> bit v n"
    proof (cases "n < b + 1 - a")
      case True
      then have "a + n \<le> b" by simp
      then show ?thesis using True w'(2) [of "a + n"] assms(3) by (simp add: get_bits_bit [OF assms(1)])
    next
      case False
      then show ?thesis using hi [of n] by (simp add: get_bits_bit [OF assms(1)])
    qed
  qed
  moreover have "get_bits B w' c d = get_bits B w c d" if "d < LENGTH('a)" "d < a \<or> b < c" for c d
  proof (rule bit_word_eqI)
    fix n
    have "bit w' (c + n) \<longleftrightarrow> bit w (c + n)" if "n < d + 1 - c"
    proof -
      have "c + n < LENGTH('a)" "\<not> (a \<le> c + n \<and> c + n \<le> b)" using that \<open>d < LENGTH('a)\<close> \<open>d < a \<or> b < c\<close> by auto
      then show ?thesis using w'(2) [of "c + n"] by (simp only: if_False)
    qed
    then show "bit (get_bits B w' c d) n \<longleftrightarrow> bit (get_bits B w c d) n" by (auto simp: get_bits_bit [OF assms(1)])
  qed
  ultimately show ?thesis using w'(1) by blast
qed

lemma unat_ucast_lt: "unat (ucast (v :: 'a::len word) :: 'b::len word) < 2 ^ LENGTH('a)"
  by (simp add: unsigned_ucast_eq) (meson le_less_trans take_bit_nat_less_eq_self unsigned_less)

lemma set_command_identifier_Some:
  assumes "bits_documented B"
  shows "\<exists>w'. set_command_identifier B w v = Some w' \<and> command_identifier B w' = v
    \<and> opcode B w' = opcode B w \<and> fuse B w' = fuse B w \<and> prp_or_sgl B w' = prp_or_sgl B w"
proof -
  have "bit_field_documented (bits32 B)" using assms by (simp add: bits_documented_def)
  from set_get_bits [OF this, of "ucast v" 31 16 w] unat_ucast_lt [of v, where 'b = 32]
  obtain w' where "set_bits (bits32 B) w 16 31 (ucast v) = Some w'" "get_bits (bits32 B) w' 16 31 = ucast v"
    "\<And>c d. d < 16 \<Longrightarrow> get_bits (bits32 B) w' c d = get_bits (bits32 B) w c d" by auto
  then show ?thesis
    by (simp add: set_command_identifier_def command_identifier_def opcode_def fuse_def prp_or_sgl_def ucast_back)
qed

lemma set_opcode_Some:
  assumes "bits_documented B"
  shows "\<exists>w'. set_opcode B w v = Some w' \<and> opcode B w' = v
    \<and> command_identifier B w' = command_identifier B w \<and> fuse B w' = fuse B w \<and> prp_or_sgl B w' = prp_or_sgl B w"
proof -
  have "bit_field_documented (bits32 B)" using assms by (simp add: bits_documented_def)
  from set_get_bits [OF this, of "ucast v" 7 0 w] unat_ucast_lt [of v, where 'b = 32]
  obtain w' where "set_bits (bits32 B) w 0 7 (ucast v) = Some w'" "get_bits (bits32 B) w' 0 7 = ucast v"
    "\<And>c d. d < 32 \<Longrightarrow> 7 < c \<Longrightarrow> get_bits (bits32 B) w' c d = get_bits (bits32 B) w c d" by auto
  then show ?thesis
    by (simp add: set_opcode_def command_identifier_def opcode_def fuse_def prp_or_sgl_def ucast_back)
qed

lemma set_prp_or_sgl_Some:
  assumes "bits_documented B"
  shows "\<exists>w'. set_prp_or_sgl B w v = Some w' \<and> prp_or_sgl B w' = Some v
    \<and> command_identifier B w' = command_identifier B w \<and> fuse B w' = fuse B w \<and> opcode B w' = opcode B w"
proof -
  have "bit_field_documented (bits32 B)" using assms by (simp add: bits_documented_def)
  moreover have "unat (ucast (prp_or_sgl_u8 v) :: u32) < 2 ^ (15 + 1 - 14)" by (cases v) simp_all
  ultimately obtain w' where "set_bits (bits32 B) w 14 15 (ucast (prp_or_sgl_u8 v)) = Some w'"
    "get_bits (bits32 B) w' 14 15 = ucast (prp_or_sgl_u8 v)"
    "\<And>c d. d < 32 \<Longrightarrow> d < 14 \<or> 15 < c \<Longrightarrow> get_bits (bits32 B) w' c d = get_bits (bits32 B) w c d"
    using set_get_bits [of "bits32 B" "ucast (prp_or_sgl_u8 v)" 15 14 w] by auto
  moreover have "try_from_u8 prp_or_sgl_u8 [PrpOrSgl.Prp, SglMetaContiguBuffer, SglIncludingMeta] (prp_or_sgl_u8 v) = Some v"
    by (cases v) (simp_all add: try_from_u8_def)
  ultimately show ?thesis
    by (simp add: set_prp_or_sgl_def command_identifier_def opcode_def fuse_def prp_or_sgl_def ucast_back)
qed

section \<open>Completion status\<close>

lemma to_u8_get_bits:
  assumes "bit_field_documented (bits16 B)" "b + 1 - a \<le> 8"
  shows "to_u8 (get_bits (bits16 B) w a b) = Some (ucast (get_bits (bits16 B) w a b))"
proof -
  have "unat (get_bits (bits16 B) w a b) < 2 ^ (b + 1 - a)"
    using assms(1) by (simp add: bit_field_documented_def unat_take_bit)
  also have "\<dots> \<le> 2 ^ 8" using assms(2) by (intro power_increasing) simp_all
  finally show ?thesis by (simp add: to_u8_def)
qed

lemma ucast_u16_eq_0: "unat (w :: u16) < 256 \<Longrightarrow> (ucast w :: u8) = 0 \<longleftrightarrow> w = 0"
  by (simp add: word_unat_eq_iff unsigned_ucast_eq take_bit_nat_eq_self)

lemma three_bits: "(t :: u8) \<le> 7 \<Longrightarrow> t = 0 \<or> t = 1 \<or> t = 2 \<or> t = 3 \<or> t = 4 \<or> t = 5 \<or> t = 6 \<or> t = 7"
  by (simp add: word_le_nat_alt word_unat_eq_iff) arith

text \<open>
  The status of every completion entry decodes without a panic, and it is a success exactly
  when all eleven bits of the status type and the status code are zero.
\<close>

lemma status_decodes:
  assumes "bits_documented B"
  shows "\<exists>s. status B e = Some s \<and> (is_success s \<longleftrightarrow> (\<forall>n \<in> {1..11}. \<not> bit (status_and_phase e) n))"
proof -
  have B: "bit_field_documented (bits16 B)" using assms by (simp add: bits_documented_def)
  let ?t = "get_bits (bits16 B) (status_and_phase e) 9 11" and ?c = "get_bits (bits16 B) (status_and_phase e) 1 8"
  have lt: "unat ?t < 8" "unat ?c < 256" using B by (simp_all add: bit_field_documented_def unat_take_bit)
  have ty: "status_code_type B e = Some (ucast ?t)" "status_code B e = Some (ucast ?c)"
    using to_u8_get_bits [OF B] by (simp_all add: status_code_type_def status_code_def)
  have "unat (ucast ?t :: u8) < 8" using lt(1) by (simp add: unsigned_ucast_eq take_bit_nat_eq_self)
  then have small: "(ucast ?t :: u8) \<le> 7" by (simp add: word_le_nat_alt)
  have zero: "?t = 0 \<and> ?c = 0 \<longleftrightarrow> (\<forall>n \<in> {1..11}. \<not> bit (status_and_phase e) n)"
  proof -
    have tc: "?t = 0 \<longleftrightarrow> (\<forall>n < 3. \<not> bit (status_and_phase e) (9 + n))" "?c = 0 \<longleftrightarrow> (\<forall>n < 8. \<not> bit (status_and_phase e) (1 + n))"
      by (auto simp: bit_eq_iff get_bits_bit [OF B])
    have sets: "{1..11} = (\<lambda>n. 9 + n) ` {..<3 :: nat} \<union> (\<lambda>n. 1 + n) ` {..<8 :: nat}" by code_simp
    show ?thesis unfolding sets tc by auto
  qed
  have succ: "generic_status_try_from c = Some Success \<longleftrightarrow> c = 0" for c
    by (simp add: generic_status_try_from_def generic_status_table_def)
  have "\<exists>s. status B e = Some s \<and> (is_success s \<longleftrightarrow> ?t = 0 \<and> ?c = 0)"
  proof (cases "(ucast ?t :: u8) = 0")
    case True
    then show ?thesis using ty lt ucast_u16_eq_0 succ [of "ucast ?c"]
      by (auto simp: status_def is_success_def split: option.split)
  next
    case False
    then have "\<not> (?t = 0 \<and> ?c = 0)" by auto
    with False three_bits [OF small] ty show ?thesis by (elim disjE) (simp_all add: status_def is_success_def)
  qed
  then show ?thesis unfolding zero .
qed

lemma zero_status_bits: "\<forall>n \<in> {1..11}. \<not> bit (0x8001 :: u16) n"
  by code_simp

section \<open>What the controller reads from a list\<close>

text \<open>
  How a controller follows a list, as the specification describes it: a page holds up to 512 entries, and the
  last entry of a full page is a pointer to the next page when more than 512 entries are left. \<open>page_of\<close> is the page
  at the address of a frame.
\<close>

function prp_walk :: "(u64 \<Rightarrow> u64) \<Rightarrow> (u64 \<Rightarrow> u64 list) \<Rightarrow> u64 \<Rightarrow> nat \<Rightarrow> u64 list" where
  "prp_walk page_of m page n =
     (if n \<le> PAGE_ENTRY_COUNT then take n (m page)
      else take (PAGE_ENTRY_COUNT - 1) (m page)
        @ prp_walk page_of m (page_of (m page ! (PAGE_ENTRY_COUNT - 1))) (n - (PAGE_ENTRY_COUNT - 1)))"
  by pat_completeness auto
termination
  by (relation "measure (\<lambda>(page_of, m, page, n). n)") (auto simp: PAGE_ENTRY_COUNT_def)

declare prp_walk.simps [simp del]

text \<open>The pages of a list with their frames, and the entries \<open>xs\<close> they hold.\<close>

fun chain :: "(u64 \<Rightarrow> u64 list) \<Rightarrow> (u64 \<times> u64) list \<Rightarrow> u64 list \<Rightarrow> bool" where
  "chain m [] xs \<longleftrightarrow> False"
| "chain m [(p, f)] xs \<longleftrightarrow> length xs \<le> 512 \<and> take (length xs) (m p) = xs"
| "chain m ((p, f) # (q, g) # pfs) xs \<longleftrightarrow> 512 < length xs \<and> take 511 (m p) = take 511 xs \<and> m p ! 511 = g
     \<and> chain m ((q, g) # pfs) (drop 511 xs)"

lemma chain_cong:
  "chain m pfs xs \<Longrightarrow> (\<And>p. p \<in> fst ` set pfs \<Longrightarrow> m' p = m p) \<Longrightarrow> chain m' pfs xs"
  by (induction m pfs xs rule: chain.induct) auto

lemma chain_walk:
  assumes "chain m pfs xs" "\<forall>(p, f) \<in> set pfs. page_of f = p"
  shows "prp_walk page_of m (fst (hd pfs)) (length xs) = xs"
  using assms
proof (induction m pfs xs rule: chain.induct)
  case (2 m p f xs)
  then show ?case by (subst prp_walk.simps) (simp add: PAGE_ENTRY_COUNT_def)
next
  case (3 m p f q g pfs xs)
  then have "prp_walk page_of m q (length xs - 511) = drop 511 xs" by simp
  with 3 show ?case by (subst prp_walk.simps) (simp add: PAGE_ENTRY_COUNT_def)
qed simp

text \<open>One more entry: it fits into the last page, or it starts a new one.\<close>

lemma chain_add:
  assumes "chain m (pfs @ [(p, f)]) xs" "length xs - 511 * length pfs < 512" "distinct (map fst (pfs @ [(p, f)]))" "length (m p) = 512"
  shows "chain (m(p := (m p)[length xs - 511 * length pfs := e])) (pfs @ [(p, f)]) (xs @ [e])"
  using assms
proof (induction pfs arbitrary: xs)
  case Nil
  then have "length xs < 512" "take (length xs) (m p) = xs" by auto
  then have "take (Suc (length xs)) ((m p)[length xs := e]) = xs @ [e]"
    using Nil(4) by (simp add: take_Suc_conv_app_nth)
  then show ?case using \<open>length xs < 512\<close> by simp
next
  case (Cons pf pfs)
  obtain p1 f1 where pf: "pf = (p1, f1)" by (cases pf)
  obtain q g rest where r: "pfs @ [(p, f)] = (q, g) # rest" by (cases "pfs @ [(p, f)]") auto
  have p1: "p1 \<noteq> p" using Cons.prems(3) pf by auto
  have c: "512 < length xs" "take 511 (m p1) = take 511 xs" "m p1 ! 511 = g" "chain m (pfs @ [(p, f)]) (drop 511 xs)"
    using Cons.prems(1) pf r by auto
  have "length (drop 511 xs) - 511 * length pfs = length xs - 511 * length (pf # pfs)" using c(1) by simp
  moreover from this have "length (drop 511 xs) - 511 * length pfs < 512" using Cons.prems(2) by simp
  note Cons.IH [OF c(4) this _ Cons.prems(4)]
  ultimately have "chain (m(p := (m p)[length xs - 511 * length (pf # pfs) := e])) (pfs @ [(p, f)]) (drop 511 xs @ [e])"
    using Cons.prems(3) by (simp add: fun_upd_def)
  then show ?case using c p1 pf r by (simp add: fun_upd_def)
qed

lemma chain_new:
  fixes m
  defines "m1 \<equiv> \<lambda>p g. m(p := (m p)[511 := g])"
  assumes "chain m (pfs @ [(p, f)]) xs" "length xs - 511 * length pfs = 512" "distinct (map fst (pfs @ [(p, f), (q, g)]))"
    "length (m p) = 512" "length (m q) = 512"
  shows "chain ((m1 p g)(q := (m q)[0 := m p ! 511, 1 := e])) (pfs @ [(p, f), (q, g)]) (xs @ [e])"
  using assms(2-4)
proof (induction pfs arbitrary: xs)
  case Nil
  then have l: "length xs = 512" by simp
  then have mp: "m p = xs" "q \<noteq> p" using Nil(1,3) assms(5) by auto
  have "take 2 ((m q)[0 := m p ! 511, 1 := e]) = [xs ! 511, e]"
    unfolding mp(1) using assms(6) by (simp add: list_eq_iff_nth_eq nth_list_update less_Suc_eq numeral_2_eq_2)
  moreover have "drop 511 (xs @ [e]) = [xs ! 511, e]"
    using l by (simp add: list_eq_iff_nth_eq nth_append less_Suc_eq)
  ultimately show ?case using l mp by (simp add: m1_def fun_upd_def numeral_2_eq_2)
next
  case (Cons pf pfs)
  obtain p1 f1 where pf: "pf = (p1, f1)" by (cases pf)
  obtain q' g' rest where r: "pfs @ [(p, f)] = (q', g') # rest" by (cases "pfs @ [(p, f)]") auto
  then have r2: "pfs @ [(p, f), (q, g)] = (q', g') # rest @ [(q, g)]" by (metis append.assoc append_Cons append_Nil)
  have p1: "p1 \<noteq> p" "p1 \<noteq> q" using Cons.prems(3) pf by auto
  have c: "512 < length xs" "take 511 (m p1) = take 511 xs" "m p1 ! 511 = g'" "chain m (pfs @ [(p, f)]) (drop 511 xs)"
    using Cons.prems(1) pf r by auto
  have "length (drop 511 xs) - 511 * length pfs = 512" using c(1) Cons.prems(2) by simp
  with Cons.IH [OF c(4)] Cons.prems(3)
  have "chain ((m1 p g)(q := (m q)[0 := m p ! 511, 1 := e])) (pfs @ [(p, f), (q, g)]) (drop 511 xs @ [e])"
    by (simp add: fun_upd_def)
  moreover have eq: "(pf # pfs) @ [(p, f), (q, g)] = (p1, f1) # (q', g') # rest @ [(q, g)]" using pf r2 by simp
  ultimately show ?case using c(1-3) p1 unfolding eq r2 by (simp add: m1_def fun_upd_def)
qed

lemma chain_length:
  "chain m (pfs @ [(p, f)]) xs \<Longrightarrow> 511 * length pfs \<le> length xs \<and> length xs - 511 * length pfs \<le> 512"
proof (induction pfs arbitrary: xs)
  case (Cons pf pfs)
  obtain p1 f1 where pf: "pf = (p1, f1)" by (cases pf)
  obtain q' g' rest where r: "pfs @ [(p, f)] = (q', g') # rest" by (cases "pfs @ [(p, f)]") auto
  from Cons.prems pf r have "512 < length xs" "chain m (pfs @ [(p, f)]) (drop 511 xs)" by auto
  with Cons.IH [of "drop 511 xs"] show ?case by auto
qed simp

definition prp_inv :: "'a prp_state \<Rightarrow> u64 list \<Rightarrow> bool" where
  "prp_inv s xs \<longleftrightarrow> (\<exists>pfs p f. maps s = pfs @ [(p, f)] \<and> prp_page s = p \<and> chain (mem s) (maps s) xs
     \<and> entries_in_page s = length xs - 511 * length pfs) \<and> (\<forall>p. length (mem s p) = 512)"

abbreviation put_entry :: "u64 \<Rightarrow> 'a prp_state \<Rightarrow> 'a prp_state" where
  "put_entry e s \<equiv> s\<lparr>mem := (mem s)(prp_page s := (mem s (prp_page s))[entries_in_page s := e]),
     entries_in_page := entries_in_page s + 1\<rparr>"

lemma prp_inv_put:
  assumes "prp_inv s xs" "entries_in_page s < 512" "distinct (map fst (maps s))"
  shows "prp_inv (put_entry e s) (xs @ [e])"
proof -
  from assms(1) obtain pfs p f where s: "maps s = pfs @ [(p, f)]" "prp_page s = p" "chain (mem s) (pfs @ [(p, f)]) xs"
    "entries_in_page s = length xs - 511 * length pfs" "\<And>p. length (mem s p) = 512" by (auto simp: prp_inv_def)
  have "chain (mem (put_entry e s)) (pfs @ [(p, f)]) (xs @ [e])"
    using chain_add [OF s(3) _ _ s(5), of e] assms(2,3) s by simp
  moreover have "511 * length pfs \<le> length xs" using chain_length [OF s(3)] by simp
  ultimately show ?thesis using s by (auto simp: prp_inv_def)
qed

lemma prp_inv_next:
  assumes "prp_inv s xs" "entries_in_page s = 512" "next_prp_page alloc s = Inr s1" "distinct (map fst (maps s1))"
  shows "prp_inv (put_entry e s1) (xs @ [e])" "\<exists>pf. maps s1 = maps s @ [pf]"
proof -
  from assms(1) obtain pfs p f where s: "maps s = pfs @ [(p, f)]" "prp_page s = p" "chain (mem s) (pfs @ [(p, f)]) xs"
    "entries_in_page s = length xs - 511 * length pfs" "\<And>p. length (mem s p) = 512" by (auto simp: prp_inv_def)
  from assms(3) obtain a q g where n: "s1 = \<lparr>alloc_state = a,
      mem = ((mem s)(p := (mem s p)[511 := g]))(q := (((mem s)(p := (mem s p)[511 := g])) q)[0 := mem s p ! 511]),
      maps = maps s @ [(q, g)], prp_page = q, entries_in_page = 1\<rparr>"
    by (auto simp: next_prp_page_def Let_def prp_new_def PAGE_ENTRY_COUNT_def s(2) split: prod.splits sum.splits)
  then have d: "distinct (map fst (pfs @ [(p, f), (q, g)]))" "q \<noteq> p" using assms(4) s(1) by auto
  have "chain (((mem s)(p := (mem s p)[511 := g]))(q := (mem s q)[0 := mem s p ! 511, 1 := e])) (pfs @ [(p, f), (q, g)]) (xs @ [e])"
    using chain_new [OF s(3) _ d(1) s(5) s(5)] assms(2) s(4) by simp
  moreover have "length xs = 512 + 511 * length pfs" using assms(2) s(4) chain_length [OF s(3)] by simp
  ultimately show "prp_inv (put_entry e s1) (xs @ [e])"
    using d(2) s n by (auto simp: prp_inv_def intro!: exI [of _ "pfs @ [(p, f)]"])
  show "\<exists>pf. maps s1 = maps s @ [pf]" using n by auto
qed

lemma next_prp_page_Inr: "next_prp_page alloc s = Inr s1 \<Longrightarrow> entries_in_page s1 = 1 \<and> (\<exists>pf. maps s1 = maps s @ [pf])"
  by (auto simp: next_prp_page_def Let_def split: prod.splits sum.splits)

lemma fill_prp_list_step:
  assumes "fill_prp_list alloc (e # es) s = Some (Inr s')"
  shows "\<exists>s1. (if entries_in_page s = 512 then next_prp_page alloc s = Inr s1 else s1 = s)
    \<and> fill_prp_list alloc es (put_entry e s1) = Some (Inr s') \<and> entries_in_page s1 < 512"
  using assms by (auto simp: PAGE_ENTRY_COUNT_def split: if_splits sum.splits)

lemma fill_prp_list_maps: "fill_prp_list alloc es s = Some (Inr s') \<Longrightarrow> \<exists>ys. maps s' = maps s @ ys"
proof (induction es arbitrary: s)
  case (Cons e es)
  from fill_prp_list_step [OF Cons.prems] obtain s1 where
    s1: "if entries_in_page s = 512 then next_prp_page alloc s = Inr s1 else s1 = s"
      "fill_prp_list alloc es (put_entry e s1) = Some (Inr s')" by blast
  from Cons.IH [OF s1(2)] show ?case using s1(1) next_prp_page_Inr [of alloc s s1] by (auto split: if_splits)
qed simp

lemma fill_prp_list_Inr:
  assumes "fill_prp_list alloc es s = Some (Inr s')" "prp_inv s xs" "distinct (map fst (maps s'))"
  shows "prp_inv s' (xs @ es)"
  using assms(1,2)
proof (induction es arbitrary: s xs)
  case (Cons e es)
  from fill_prp_list_step [OF Cons.prems(1)] obtain s1 where
    s1: "if entries_in_page s = 512 then next_prp_page alloc s = Inr s1 else s1 = s"
      "fill_prp_list alloc es (put_entry e s1) = Some (Inr s')" "entries_in_page s1 < 512" by blast
  have d: "distinct (map fst (maps s1))" using fill_prp_list_maps [OF s1(2)] assms(3) by auto
  have "prp_inv (put_entry e s1) (xs @ [e])"
  proof (cases "entries_in_page s = 512")
    case True
    then show ?thesis using prp_inv_next(1) [OF Cons.prems(2) True _ d] s1(1) by simp
  next
    case False
    then show ?thesis using prp_inv_put [OF Cons.prems(2)] s1(1,3) d by simp
  qed
  from Cons.IH [OF s1(2) this] show ?case by simp
qed simp

lemma fill_prp_list_None:
  "fill_prp_list alloc es s = None \<Longrightarrow> entries_in_page s \<le> 512 \<Longrightarrow> \<exists>e \<in> set es. prp_offset e \<noteq> 0"
proof (induction alloc es s rule: fill_prp_list.induct)
  case (2 alloc e es s)
  show ?case
  proof (cases "prp_offset e = 0")
    case True
    obtain s1 where s1: "(if entries_in_page s = PAGE_ENTRY_COUNT then next_prp_page alloc s else Inr s) = Inr s1"
      using "2.prems"(1) True by (auto split: if_splits sum.splits)
    have "entries_in_page s1 < 512"
      using s1 "2.prems"(2) next_prp_page_Inr [of alloc s s1] by (auto simp: PAGE_ENTRY_COUNT_def split: if_splits)
    moreover from this have "fill_prp_list alloc es (put_entry e s1) = None"
      using "2.prems"(1) True s1 by (simp add: PAGE_ENTRY_COUNT_def split: if_splits)
    ultimately show ?thesis using "2.IH" [OF _ s1] True by (auto simp: PAGE_ENTRY_COUNT_def)
  qed simp
qed simp

text \<open>
  (C16) A list of physical pages is built correctly: the controller that follows it finds
  exactly the entries after the first one, in order, however many pages the list takes. The call panics only for
  fewer than three entries or for a later entry that is not page aligned.
\<close>

theorem prp_list_correct:
  fixes m
  assumes "\<And>p. length (m p) = 512"
  shows "case prp_list_new alloc es a m of
      None \<Rightarrow> length es < 3 \<or> (\<exists>e \<in> set (tl es). prp_offset e \<noteq> 0)
    | Some (Inl e) \<Rightarrow> True
    | Some (Inr (s, l)) \<Rightarrow> first_entry l = hd es \<and> entry_count l = length es
        \<and> (\<forall>page_of. distinct (map fst (mappings l)) \<longrightarrow> (\<forall>(p, f) \<in> set (mappings l). page_of f = p) \<longrightarrow>
             prp_walk page_of (mem s) (page_of (prp_list_frame l)) (entry_count l - 1) = tl es)"
proof (cases "3 \<le> length es")
  case False
  then show ?thesis by (simp add: prp_list_new_def)
next
  case True
  show ?thesis
  proof (cases "alloc_page alloc a")
    case (Pair a1 r)
    show ?thesis
    proof (cases r)
      case (Inl e)
      then show ?thesis using True Pair by (simp add: prp_list_new_def)
    next
      case (Inr pf)
      obtain page frame where pf: "pf = (page, frame)" by (cases pf)
      let ?s = "\<lparr>alloc_state = a1, mem = m, maps = [(page, frame)], prp_page = page, entries_in_page = 0\<rparr>"
      have inv: "prp_inv ?s []" using assms by (simp add: prp_inv_def)
      show ?thesis
      proof (cases "fill_prp_list alloc (tl es) ?s")
        case None
        then show ?thesis using True Pair Inr pf fill_prp_list_None [OF None] by (simp add: prp_list_new_def)
      next
        case (Some r')
        show ?thesis
        proof (cases r')
          case (Inl e)
          then show ?thesis using True Pair Inr pf Some by (simp add: prp_list_new_def)
        next
          case r': (Inr s)
          obtain ys where ys: "maps s = (page, frame) # ys" using fill_prp_list_maps [of alloc "tl es" ?s s] Some r' by auto
          have "prp_walk page_of (mem s) (page_of frame) (length es - 1) = tl es"
            if "distinct (map fst (maps s))" "\<forall>(p, f) \<in> set (maps s). page_of f = p" for page_of
          proof -
            have "prp_inv s (tl es)" using fill_prp_list_Inr [OF _ inv that(1)] Some r' by simp
            then have "chain (mem s) (maps s) (tl es)" by (auto simp: prp_inv_def)
            from chain_walk [OF this that(2)] show ?thesis using ys that(2) by simp
          qed
          then show ?thesis using True Pair Inr pf Some r' by (simp add: prp_list_new_def prp_new_def)
        qed
      qed
    qed
  qed
qed

definition counting_alloc :: "nat prp_alloc" where
  "counting_alloc = \<lparr>alloc_mapping = (\<lambda>n. (Suc n, Inr (4096 * word_of_nat n, 0x100000 + 4096 * word_of_nat n))),
     try_reserve = (\<lambda>n. (n, True))\<rparr>"

theorem prp_list_correct_witness:
  "case prp_list_new counting_alloc [4100, 8192, 12288] 1 (\<lambda>p. replicate 512 0) of
     Some (Inr (s, l)) \<Rightarrow> first_entry l = 4100 \<and> prp_walk (\<lambda>f. f - 0x100000) (mem s) 4096 2 = [8192, 12288]
   | _ \<Rightarrow> False"
proof -
  have "\<exists>s l. prp_list_new counting_alloc [4100, 8192, 12288] 1 (\<lambda>p. replicate 512 0) = Some (Inr (s, l))
      \<and> mappings l = [(4096, 0x101000)] \<and> entry_count l = 3 \<and> prp_list_frame l = 0x101000"
    by (simp add: prp_list_new_def counting_alloc_def alloc_page_def prp_offset_def PAGE_ENTRY_COUNT_def prp_new_def)
  then obtain s l where r: "prp_list_new counting_alloc [4100, 8192, 12288] 1 (\<lambda>p. replicate 512 0) = Some (Inr (s, l))"
    "mappings l = [(4096, 0x101000)]" "entry_count l = 3" "prp_list_frame l = 0x101000" by blast
  with prp_list_correct [where m = "\<lambda>p. replicate 512 0" and alloc = counting_alloc and es = "[4100, 8192, 12288]" and a = 1]
  show ?thesis by (auto dest: spec [of _ "\<lambda>f. f - 0x100000"])
qed

section \<open>Commands\<close>

text \<open>
  (C17) A read command carries its arguments: the opcode is that of a read, the two dwords of the
  start address and the zero-based block count decode to the arguments, and the data pointer holds the two entries of
  the page list. The identifier field is free for the queue to fill.
\<close>

theorem read_command_encodes:
  assumes "bits_documented B" "0 < block_count"
  shows "\<exists>c. create_read_command B prp slba block_count = Some c \<and> opcode B (dword0 c) = io_opcode Read
    \<and> prp_or_sgl B (dword0 c) = Some PrpOrSgl.Prp
    \<and> push_bit 32 (ucast (dword11 c)) OR ucast (dword10 c) = slba
    \<and> ucast (get_bits (bits32 B) (dword12 c) 0 15) + 1 = block_count
    \<and> data_ptr c = \<lparr>prp_entry_1 = entry_1 prp, prp_entry_2 = entry_2 prp\<rparr>"
proof -
  obtain w where w: "set_opcode B cdw0_zero (io_opcode Read) = Some w" "opcode B w = io_opcode Read"
    using set_opcode_Some [OF assms(1)] by blast
  obtain w' where w': "set_prp_or_sgl B w PrpOrSgl.Prp = Some w'" "prp_or_sgl B w' = Some PrpOrSgl.Prp" "opcode B w' = opcode B w"
    using set_prp_or_sgl_Some [OF assms(1)] by blast
  have "bit_field_documented (bits32 B)" using assms(1) by (simp add: bits_documented_def)
  from set_get_bits [OF this, of "ucast (block_count - 1)" 15 0 0] unat_ucast_lt [of "block_count - 1", where 'b = 32]
  obtain d where d: "set_bits (bits32 B) 0 0 15 (ucast (block_count - 1)) = Some d"
    "get_bits (bits32 B) d 0 15 = ucast (block_count - 1)" by auto
  have count: "ucast (ucast (block_count - 1) :: u32) + 1 = block_count" by (simp add: ucast_back)
  have mask: "slba AND 0xffffffff = take_bit 32 slba" by (simp add: take_bit_eq_mask mask_eq_exp_minus_1)
  have "push_bit 32 (ucast (ucast (drop_bit 32 slba) :: u32)) OR ucast (ucast (slba AND 0xffffffff) :: u32) = slba"
    unfolding mask by (rule bit_word_eqI) (auto simp: bit_simps)
  then show ?thesis using w w' d count assms(2) by (simp add: create_read_command_def)
qed

theorem read_command_encodes_witness:
  "\<exists>c. create_read_command bits_model (Entry 4096) 0x123456789 8 = Some c \<and> opcode bits_model (dword0 c) = 2
     \<and> push_bit 32 (ucast (dword11 c)) OR ucast (dword10 c) = (0x123456789 :: u64)"
  using read_command_encodes [OF bits_model_documented, of 8 "Entry 4096" "0x123456789"] by auto

text \<open>
  A write command is a read command: \<open>create_write_command\<close> sets the opcode of a read, so for
  all arguments it builds the command that reads the blocks into the buffer instead of writing it.
\<close>

lemma write_command_reads:
  assumes "bits_documented B" "create_write_command B prp slba block_count = Some c"
  shows "opcode B (dword0 c) = io_opcode Read \<and> create_read_command B prp slba block_count = Some c"
proof -
  have "create_write_command B prp slba block_count = create_read_command B prp slba block_count"
    by (simp add: create_write_command_def create_read_command_def)
  then have r: "create_read_command B prp slba block_count = Some c" using assms(2) by simp
  obtain w where w: "set_opcode B cdw0_zero (io_opcode Read) = Some w" "opcode B w = io_opcode Read"
    using set_opcode_Some [OF assms(1)] by blast
  obtain w' where "set_prp_or_sgl B w PrpOrSgl.Prp = Some w'" "opcode B w' = opcode B w"
    using set_prp_or_sgl_Some [OF assms(1)] by blast
  with r w show ?thesis by (auto simp: create_read_command_def run_simps)
qed

end
