(* ===== verification/Wrapping_Value.thy ===== *)
theory Wrapping_Value
  imports Rust_Prelude
begin

text \<open>
  \<open>WrappingValue\<close> of \<open>libs/shared/src/math/mod_group.rs\<close>: an unsigned number with a modulus, whose
  addition wraps at the modulus. It is generic over the unsigned types; here, over the width of a word.
\<close>

record (overloaded) 'a WrappingValue =
  wv_value :: "'a word"
  wv_modulo :: "'a word"

definition wv_zero :: "'a::len word \<Rightarrow> 'a WrappingValue" where
  "wv_zero m = \<lparr>wv_value = 0, wv_modulo = m\<rparr>"

definition wv_new :: "'a::len word \<Rightarrow> 'a word \<Rightarrow> 'a WrappingValue" where
  "wv_new v m = \<lparr>wv_value = v, wv_modulo = m\<rparr>"

definition wv_max :: "'a::len WrappingValue \<Rightarrow> 'a word run" where
  "wv_max w = checked_sub (wv_modulo w) 1"

definition wv_cmp :: "'a::len WrappingValue \<Rightarrow> 'a WrappingValue \<Rightarrow> Ordering" where
  "wv_cmp a b = cmp (wv_value a) (wv_value b)"

definition wv_partial_cmp :: "'a::len WrappingValue \<Rightarrow> 'a WrappingValue \<Rightarrow> Ordering option" where
  "wv_partial_cmp a b = Some (wv_cmp a b)"

text \<open>\<open>Rem\<close> panics on a zero divisor.\<close>

definition checked_rem :: "'a::len word \<Rightarrow> 'a word \<Rightarrow> 'a word option" where
  "checked_rem a b = (if b = 0 then None else Some (a mod b))"

definition wv_add :: "'a::len WrappingValue \<Rightarrow> 'a word \<Rightarrow> 'a WrappingValue run" where
  "wv_add w rhs = do {
     v \<leftarrow> (case checked_add (wv_value w) rhs of
             Some s \<Rightarrow> checked_rem s (wv_modulo w)
           | None \<Rightarrow> do {
               d \<leftarrow> checked_sub (wv_modulo w) (wv_value w);
               r \<leftarrow> checked_sub rhs d;
               checked_rem r (wv_modulo w)
             });
     Some \<lparr>wv_value = v, wv_modulo = wv_modulo w\<rparr>
   }"

definition wv_add_assign :: "'a::len word \<Rightarrow> 'a WrappingValue \<Rightarrow> 'a WrappingValue run" where
  "wv_add_assign rhs w = wv_add w rhs"

text \<open>
  \<open>NumberConstants::constant\<close>: a generic literal, counted up from zero by additions of one, which
  panic on overflow. \<open>count\<close> is the counter of the loop.
\<close>

function constant_loop :: "nat \<Rightarrow> nat \<Rightarrow> 'a::len word \<Rightarrow> 'a word run" where
  "constant_loop v count res =
     (if count < v then Option.bind (checked_add res 1) (constant_loop v (count + 1)) else Some res)"
  by pat_completeness auto
termination
  by (relation "measure (\<lambda>(v, count, res). v - count)") auto

declare constant_loop.simps [simp del]

definition number_constant :: "nat \<Rightarrow> 'a::len word run" where
  "number_constant v = constant_loop v 0 0"

definition wv_ok :: "'a::len WrappingValue \<Rightarrow> bool" where
  "wv_ok w \<longleftrightarrow> wv_value w < wv_modulo w"

lemma wv_add_Some:
  assumes "wv_ok w"
  shows "\<exists>v. wv_add w rhs = Some \<lparr>wv_value = v, wv_modulo = wv_modulo w\<rparr>
    \<and> unat v = (unat (wv_value w) + unat rhs) mod unat (wv_modulo w)"
proof -
  let ?a = "wv_value w" and ?m = "wv_modulo w"
  have lt: "unat ?a < unat ?m" using assms by (simp add: wv_ok_def word_less_nat_alt)
  then have m: "?m \<noteq> 0" by auto
  show ?thesis
  proof (cases "unat ?a + unat rhs < 2 ^ LENGTH('a)")
    case True
    then have "wv_add w rhs = Some \<lparr>wv_value = (?a + rhs) mod ?m, wv_modulo = ?m\<rparr>"
      using m by (simp add: wv_add_def checked_add_def checked_rem_def)
    moreover have "unat ((?a + rhs) mod ?m) = (unat ?a + unat rhs) mod unat ?m"
      using True by (simp add: unat_mod_distrib unat_add_no_overflow)
    ultimately show ?thesis by blast
  next
    case False
    have big: "unat ?m < 2 ^ LENGTH('a)" by (rule unsigned_less)
    have "unat ?m - unat ?a \<le> unat rhs" using False big by linarith
    moreover have "unat (?m - ?a) = unat ?m - unat ?a" using lt by (simp add: unat_sub word_le_nat_alt)
    ultimately have le: "?m - ?a \<le> rhs" by (simp add: word_le_nat_alt)
    then have "unat (rhs - (?m - ?a)) = unat rhs - unat (?m - ?a)" by (rule unat_sub)
    then have u: "unat (rhs - (?m - ?a)) = unat ?a + unat rhs - unat ?m"
      using lt by (simp add: unat_sub word_le_nat_alt)
    have "wv_add w rhs = Some \<lparr>wv_value = (rhs - (?m - ?a)) mod ?m, wv_modulo = ?m\<rparr>"
      using m False lt le by (simp add: wv_add_def checked_add_def checked_sub_def checked_rem_def word_le_nat_alt)
    moreover have "unat ((rhs - (?m - ?a)) mod ?m) = (unat ?a + unat rhs) mod unat ?m"
    proof -
      have "unat ?m \<le> unat ?a + unat rhs" using False big by linarith
      then show ?thesis by (simp add: unat_mod_distrib u le_mod_geq)
    qed
    ultimately show ?thesis by blast
  qed
qed

lemma wv_add_assigns:
  assumes "wv_ok w"
  shows "\<exists>w'. fold (\<lambda>rhs. (\<lambda>s. Option.bind s (wv_add_assign rhs))) rs (Some w) = Some w' \<and> wv_ok w'
    \<and> wv_modulo w' = wv_modulo w
    \<and> unat (wv_value w') = (unat (wv_value w) + sum_list (map unat rs)) mod unat (wv_modulo w)"
  using assms
proof (induction rs arbitrary: w)
  case Nil
  then show ?case by (simp add: wv_ok_def word_less_nat_alt)
next
  case (Cons r rs)
  obtain v where v: "wv_add w r = Some \<lparr>wv_value = v, wv_modulo = wv_modulo w\<rparr>"
    "unat v = (unat (wv_value w) + unat r) mod unat (wv_modulo w)"
    using wv_add_Some [OF Cons.prems] by blast
  let ?w = "\<lparr>wv_value = v, wv_modulo = wv_modulo w\<rparr>"
  have "wv_ok ?w" using Cons.prems v(2) by (simp add: wv_ok_def word_less_nat_alt)
  from Cons.IH [OF this] obtain w' where w': "fold (\<lambda>rhs. (\<lambda>s. Option.bind s (wv_add_assign rhs))) rs (Some ?w) = Some w'"
    "wv_ok w'" "wv_modulo w' = wv_modulo w" "unat (wv_value w') = (unat v + sum_list (map unat rs)) mod unat (wv_modulo w)"
    by auto
  have "unat (wv_value w') = (unat (wv_value w) + sum_list (map unat (r # rs))) mod unat (wv_modulo w)"
    unfolding w'(4) v(2) by (simp add: mod_add_left_eq add.assoc)
  moreover have "Option.bind (Some w) (wv_add_assign r) = Some ?w" using v(1) by (simp add: wv_add_assign_def)
  ultimately show ?case using w'(1-3) by simp
qed

lemma constant_loop_eq:
  fixes res :: "'a::len word"
  assumes "unat res = count" "count \<le> v"
  shows "constant_loop v count res = (if v < 2 ^ LENGTH('a) then Some (word_of_nat v) else None)"
  using assms
proof (induction v count res rule: constant_loop.induct)
  case (1 v count res)
  have lt: "count < 2 ^ LENGTH('a)" using 1(2) by (metis unsigned_less)
  show ?case
  proof (cases "count < v")
    case True
    show ?thesis
    proof (cases "count + 1 < 2 ^ LENGTH('a)")
      case fits: True
      then have c: "checked_add res 1 = Some (res + 1)" "unat (res + 1) = count + 1"
        using 1(2) by (simp_all add: checked_add_def unat_add_no_overflow)
      with 1(1) [OF True, of "res + 1"] True show ?thesis
        by (subst constant_loop.simps) simp
    next
      case False
      then show ?thesis using True 1(2) by (subst constant_loop.simps) (simp add: checked_add_def)
    qed
  next
    case False
    then have "word_of_nat v = res" using 1(2,3) by auto
    then show ?thesis using False lt 1(3) by (subst constant_loop.simps) simp
  qed
qed

text \<open>
  (C15) Any sequence of additions to a wrapping value below its modulus runs without a panic, also
  where a machine addition would overflow, keeps the value below the modulus, and ends at the
  sum of the numbers modulo the modulus.
\<close>

theorem wrapping_sums:
  assumes "wv_ok w"
  shows "\<exists>w'. fold (\<lambda>rhs. (\<lambda>s. Option.bind s (wv_add_assign rhs))) rs (Some w) = Some w' \<and> wv_ok w'
    \<and> wv_modulo w' = wv_modulo w
    \<and> unat (wv_value w') = (unat (wv_value w) + sum_list (map unat rs)) mod unat (wv_modulo w)"
  using assms by (rule wv_add_assigns)

theorem wrapping_sums_witness:
  "\<exists>w'. fold (\<lambda>rhs. (\<lambda>s. Option.bind s (wv_add_assign rhs))) [4, 255, 254] (Some (wv_zero (5 :: 8 word))) = Some w'
     \<and> unat (wv_value w') = 3"
  using wrapping_sums [of "wv_zero (5 :: 8 word)" "[4, 255, 254]"] by (auto simp: wv_ok_def wv_zero_def)

text \<open>
  The generic literal \<open>constant\<close> counts up to the number asked for, and panics exactly when
  the number does not fit the type.
\<close>

lemma number_constant_correct:
  "(number_constant v :: 'a::len word run) = (if v < 2 ^ LENGTH('a) then Some (word_of_nat v) else None)"
  by (simp add: number_constant_def constant_loop_eq)

end
