(* ===== verification/NVMe_Queue.thy ===== *)
theory NVMe_Queue
  imports NVMe_Command Wrapping_Value
begin

text \<open>
  The command queues of the NVMe driver (\<open>pci/nvme/queue.rs\<close>): a ring of commands that the driver
  fills and the controller empties, and a ring of completions that the controller fills and the
  driver empties. The rings, the two doorbell registers and what the controller has done so far are the
  record \<open>Controller\<close>. The driver runs against an environment: before each of its reads the controller may take
  any number of steps, so every interleaving with a controller is covered.
\<close>

section \<open>The queue and the memory it shares\<close>

datatype PollCompletionError = IdentifierStillInUse u16

datatype NVMEControllerError = Mem MemError | InvalidPciDevice | InvalidQueueSize u16 | DeviceNotSupported string
  | AdminCommandFailed CommandStatusCode | QueueFull | IOQueueLimitReached u16 u16
  | AdminQueuePollCompletions PollCompletionError | NoNamespace

record CommandQueue =
  q_id :: u16
  submission_queue_size :: u16
  submission_queue_frame :: u64
  submission_queue_ptr :: u64
  submission_queue_tail_doorbell :: u64
  submission_queue_tail :: u16
  submission_queue_head :: u16
  submission_queue_tail_local :: "16 WrappingValue"
  completion_queue_size :: u16
  completion_queue_frame :: u64
  completion_queue_ptr :: u64
  completion_queue_head_doorbell :: u64
  completion_queue_head :: "16 WrappingValue"
  completion_expected_phase :: bool
  completions :: "CommonCompletionEntry list"
  next_command_identifier :: u16

record PollCompletionsResult =
  some_new_entries :: bool
  error_on_any_entry :: "PollCompletionError option"

text \<open>
  The shared memory, with the last values written to the doorbells. \<open>fetched\<close> and \<open>posted\<close> are the history of the
  controller: the commands it has read and the completions it has written, in order.
\<close>

record Controller =
  sq_slots :: "CommonCommand list"
  cq_slots :: "CommonCompletionEntry list"
  sq_tail_db :: u32
  cq_head_db :: u32
  fetched :: "CommonCommand list"
  posted :: "CommonCompletionEntry list"

record io =
  ctl :: Controller
  now :: nat

type_synonym env = "nat \<Rightarrow> Controller \<Rightarrow> Controller"

definition tick :: "env \<Rightarrow> io \<Rightarrow> io" where
  "tick env s = \<lparr>ctl = env (now s) (ctl s), now = now s + 1\<rparr>"

definition write_sq_slot :: "nat \<Rightarrow> CommonCommand \<Rightarrow> io \<Rightarrow> io" where
  "write_sq_slot i c s = s\<lparr>ctl := (ctl s)\<lparr>sq_slots := (sq_slots (ctl s))[i := c]\<rparr>\<rparr>"

definition ring_sq_doorbell :: "u32 \<Rightarrow> io \<Rightarrow> io" where
  "ring_sq_doorbell v s = s\<lparr>ctl := (ctl s)\<lparr>sq_tail_db := v\<rparr>\<rparr>"

definition ring_cq_doorbell :: "u32 \<Rightarrow> io \<Rightarrow> io" where
  "ring_cq_doorbell v s = s\<lparr>ctl := (ctl s)\<lparr>cq_head_db := v\<rparr>\<rparr>"

section \<open>Operations\<close>

definition checked_add_ident :: "u16 \<Rightarrow> u16 \<Rightarrow> u16 option" where
  "checked_add_ident ident rhs = checked_add ident rhs"

text \<open>
  \<open>get_doorbells\<close>: the products are computed in \<open>isize\<close> and panic on overflow; the result is a pair of
  addresses.
\<close>

definition isize_ok :: "int \<Rightarrow> bool" where
  "isize_ok x \<longleftrightarrow> - (2 ^ 63) \<le> x \<and> x < 2 ^ 63"

definition get_doorbells :: "u64 \<Rightarrow> int \<Rightarrow> u16 \<Rightarrow> (u64 \<times> u64) run" where
  "get_doorbells doorbell_base stride queue_index = do {
     assert_that (4 \<le> stride);
     let a = uint queue_index * stride;
     assert_that (isize_ok a);
     assert_that (isize_ok (a * 2));
     let submission = doorbell_base + word_of_int (a * 2);
     Some (submission, submission + word_of_int stride)
   }"

definition is_full_for_submission :: "CommandQueue \<Rightarrow> bool run" where
  "is_full_for_submission q = do {
     next \<leftarrow> wv_add (submission_queue_tail_local q) 1;
     Some (submission_queue_head q = wv_value next)
   }"

definition is_submissions_empty :: "CommandQueue \<Rightarrow> bool" where
  "is_submissions_empty q \<longleftrightarrow> submission_queue_head q = wv_value (submission_queue_tail_local q)"

definition has_submissions_pending_flush :: "CommandQueue \<Rightarrow> bool" where
  "has_submissions_pending_flush q \<longleftrightarrow> submission_queue_tail q \<noteq> wv_value (submission_queue_tail_local q)"

text \<open>
  \<open>binary_search_by_key\<close> on a sorted sequence: \<open>Inr\<close> the index of the key, or \<open>Inl\<close> the index at which it can
  be inserted.
\<close>

definition binary_search_by_key :: "'k::linorder \<Rightarrow> ('a \<Rightarrow> 'k) \<Rightarrow> 'a list \<Rightarrow> nat + nat" where
  "binary_search_by_key k f xs =
     (case position (\<lambda>x. f x = k) xs of
        Some i \<Rightarrow> Inr i
      | None \<Rightarrow> Inl (length (takeWhile (\<lambda>x. f x < k) xs)))"

definition poll_single_completion ::
  "bits \<Rightarrow> env \<Rightarrow> CommandQueue \<times> io \<Rightarrow> ((CommandQueue \<times> io) \<times> (PollCompletionError + bool)) run" where
  "poll_single_completion B env s = do {
     let q = fst s;
     let slot = unat (wv_value (completion_queue_head q));
     let io1 = tick env (snd s);
     let possible_completion = cq_slots (ctl io1) ! slot;
     (if phase B possible_completion \<noteq> completion_expected_phase q then Some ((q, io1), Inr False)
      else do {
        let io2 = tick env io1;
        let completion = cq_slots (ctl io2) ! slot;
        assert_that (phase B completion = completion_expected_phase q);
        assert_that (q_id q = c_submission_queue_ident completion);
        let q1 = q\<lparr>submission_queue_head := c_submission_queue_head completion\<rparr>;
        (case binary_search_by_key (c_command_ident completion) c_command_ident (completions q1) of
           Inr i \<Rightarrow> Some ((q1, io2), Inl (IdentifierStillInUse (c_command_ident completion)))
         | Inl at \<Rightarrow> do {
             head \<leftarrow> wv_add (completion_queue_head q1) 1;
             let q2 = q1\<lparr>completion_queue_head := head,
               completion_expected_phase :=
                 (if wv_value head = 0 then \<not> completion_expected_phase q1 else completion_expected_phase q1)\<rparr>;
             Some ((q2\<lparr>completions := insert_at at completion (completions q2)\<rparr>, io2), Inr True)
           })
      })
   }"

partial_function (option) poll_loop ::
  "bits \<Rightarrow> env \<Rightarrow> bool \<Rightarrow> CommandQueue \<times> io \<Rightarrow> ((CommandQueue \<times> io) \<times> bool \<times> PollCompletionError option) option" where
  "poll_loop B env any_found s =
     (case poll_single_completion B env s of
        None \<Rightarrow> None
      | Some (s', Inr found) \<Rightarrow> if found then poll_loop B env True s' else Some (s', any_found, None)
      | Some (s', Inl reason) \<Rightarrow> Some (s', any_found, Some reason))"

definition poll_completions :: "bits \<Rightarrow> env \<Rightarrow> CommandQueue \<times> io \<Rightarrow> ((CommandQueue \<times> io) \<times> PollCompletionsResult) run" where
  "poll_completions B env s = do {
     ((q, io1), any_found, error) \<leftarrow> poll_loop B env False s;
     let io2 = (if any_found then ring_cq_doorbell (ucast (wv_value (completion_queue_head q))) io1 else io1);
     Some ((q, io2), \<lparr>some_new_entries = any_found, error_on_any_entry = error\<rparr>)
   }"

text \<open>The second half of \<open>submit\<close>, once there is a free slot.\<close>

definition submit_command :: "bits \<Rightarrow> CommonCommand \<Rightarrow> CommandQueue \<times> io \<Rightarrow> ((CommandQueue \<times> io) \<times> u16) run" where
  "submit_command B command s = do {
     let q = fst s;
     let identifier = next_command_identifier q;
     let q1 = q\<lparr>next_command_identifier := identifier + 1\<rparr>;
     dw0 \<leftarrow> set_command_identifier B (dword0 command) identifier;
     let slot = unat (wv_value (submission_queue_tail_local q1));
     tail \<leftarrow> wv_add (submission_queue_tail_local q1) 1;
     let slot_vaddr = submission_queue_ptr q1 + word_of_nat (SUBMISSION_COMMAND_ENTRY_SIZE * slot);
     assert_that (unat slot_vaddr mod 8 = 0);
     Some ((q1\<lparr>submission_queue_tail_local := tail\<rparr>, write_sq_slot slot (command\<lparr>dword0 := dw0\<rparr>) (snd s)), identifier)
   }"

definition submit ::
  "bits \<Rightarrow> env \<Rightarrow> CommonCommand \<Rightarrow> CommandQueue \<times> io \<Rightarrow> ((CommandQueue \<times> io) \<times> (NVMEControllerError + u16)) run" where
  "submit B env command s = do {
     full \<leftarrow> is_full_for_submission (fst s);
     (s1, ok) \<leftarrow>
       (if full then do {
          (s', r) \<leftarrow> poll_completions B env s;
          (if \<not> some_new_entries r then Some (s', False)
           else do { full' \<leftarrow> is_full_for_submission (fst s'); Some (s', \<not> full') })
        } else Some (s, True));
     (if \<not> ok then Some (s1, Inl QueueFull)
      else do { (s2, identifier) \<leftarrow> submit_command B command s1; Some (s2, Inr identifier) })
   }"

definition cancel_submissions :: "CommandQueue \<times> io \<Rightarrow> CommandQueue \<times> io" where
  "cancel_submissions s =
     ((fst s)\<lparr>submission_queue_tail_local := wv_new (submission_queue_tail (fst s)) (submission_queue_size (fst s))\<rparr>, snd s)"

definition flush :: "CommandQueue \<times> io \<Rightarrow> CommandQueue \<times> io" where
  "flush s =
     (let q = fst s in
      if \<not> has_submissions_pending_flush q then s
      else (q\<lparr>submission_queue_tail := wv_value (submission_queue_tail_local q)\<rparr>,
            ring_sq_doorbell (ucast (wv_value (submission_queue_tail_local q))) (snd s)))"

definition iter_completions :: "CommandQueue \<Rightarrow> CommonCompletionEntry list" where
  "iter_completions q = completions q"

definition drain_completions :: "CommandQueue \<times> io \<Rightarrow> (CommandQueue \<times> io) \<times> CommonCompletionEntry list" where
  "drain_completions s = (((fst s)\<lparr>completions := []\<rparr>, snd s), completions (fst s))"

partial_function (option) clear_completions :: "bits \<Rightarrow> env \<Rightarrow> CommandQueue \<times> io \<Rightarrow> (CommandQueue \<times> io) option" where
  "clear_completions B env s =
     (case poll_completions B env (fst (drain_completions s)) of
        None \<Rightarrow> None
      | Some (s', r) \<Rightarrow>
          if error_on_any_entry r \<noteq> None then None
          else if \<not> some_new_entries r then Some s'
          else clear_completions B env s')"

text \<open>\<open>wait_for\<close>: the closure \<open>get_if_exists\<close>, and the loop that polls until the entry is there.\<close>

definition get_if_exists :: "u16 \<Rightarrow> CommandQueue \<times> io \<Rightarrow> ((CommandQueue \<times> io) \<times> CommonCompletionEntry) option" where
  "get_if_exists ident s =
     (case binary_search_by_key ident c_command_ident (completions (fst s)) of
        Inl _ \<Rightarrow> None
      | Inr i \<Rightarrow> Some (((fst s)\<lparr>completions := remove_at i (completions (fst s))\<rparr>, snd s), completions (fst s) ! i))"

partial_function (option) wait_loop ::
  "bits \<Rightarrow> env \<Rightarrow> u16 \<Rightarrow> CommandQueue \<times> io \<Rightarrow> ((CommandQueue \<times> io) \<times> (PollCompletionError + CommonCompletionEntry)) option" where
  "wait_loop B env ident s =
     (case poll_completions B env s of
        None \<Rightarrow> None
      | Some (s', r) \<Rightarrow>
          if some_new_entries r then
            (case get_if_exists ident s' of
               Some (s'', entry) \<Rightarrow> Some (s'', Inr entry)
             | None \<Rightarrow> wait_loop B env ident s')
          else (case error_on_any_entry r of
                  Some err \<Rightarrow> Some (s', Inl err)
                | None \<Rightarrow> wait_loop B env ident s'))"

definition wait_for ::
  "bits \<Rightarrow> env \<Rightarrow> u16 \<Rightarrow> CommandQueue \<times> io \<Rightarrow> ((CommandQueue \<times> io) \<times> (PollCompletionError + CommonCompletionEntry)) option" where
  "wait_for B env ident s =
     (case get_if_exists ident s of
        Some (s', entry) \<Rightarrow> Some (s', Inr entry)
      | None \<Rightarrow> wait_loop B env ident s)"

fun submit_all ::
  "bits \<Rightarrow> env \<Rightarrow> CommonCommand list \<Rightarrow> CommandQueue \<times> io \<Rightarrow> ((CommandQueue \<times> io) \<times> (NVMEControllerError + u16 list)) run" where
  "submit_all B env [] s = Some (s, Inr [])"
| "submit_all B env (command # commands) s = do {
     (s1, r) \<leftarrow> submit B env command s;
     (case r of
        Inl e \<Rightarrow> Some (s1, Inl e)
      | Inr ident \<Rightarrow> do {
          (s2, r') \<leftarrow> submit_all B env commands s1;
          Some (s2, case r' of Inl e \<Rightarrow> Inl e | Inr idents \<Rightarrow> Inr (ident # idents))
        })
   }"

fun wait_for_all ::
  "bits \<Rightarrow> env \<Rightarrow> u16 list \<Rightarrow> CommonCompletionEntry list \<Rightarrow> CommandQueue \<times> io
    \<Rightarrow> ((CommandQueue \<times> io) \<times> (CommonCompletionEntry list \<times> PollCompletionError + CommonCompletionEntry list)) option" where
  "wait_for_all B env [] completed s = Some (s, Inr completed)"
| "wait_for_all B env (ident # idents) completed s =
     (case wait_for B env ident s of
        None \<Rightarrow> None
      | Some (s1, Inl err) \<Rightarrow> Some (s1, Inl (completed, err))
      | Some (s1, Inr entry) \<Rightarrow> wait_for_all B env idents (completed @ [entry]) s1)"

section \<open>Allocation and release\<close>

definition zero_completion :: CommonCompletionEntry where
  "zero_completion = \<lparr>c_dword0 = 0, c_dword1 = 0, c_submission_queue_head = 0, c_submission_queue_ident = 0,
     c_command_ident = 0, status_and_phase = 0\<rparr>"

text \<open>The memory of new rings: both are zeroed, and the doorbells of a new queue are zero.\<close>

definition fresh_rings :: "u16 \<Rightarrow> u16 \<Rightarrow> Controller" where
  "fresh_rings sub_size comp_size = \<lparr>sq_slots = replicate (unat sub_size) default_command,
     cq_slots = replicate (unat comp_size) zero_completion, sq_tail_db = 0, cq_head_db = 0, fetched = [], posted = []\<rparr>"

definition new_queue :: "u16 \<Rightarrow> u16 \<Rightarrow> u16 \<Rightarrow> u64 \<times> u64 \<Rightarrow> u64 \<times> u64 \<Rightarrow> u64 \<times> u64 \<Rightarrow> CommandQueue" where
  "new_queue queue_id sub_size comp_size doorbells frames ptrs =
     \<lparr>q_id = queue_id, submission_queue_size = sub_size, submission_queue_frame = fst frames,
      submission_queue_ptr = fst ptrs, submission_queue_tail_doorbell = fst doorbells, submission_queue_tail = 0,
      submission_queue_head = 0, submission_queue_tail_local = wv_zero sub_size, completion_queue_size = comp_size,
      completion_queue_frame = snd frames, completion_queue_ptr = snd ptrs,
      completion_queue_head_doorbell = snd doorbells, completion_queue_head = wv_zero comp_size,
      completion_expected_phase = True, completions = [], next_command_identifier = 0\<rparr>"

record 'pt kernel_memory =
  k_frames :: FrameAllocator
  k_pages :: PageAllocator
  k_table :: "'pt PageTable"

definition alloc_frame_page ::
  "x86_64 \<Rightarrow> 'pt kernel_memory \<Rightarrow> ('pt kernel_memory \<times> (NVMEControllerError + u64 \<times> u64)) run" where
  "alloc_frame_page X k = do {
     (fa, r) \<leftarrow> frame_alloc X Size4KiB (k_frames k);
     let k1 = k\<lparr>k_frames := fa\<rparr>;
     (case r of
        Inl e \<Rightarrow> Some (k1, Inl (Mem e))
      | Inr frame \<Rightarrow> do {
          (pa, r') \<leftarrow> allocate_page_4k X (k_pages k1);
          let k2 = k1\<lparr>k_pages := pa\<rparr>;
          Some (k2, case r' of Inl e \<Rightarrow> Inl (Mem e) | Inr page \<Rightarrow> Inr (frame, page))
        })
   }"

definition map_queue_page ::
  "'pt Mapper \<Rightarrow> u64 \<Rightarrow> u64 \<Rightarrow> 'pt kernel_memory \<Rightarrow> ('pt kernel_memory \<times> (NVMEControllerError + unit)) run" where
  "map_queue_page M page frame k = do {
     (pt, fa, r) \<leftarrow> map_kernel M Size4KiB page frame (PRESENT OR WRITABLE OR NO_CACHE OR NO_EXECUTE) (k_table k) (k_frames k);
     Some (k\<lparr>k_table := pt, k_frames := fa\<rparr>, case r of Inl e \<Rightarrow> Inl (Mem (PageTableMap e)) | Inr _ \<Rightarrow> Inr ())
   }"

definition queue_allocate ::
  "x86_64 \<Rightarrow> 'pt Mapper \<Rightarrow> u16 \<Rightarrow> u16 \<Rightarrow> u16 \<Rightarrow> u64 \<Rightarrow> int \<Rightarrow> 'pt kernel_memory
    \<Rightarrow> ('pt kernel_memory \<times> (NVMEControllerError + CommandQueue \<times> Controller)) run" where
  "queue_allocate X M queue_id sub_size comp_size doorbell_base stride k =
     (if sub_size < 2 then Some (k, Inl (InvalidQueueSize sub_size))
      else if comp_size < 2 then Some (k, Inl (InvalidQueueSize comp_size))
      else do {
        doorbells \<leftarrow> get_doorbells doorbell_base stride queue_id;
        (if 4096 < unat sub_size * SUBMISSION_COMMAND_ENTRY_SIZE then Some (k, Inl (InvalidQueueSize sub_size))
         else if 4096 < unat comp_size * COMPLETION_COMMAND_ENTRY_SIZE then Some (k, Inl (InvalidQueueSize comp_size))
         else do {
           (k1, r1) \<leftarrow> alloc_frame_page X k;
           (case r1 of
              Inl e \<Rightarrow> Some (k1, Inl e)
            | Inr (sub_frame, sub_page) \<Rightarrow> do {
                (k2, r2) \<leftarrow> alloc_frame_page X k1;
                (case r2 of
                   Inl e \<Rightarrow> Some (k2, Inl e)
                 | Inr (comp_frame, comp_page) \<Rightarrow> do {
                     (k3, r3) \<leftarrow> map_queue_page M sub_page sub_frame k2;
                     (case r3 of
                        Inl e \<Rightarrow> Some (k3, Inl e)
                      | Inr _ \<Rightarrow> do {
                          (k4, r4) \<leftarrow> map_queue_page M comp_page comp_frame k3;
                          (case r4 of
                             Inl e \<Rightarrow> Some (k4, Inl e)
                           | Inr _ \<Rightarrow> do {
                               assert_that (sub_page \<noteq> 0);
                               assert_that (comp_page \<noteq> 0);
                               Some (k4, Inr (new_queue queue_id sub_size comp_size doorbells
                                 (sub_frame, comp_frame) (sub_page, comp_page), fresh_rings sub_size comp_size))
                             })
                        })
                   })
              })
         })
      })"

text \<open>\<open>drop\<close>: both pages are unmapped, and both frames and pages are freed; a failure panics.\<close>

definition unmap_queue_page :: "'pt Mapper \<Rightarrow> u64 \<Rightarrow> 'pt kernel_memory \<Rightarrow> 'pt kernel_memory run" where
  "unmap_queue_page M page k = do {
     (pt, r) \<leftarrow> unmap_kernel M Size4KiB page (k_table k);
     (case r of Inl e \<Rightarrow> None | Inr _ \<Rightarrow> Some (k\<lparr>k_table := pt\<rparr>))
   }"

definition queue_drop :: "x86_64 \<Rightarrow> 'pt Mapper \<Rightarrow> CommandQueue \<Rightarrow> 'pt kernel_memory \<Rightarrow> 'pt kernel_memory run" where
  "queue_drop X M q k = do {
     assert_that (unat (submission_queue_size q) * SUBMISSION_COMMAND_ENTRY_SIZE \<le> 4096);
     sub_page \<leftarrow> from_start_address X Size4KiB (submission_queue_ptr q);
     assert_that (unat (completion_queue_size q) * COMPLETION_COMMAND_ENTRY_SIZE \<le> 4096);
     comp_page \<leftarrow> from_start_address X Size4KiB (completion_queue_ptr q);
     k1 \<leftarrow> unmap_queue_page M sub_page k;
     k2 \<leftarrow> unmap_queue_page M comp_page k1;
     fa1 \<leftarrow> frame_free Size4KiB (submission_queue_frame q) (k_frames k2);
     fa2 \<leftarrow> frame_free Size4KiB (completion_queue_frame q) fa1;
     pa1 \<leftarrow> free_page Size4KiB sub_page (k_pages k2);
     pa2 \<leftarrow> free_page Size4KiB comp_page pa1;
     Some (k2\<lparr>k_frames := fa2, k_pages := pa2\<rparr>)
   }"

section \<open>The controller\<close>

text \<open>
  The steps of a controller, as the specification describes them: it reads the next command while its head differs
  from the tail doorbell, and it writes a completion, with the phase of the current pass over the ring, unless the ring is
  full, that is, the next slot is the one of the head doorbell.
\<close>

inductive controller_step :: "bits \<Rightarrow> u16 \<Rightarrow> Controller \<Rightarrow> Controller \<Rightarrow> bool" for B ident where
  fetch: "length (fetched c) mod length (sq_slots c) \<noteq> unat (sq_tail_db c) \<Longrightarrow>
    controller_step B ident c (c\<lparr>fetched := fetched c @ [sq_slots c ! (length (fetched c) mod length (sq_slots c))]\<rparr>)"
| post: "(length (posted c) + 1) mod length (cq_slots c) \<noteq> unat (cq_head_db c) \<Longrightarrow>
    phase B e = even (length (posted c) div length (cq_slots c)) \<Longrightarrow> c_submission_queue_ident e = ident \<Longrightarrow>
    unat (c_submission_queue_head e) = length (fetched c) mod length (sq_slots c) \<Longrightarrow>
    controller_step B ident c (c\<lparr>cq_slots := (cq_slots c)[length (posted c) mod length (cq_slots c) := e],
      posted := posted c @ [e]\<rparr>)"

definition env_ok :: "bits \<Rightarrow> u16 \<Rightarrow> env \<Rightarrow> bool" where
  "env_ok B ident env \<longleftrightarrow> (\<forall>t c. (controller_step B ident)\<^sup>*\<^sup>* c (env t c))"

end
