(* ===== verification/NVMe_Queue_Runs.thy ===== *)
theory NVMe_Queue_Runs
  imports NVMe_Queue "HOL-Library.Multiset"
begin

text \<open>
  Runs of the command queues of \<open>NVMe_Queue\<close>: the invariant that ties the indices of the driver to the two rings and to what the
  controller has done, that every operation and every step of the controller keeps it, and the properties of all runs: the
  rings are queues, polling takes everything, waiting ends, and the doorbells of different rings are different.
\<close>

section \<open>Invariant\<close>

text \<open>
  Positions in the rings are counted from the start of the run: \<open>g_read\<close> completions have been read by
  the driver, of which \<open>g_rung\<close> were announced with the doorbell; \<open>g_log\<close> are the commands submitted, of which
  \<open>g_flushed\<close> were announced; \<open>g_seen\<close> is the position of the controller in the submission ring as far as the driver
  knows, and \<open>g_heads\<close> that position at each completion the controller has written. \<open>g_returned\<close> are the completions
  that were handed to callers.
\<close>

record ghost =
  g_read :: nat
  g_rung :: nat
  g_log :: "CommonCommand list"
  g_flushed :: nat
  g_seen :: nat
  g_heads :: "nat list"
  g_returned :: "CommonCompletionEntry list"

abbreviation n_sq :: "Controller \<Rightarrow> nat" where "n_sq c \<equiv> length (sq_slots c)"
abbreviation n_cq :: "Controller \<Rightarrow> nat" where "n_cq c \<equiv> length (cq_slots c)"
abbreviation n_fetched :: "Controller \<Rightarrow> nat" where "n_fetched c \<equiv> length (fetched c)"
abbreviation n_posted :: "Controller \<Rightarrow> nat" where "n_posted c \<equiv> length (posted c)"

text \<open>The completion ring: its content, and the positions of controller and driver.\<close>

definition cq_inv :: "bits \<Rightarrow> u16 \<Rightarrow> Controller \<Rightarrow> ghost \<Rightarrow> bool" where
  "cq_inv B ident c G \<longleftrightarrow> 2 \<le> n_cq c \<and> n_cq c < 2 ^ 16 \<and> unat (cq_head_db c) = g_rung G mod n_cq c
     \<and> g_rung G \<le> g_read G \<and> g_read G \<le> n_posted c \<and> n_posted c < g_rung G + n_cq c
     \<and> (\<forall>k < n_posted c. n_posted c \<le> k + n_cq c \<longrightarrow> cq_slots c ! (k mod n_cq c) = posted c ! k)
     \<and> (\<forall>i < n_cq c. n_posted c \<le> i \<longrightarrow> \<not> phase B (cq_slots c ! i))
     \<and> (\<forall>k < n_posted c. phase B (posted c ! k) = even (k div n_cq c) \<and> c_submission_queue_ident (posted c ! k) = ident)"

text \<open>The submission ring: the slots that the controller has not read yet hold the commands of the log.\<close>

definition sq_inv :: "Controller \<Rightarrow> ghost \<Rightarrow> bool" where
  "sq_inv c G \<longleftrightarrow> 2 \<le> n_sq c \<and> n_sq c < 2 ^ 16 \<and> unat (sq_tail_db c) = g_flushed G mod n_sq c
     \<and> g_seen G \<le> n_fetched c \<and> n_fetched c \<le> g_flushed G \<and> g_flushed G \<le> length (g_log G)
     \<and> length (g_log G) < g_seen G + n_sq c \<and> fetched c = take (n_fetched c) (g_log G)
     \<and> (\<forall>k < length (g_log G). n_fetched c \<le> k \<longrightarrow> sq_slots c ! (k mod n_sq c) = g_log G ! k)"

definition heads_inv :: "Controller \<Rightarrow> ghost \<Rightarrow> bool" where
  "heads_inv c G \<longleftrightarrow> length (g_heads G) = n_posted c \<and> sorted (g_heads G) \<and> (\<forall>h \<in> set (g_heads G). h \<le> n_fetched c)
     \<and> (\<forall>k < n_posted c. unat (c_submission_queue_head (posted c ! k)) = g_heads G ! k mod n_sq c)
     \<and> (\<forall>k < n_posted c. g_read G \<le> k \<longrightarrow> g_seen G \<le> g_heads G ! k)"

text \<open>The indices that the driver keeps.\<close>

definition driver_inv :: "CommandQueue \<Rightarrow> Controller \<Rightarrow> ghost \<Rightarrow> bool" where
  "driver_inv q c G \<longleftrightarrow>
     unat (completion_queue_size q) = n_cq c \<and> unat (submission_queue_size q) = n_sq c
     \<and> wv_modulo (completion_queue_head q) = completion_queue_size q
     \<and> unat (wv_value (completion_queue_head q)) = g_read G mod n_cq c
     \<and> completion_expected_phase q = even (g_read G div n_cq c)
     \<and> wv_modulo (submission_queue_tail_local q) = submission_queue_size q
     \<and> unat (wv_value (submission_queue_tail_local q)) = length (g_log G) mod n_sq c
     \<and> unat (submission_queue_tail q) = g_flushed G mod n_sq c
     \<and> unat (submission_queue_head q) = g_seen G mod n_sq c
     \<and> unat (submission_queue_ptr q) mod 4096 = 0
     \<and> sorted_wrt (<) (map c_command_ident (completions q))
     \<and> mset (completions q) + mset (g_returned G) = mset (take (g_read G) (posted c))"

definition queue_inv :: "bits \<Rightarrow> CommandQueue \<Rightarrow> Controller \<Rightarrow> ghost \<Rightarrow> bool" where
  "queue_inv B q c G \<longleftrightarrow> cq_inv B (q_id q) c G \<and> sq_inv c G \<and> heads_inv c G \<and> driver_inv q c G"

lemmas queue_inv_defs = queue_inv_def cq_inv_def sq_inv_def heads_inv_def driver_inv_def

lemma mod_eq_near: "a \<le> b \<Longrightarrow> b < a + n \<Longrightarrow> a mod n = b mod n \<longleftrightarrow> a = (b :: nat)"
  by (metis add_diff_cancel_left' add_less_cancel_left le_add_diff_inverse mod_eq_dvd_iff_nat nat_dvd_not_less zero_less_diff order_le_less diff_is_0_eq)

lemma mod_Suc_near: "a \<le> b \<Longrightarrow> b < a + n \<Longrightarrow> Suc b mod n = a mod n \<longleftrightarrow> Suc b = a + (n :: nat)"
  by (metis add_Suc_right less_Suc_eq mod_add_self2 mod_eq_near not_less_eq add_less_cancel_left le_less_Suc_eq le_SucI)

section \<open>Steps of the controller keep the invariant\<close>

lemma fetch_inv:
  assumes "queue_inv B q c G" "n_fetched c mod n_sq c \<noteq> unat (sq_tail_db c)"
  shows "queue_inv B q (c\<lparr>fetched := fetched c @ [sq_slots c ! (n_fetched c mod n_sq c)]\<rparr>) G"
proof -
  let ?c = "c\<lparr>fetched := fetched c @ [sq_slots c ! (n_fetched c mod n_sq c)]\<rparr>"
  have sq: "sq_inv c G" and hd: "heads_inv c G" using assms(1) by (simp_all add: queue_inv_def)
  have lt: "n_fetched c < g_flushed G"
    using sq assms(2) by (metis sq_inv_def le_neq_implies_less)
  have "n_fetched c < length (g_log G)" using sq lt by (simp add: sq_inv_def)
  then have "fetched c @ [sq_slots c ! (n_fetched c mod n_sq c)] = take (Suc (n_fetched c)) (g_log G)"
    using sq by (simp add: sq_inv_def take_Suc_conv_app_nth)
  then have "sq_inv ?c G" using sq lt by (simp add: sq_inv_def)
  moreover have "heads_inv ?c G" using hd by (fastforce simp: heads_inv_def)
  moreover have "cq_inv B (q_id q) ?c G" "driver_inv q ?c G"
    using assms(1) by (simp_all add: queue_inv_def cq_inv_def driver_inv_def)
  ultimately show ?thesis by (simp add: queue_inv_def)
qed

lemma post_cq_inv:
  assumes "cq_inv B ident c G" "(n_posted c + 1) mod n_cq c \<noteq> unat (cq_head_db c)"
    "phase B e = even (n_posted c div n_cq c)" "c_submission_queue_ident e = ident"
  shows "cq_inv B ident (c\<lparr>cq_slots := (cq_slots c)[n_posted c mod n_cq c := e], posted := posted c @ [e]\<rparr>) G"
proof -
  let ?n = "n_cq c" and ?P = "n_posted c"
  have n: "0 < ?n" and P: "?P < g_rung G + ?n" "g_rung G \<le> ?P"
    and slots: "\<And>k. k < ?P \<Longrightarrow> ?P \<le> k + ?n \<Longrightarrow> cq_slots c ! (k mod ?n) = posted c ! k"
    and old: "\<And>i. i < ?n \<Longrightarrow> ?P \<le> i \<Longrightarrow> \<not> phase B (cq_slots c ! i)"
    using assms(1) by (auto simp: cq_inv_def)
  have room: "Suc ?P < g_rung G + ?n"
    using assms(1,2) mod_Suc_near [OF P(2) P(1)] P(1) by (auto simp: cq_inv_def)
  have new: "(cq_slots c)[?P mod ?n := e] ! (k mod ?n) = (posted c @ [e]) ! k"
    if k: "k < Suc ?P" "Suc ?P \<le> k + ?n" for k
  proof (cases "k = ?P")
    case True
    then show ?thesis using n by (simp add: nth_append)
  next
    case False
    then have "k mod ?n \<noteq> ?P mod ?n" using k mod_eq_near [of k ?P ?n] by auto
    then show ?thesis using k False slots [of k] by (auto simp: nth_append)
  qed
  have "\<not> phase B ((cq_slots c)[?P mod ?n := e] ! i)" if "i < ?n" "Suc ?P \<le> i" for i
    using that old [of i] by (simp add: nth_list_update)
  then show ?thesis
    using assms(1,3,4) room new by (auto simp: cq_inv_def nth_append less_Suc_eq)
qed

lemma post_heads_inv:
  assumes "heads_inv c G" "sq_inv c G" "g_read G \<le> n_posted c" "unat (c_submission_queue_head e) = n_fetched c mod n_sq c"
  shows "heads_inv (c\<lparr>cq_slots := xs, posted := posted c @ [e]\<rparr>) (G\<lparr>g_heads := g_heads G @ [n_fetched c]\<rparr>)"
  using assms by (auto simp: heads_inv_def sq_inv_def nth_append sorted_append less_Suc_eq)

lemma cq_inv_heads: "cq_inv B ident c (G\<lparr>g_heads := hs\<rparr>) = cq_inv B ident c G"
  by (simp add: cq_inv_def)

lemma controller_step_inv:
  assumes "controller_step B (q_id q) c c'" "queue_inv B q c G"
  shows "\<exists>hs. queue_inv B q c' (G\<lparr>g_heads := g_heads G @ hs\<rparr>)"
  using assms(1)
proof cases
  case fetch
  then show ?thesis using fetch_inv [OF assms(2)] by (intro exI [of _ "[]"]) simp
next
  case (post e)
  note inv = assms(2) [unfolded queue_inv_def]
  have le: "g_read G \<le> n_posted c" using inv by (simp add: cq_inv_def)
  have "cq_inv B (q_id q) c' (G\<lparr>g_heads := g_heads G @ [n_fetched c]\<rparr>)"
    unfolding post(1) cq_inv_heads by (rule post_cq_inv [OF _ post(2,3,4)]) (use inv in blast)
  moreover have "sq_inv c' (G\<lparr>g_heads := g_heads G @ [n_fetched c]\<rparr>)" "driver_inv q c' (G\<lparr>g_heads := g_heads G @ [n_fetched c]\<rparr>)"
    using inv le unfolding post(1) by (simp_all add: sq_inv_def driver_inv_def)
  moreover have "heads_inv c' (G\<lparr>g_heads := g_heads G @ [n_fetched c]\<rparr>)"
    unfolding post(1) by (rule post_heads_inv) (use inv le post(5) in auto)
  ultimately show ?thesis unfolding queue_inv_def by blast
qed

text \<open>What the driver knows of the controller stays true: histories only grow, and read positions keep their content.\<close>

definition later :: "Controller \<Rightarrow> Controller \<Rightarrow> bool" where
  "later c c' \<longleftrightarrow> (\<exists>xs. posted c' = posted c @ xs) \<and> (\<exists>ys. fetched c' = fetched c @ ys)
     \<and> n_sq c' = n_sq c \<and> n_cq c' = n_cq c \<and> sq_tail_db c' = sq_tail_db c \<and> cq_head_db c' = cq_head_db c \<and> sq_slots c' = sq_slots c"

lemma later_refl [simp]: "later c c"
  by (simp add: later_def)

lemma later_trans: "later a b \<Longrightarrow> later b c \<Longrightarrow> later a c"
  by (auto simp: later_def)

lemma controller_step_later: "controller_step B ident c c' \<Longrightarrow> later c c'"
  by (auto elim!: controller_step.cases simp: later_def)

lemma controller_steps_inv:
  assumes "(controller_step B (q_id q))\<^sup>*\<^sup>* c c'" "queue_inv B q c G"
  shows "later c c' \<and> (\<exists>hs. queue_inv B q c' (G\<lparr>g_heads := g_heads G @ hs\<rparr>))"
  using assms
proof (induction rule: rtranclp_induct)
  case base
  then show ?case by (auto intro!: exI [of _ "[]"])
next
  case (step b c')
  then obtain hs where b: "later c b" "queue_inv B q b (G\<lparr>g_heads := g_heads G @ hs\<rparr>)" by blast
  from controller_step_inv [OF step.hyps(2) b(2)] obtain hs'
    where "queue_inv B q c' (G\<lparr>g_heads := g_heads G @ hs\<rparr>\<lparr>g_heads := (g_heads G @ hs) @ hs'\<rparr>)" by auto
  then have "queue_inv B q c' (G\<lparr>g_heads := g_heads G @ (hs @ hs')\<rparr>)" by simp
  then show ?case using later_trans [OF b(1) controller_step_later [OF step.hyps(2)]] by blast
qed

lemma tick_inv:
  assumes "env_ok B (q_id q) env" "queue_inv B q (ctl s) G"
  obtains hs where "queue_inv B q (ctl (tick env s)) (G\<lparr>g_heads := g_heads G @ hs\<rparr>)" "later (ctl s) (ctl (tick env s))"
  using controller_steps_inv [of B q "ctl s" "ctl (tick env s)" G] assms by (auto simp: env_ok_def tick_def)

section \<open>Polling\<close>

lemma slot_read:
  assumes "queue_inv B q c G" "g_read G < n_posted c"
  shows "cq_slots c ! unat (wv_value (completion_queue_head q)) = posted c ! g_read G"
    "phase B (posted c ! g_read G) = completion_expected_phase q"
    "c_submission_queue_ident (posted c ! g_read G) = q_id q"
  using assms by (auto simp: queue_inv_def cq_inv_def driver_inv_def)

lemma slot_empty:
  assumes "queue_inv B q c G" "\<not> g_read G < n_posted c"
  shows "phase B (cq_slots c ! unat (wv_value (completion_queue_head q))) \<noteq> completion_expected_phase q"
proof -
  let ?n = "n_cq c" and ?P = "n_posted c"
  have cq: "cq_inv B (q_id q) c G" using assms(1) by (simp add: queue_inv_def)
  have P: "g_read G = ?P" and n: "2 \<le> ?n" using cq assms(2) by (auto simp: cq_inv_def)
  have q: "unat (wv_value (completion_queue_head q)) = ?P mod ?n" "completion_expected_phase q = even (?P div ?n)"
    using assms(1) P by (simp_all add: queue_inv_def driver_inv_def)
  show ?thesis
  proof (cases "?P < ?n")
    case True
    then have "\<not> phase B (cq_slots c ! ?P)" using cq by (simp add: cq_inv_def)
    then show ?thesis using q True by simp
  next
    case False
    then obtain k where k: "?P = k + ?n" by (metis add.commute le_Suc_ex not_less)
    then have "k < ?P" "?P \<le> k + ?n" using n by auto
    then have "cq_slots c ! (k mod ?n) = posted c ! k" "phase B (posted c ! k) = even (k div ?n)"
      using cq unfolding cq_inv_def by blast+
    moreover have "(k + ?n) div ?n = k div ?n + 1" by (rule div_add_self2) (use n in linarith)
    ultimately show ?thesis using q k by simp
  qed
qed

lemma see_inv:
  assumes "queue_inv B q c G" "g_read G < n_posted c"
  shows "queue_inv B (q\<lparr>submission_queue_head := c_submission_queue_head (posted c ! g_read G)\<rparr>) c
    (G\<lparr>g_seen := g_heads G ! g_read G\<rparr>)"
proof -
  have hd: "heads_inv c G" and sq: "sq_inv c G" using assms(1) by (simp_all add: queue_inv_def)
  have le: "g_heads G ! g_read G \<le> n_fetched c" "g_seen G \<le> g_heads G ! g_read G"
    using hd assms(2) by (auto simp: heads_inv_def)
  have mono: "\<forall>k < n_posted c. g_read G \<le> k \<longrightarrow> g_heads G ! g_read G \<le> g_heads G ! k"
    using hd by (auto simp: heads_inv_def intro: sorted_nth_mono)
  have "sq_inv c (G\<lparr>g_seen := g_heads G ! g_read G\<rparr>)"
    using sq le by (simp add: sq_inv_def)
  moreover have "heads_inv c (G\<lparr>g_seen := g_heads G ! g_read G\<rparr>)"
    using hd mono by (simp add: heads_inv_def)
  moreover have "unat (c_submission_queue_head (posted c ! g_read G)) = g_heads G ! g_read G mod n_sq c"
    using hd assms(2) by (simp add: heads_inv_def)
  ultimately show ?thesis
    using assms(1) by (simp add: queue_inv_def cq_inv_def driver_inv_def)
qed

text \<open>The sorted buffer of completions.\<close>

lemma binary_search_Inr:
  assumes "binary_search_by_key k f xs = Inr i"
  shows "i < length xs" "f (xs ! i) = k"
  using assms by (auto simp: binary_search_by_key_def split: option.splits dest: position_SomeD)

lemma binary_search_InlD:
  assumes "binary_search_by_key k f xs = Inl i"
  shows "k \<notin> f ` set xs" "i = length (takeWhile (\<lambda>x. f x < k) xs)"
  using assms by (auto simp: binary_search_by_key_def position_None split: option.splits)

lemma insert_at_takeWhile: "insert_at (length (takeWhile P xs)) x xs = takeWhile P xs @ x # dropWhile P xs"
  by (metis insert_at_split takeWhile_dropWhile_id)

lemma dropWhile_less_sorted:
  "sorted_wrt (<) (map f xs) \<Longrightarrow> y \<in> set (dropWhile (\<lambda>x. f x < k) xs) \<Longrightarrow> (k :: 'k :: linorder) \<le> f y"
  by (induction xs) (auto split: if_splits)

lemma takeWhile_less: "y \<in> set (takeWhile (\<lambda>x. f x < k) xs) \<Longrightarrow> f y < k"
  using set_takeWhileD by fastforce

lemma sorted_insert_at:
  assumes "sorted_wrt (<) (map f xs)" "binary_search_by_key (f x) f xs = Inl i"
  shows "sorted_wrt (<) (map f (insert_at i x xs))" "mset (insert_at i x xs) = add_mset x (mset xs)"
proof -
  let ?T = "takeWhile (\<lambda>y. f y < f x) xs" and ?D = "dropWhile (\<lambda>y. f y < f x) xs"
  have eq: "insert_at i x xs = ?T @ x # ?D"
    using binary_search_InlD [OF assms(2)] insert_at_takeWhile by metis
  have "sorted_wrt (<) (map f (?T @ ?D))" using assms(1) by simp
  moreover have "f x < f y" if "y \<in> set ?D" for y
  proof -
    have "f x \<le> f y" using dropWhile_less_sorted [OF assms(1) that] .
    moreover have "f x \<noteq> f y"
      using binary_search_InlD(1) [OF assms(2)] set_dropWhileD [OF that] by auto
    ultimately show ?thesis by simp
  qed
  ultimately show "sorted_wrt (<) (map f (insert_at i x xs))"
    unfolding eq map_append list.map sorted_wrt_append by (auto dest: takeWhile_less)
  show "mset (insert_at i x xs) = add_mset x (mset xs)"
    unfolding eq by (metis mset_append mset.simps(2) takeWhile_dropWhile_id union_mset_add_mset_right)
qed

lemma sorted_remove_at:
  assumes "sorted_wrt (<) (map f xs)" "i < length xs"
  shows "sorted_wrt (<) (map f (remove_at i xs))" "add_mset (xs ! i) (mset (remove_at i xs)) = mset xs"
proof -
  have xs: "xs = take i xs @ xs ! i # drop (Suc i) xs" using assms(2) by (rule id_take_nth_drop)
  show "sorted_wrt (<) (map f (remove_at i xs))"
    using assms(1) unfolding remove_at_def by (subst (asm) xs) (simp add: sorted_wrt_append)
  show "add_mset (xs ! i) (mset (remove_at i xs)) = mset xs"
    unfolding remove_at_def by (subst (3) xs) simp
qed

lemma wv_add_one:
  assumes "unat (wv_value w) = k mod n" "unat (wv_modulo w) = n" "2 \<le> n"
  obtains v where "wv_add w 1 = Some \<lparr>wv_value = v, wv_modulo = wv_modulo w\<rparr>" "unat v = Suc k mod n"
proof -
  have "wv_ok w" using assms by (simp add: wv_ok_def word_less_nat_alt)
  from wv_add_Some [OF this, of 1] show ?thesis
    using assms that by (auto simp: mod_Suc_eq)
qed

lemma head_add:
  assumes "queue_inv B q c G"
  obtains v where "wv_add (completion_queue_head q) 1 = Some \<lparr>wv_value = v, wv_modulo = completion_queue_size q\<rparr>"
    "unat v = Suc (g_read G) mod n_cq c"
  using wv_add_one [of "completion_queue_head q" "g_read G" "n_cq c" thesis] assms
  by (simp add: queue_inv_def driver_inv_def cq_inv_def)

definition push_completion :: "16 WrappingValue \<Rightarrow> nat \<Rightarrow> CommonCompletionEntry \<Rightarrow> CommandQueue \<Rightarrow> CommandQueue" where
  "push_completion head at e q = q\<lparr>completion_queue_head := head,
     completion_expected_phase := (if wv_value head = 0 then \<not> completion_expected_phase q else completion_expected_phase q),
     completions := insert_at at e (completions q)\<rparr>"

lemma push_inv:
  assumes inv: "queue_inv B q c G" and lt: "g_read G < n_posted c" and e: "e = posted c ! g_read G"
    and at: "binary_search_by_key (c_command_ident e) c_command_ident (completions q) = Inl at"
    and head: "wv_add (completion_queue_head q) 1 = Some head"
  shows "queue_inv B (push_completion head at e q) c (G\<lparr>g_read := Suc (g_read G)\<rparr>)"
proof -
  let ?H = "g_read G" and ?n = "n_cq c"
  have dr: "driver_inv q c G" and cq: "cq_inv B (q_id q) c G" using inv by (simp_all add: queue_inv_def)
  obtain v where v: "head = \<lparr>wv_value = v, wv_modulo = completion_queue_size q\<rparr>" "unat v = Suc ?H mod ?n"
    by (rule head_add [OF inv]) (use head in auto)
  have ph: "(if v = 0 then \<not> completion_expected_phase q else completion_expected_phase q) = even (Suc ?H div ?n)"
    using dr v(2) by (auto simp: driver_inv_def div_Suc unat_eq_zero)
  have ms: "mset (insert_at at e (completions q)) + mset (g_returned G) = mset (take (Suc ?H) (posted c))"
    using dr lt sorted_insert_at(2) [OF _ at] unfolding e driver_inv_def by (simp add: take_Suc_conv_app_nth)
  have so: "sorted_wrt (<) (map c_command_ident (insert_at at e (completions q)))"
    using dr sorted_insert_at(1) [OF _ at] by (simp add: driver_inv_def)
  have "driver_inv (push_completion head at e q) c (G\<lparr>g_read := Suc ?H\<rparr>)"
    using dr ms so ph v by (simp add: driver_inv_def push_completion_def)
  moreover have "cq_inv B (q_id q) c (G\<lparr>g_read := Suc ?H\<rparr>)" "heads_inv c (G\<lparr>g_read := Suc ?H\<rparr>)" "sq_inv c (G\<lparr>g_read := Suc ?H\<rparr>)"
    using inv lt by (auto simp: queue_inv_def cq_inv_def heads_inv_def sq_inv_def)
  ultimately show ?thesis by (simp add: queue_inv_def push_completion_def)
qed

text \<open>What polling may change.\<close>

definition poll_frame :: "CommandQueue \<Rightarrow> CommandQueue \<Rightarrow> bool" where
  "poll_frame q q' \<longleftrightarrow> (\<exists>sh ch ph cs. q' = q\<lparr>submission_queue_head := sh, completion_queue_head := ch,
     completion_expected_phase := ph, completions := cs\<rparr>)"

definition ghost_frame :: "ghost \<Rightarrow> ghost \<Rightarrow> bool" where
  "ghost_frame G G' \<longleftrightarrow> g_rung G' = g_rung G \<and> g_log G' = g_log G \<and> g_flushed G' = g_flushed G \<and> g_returned G' = g_returned G"

lemma poll_frame_refl [simp]: "poll_frame q q"
  unfolding poll_frame_def by (intro exI [of _ "submission_queue_head q"] exI [of _ "completion_queue_head q"]
    exI [of _ "completion_expected_phase q"] exI [of _ "completions q"]) simp

lemma poll_frame_trans: "poll_frame a b \<Longrightarrow> poll_frame b c \<Longrightarrow> poll_frame a c"
  unfolding poll_frame_def by (elim exE) (simp, blast)

lemma poll_frame_updates:
  "poll_frame q (q\<lparr>submission_queue_head := h\<rparr>)"
  "poll_frame q (push_completion head at e (q\<lparr>submission_queue_head := h\<rparr>))"
proof -
  show "poll_frame q (q\<lparr>submission_queue_head := h\<rparr>)"
    unfolding poll_frame_def by (intro exI [of _ h] exI [of _ "completion_queue_head q"]
      exI [of _ "completion_expected_phase q"] exI [of _ "completions q"]) simp
  show "poll_frame q (push_completion head at e (q\<lparr>submission_queue_head := h\<rparr>))"
    unfolding poll_frame_def push_completion_def by (intro exI [of _ h] exI [of _ head]
      exI [of _ "if wv_value head = 0 then \<not> completion_expected_phase q else completion_expected_phase q"]
      exI [of _ "insert_at at e (completions q)"]) simp
qed

lemma poll_frameD [simp]:
  assumes "poll_frame q q'"
  shows "q_id q' = q_id q" "submission_queue_tail_local q' = submission_queue_tail_local q"
    "submission_queue_tail q' = submission_queue_tail q" "submission_queue_size q' = submission_queue_size q"
    "submission_queue_ptr q' = submission_queue_ptr q" "next_command_identifier q' = next_command_identifier q"
    "completion_queue_size q' = completion_queue_size q"
  using assms by (auto simp: poll_frame_def)

lemma ghost_frame_refl [simp]: "ghost_frame G G"
  by (simp add: ghost_frame_def)

lemma ghost_frame_trans: "ghost_frame a b \<Longrightarrow> ghost_frame b c \<Longrightarrow> ghost_frame a c"
  by (simp add: ghost_frame_def)

lemma poll_single_completion_present:
  assumes inv: "queue_inv B q (ctl io2) G" and lt: "g_read G < n_posted (ctl io2)"
    and io2: "io2 = tick env (tick env io)" and ph: "phase B (cq_slots (ctl (tick env io)) ! unat (wv_value (completion_queue_head q))) = completion_expected_phase q"
  obtains (clash) q' G' e where
      "poll_single_completion B env (q, io) = Some ((q', io2), Inl (IdentifierStillInUse (c_command_ident e)))"
      "queue_inv B q' (ctl io2) G'" "ghost_frame G G'" "g_read G' = g_read G"
      "e = posted (ctl io2) ! g_read G" "c_command_ident e \<in> c_command_ident ` set (completions q')" "poll_frame q q'"
  | (found) q' G' where "poll_single_completion B env (q, io) = Some ((q', io2), Inr True)"
      "queue_inv B q' (ctl io2) G'" "ghost_frame G G'" "g_read G' = Suc (g_read G)" "poll_frame q q'"
proof -
  let ?e = "posted (ctl io2) ! g_read G" and ?G3 = "G\<lparr>g_seen := g_heads G ! g_read G\<rparr>"
  let ?q1 = "q\<lparr>submission_queue_head := c_submission_queue_head ?e\<rparr>"
  have inv3: "queue_inv B ?q1 (ctl io2) ?G3" by (rule see_inv [OF inv lt])
  have single: "poll_single_completion B env (q, io) =
    (case binary_search_by_key (c_command_ident ?e) c_command_ident (completions ?q1) of
       Inr i \<Rightarrow> Some ((?q1, io2), Inl (IdentifierStillInUse (c_command_ident ?e)))
     | Inl at \<Rightarrow> map_option (\<lambda>head. ((push_completion head at ?e ?q1, io2), Inr True)) (wv_add (completion_queue_head ?q1) 1))"
    using ph slot_read [OF inv lt] io2 by (simp add: poll_single_completion_def Let_def push_completion_def
      map_conv_bind_option o_def split: sum.split cong: if_cong)
  show ?thesis
  proof (cases "binary_search_by_key (c_command_ident ?e) c_command_ident (completions ?q1)")
    case (Inr i)
    then have "c_command_ident ?e \<in> c_command_ident ` set (completions ?q1)"
      using binary_search_Inr [OF Inr] by (metis image_eqI nth_mem)
    then show ?thesis
      using single Inr inv3 poll_frame_updates(1)
      by (intro clash [of ?q1 ?e ?G3]) (auto simp: ghost_frame_def)
  next
    case (Inl at)
    obtain head where head: "wv_add (completion_queue_head ?q1) 1 = Some head"
      by (rule head_add [OF inv3])
    have "queue_inv B (push_completion head at ?e ?q1) (ctl io2) (?G3\<lparr>g_read := Suc (g_read ?G3)\<rparr>)"
      by (rule push_inv [OF inv3 _ _ Inl head]) (use lt in auto)
    then show ?thesis
      using single Inl head poll_frame_updates(2)
      by (intro found [of "push_completion head at ?e ?q1" "?G3\<lparr>g_read := Suc (g_read ?G3)\<rparr>"])
        (auto simp: ghost_frame_def)
  qed
qed

lemma poll_single_completion_cases:
  assumes env: "env_ok B (q_id q) env" and inv: "queue_inv B q (ctl io) G"
  obtains (idle) io' G' where "poll_single_completion B env (q, io) = Some ((q, io'), Inr False)"
      "queue_inv B q (ctl io') G'" "later (ctl io) (ctl io')" "ghost_frame G G'" "g_read G' = g_read G"
      "n_posted (ctl io') = g_read G"
  | (clash) q' io' G' e where "poll_single_completion B env (q, io) = Some ((q', io'), Inl (IdentifierStillInUse (c_command_ident e)))"
      "queue_inv B q' (ctl io') G'" "later (ctl io) (ctl io')" "ghost_frame G G'" "g_read G' = g_read G"
      "g_read G < n_posted (ctl io')" "e = posted (ctl io') ! g_read G" "c_command_ident e \<in> c_command_ident ` set (completions q')"
      "poll_frame q q'"
  | (found) q' io' G' where "poll_single_completion B env (q, io) = Some ((q', io'), Inr True)"
      "queue_inv B q' (ctl io') G'" "later (ctl io) (ctl io')" "ghost_frame G G'" "g_read G' = Suc (g_read G)"
      "poll_frame q q'"
proof -
  let ?slot = "unat (wv_value (completion_queue_head q))"
  obtain G1 where 1: "queue_inv B q (ctl (tick env io)) G1" "later (ctl io) (ctl (tick env io))"
      "ghost_frame G G1" "g_read G1 = g_read G"
    by (rule tick_inv [OF env inv]) (auto simp: ghost_frame_def)
  show ?thesis
  proof (cases "g_read G < n_posted (ctl (tick env io))")
    case False
    then have "phase B (cq_slots (ctl (tick env io)) ! ?slot) \<noteq> completion_expected_phase q"
      using slot_empty [OF 1(1)] 1(4) by simp
    then show ?thesis
      using 1 False by (intro idle [of "tick env io" G1])
        (auto simp: poll_single_completion_def Let_def queue_inv_def cq_inv_def)
  next
    case True
    let ?io2 = "tick env (tick env io)"
    obtain G2 where 2: "queue_inv B q (ctl ?io2) G2" "later (ctl (tick env io)) (ctl ?io2)"
        "ghost_frame G1 G2" "g_read G2 = g_read G"
      by (rule tick_inv [OF env 1(1)]) (auto simp: ghost_frame_def 1(4))
    have lt: "g_read G2 < n_posted (ctl ?io2)" using True 2(2,4) by (auto simp: later_def)
    have lat: "later (ctl io) (ctl ?io2)" by (rule later_trans [OF 1(2) 2(2)])
    have fr: "ghost_frame G G2" by (rule ghost_frame_trans [OF 1(3) 2(3)])
    have s1: "phase B (cq_slots (ctl (tick env io)) ! ?slot) = completion_expected_phase q"
      using slot_read(1,2) [OF 1(1)] 1(4) True by simp
    show ?thesis
    proof (cases rule: poll_single_completion_present [OF 2(1) lt refl s1])
      case 1
      then show ?thesis using clash lat lt ghost_frame_trans [OF fr] 2(4) by metis
    next
      case 2
      then show ?thesis using found lat ghost_frame_trans [OF fr] \<open>g_read G2 = g_read G\<close> by metis
    qed
  qed
qed

lemma later_n_cq: "later c c' \<Longrightarrow> n_cq c' = n_cq c"
  by (simp add: later_def)

lemma poll_single_completion_now:
  "poll_single_completion B env (q, io) = Some ((q', io'), r) \<Longrightarrow> now io < now io'"
  by (auto simp: poll_single_completion_def Let_def tick_def split: if_splits option.splits sum.splits bind_splits)

lemma poll_single_completion_idle:
  "poll_single_completion B env (q, io) = Some ((q', io'), Inr False) \<Longrightarrow> io' = tick env io"
  by (auto simp: poll_single_completion_def Let_def split: if_splits option.splits sum.splits bind_splits)

text \<open>
  How polling ends: every completion the controller had written at its last read was consumed, or the next one
  has an identifier that is still in the buffer.
\<close>

definition poll_end :: "env \<Rightarrow> io \<Rightarrow> CommandQueue \<times> io \<Rightarrow> nat \<Rightarrow> PollCompletionError option \<Rightarrow> bool" where
  "poll_end env io s' n err =
     (case err of
        None \<Rightarrow> n = n_posted (ctl (snd s')) \<and> (\<exists>l. snd s' = tick env l \<and> now io \<le> now l \<and> later (ctl io) (ctl l) \<and> n \<le> n_posted (ctl l))
      | Some (IdentifierStillInUse i) \<Rightarrow> n < n_posted (ctl (snd s')) \<and> i = c_command_ident (posted (ctl (snd s')) ! n)
          \<and> i \<in> c_command_ident ` set (completions (fst s')))"

lemma poll_end_earlier:
  "poll_end env io' s n err \<Longrightarrow> later (ctl io) (ctl io') \<Longrightarrow> now io \<le> now io' \<Longrightarrow> poll_end env io s n err"
  by (auto simp: poll_end_def split: option.splits PollCompletionError.splits intro: later_trans order_trans)

text \<open>What the environment keeps is kept.\<close>

definition env_reach :: "env \<Rightarrow> Controller \<Rightarrow> Controller \<Rightarrow> bool" where
  "env_reach env c c' \<longleftrightarrow> (\<forall>I. (\<forall>t c. I c \<longrightarrow> I (env t c)) \<longrightarrow> I c \<longrightarrow> I c')"

lemma env_reach_trans: "env_reach env a b \<Longrightarrow> env_reach env b c \<Longrightarrow> env_reach env a c"
  by (auto simp: env_reach_def)

lemma poll_single_completion_reach:
  assumes "poll_single_completion B env (q, io) = Some ((q', io'), r)"
  shows "env_reach env (ctl io) (ctl io')"
proof -
  from assms have "io' = tick env io \<or> io' = tick env (tick env io)"
    by (auto simp: poll_single_completion_def Let_def split: if_splits option.splits sum.splits bind_splits)
  then show ?thesis by (auto simp: env_reach_def tick_def)
qed

definition poll_result :: "bits \<Rightarrow> env \<Rightarrow> bool \<Rightarrow> CommandQueue \<times> io \<Rightarrow> ghost \<Rightarrow> CommandQueue \<times> io \<Rightarrow> ghost \<Rightarrow> bool \<Rightarrow> PollCompletionError option \<Rightarrow> bool" where
  "poll_result B env any s G s' G' found err \<longleftrightarrow> queue_inv B (fst s') (ctl (snd s')) G' \<and> later (ctl (snd s)) (ctl (snd s'))
     \<and> ghost_frame G G' \<and> poll_frame (fst s) (fst s') \<and> g_read G \<le> g_read G' \<and> found = (any \<or> g_read G < g_read G')
     \<and> now (snd s) < now (snd s') \<and> env_reach env (ctl (snd s)) (ctl (snd s')) \<and> (\<not> found \<and> err = None \<longrightarrow> fst s' = fst s) \<and> poll_end env (snd s) s' (g_read G') err"

lemma poll_loop_correct:
  assumes "env_ok B (q_id q) env" "queue_inv B q (ctl io) G"
  shows "\<exists>s' G' found err. poll_loop B env any (q, io) = Some (s', found, err) \<and> poll_result B env any (q, io) G s' G' found err"
  using assms
proof (induction "g_rung G + n_cq (ctl io) - g_read G" arbitrary: q io G any rule: less_induct)
  case less
  show ?case
  proof (cases rule: poll_single_completion_cases [OF less.prems])
    case (1 io' G')
    moreover note poll_single_completion_now [OF 1(1)] poll_single_completion_idle [OF 1(1)] poll_single_completion_reach [OF 1(1)]
    moreover have "g_read G \<le> n_posted (ctl io)" using less.prems(2) by (simp add: queue_inv_def cq_inv_def)
    ultimately have "poll_result B env any (q, io) G (q, io') G' any None"
      by (auto simp: poll_result_def poll_end_def intro!: exI [of _ io])
    then show ?thesis
      using 1(1) by (subst poll_loop.simps) (simp, blast)
  next
    case (2 q' io' G' e)
    then have "poll_result B env any (q, io) G (q', io') G' any (Some (IdentifierStillInUse (c_command_ident e)))"
      using poll_single_completion_now [OF 2(1)] poll_single_completion_reach [OF 2(1)] by (auto simp: poll_result_def poll_end_def)
    then show ?thesis
      using 2(1) by (subst poll_loop.simps) (simp, blast)
  next
    case (3 q' io' G')
    have "g_read G < n_posted (ctl io')" "n_posted (ctl io') < g_rung G + n_cq (ctl io)"
      using 3(2-5) later_n_cq [OF 3(3)] by (auto simp: queue_inv_def cq_inv_def ghost_frame_def)
    then have m: "g_rung G' + n_cq (ctl io') - g_read G' < g_rung G + n_cq (ctl io) - g_read G"
      using 3(4,5) later_n_cq [OF 3(3)] by (simp add: ghost_frame_def)
    have "env_ok B (q_id q') env" using less.prems(1) 3(6) by simp
    from less.hyps [OF m this 3(2), of True]
    obtain s2 G2 found err where IH: "poll_loop B env True (q', io') = Some (s2, found, err)"
      "poll_result B env True (q', io') G' s2 G2 found err"
      by auto
    then have "poll_result B env any (q, io) G s2 G2 found err"
      using 3 poll_single_completion_now [OF 3(1)] poll_end_earlier [of env io' s2 _ err io] later_trans [OF 3(3)]
        ghost_frame_trans [OF 3(4)] poll_frame_trans [OF 3(6)] env_reach_trans [OF poll_single_completion_reach [OF 3(1)]]
      by (auto simp: poll_result_def)
    then show ?thesis
      using 3(1) IH(1) by (subst poll_loop.simps) (simp, blast)
  qed
qed

lemma unat_doorbell: "unat (ucast (v :: u16) :: u32) = unat v"
proof -
  have "unat v < 2 ^ LENGTH(16)" by (rule unsigned_less)
  then show ?thesis by (simp add: unsigned_ucast_eq take_bit_nat_eq_self_iff)
qed

lemma ring_cq_inv:
  assumes "queue_inv B q (ctl io) G"
  shows "queue_inv B q (ctl (ring_cq_doorbell (ucast (wv_value (completion_queue_head q))) io)) (G\<lparr>g_rung := g_read G\<rparr>)"
  using assms by (auto simp: queue_inv_defs ring_cq_doorbell_def unat_doorbell)

lemma poll_completions_correct:
  assumes "env_ok B (q_id q) env" "queue_inv B q (ctl io) G"
  obtains q' io1 io' G' found err where
    "poll_completions B env (q, io) = Some ((q', io'), \<lparr>some_new_entries = found, error_on_any_entry = err\<rparr>)"
    "poll_result B env False (q, io) G (q', io1) G' found err"
    "queue_inv B q' (ctl io') (if found then G'\<lparr>g_rung := g_read G'\<rparr> else G')" "now io' = now io1"
    "posted (ctl io') = posted (ctl io1)" "fetched (ctl io') = fetched (ctl io1)"
proof -
  from poll_loop_correct [OF assms, of False] obtain q' io1 G' found err where
    loop: "poll_loop B env False (q, io) = Some ((q', io1), found, err)" "poll_result B env False (q, io) G (q', io1) G' found err"
    by auto
  then have inv: "queue_inv B q' (ctl io1) G'" by (simp add: poll_result_def)
  show ?thesis
    using that loop ring_cq_inv [OF inv] inv
    by (cases found) (auto simp: poll_completions_def Let_def ring_cq_doorbell_def)
qed

section \<open>Submission\<close>

lemma is_full_for_submission_eq:
  assumes "queue_inv B q c G"
  shows "is_full_for_submission q = Some (Suc (length (g_log G)) = g_seen G + n_sq c)"
proof -
  have sq: "sq_inv c G" and dr: "driver_inv q c G" using assms by (simp_all add: queue_inv_def)
  obtain v where v: "wv_add (submission_queue_tail_local q) 1 = Some \<lparr>wv_value = v, wv_modulo = submission_queue_size q\<rparr>"
      "unat v = Suc (length (g_log G)) mod n_sq c"
    using wv_add_one [of "submission_queue_tail_local q" "length (g_log G)" "n_sq c" thesis] sq dr
    by (simp add: sq_inv_def driver_inv_def)
  have "submission_queue_head q = v \<longleftrightarrow> Suc (length (g_log G)) mod n_sq c = g_seen G mod n_sq c"
    using dr v(2) by (auto simp: driver_inv_def word_unat_eq_iff)
  also have "\<dots> \<longleftrightarrow> Suc (length (g_log G)) = g_seen G + n_sq c"
    by (rule mod_Suc_near) (use sq in \<open>auto simp: sq_inv_def\<close>)
  finally show ?thesis using v(1) by (simp add: is_full_for_submission_def)
qed

lemma write_sq_inv:
  assumes "sq_inv c G" "Suc (length (g_log G)) \<noteq> g_seen G + n_sq c"
  shows "sq_inv (c\<lparr>sq_slots := (sq_slots c)[length (g_log G) mod n_sq c := cmd]\<rparr>) (G\<lparr>g_log := g_log G @ [cmd]\<rparr>)"
proof -
  let ?L = "length (g_log G)" and ?m = "n_sq c"
  have m: "0 < ?m" and L: "?L < n_fetched c + ?m" and old: "\<And>k. k < ?L \<Longrightarrow> n_fetched c \<le> k \<Longrightarrow> sq_slots c ! (k mod ?m) = g_log G ! k"
    using assms(1) by (auto simp: sq_inv_def)
  have "(sq_slots c)[?L mod ?m := cmd] ! (k mod ?m) = (g_log G @ [cmd]) ! k" if k: "k < Suc ?L" "n_fetched c \<le> k" for k
  proof (cases "k = ?L")
    case True
    then show ?thesis using m by simp
  next
    case False
    then have "k mod ?m \<noteq> ?L mod ?m" using k L mod_eq_near [of k ?L ?m] by auto
    then show ?thesis using k False old [of k] by (auto simp: nth_append)
  qed
  then show ?thesis using assms by (auto simp: sq_inv_def)
qed

lemma slot_aligned:
  assumes "unat (p :: u64) mod 4096 = 0"
  shows "unat (p + word_of_nat (SUBMISSION_COMMAND_ENTRY_SIZE * i)) mod 8 = 0"
proof -
  have p: "8 dvd unat p" by (rule dvd_trans [of 8 4096]) (use assms in \<open>simp_all only: mod_eq_0_iff_dvd, simp\<close>)
  have "p + word_of_nat (SUBMISSION_COMMAND_ENTRY_SIZE * i) = word_of_nat (unat p + 64 * i)"
    by (simp add: SUBMISSION_COMMAND_ENTRY_SIZE_def)
  then have "unat (p + word_of_nat (SUBMISSION_COMMAND_ENTRY_SIZE * i)) = (unat p + 64 * i) mod 2 ^ LENGTH(64)"
    by (simp only: unat_of_nat)
  moreover have "8 dvd (unat p + 64 * i) mod 2 ^ LENGTH(64)"
    by (rule dvd_mod) (use p in \<open>simp_all add: dvd_add\<close>)
  ultimately show ?thesis by (simp only: mod_eq_0_iff_dvd)
qed

lemma submit_command_correct:
  assumes B: "bits_documented B" and inv: "queue_inv B q (ctl io) G"
    and room: "Suc (length (g_log G)) \<noteq> g_seen G + n_sq (ctl io)"
  obtains q' io' dw0 where "submit_command B command (q, io) = Some ((q', io'), next_command_identifier q)"
    "set_command_identifier B (dword0 command) (next_command_identifier q) = Some dw0"
    "queue_inv B q' (ctl io') (G\<lparr>g_log := g_log G @ [command\<lparr>dword0 := dw0\<rparr>]\<rparr>)"
    "q_id q' = q_id q" "next_command_identifier q' = next_command_identifier q + 1"
proof -
  let ?L = "length (g_log G)" and ?m = "n_sq (ctl io)"
  have sq: "sq_inv (ctl io) G" and dr: "driver_inv q (ctl io) G" using inv by (simp_all add: queue_inv_def)
  obtain dw0 where dw0: "set_command_identifier B (dword0 command) (next_command_identifier q) = Some dw0"
    using set_command_identifier_Some [OF B] by blast
  obtain v where v: "wv_add (submission_queue_tail_local q) 1 = Some \<lparr>wv_value = v, wv_modulo = submission_queue_size q\<rparr>"
      "unat v = Suc ?L mod ?m"
    using wv_add_one [of "submission_queue_tail_local q" ?L ?m thesis] sq dr by (simp add: sq_inv_def driver_inv_def)
  let ?cmd = "command\<lparr>dword0 := dw0\<rparr>"
  let ?q = "q\<lparr>next_command_identifier := next_command_identifier q + 1,
    submission_queue_tail_local := \<lparr>wv_value = v, wv_modulo = submission_queue_size q\<rparr>\<rparr>"
  let ?io = "write_sq_slot (?L mod ?m) ?cmd io" and ?G = "G\<lparr>g_log := g_log G @ [?cmd]\<rparr>"
  have slot: "unat (wv_value (submission_queue_tail_local q)) = ?L mod ?m" "unat (submission_queue_ptr q) mod 4096 = 0"
    using dr by (simp_all add: driver_inv_def)
  have eq: "submit_command B command (q, io) = Some ((?q, ?io), next_command_identifier q)"
    unfolding submit_command_def by (simp add: Let_def dw0 v slot slot_aligned del: of_nat_mult)
  have "sq_inv (ctl ?io) ?G"
    using write_sq_inv [OF sq room, of ?cmd] by (simp add: write_sq_slot_def)
  moreover have "cq_inv B (q_id ?q) (ctl ?io) ?G" "heads_inv (ctl ?io) ?G"
    using inv by (simp_all add: queue_inv_def cq_inv_def heads_inv_def write_sq_slot_def)
  moreover have "driver_inv ?q (ctl ?io) ?G"
    using dr v(2) by (simp add: driver_inv_def write_sq_slot_def)
  ultimately have "queue_inv B ?q (ctl ?io) ?G" by (simp add: queue_inv_def)
  then show ?thesis using that [OF eq dw0] by simp
qed

lemma flush_inv:
  assumes "queue_inv B q (ctl io) G" "flush (q, io) = (q', io')"
  shows "queue_inv B q' (ctl io') (G\<lparr>g_flushed := length (g_log G)\<rparr>)" "q_id q' = q_id q"
proof -
  have sq: "sq_inv (ctl io) G" and dr: "driver_inv q (ctl io) G" using assms(1) by (simp_all add: queue_inv_def)
  have "submission_queue_tail q = wv_value (submission_queue_tail_local q) \<longleftrightarrow>
      g_flushed G mod n_sq (ctl io) = length (g_log G) mod n_sq (ctl io)"
    using dr by (auto simp: driver_inv_def word_unat_eq_iff)
  also have "\<dots> \<longleftrightarrow> g_flushed G = length (g_log G)"
    by (rule mod_eq_near) (use sq in \<open>auto simp: sq_inv_def\<close>)
  finally have pend: "has_submissions_pending_flush q \<longleftrightarrow> g_flushed G \<noteq> length (g_log G)"
    by (simp add: has_submissions_pending_flush_def)
  show "q_id q' = q_id q" using assms(2) by (auto simp: flush_def Let_def split: if_splits)
  show "queue_inv B q' (ctl io') (G\<lparr>g_flushed := length (g_log G)\<rparr>)"
  proof (cases "has_submissions_pending_flush q")
    case True
    then have q': "q' = q\<lparr>submission_queue_tail := wv_value (submission_queue_tail_local q)\<rparr>"
        "ctl io' = (ctl io)\<lparr>sq_tail_db := ucast (wv_value (submission_queue_tail_local q))\<rparr>"
      using assms(2) by (auto simp: flush_def ring_sq_doorbell_def)
    have "sq_inv (ctl io') (G\<lparr>g_flushed := length (g_log G)\<rparr>)" "driver_inv q' (ctl io') (G\<lparr>g_flushed := length (g_log G)\<rparr>)"
      using sq dr unfolding q' by (simp_all add: sq_inv_def driver_inv_def unat_doorbell)
    moreover have "cq_inv B (q_id q') (ctl io') (G\<lparr>g_flushed := length (g_log G)\<rparr>)" "heads_inv (ctl io') (G\<lparr>g_flushed := length (g_log G)\<rparr>)"
      using assms(1) unfolding q' by (simp_all add: queue_inv_def cq_inv_def heads_inv_def)
    ultimately show ?thesis by (simp add: queue_inv_def)
  next
    case False
    then have "G\<lparr>g_flushed := length (g_log G)\<rparr> = G" using pend by simp
    then show ?thesis using assms False by (simp add: flush_def)
  qed
qed

lemma cancel_inv:
  assumes "queue_inv B q c G" "cancel_submissions (q, io) = (q', io')"
  shows "queue_inv B q' c (G\<lparr>g_log := take (g_flushed G) (g_log G)\<rparr>)" "io' = io" "q_id q' = q_id q"
proof -
  let ?G = "G\<lparr>g_log := take (g_flushed G) (g_log G)\<rparr>"
  have q': "q' = q\<lparr>submission_queue_tail_local := \<lparr>wv_value = submission_queue_tail q, wv_modulo = submission_queue_size q\<rparr>\<rparr>"
    and io': "io' = io"
    using assms(2) by (auto simp: cancel_submissions_def wv_new_def)
  have le: "n_fetched c \<le> g_flushed G" "g_flushed G \<le> length (g_log G)" using assms(1) by (simp_all add: queue_inv_def sq_inv_def)
  have "sq_inv c ?G" "driver_inv q' c ?G"
    using assms(1) le unfolding q' by (simp_all add: queue_inv_def sq_inv_def driver_inv_def min_absorb1 min_absorb2)
  moreover have "cq_inv B (q_id q') c ?G" "heads_inv c ?G"
    using assms(1) unfolding q' by (simp_all add: queue_inv_def cq_inv_def heads_inv_def)
  ultimately show "queue_inv B q' c ?G" by (simp add: queue_inv_def)
  show "io' = io" "q_id q' = q_id q" using q' io' by simp_all
qed

section \<open>Operations keep the invariant\<close>

text \<open>Between operations every completion that was read has been announced.\<close>

definition settled :: "bits \<Rightarrow> CommandQueue \<times> io \<Rightarrow> ghost \<Rightarrow> bool" where
  "settled B s G \<longleftrightarrow> queue_inv B (fst s) (ctl (snd s)) G \<and> g_rung G = g_read G"

definition same_history :: "ghost \<Rightarrow> ghost \<Rightarrow> bool" where
  "same_history G G' \<longleftrightarrow> g_log G' = g_log G \<and> g_flushed G' = g_flushed G \<and> g_returned G' = g_returned G"

lemma same_history_refl [simp]: "same_history G G"
  by (simp add: same_history_def)

lemma poll_completions_settled:
  assumes "env_ok B (q_id q) env" "settled B (q, io) G"
  obtains q' io' G' r where "poll_completions B env (q, io) = Some ((q', io'), r)" "settled B (q', io') G'"
    "same_history G G'" "poll_frame q q'" "some_new_entries r = (g_read G < g_read G')" "g_read G \<le> g_read G'"
    "\<exists>xs. posted (ctl io') = posted (ctl io) @ xs" "\<exists>ys. fetched (ctl io') = fetched (ctl io) @ ys"
    "error_on_any_entry r = None \<longrightarrow> g_read G' = n_posted (ctl io')"
    "error_on_any_entry r = None \<longrightarrow> \<not> some_new_entries r \<longrightarrow> q' = q" "now io < now io'"
    "\<exists>io1. posted (ctl io') = posted (ctl io1) \<and> env_reach env (ctl io) (ctl io1)
       \<and> poll_end env io (q', io1) (g_read G') (error_on_any_entry r)"
proof -
  have inv: "queue_inv B q (ctl io) G" "g_rung G = g_read G" using assms(2) by (simp_all add: settled_def)
  obtain q' io1 io' G' found err where p:
    "poll_completions B env (q, io) = Some ((q', io'), \<lparr>some_new_entries = found, error_on_any_entry = err\<rparr>)"
    "poll_result B env False (q, io) G (q', io1) G' found err"
    "queue_inv B q' (ctl io') (if found then G'\<lparr>g_rung := g_read G'\<rparr> else G')"
    "posted (ctl io') = posted (ctl io1)" "fetched (ctl io') = fetched (ctl io1)" "now io' = now io1"
    by (rule poll_completions_correct [OF assms(1) inv(1)])
  let ?G = "if found then G'\<lparr>g_rung := g_read G'\<rparr> else G'"
  note r = p(2) [unfolded poll_result_def]
  show ?thesis
  proof (rule that [OF p(1), of ?G])
    show "settled B (q', io') ?G" using p(3) r inv(2) by (auto simp: settled_def ghost_frame_def)
    show "same_history G ?G" using r by (auto simp: same_history_def ghost_frame_def)
    show "\<exists>xs. posted (ctl io') = posted (ctl io) @ xs" "\<exists>ys. fetched (ctl io') = fetched (ctl io) @ ys"
      using r p(4,5) by (simp_all add: later_def)
    show "\<exists>io1. posted (ctl io') = posted (ctl io1) \<and> env_reach env (ctl io) (ctl io1) \<and> poll_end env io (q', io1) (g_read ?G)
        (error_on_any_entry \<lparr>some_new_entries = found, error_on_any_entry = err\<rparr>)"
      by (rule exI [of _ io1]) (use r p(4) in auto)
  qed (use r p(4,6) in \<open>auto simp: poll_end_def\<close>)
qed

lemma submit_command_settled:
  assumes "bits_documented B" "settled B (q, io) G" "is_full_for_submission q = Some False"
  obtains q' io' dw0 where "submit_command B command (q, io) = Some ((q', io'), next_command_identifier q)"
    "set_command_identifier B (dword0 command) (next_command_identifier q) = Some dw0"
    "settled B (q', io') (G\<lparr>g_log := g_log G @ [command\<lparr>dword0 := dw0\<rparr>]\<rparr>)" "q_id q' = q_id q"
proof -
  have inv: "queue_inv B q (ctl io) G" "g_rung G = g_read G" using assms(2) by (simp_all add: settled_def)
  have "Suc (length (g_log G)) \<noteq> g_seen G + n_sq (ctl io)"
    using assms(3) is_full_for_submission_eq [OF inv(1)] by simp
  then show ?thesis
    by (rule submit_command_correct [OF assms(1) inv(1)]) (use that inv(2) in \<open>simp add: settled_def\<close>)
qed

lemma submit_settled:
  assumes B: "bits_documented B" and env: "env_ok B (q_id q) env" and inv: "settled B (q, io) G"
  obtains (ok) q' io' G' dw0 where "submit B env command (q, io) = Some ((q', io'), Inr (next_command_identifier q))"
      "set_command_identifier B (dword0 command) (next_command_identifier q) = Some dw0" "settled B (q', io') G'"
      "same_history (G\<lparr>g_log := g_log G @ [command\<lparr>dword0 := dw0\<rparr>]\<rparr>) G'" "q_id q' = q_id q"
  | (full) q' io' G' where "submit B env command (q, io) = Some ((q', io'), Inl QueueFull)" "settled B (q', io') G'"
      "same_history G G'" "q_id q' = q_id q" "is_full_for_submission q = Some True"
proof (cases "is_full_for_submission q = Some False")
  case True
  obtain q' io' dw0 where c: "submit_command B command (q, io) = Some ((q', io'), next_command_identifier q)"
      "set_command_identifier B (dword0 command) (next_command_identifier q) = Some dw0"
      "settled B (q', io') (G\<lparr>g_log := g_log G @ [command\<lparr>dword0 := dw0\<rparr>]\<rparr>)" "q_id q' = q_id q"
    by (rule submit_command_settled [OF B inv True, of command])
  then show ?thesis by (intro ok [OF _ c(2,3)]) (use True in \<open>simp_all add: submit_def\<close>)
next
  case False
  then have f: "is_full_for_submission q = Some True"
    using is_full_for_submission_eq inv by (auto simp: settled_def)
  obtain q1 io1 G1 r where p: "poll_completions B env (q, io) = Some ((q1, io1), r)" "settled B (q1, io1) G1"
      "same_history G G1" "poll_frame q q1"
    by (rule poll_completions_settled [OF env inv])
  obtain b where b: "is_full_for_submission q1 = Some b"
    using is_full_for_submission_eq p(2) by (auto simp: settled_def)
  show ?thesis
  proof (cases "some_new_entries r \<and> \<not> b")
    case True
    then have nf: "is_full_for_submission q1 = Some False" using b by simp
    obtain q' io' dw0 where c: "submit_command B command (q1, io1) = Some ((q', io'), next_command_identifier q1)"
        "set_command_identifier B (dword0 command) (next_command_identifier q1) = Some dw0"
        "settled B (q', io') (G1\<lparr>g_log := g_log G1 @ [command\<lparr>dword0 := dw0\<rparr>]\<rparr>)" "q_id q' = q_id q1"
      by (rule submit_command_settled [OF B p(2) nf, of command])
    then show ?thesis
      using p(4) by (intro ok [OF _ _ c(3), of dw0]) (use True f nf p in \<open>simp_all add: submit_def same_history_def\<close>)
  next
    case False
    then show ?thesis
      using full [of q1 io1 G1] f b p by (cases "some_new_entries r") (simp_all add: submit_def)
  qed
qed

lemma flush_settled:
  assumes "settled B (q, io) G" "flush (q, io) = (q', io')"
  shows "settled B (q', io') (G\<lparr>g_flushed := length (g_log G)\<rparr>)" "q_id q' = q_id q"
proof -
  have inv: "queue_inv B q (ctl io) G" using assms(1) by (simp add: settled_def)
  show "settled B (q', io') (G\<lparr>g_flushed := length (g_log G)\<rparr>)" "q_id q' = q_id q"
    using flush_inv [OF inv assms(2)] assms(1) by (simp_all add: settled_def)
qed

lemma cancel_settled:
  assumes "settled B (q, io) G" "cancel_submissions (q, io) = (q', io')"
  shows "settled B (q', io') (G\<lparr>g_log := take (g_flushed G) (g_log G)\<rparr>)" "q_id q' = q_id q"
proof -
  have inv: "queue_inv B q (ctl io) G" using assms(1) by (simp add: settled_def)
  show "settled B (q', io') (G\<lparr>g_log := take (g_flushed G) (g_log G)\<rparr>)" "q_id q' = q_id q"
    using cancel_inv [OF inv assms(2)] assms(1) by (simp_all add: settled_def)
qed

lemma return_inv:
  assumes "queue_inv B q c G" "sorted_wrt (<) (map c_command_ident cs)" "mset cs + mset es = mset (completions q)"
  shows "queue_inv B (q\<lparr>completions := cs\<rparr>) c (G\<lparr>g_returned := g_returned G @ es\<rparr>)"
proof -
  have "mset cs + (mset (g_returned G) + mset es) = (mset cs + mset es) + mset (g_returned G)"
    by (simp only: ac_simps)
  also have "\<dots> = mset (take (g_read G) (posted c))"
    unfolding assms(3) using assms(1) by (simp add: queue_inv_def driver_inv_def)
  finally show ?thesis
    using assms(1,2) by (simp add: queue_inv_def cq_inv_def sq_inv_def heads_inv_def driver_inv_def)
qed

lemma drain_settled:
  assumes "settled B (q, io) G" "drain_completions (q, io) = ((q', io'), es)"
  shows "settled B (q', io') (G\<lparr>g_returned := g_returned G @ es\<rparr>)" "q_id q' = q_id q"
  using assms return_inv [of B q "ctl io" G "[]" es] by (auto simp: settled_def drain_completions_def)

lemma get_if_exists_settled:
  assumes "settled B (q, io) G" "get_if_exists ident (q, io) = Some ((q', io'), e)"
  shows "settled B (q', io') (G\<lparr>g_returned := g_returned G @ [e]\<rparr>)" "q_id q' = q_id q" "c_command_ident e = ident"
    "e \<in> set (completions q)"
proof -
  from assms(2) obtain i where i: "binary_search_by_key ident c_command_ident (completions q) = Inr i"
      "q' = q\<lparr>completions := remove_at i (completions q)\<rparr>" "io' = io" "e = completions q ! i"
    by (auto simp: get_if_exists_def split: sum.splits)
  note bs = binary_search_Inr [OF i(1)]
  have so: "sorted_wrt (<) (map c_command_ident (completions q))"
    using assms(1) by (simp add: settled_def queue_inv_def driver_inv_def)
  show "c_command_ident e = ident" "q_id q' = q_id q" "e \<in> set (completions q)" using bs i by simp_all
  show "settled B (q', io') (G\<lparr>g_returned := g_returned G @ [e]\<rparr>)"
    using assms(1) return_inv [of B q "ctl io" G "remove_at i (completions q)" "[e]"] sorted_remove_at [OF so bs(1)] i
    by (simp add: settled_def)
qed

definition wait_result :: "bits \<Rightarrow> u16 \<Rightarrow> CommandQueue \<Rightarrow> ghost \<Rightarrow> CommandQueue \<times> io \<Rightarrow> PollCompletionError + CommonCompletionEntry \<Rightarrow> ghost \<Rightarrow> bool" where
  "wait_result B ident q G s' r G' \<longleftrightarrow> settled B s' G' \<and> q_id (fst s') = q_id q
     \<and> (case r of Inl _ \<Rightarrow> same_history G G'
          | Inr e \<Rightarrow> same_history (G\<lparr>g_returned := g_returned G @ [e]\<rparr>) G' \<and> c_command_ident e = ident)"

lemma wait_result_get:
  assumes "settled B (q, io) G" "get_if_exists ident (q, io) = Some (s', e)"
  shows "wait_result B ident q G s' (Inr e) (G\<lparr>g_returned := g_returned G @ [e]\<rparr>)"
proof -
  obtain q' io' where s': "s' = (q', io')" by (cases s')
  show ?thesis using get_if_exists_settled [OF assms [unfolded s']] by (simp add: wait_result_def s')
qed

lemma wait_result_trans:
  "same_history G G1 \<Longrightarrow> q_id q1 = q_id q \<Longrightarrow> wait_result B ident q1 G1 s r G' \<Longrightarrow> wait_result B ident q G s r G'"
  by (auto simp: wait_result_def same_history_def split: sum.splits)

definition wait_keeps :: "bits \<Rightarrow> env \<Rightarrow> u16 \<Rightarrow> CommandQueue \<times> io \<Rightarrow> (CommandQueue \<times> io) \<times> (PollCompletionError + CommonCompletionEntry) \<Rightarrow> bool" where
  "wait_keeps B env ident s sr \<longleftrightarrow> (\<forall>G. env_ok B (q_id (fst s)) env \<longrightarrow> settled B s G \<longrightarrow>
     (\<exists>G'. wait_result B ident (fst s) G (fst sr) (snd sr) G'))"

lemma wait_loop_keeps: "wait_loop B env ident s = Some sr \<Longrightarrow> wait_keeps B env ident s sr"
  apply (erule wait_loop.raw_induct [where P = wait_keeps, rotated])
  subgoal premises step for wl B env ident s sr
    unfolding wait_keeps_def
  proof (intro allI impI)
    fix G
    assume env: "env_ok B (q_id (fst s)) env" and inv: "settled B s G"
    obtain q io where s: "s = (q, io)" by (cases s)
    obtain q1 io1 G1 r where p: "poll_completions B env (q, io) = Some ((q1, io1), r)" "settled B (q1, io1) G1"
        "same_history G G1" "poll_frame q q1"
      by (rule poll_completions_settled [of B q env io G]) (use env inv s in auto)
    have id1: "q_id q1 = q_id q" and env1: "env_ok B (q_id q1) env" using p(4) env s by simp_all
    have again: "\<exists>G'. wait_result B ident (fst s) G (fst sr) (snd sr) G'" if "wl B env ident (q1, io1) = Some sr"
      using step(1) [OF that, unfolded wait_keeps_def] env1 p(2) wait_result_trans [OF p(3) id1] s by fastforce
    show "\<exists>G'. wait_result B ident (fst s) G (fst sr) (snd sr) G'"
    proof (cases "some_new_entries r")
      case True
      show ?thesis
      proof (cases "get_if_exists ident (q1, io1)")
        case None
        then show ?thesis using again step(2) s p(1) True by simp
      next
        case (Some se)
        obtain s2 e where se: "se = (s2, e)" by (cases se)
        have "sr = (s2, Inr e)" using step(2) s p(1) True Some se by simp
        then show ?thesis
          using wait_result_trans [OF p(3) id1 wait_result_get [OF p(2) Some [unfolded se]]] s by auto
      qed
    next
      case False
      show ?thesis
      proof (cases "error_on_any_entry r")
        case None
        then show ?thesis using again step(2) s p(1) False by simp
      next
        case (Some err)
        then have "sr = ((q1, io1), Inl err)" using step(2) s p(1) False by simp
        then show ?thesis using p(2,3) id1 s by (auto simp: wait_result_def)
      qed
    qed
  qed
  done

lemma wait_for_settled:
  assumes "wait_for B env ident (q, io) = Some (s', r)" "env_ok B (q_id q) env" "settled B (q, io) G"
  obtains G' where "wait_result B ident q G s' r G'"
proof (cases "get_if_exists ident (q, io)")
  case None
  then have "wait_loop B env ident (q, io) = Some (s', r)" using assms(1) by (simp add: wait_for_def)
  from wait_loop_keeps [OF this] assms(2,3) that show ?thesis by (auto simp: wait_keeps_def)
next
  case (Some se)
  obtain s2 e where se: "se = (s2, e)" by (cases se)
  then have "s' = s2 \<and> r = Inr e" using assms(1) Some by (simp add: wait_for_def)
  then show ?thesis using that wait_result_get [OF assms(3) Some [unfolded se]] by blast
qed

section \<open>Runs\<close>

text \<open>
  The history that a user of the queue sees: the commands accepted and not cancelled, how many of them were flushed, and the
  completions received.
\<close>

record history =
  h_submitted :: "CommonCommand list"
  h_flushed :: nat
  h_received :: "CommonCompletionEntry list"

text \<open>One operation of the driver, or some steps of the controller, with the effect on the history.\<close>

inductive queue_op :: "bits \<Rightarrow> env \<Rightarrow> (CommandQueue \<times> io) \<times> history \<Rightarrow> (CommandQueue \<times> io) \<times> history \<Rightarrow> bool" for B env where
  op_controller: "queue_op B env ((q, io), h) ((q, tick env io), h)"
| op_submit: "submit B env command s = Some (s', Inr ident) \<Longrightarrow>
    set_command_identifier B (dword0 command) ident = Some dw0 \<Longrightarrow>
    queue_op B env (s, h) (s', h\<lparr>h_submitted := h_submitted h @ [command\<lparr>dword0 := dw0\<rparr>]\<rparr>)"
| op_submit_fails: "submit B env command s = Some (s', Inl err) \<Longrightarrow> queue_op B env (s, h) (s', h)"
| op_flush: "queue_op B env (s, h) (flush s, h\<lparr>h_flushed := length (h_submitted h)\<rparr>)"
| op_cancel: "queue_op B env (s, h) (cancel_submissions s, h\<lparr>h_submitted := take (h_flushed h) (h_submitted h)\<rparr>)"
| op_poll: "poll_completions B env s = Some (s', r) \<Longrightarrow> queue_op B env (s, h) (s', h)"
| op_drain: "drain_completions s = (s', es) \<Longrightarrow> queue_op B env (s, h) (s', h\<lparr>h_received := h_received h @ es\<rparr>)"
| op_wait: "wait_for B env ident s = Some (s', Inr e) \<Longrightarrow>
    queue_op B env (s, h) (s', h\<lparr>h_received := h_received h @ [e]\<rparr>)"
| op_wait_fails: "wait_for B env ident s = Some (s', Inl err) \<Longrightarrow> queue_op B env (s, h) (s', h)"

definition tracks :: "ghost \<Rightarrow> history \<Rightarrow> bool" where
  "tracks G h \<longleftrightarrow> g_log G = h_submitted h \<and> g_flushed G = h_flushed h \<and> g_returned G = h_received h"

definition run_inv :: "bits \<Rightarrow> u16 \<Rightarrow> (CommandQueue \<times> io) \<times> history \<Rightarrow> bool" where
  "run_inv B ident sh \<longleftrightarrow> q_id (fst (fst sh)) = ident \<and> (\<exists>G. settled B (fst sh) G \<and> tracks G (snd sh))"

lemma run_invI:
  assumes "settled B (q, io) G" "q_id q = ident" "tracks G h"
  shows "run_inv B ident ((q, io), h)"
  using assms by (auto simp: run_inv_def)

lemma run_invE:
  assumes "run_inv B ident ((q, io), h)"
  obtains G where "settled B (q, io) G" "q_id q = ident" "tracks G h"
  using assms by (auto simp: run_inv_def)

lemma tick_settled:
  assumes "env_ok B (q_id q) env" "settled B (q, io) G"
  obtains G' where "settled B (q, tick env io) G'" "same_history G G'"
proof -
  have inv: "queue_inv B q (ctl io) G" using assms(2) by (simp add: settled_def)
  obtain hs where "queue_inv B q (ctl (tick env io)) (G\<lparr>g_heads := g_heads G @ hs\<rparr>)"
    by (rule tick_inv [OF assms(1) inv])
  then show ?thesis using that [of "G\<lparr>g_heads := g_heads G @ hs\<rparr>"] assms(2) by (simp add: settled_def same_history_def)
qed

lemma submit_run_inv:
  assumes B: "bits_documented B" and env: "env_ok B ident env" and inv: "run_inv B ident ((q, io), h)"
    and sub: "submit B env command (q, io) = Some ((q', io'), r)"
  shows "(\<forall>i dw0. r = Inr i \<longrightarrow> set_command_identifier B (dword0 command) i = Some dw0 \<longrightarrow>
      run_inv B ident ((q', io'), h\<lparr>h_submitted := h_submitted h @ [command\<lparr>dword0 := dw0\<rparr>]\<rparr>))
    \<and> (\<forall>e. r = Inl e \<longrightarrow> run_inv B ident ((q', io'), h))"
proof -
  obtain G where G: "settled B (q, io) G" "q_id q = ident" "tracks G h"
    by (rule run_invE [OF inv])
  have env': "env_ok B (q_id q) env" using env G(2) by simp
  show ?thesis
  proof (cases rule: submit_settled [OF B env' G(1), of command])
    case (1 q2 io2 G2 dw)
    then have "run_inv B ident ((q2, io2), h\<lparr>h_submitted := h_submitted h @ [command\<lparr>dword0 := dw\<rparr>]\<rparr>)"
      using G by (intro run_invI [of _ _ _ G2]) (simp_all add: same_history_def tracks_def)
    then show ?thesis using 1(1,2) sub by auto
  next
    case (2 q2 io2 G2)
    then have "run_inv B ident ((q2, io2), h)" using G by (intro run_invI [of _ _ _ G2]) (simp_all add: same_history_def tracks_def)
    then show ?thesis using 2(1) sub by auto
  qed
qed

lemma wait_run_inv:
  assumes env: "env_ok B ident env" and inv: "run_inv B ident ((q, io), h)" and w: "wait_for B env i (q, io) = Some ((q', io'), r)"
  shows "(\<forall>e. r = Inr e \<longrightarrow> run_inv B ident ((q', io'), h\<lparr>h_received := h_received h @ [e]\<rparr>))
    \<and> (\<forall>e. r = Inl e \<longrightarrow> run_inv B ident ((q', io'), h))"
proof -
  obtain G where G: "settled B (q, io) G" "q_id q = ident" "tracks G h"
    by (rule run_invE [OF inv])
  obtain G' where "wait_result B i q G (q', io') r G'"
    by (rule wait_for_settled [OF w]) (use env G in auto)
  then show ?thesis
    using G by (auto simp: wait_result_def same_history_def tracks_def intro!: run_invI [of _ _ _ G'])
qed

lemma queue_op_run_inv:
  assumes "queue_op B env sh sh'" "bits_documented B" "env_ok B ident env" "run_inv B ident sh"
  shows "run_inv B ident sh'"
  using assms(1)
proof cases
  case (op_controller q io h)
  obtain G where G: "settled B (q, io) G" "q_id q = ident" "tracks G h"
    by (rule run_invE [OF assms(4) [unfolded op_controller]])
  obtain G' where "settled B (q, tick env io) G'" "same_history G G'"
    by (rule tick_settled [OF _ G(1)]) (use assms(3) G(2) in auto)
  then show ?thesis unfolding op_controller using G by (intro run_invI [of _ _ _ G']) (simp_all add: same_history_def tracks_def)
next
  case (op_submit command s s' i dw0 h)
  then show ?thesis using submit_run_inv [OF assms(2,3)] assms(4) by (cases s; cases s') blast
next
  case (op_submit_fails command s s' err h)
  then show ?thesis using submit_run_inv [OF assms(2,3)] assms(4) by (cases s; cases s') blast
next
  case (op_flush s h)
  obtain q io where s: "s = (q, io)" by (cases s)
  obtain q' io' where f: "flush (q, io) = (q', io')" by (cases "flush (q, io)")
  obtain G where G: "settled B (q, io) G" "q_id q = ident" "tracks G h"
    by (rule run_invE [OF assms(4) [unfolded op_flush s]])
  then show ?thesis unfolding op_flush s f using flush_settled [OF G(1) f]
    by (intro run_invI [of _ _ _ "G\<lparr>g_flushed := length (g_log G)\<rparr>"]) (simp_all add: tracks_def)
next
  case (op_cancel s h)
  obtain q io where s: "s = (q, io)" by (cases s)
  obtain q' io' where f: "cancel_submissions (q, io) = (q', io')" by (cases "cancel_submissions (q, io)")
  obtain G where G: "settled B (q, io) G" "q_id q = ident" "tracks G h"
    by (rule run_invE [OF assms(4) [unfolded op_cancel s]])
  then show ?thesis unfolding op_cancel s f using cancel_settled [OF G(1) f]
    by (intro run_invI [of _ _ _ "G\<lparr>g_log := take (g_flushed G) (g_log G)\<rparr>"]) (simp_all add: tracks_def)
next
  case (op_poll s s' r h)
  obtain q io where s: "s = (q, io)" by (cases s)
  obtain G where G: "settled B (q, io) G" "q_id q = ident" "tracks G h"
    by (rule run_invE [OF assms(4) [unfolded op_poll s]])
  obtain q' io' G' r' where "poll_completions B env (q, io) = Some ((q', io'), r')" "settled B (q', io') G'"
      "same_history G G'" "poll_frame q q'"
    by (rule poll_completions_settled [OF _ G(1)]) (use assms(3) G(2) in auto)
  then show ?thesis using op_poll s G by (auto simp: same_history_def tracks_def intro!: run_invI [of _ _ _ G'])
next
  case (op_drain s s' es h)
  obtain q io q' io' where s: "s = (q, io)" "s' = (q', io')" by (cases s; cases s')
  obtain G where G: "settled B (q, io) G" "q_id q = ident" "tracks G h"
    by (rule run_invE [OF assms(4) [unfolded op_drain s]])
  then show ?thesis unfolding op_drain s using drain_settled [OF G(1) op_drain(3) [unfolded s]]
    by (intro run_invI [of _ _ _ "G\<lparr>g_returned := g_returned G @ es\<rparr>"]) (simp_all add: tracks_def)
next
  case (op_wait i s s' e h)
  then show ?thesis using wait_run_inv [OF assms(3)] assms(4) by (cases s; cases s') blast
next
  case (op_wait_fails i s s' err h)
  then show ?thesis using wait_run_inv [OF assms(3)] assms(4) by (cases s; cases s') blast
qed

text \<open>A queue as \<open>allocate\<close> returns it.\<close>

definition fresh_state :: "CommandQueue \<times> io \<Rightarrow> bool" where
  "fresh_state s \<longleftrightarrow> (\<exists>ident sub comp doorbells frames ptrs t. s = (new_queue ident sub comp doorbells frames ptrs,
     \<lparr>ctl = fresh_rings sub comp, now = t\<rparr>) \<and> 2 \<le> sub \<and> 2 \<le> comp \<and> unat (fst ptrs) mod 4096 = 0)"

definition no_history :: history where
  "no_history = \<lparr>h_submitted = [], h_flushed = 0, h_received = []\<rparr>"

lemma phase_zero: "bits_documented B \<Longrightarrow> \<not> phase B zero_completion"
  by (simp add: phase_def bits_documented_def bit_field_documented_def zero_completion_def)

lemma fresh_settled:
  assumes "bits_documented B" "fresh_state (q, io)"
  shows "settled B (q, io) \<lparr>g_read = 0, g_rung = 0, g_log = [], g_flushed = 0, g_seen = 0, g_heads = [], g_returned = []\<rparr>"
proof -
  from assms(2) obtain sub comp ident doorbells frames ptrs t where s: "q = new_queue ident sub comp doorbells frames ptrs"
      "io = \<lparr>ctl = fresh_rings sub comp, now = t\<rparr>" "2 \<le> sub" "2 \<le> comp" "unat (fst ptrs) mod 4096 = 0"
    by (auto simp: fresh_state_def)
  have "unat sub < 2 ^ LENGTH(16)" "unat comp < 2 ^ LENGTH(16)" by (rule unsigned_less)+
  then have sz: "2 \<le> unat sub" "2 \<le> unat comp" "unat sub < 65536" "unat comp < 65536"
    using s(3,4) by (simp_all add: word_le_nat_alt)
  show ?thesis
    using sz s(5) phase_zero [OF assms(1)] unfolding s(1,2) settled_def queue_inv_def
    by (simp add: cq_inv_def sq_inv_def heads_inv_def driver_inv_def new_queue_def fresh_rings_def wv_zero_def)
qed

lemma fresh_run_inv:
  assumes "bits_documented B" "fresh_state (q, io)"
  shows "run_inv B (q_id q) ((q, io), no_history)"
  by (rule run_invI [OF fresh_settled [OF assms] refl]) (simp add: tracks_def no_history_def)

lemma queue_ops_run_inv:
  assumes "(queue_op B env)\<^sup>*\<^sup>* sh sh'" "bits_documented B" "env_ok B ident env" "run_inv B ident sh"
  shows "run_inv B ident sh'"
  using assms by (induction rule: rtranclp_induct) (auto intro: queue_op_run_inv)

lemma fresh_reaches:
  assumes "bits_documented B" "env_ok B (q_id q0) env" "fresh_state (q0, io0)"
    "(queue_op B env)\<^sup>*\<^sup>* ((q0, io0), no_history) ((q, io), h)"
  obtains G where "settled B (q, io) G" "q_id q = q_id q0" "tracks G h"
  using queue_ops_run_inv [OF assms(4,1,2) fresh_run_inv [OF assms(1,3)]] by (rule run_invE)

text \<open>
  (C18) After any sequence of operations on a new queue, and whatever the controller does in between: the commands the controller
  has read are, in order, the first of the commands that were submitted and not cancelled, and only flushed ones; the
  completions in the buffer and those handed to callers are together exactly the first completions that the controller
  wrote, none lost and none twice; and the completion doorbell holds the position up to which they were read.
\<close>

theorem queue_refines_fifo:
  assumes "bits_documented B" "env_ok B (q_id q0) env" "fresh_state (q0, io0)"
    "(queue_op B env)\<^sup>*\<^sup>* ((q0, io0), no_history) ((q, io), h)"
  shows "fetched (ctl io) = take (length (fetched (ctl io))) (h_submitted h) \<and> length (fetched (ctl io)) \<le> h_flushed h
    \<and> h_flushed h \<le> length (h_submitted h)
    \<and> (\<exists>k \<le> length (posted (ctl io)). mset (completions q) + mset (h_received h) = mset (take k (posted (ctl io)))
         \<and> unat (cq_head_db (ctl io)) = k mod length (cq_slots (ctl io)))"
proof -
  obtain G where G: "settled B (q, io) G" "tracks G h"
    by (rule fresh_reaches [OF assms])
  have inv: "cq_inv B (q_id q) (ctl io) G" "sq_inv (ctl io) G" "driver_inv q (ctl io) G" "g_rung G = g_read G"
    using G(1) by (simp_all add: settled_def queue_inv_def)
  have "\<exists>k \<le> n_posted (ctl io). mset (completions q) + mset (h_received h) = mset (take k (posted (ctl io)))
         \<and> unat (cq_head_db (ctl io)) = k mod n_cq (ctl io)"
    by (rule exI [of _ "g_read G"]) (use inv(1,3,4) G(2) in \<open>simp add: cq_inv_def driver_inv_def tracks_def\<close>)
  then show ?thesis using inv(2) G(2) by (simp add: sq_inv_def tracks_def)
qed

text \<open>
  (C19) In every reachable state polling returns, whatever the controller does meanwhile; unless it stops at an identifier that is still
  in the buffer, it has then taken every completion that the controller had written, in particular those written
  before the call; and it reports new entries exactly when it took some.
\<close>

theorem poll_completions_takes_all:
  assumes "bits_documented B" "env_ok B (q_id q0) env" "fresh_state (q0, io0)"
    "(queue_op B env)\<^sup>*\<^sup>* ((q0, io0), no_history) ((q, io), h)"
  shows "\<exists>q' io' r xs new. poll_completions B env (q, io) = Some ((q', io'), r)
    \<and> posted (ctl io') = posted (ctl io) @ xs
    \<and> mset (completions q') = mset (completions q) + mset new \<and> some_new_entries r = (new \<noteq> [])
    \<and> (error_on_any_entry r = None \<longrightarrow> mset (completions q') + mset (h_received h) = mset (posted (ctl io')))"
proof -
  obtain G where G: "settled B (q, io) G" "q_id q = q_id q0" "tracks G h"
    by (rule fresh_reaches [OF assms])
  have env: "env_ok B (q_id q) env" using assms(2) G(2) by simp
  obtain q' io' G' r where p: "poll_completions B env (q, io) = Some ((q', io'), r)" "settled B (q', io') G'"
    "same_history G G'" "some_new_entries r = (g_read G < g_read G')" "g_read G \<le> g_read G'"
    "\<exists>xs. posted (ctl io') = posted (ctl io) @ xs"
    "error_on_any_entry r = None \<longrightarrow> g_read G' = n_posted (ctl io')"
    by (rule poll_completions_settled [OF env G(1)])
  obtain xs where xs: "posted (ctl io') = posted (ctl io) @ xs" using p(6) by blast
  let ?new = "drop (g_read G) (take (g_read G') (posted (ctl io')))"
  have le: "g_read G \<le> n_posted (ctl io)" "g_read G' \<le> n_posted (ctl io')"
    using G(1) p(2) by (simp_all add: settled_def queue_inv_def cq_inv_def)
  have old: "mset (completions q) + mset (h_received h) = mset (take (g_read G) (posted (ctl io)))"
    and new: "mset (completions q') + mset (h_received h) = mset (take (g_read G') (posted (ctl io')))"
    using G p(2,3) by (simp_all add: settled_def queue_inv_def driver_inv_def tracks_def same_history_def)
  have "take (g_read G') (posted (ctl io')) = take (g_read G) (posted (ctl io)) @ ?new"
    using append_take_drop_id [of "g_read G" "take (g_read G') (posted (ctl io'))"] p(5) le(1) xs by (simp add: min_absorb1)
  then have "mset (completions q') + mset (h_received h) = mset (completions q) + mset (h_received h) + mset ?new"
    using old new by (metis mset_append)
  then have "mset (completions q') = mset (completions q) + mset ?new" by simp
  moreover have "some_new_entries r = (?new \<noteq> [])" using p(4,5) le(2) by auto
  moreover have "error_on_any_entry r = None \<longrightarrow> mset (completions q') + mset (h_received h) = mset (posted (ctl io'))"
    using p(7) new by auto
  ultimately show ?thesis using p(1) xs by - (intro exI conjI; assumption)
qed

text \<open>
  A controller for concrete runs: at every opportunity it reads the next command if there is one, and writes the
  completion of the next identifier if there is room.
\<close>

definition next_entry :: "u16 \<Rightarrow> Controller \<Rightarrow> CommonCompletionEntry" where
  "next_entry ident c = \<lparr>c_dword0 = 0, c_dword1 = 0, c_submission_queue_head = of_nat (n_fetched c mod n_sq c),
     c_submission_queue_ident = ident, c_command_ident = of_nat (n_posted c),
     status_and_phase = (if even (n_posted c div n_cq c) then 1 else 0)\<rparr>"

definition take_command :: "Controller \<Rightarrow> Controller" where
  "take_command c = (if n_fetched c mod n_sq c = unat (sq_tail_db c) then c
     else c\<lparr>fetched := fetched c @ [sq_slots c ! (n_fetched c mod n_sq c)]\<rparr>)"

definition put_completion :: "u16 \<Rightarrow> Controller \<Rightarrow> Controller" where
  "put_completion ident c = (if (n_posted c + 1) mod n_cq c = unat (cq_head_db c) \<or> 2 ^ 16 \<le> n_fetched c mod n_sq c then c
     else c\<lparr>cq_slots := (cq_slots c)[n_posted c mod n_cq c := next_entry ident c], posted := posted c @ [next_entry ident c]\<rparr>)"

definition obliging :: "u16 \<Rightarrow> env" where
  "obliging ident t c = put_completion ident (take_command c)"

lemma take_command_steps: "(controller_step B ident)\<^sup>*\<^sup>* c (take_command c)"
  using fetch [of c B ident] by (auto simp: take_command_def)

lemma put_completion_steps: "(controller_step bits_model ident)\<^sup>*\<^sup>* c (put_completion ident c)"
proof -
  have ph: "phase bits_model (next_entry ident c) = even (n_posted c div n_cq c)"
    by (simp add: phase_def bits_model_def bit_field_model_def next_entry_def)
  have hd: "unat (c_submission_queue_head (next_entry ident c)) = n_fetched c mod n_sq c" if "n_fetched c mod n_sq c < 2 ^ 16"
    using that by (simp add: next_entry_def unat_of_nat)
  show ?thesis
    using post [of c bits_model "next_entry ident c" ident] ph hd by (auto simp: put_completion_def next_entry_def)
qed

lemma obliging_ok: "env_ok bits_model ident (obliging ident)"
  unfolding env_ok_def obliging_def using rtranclp_trans [OF take_command_steps put_completion_steps] by blast

definition demo_queue :: "CommandQueue \<times> io" where
  "demo_queue = (new_queue 1 2 2 (0, 4) (0x1000, 0x2000) (0x10000, 0x20000), \<lparr>ctl = fresh_rings 2 2, now = 0\<rparr>)"

lemma demo_fresh: "fresh_state demo_queue"
  unfolding fresh_state_def demo_queue_def
  by (intro exI [of _ 1] exI [of _ 2] exI [of _ "(0, 4)"] exI [of _ "(0x1000, 0x2000)"]
    exI [of _ "(0x10000, 0x20000)"] exI [of _ 0]) simp

lemma demo_id: "q_id (fst demo_queue) = 1"
  by (simp add: demo_queue_def new_queue_def)

text \<open>One command is submitted and flushed, and the controller takes a step.\<close>

lemma demo_run:
  "\<exists>q io h. (queue_op bits_model (obliging 1))\<^sup>*\<^sup>* (demo_queue, no_history) ((q, io), h)
    \<and> length (h_submitted h) = 1 \<and> h_flushed h = 1"
proof -
  obtain q0 io0 where s: "demo_queue = (q0, io0)" by (cases demo_queue)
  let ?G = "\<lparr>g_read = 0, g_rung = 0, g_log = [], g_flushed = 0, g_seen = 0, g_heads = [], g_returned = []\<rparr>"
  have G: "settled bits_model (q0, io0) ?G" using fresh_settled [OF bits_model_documented, of q0 io0] demo_fresh unfolding s by blast
  have env: "env_ok bits_model (q_id q0) (obliging 1)" using obliging_ok [of 1] demo_id unfolding s by simp
  have "is_full_for_submission q0 = Some False"
    using is_full_for_submission_eq [of bits_model q0 "ctl io0" ?G] G s
    by (auto simp: settled_def demo_queue_def fresh_rings_def)
  then obtain q1 io1 dw0 where 1: "submit bits_model (obliging 1) default_command (q0, io0) = Some ((q1, io1), Inr (next_command_identifier q0))"
      "set_command_identifier bits_model (dword0 default_command) (next_command_identifier q0) = Some dw0"
    by (cases rule: submit_settled [OF bits_model_documented env G, of default_command]) auto
  let ?h1 = "no_history\<lparr>h_submitted := h_submitted no_history @ [default_command\<lparr>dword0 := dw0\<rparr>]\<rparr>"
  obtain q2 io2 where f: "flush (q1, io1) = (q2, io2)" by (cases "flush (q1, io1)")
  have "queue_op bits_model (obliging 1) ((q0, io0), no_history) ((q1, io1), ?h1)"
    by (rule op_submit [OF 1])
  moreover have "queue_op bits_model (obliging 1) ((q1, io1), ?h1) ((q2, io2), ?h1\<lparr>h_flushed := length (h_submitted ?h1)\<rparr>)"
    using op_flush [of bits_model "obliging 1" "(q1, io1)" ?h1] f by simp
  moreover note op_controller [of bits_model "obliging 1" q2 io2 "?h1\<lparr>h_flushed := length (h_submitted ?h1)\<rparr>"]
  ultimately have "(queue_op bits_model (obliging 1))\<^sup>*\<^sup>* ((q0, io0), no_history)
      ((q2, tick (obliging 1) io2), ?h1\<lparr>h_flushed := length (h_submitted ?h1)\<rparr>)"
    by (meson converse_rtranclp_into_rtranclp rtranclp.rtrancl_refl)
  then show ?thesis unfolding s
    by (intro exI [of _ q2] exI [of _ "tick (obliging 1) io2"] exI [of _ "?h1\<lparr>h_flushed := length (h_submitted ?h1)\<rparr>"])
      (simp add: no_history_def)
qed

theorem queue_refines_fifo_witness:
  "\<exists>q io h. (queue_op bits_model (obliging 1))\<^sup>*\<^sup>* (demo_queue, no_history) ((q, io), h) \<and> length (h_submitted h) = 1
    \<and> fetched (ctl io) = take (length (fetched (ctl io))) (h_submitted h)"
proof -
  obtain q io h where r: "(queue_op bits_model (obliging 1))\<^sup>*\<^sup>* (demo_queue, no_history) ((q, io), h)"
    "length (h_submitted h) = 1" using demo_run by blast
  have "env_ok bits_model (q_id (fst demo_queue)) (obliging 1)" using obliging_ok demo_id by simp
  from queue_refines_fifo [OF bits_model_documented this _ , of "snd demo_queue" q io h] r demo_fresh
  show ?thesis by auto
qed

theorem poll_completions_takes_all_witness:
  "\<exists>q io h q' io' r. (queue_op bits_model (obliging 1))\<^sup>*\<^sup>* (demo_queue, no_history) ((q, io), h) \<and> h_flushed h = 1
    \<and> poll_completions bits_model (obliging 1) (q, io) = Some ((q', io'), r)"
proof -
  obtain q io h where r: "(queue_op bits_model (obliging 1))\<^sup>*\<^sup>* (demo_queue, no_history) ((q, io), h)"
    "h_flushed h = 1" using demo_run by blast
  have "env_ok bits_model (q_id (fst demo_queue)) (obliging 1)" using obliging_ok demo_id by simp
  from poll_completions_takes_all [OF bits_model_documented this _ , of "snd demo_queue" q io h] r demo_fresh
  have "\<exists>q' io' r. poll_completions bits_model (obliging 1) (q, io) = Some ((q', io'), r)" by auto
  then show ?thesis using r by blast
qed

section \<open>Waiting\<close>

text \<open>
  A controller that answers: its completions carry the identifiers \<open>f\<close>, and from some time on it writes a further one at each
  opportunity, until it has written number \<open>k\<close>, unless the ring is full.
\<close>

definition idents_from :: "(nat \<Rightarrow> u16) \<Rightarrow> Controller \<Rightarrow> bool" where
  "idents_from f c \<longleftrightarrow> (\<forall>k < n_posted c. c_command_ident (posted c ! k) = f k)"

definition answers :: "env \<Rightarrow> (nat \<Rightarrow> u16) \<Rightarrow> nat \<Rightarrow> nat \<Rightarrow> bool" where
  "answers env f k start \<longleftrightarrow> (\<forall>t c. idents_from f c \<longrightarrow> idents_from f (env t c))
     \<and> (\<forall>t c. start \<le> t \<longrightarrow> 0 < n_sq c \<longrightarrow> n_sq c < 2 ^ 16 \<longrightarrow> k < n_posted (env t c) \<or> n_posted c < n_posted (env t c)
          \<or> (n_posted (env t c) + 1) mod n_cq c = unat (cq_head_db c))"

lemma get_if_exists_in:
  "ident \<in> c_command_ident ` set (completions q) \<Longrightarrow> \<exists>se. get_if_exists ident (q, io) = Some se"
  by (auto simp: get_if_exists_def binary_search_by_key_def position_None split: sum.splits option.splits)

lemma completion_waits:
  assumes "settled B (q, io) G" "idents_from f (ctl io)" "k < g_read G" "f k \<notin> c_command_ident ` set (g_returned G)"
  shows "f k \<in> c_command_ident ` set (completions q)"
proof -
  have inv: "driver_inv q (ctl io) G" "g_read G \<le> n_posted (ctl io)"
    using assms(1) by (simp_all add: settled_def queue_inv_def cq_inv_def)
  have k: "k < n_posted (ctl io)" using inv(2) assms(3) by simp
  have "posted (ctl io) ! k \<in> set (take (g_read G) (posted (ctl io)))"
    using k assms(3) by (auto simp: in_set_conv_nth)
  then have "posted (ctl io) ! k \<in># mset (completions q) + mset (g_returned G)"
    using inv(1) by (simp add: driver_inv_def)
  moreover have "c_command_ident (posted (ctl io) ! k) = f k" using assms(2) k by (simp add: idents_from_def)
  ultimately show ?thesis using assms(4) by (metis image_eqI union_iff set_mset_mset)
qed

lemma completion_idents:
  assumes "settled B (q, io) G" "idents_from f (ctl io)" "i \<in> c_command_ident ` set (completions q)"
  shows "\<exists>j < g_read G. i = f j"
proof -
  have inv: "driver_inv q (ctl io) G" "g_read G \<le> n_posted (ctl io)"
    using assms(1) by (simp_all add: settled_def queue_inv_def cq_inv_def)
  obtain e where e: "e \<in> set (completions q)" "i = c_command_ident e" using assms(3) by auto
  have "e \<in># mset (completions q) + mset (g_returned G)" using e(1) by simp
  then have "e \<in> set (take (g_read G) (posted (ctl io)))" using inv(1) by (metis driver_inv_def set_mset_mset)
  then obtain j where "j < g_read G" "e = posted (ctl io) ! j" using inv(2) by (auto simp: in_set_conv_nth)
  then show ?thesis using e(2) assms(2) inv(2) by (auto simp: idents_from_def)
qed

text \<open>One round of polling: the entry arrives, or others do, or time passes before the controller begins to answer.\<close>

lemma poll_round:
  assumes env: "env_ok B (q_id q) env" and ans: "answers env f k start" and inj: "inj_on f {..k}"
    and inv: "settled B (q, io) G" and ids: "idents_from f (ctl io)" and le: "g_read G \<le> k"
  obtains q' io' G' r where "poll_completions B env (q, io) = Some ((q', io'), r)" "settled B (q', io') G'"
    "same_history G G'" "idents_from f (ctl io')" "q_id q' = q_id q" "some_new_entries r = (g_read G < g_read G')" "g_read G \<le> g_read G'" "now io < now io'"
    "k < g_read G' \<or> error_on_any_entry r = None \<and> (g_read G < g_read G' \<or> now io < start)"
proof -
  obtain q' io' G' r where p: "poll_completions B env (q, io) = Some ((q', io'), r)" "settled B (q', io') G'"
    "same_history G G'" "poll_frame q q'" "some_new_entries r = (g_read G < g_read G')" "g_read G \<le> g_read G'"
    "now io < now io'"
    "\<exists>io1. posted (ctl io') = posted (ctl io1) \<and> env_reach env (ctl io) (ctl io1)
       \<and> poll_end env io (q', io1) (g_read G') (error_on_any_entry r)"
    by (rule poll_completions_settled [OF env inv])
  from p(8) obtain io1 where io1: "posted (ctl io') = posted (ctl io1)" "env_reach env (ctl io) (ctl io1)"
    "poll_end env io (q', io1) (g_read G') (error_on_any_entry r)" by blast
  have "idents_from f (ctl io1)"
    using io1(2) [unfolded env_reach_def, THEN spec [of _ "idents_from f"]] ids ans unfolding answers_def by blast
  then have ids': "idents_from f (ctl io')" using io1(1) by (simp add: idents_from_def)
  have clash: "error_on_any_entry r = None" if "g_read G' \<le> k"
  proof (rule ccontr)
    assume "error_on_any_entry r \<noteq> None"
    then obtain i where "error_on_any_entry r = Some (IdentifierStillInUse i)"
      by (metis PollCompletionError.exhaust not_None_eq)
    then have i: "g_read G' < n_posted (ctl io')" "i = f (g_read G')" "i \<in> c_command_ident ` set (completions q')"
      using io1(1,3) ids' by (auto simp: poll_end_def idents_from_def)
    then obtain j where "j < g_read G'" "f (g_read G') = f j" using completion_idents [OF p(2) ids'] by metis
    then show False using inj that by (auto dest: inj_onD)
  qed
  have "g_read G < g_read G' \<or> now io < start" if le': "g_read G' \<le> k"
  proof (rule ccontr)
    assume not: "\<not> (g_read G < g_read G' \<or> now io < start)"
    have eq: "g_read G' = g_read G" and st: "start \<le> now io" using not p(6) by auto
    obtain l where l: "io1 = tick env l" "now io \<le> now l" "later (ctl io) (ctl l)" "g_read G' \<le> n_posted (ctl l)"
        "g_read G' = n_posted (ctl io1)"
      using io1(3) clash [OF le'] by (auto simp: poll_end_def)
    have sz: "0 < n_sq (ctl l)" "n_sq (ctl l) < 2 ^ 16" "2 \<le> n_cq (ctl l)"
        "unat (cq_head_db (ctl l)) = g_read G mod n_cq (ctl l)"
      using inv l(3) by (auto simp: settled_def queue_inv_def sq_inv_def cq_inv_def later_def)
    have io1': "ctl io1 = env (now l) (ctl l)" using l(1) by (simp add: tick_def)
    have "start \<le> now l" using st l(2) by simp
    then have "k < n_posted (ctl io1) \<or> n_posted (ctl l) < n_posted (ctl io1)
        \<or> (n_posted (ctl io1) + 1) mod n_cq (ctl l) = unat (cq_head_db (ctl l))"
      using ans sz(1,2) unfolding answers_def io1' by blast
    then have "(g_read G + 1) mod n_cq (ctl l) = g_read G mod n_cq (ctl l)"
      using l(4,5) sz(4) eq le by auto
    then show False using mod_eq_near [of "g_read G" "g_read G + 1" "n_cq (ctl l)"] sz(3) by auto
  qed
  then show ?thesis using that [OF p(1-3) ids' _ p(5-7)] p(4) clash by (metis not_less poll_frameD(1))
qed

lemma round_less:
  fixes h h' k start :: nat
  assumes "h \<le> h'" "h \<le> k" "t < t'" "h < h' \<or> t < start"
  shows "(Suc k - h') * Suc start + (start - t') < (Suc k - h) * Suc start + (start - t)"
proof (cases "h < h'")
  case True
  then have "Suc (Suc k - h') \<le> Suc k - h" using assms(2) by simp
  then have "Suc (Suc k - h') * Suc start \<le> (Suc k - h) * Suc start" by (rule mult_le_mono1)
  then have "Suc start + (Suc k - h') * Suc start \<le> (Suc k - h) * Suc start" by (simp only: mult_Suc)
  moreover have "start - t' \<le> start" by simp
  ultimately show ?thesis by linarith
next
  case False
  then show ?thesis using assms by simp
qed

lemma wait_loop_returns:
  assumes "env_ok B (q_id q) env" "answers env f k start" "inj_on f {..k}" "settled B (q, io) G" "idents_from f (ctl io)"
    "g_read G \<le> k" "f k \<notin> c_command_ident ` set (g_returned G)"
  shows "\<exists>s' e. wait_loop B env (f k) (q, io) = Some (s', Inr e)"
  using assms(1,4-7)
proof (induction "(Suc k - g_read G) * Suc start + (start - now io)" arbitrary: q io G rule: less_induct)
  case less
  obtain q' io' G' r where p: "poll_completions B env (q, io) = Some ((q', io'), r)" "settled B (q', io') G'"
    "same_history G G'" "idents_from f (ctl io')" "q_id q' = q_id q" "some_new_entries r = (g_read G < g_read G')" "g_read G \<le> g_read G'" "now io < now io'"
    "k < g_read G' \<or> error_on_any_entry r = None \<and> (g_read G < g_read G' \<or> now io < start)"
    by (rule poll_round [OF less.prems(1) assms(2,3) less.prems(2,3,4)])
  have ret: "f k \<notin> c_command_ident ` set (g_returned G')" using p(3) less.prems(5) by (simp add: same_history_def)
  show ?case
  proof (cases "k < g_read G'")
    case True
    from get_if_exists_in [OF completion_waits [OF p(2,4) True ret], of io'] obtain s'' e
      where "get_if_exists (f k) (q', io') = Some (s'', e)" by auto
    moreover have "some_new_entries r" using p(6) True less.prems(4) by simp
    ultimately show ?thesis using p(1) by (subst wait_loop.simps) simp
  next
    case False
    then have m: "error_on_any_entry r = None" "g_read G < g_read G' \<or> now io < start" using p(9) by auto
    note dec = round_less [OF p(7) less.prems(4) p(8) m(2)]
    have "\<exists>s' e. wait_loop B env (f k) (q', io') = Some (s', Inr e)"
      by (rule less.hyps [OF dec]) (use less.prems(1) p ret False in auto)
    then show ?thesis
      using p(1) m(1) by (subst wait_loop.simps) (auto split: option.split)
  qed
qed

text \<open>
  (C20) Waiting for a completion returns it, if the controller goes on to write it: with a controller that from some time on
  answers at every opportunity while the completion ring has room, and that uses no identifier twice among the first
  \<open>k + 1\<close> completions, \<open>wait_for\<close> on the identifier of completion \<open>k\<close>, which was not handed out before, ends with an entry of that
  identifier. The completions before it are taken from the ring on the way, so that a full ring does not block the controller.
\<close>

theorem wait_for_returns:
  assumes "bits_documented B" "env_ok B (q_id q0) env" "fresh_state (q0, io0)"
    "(queue_op B env)\<^sup>*\<^sup>* ((q0, io0), no_history) ((q, io), h)"
    "answers env f k start" "inj_on f {..k}" "idents_from f (ctl io)" "f k \<notin> c_command_ident ` set (h_received h)"
  shows "\<exists>s' e. wait_for B env (f k) (q, io) = Some (s', Inr e) \<and> c_command_ident e = f k"
proof -
  obtain G where G: "settled B (q, io) G" "q_id q = q_id q0" "tracks G h"
    by (rule fresh_reaches [OF assms(1-4)])
  have env: "env_ok B (q_id q) env" using assms(2) G(2) by simp
  have ret: "f k \<notin> c_command_ident ` set (g_returned G)" using assms(8) G(3) by (simp add: tracks_def)
  have "\<exists>s' e. wait_for B env (f k) (q, io) = Some (s', Inr e)"
  proof (cases "get_if_exists (f k) (q, io)")
    case None
    then have "\<not> k < g_read G"
      using get_if_exists_in [OF completion_waits [OF G(1) assms(7) _ ret], of io] by fastforce
    then show ?thesis
      using wait_loop_returns [OF env assms(5,6) G(1) assms(7) _ ret] None by (simp add: wait_for_def)
  qed (auto simp: wait_for_def)
  then obtain s' e where w: "wait_for B env (f k) (q, io) = Some (s', Inr e)" by blast
  obtain G' where "wait_result B (f k) q G s' (Inr e) G'"
    by (rule wait_for_settled [OF w env G(1)])
  then show ?thesis using w by (auto simp: wait_result_def)
qed

lemma obliging_answers: "answers (obliging ident) of_nat 0 0"
proof -
  have "idents_from of_nat (put_completion ident (take_command c))" if "idents_from of_nat c" for c
    using that by (auto simp: idents_from_def put_completion_def take_command_def next_entry_def nth_append less_Suc_eq)
  moreover have "0 < n_posted (put_completion ident (take_command c))
      \<or> (n_posted (put_completion ident (take_command c)) + 1) mod n_cq c = unat (cq_head_db c)"
    if "0 < n_sq c" "n_sq c < 2 ^ 16" for c
  proof -
    have "n_fetched (take_command c) mod n_sq c < n_sq c" by (rule mod_less_divisor [OF that(1)])
    moreover have "n_sq (take_command c) = n_sq c" by (simp add: take_command_def)
    ultimately have "\<not> 2 ^ 16 \<le> n_fetched (take_command c) mod n_sq (take_command c)" using that(2) by simp
    then show ?thesis by (auto simp: put_completion_def take_command_def)
  qed
  ultimately show ?thesis by (auto simp: answers_def obliging_def)
qed

theorem wait_for_returns_witness:
  "\<exists>s' e. wait_for bits_model (obliging 1) 0 demo_queue = Some (s', Inr e) \<and> c_command_ident e = 0"
proof -
  have env: "env_ok bits_model (q_id (fst demo_queue)) (obliging 1)" using obliging_ok demo_id by simp
  have ids: "idents_from of_nat (ctl (snd demo_queue))" "inj_on (of_nat :: nat \<Rightarrow> u16) {..0}"
    by (simp_all add: idents_from_def demo_queue_def fresh_rings_def)
  show ?thesis
    using wait_for_returns [OF bits_model_documented env, of "snd demo_queue" "fst demo_queue" "snd demo_queue" no_history of_nat 0 0]
      demo_fresh obliging_answers ids by (simp add: no_history_def)
qed

section \<open>Doorbells\<close>

lemma offsets_distinct:
  assumes "0 \<le> x" "x < 2 ^ 64" "0 \<le> y" "y < 2 ^ 64"
  shows "(base :: u64) + word_of_int x = base + word_of_int y \<longleftrightarrow> x = y"
  using assms by (simp add: word_of_int_eq_iff take_bit_int_eq_self)

definition doorbell_offset :: "int \<Rightarrow> u16 \<Rightarrow> int \<Rightarrow> int" where
  "doorbell_offset stride queue_index i = (2 * uint queue_index + i) * stride"

lemma isize_small: "0 \<le> x \<Longrightarrow> x \<le> 2 ^ 33 \<Longrightarrow> isize_ok x \<and> isize_ok (x * 2)"
  by (simp add: isize_ok_def)

lemma get_doorbells_eq:
  assumes "4 \<le> stride" "stride \<le> 2 ^ 17"
  shows "get_doorbells base stride a = Some (base + word_of_int (doorbell_offset stride a 0), base + word_of_int (doorbell_offset stride a 1))"
    "i \<in> {0, 1} \<Longrightarrow> 0 \<le> doorbell_offset stride a i \<and> doorbell_offset stride a i < 2 ^ 64"
proof -
  have a: "0 \<le> uint a" "uint a < 2 ^ 16" using uint_range_size [of a] by (simp_all add: word_size)
  have b: "uint a * stride \<le> 2 ^ 16 * 2 ^ 17" "0 \<le> uint a * stride"
    using mult_mono [of "uint a" "2 ^ 16" stride "2 ^ 17"] a assms by auto
  have "isize_ok (uint a * stride)" "isize_ok (uint a * stride * 2)" using isize_small [OF b(2)] b(1) by simp_all
  then show "get_doorbells base stride a = Some (base + word_of_int (doorbell_offset stride a 0), base + word_of_int (doorbell_offset stride a 1))"
    using assms by (simp add: get_doorbells_def Let_def doorbell_offset_def) (simp add: algebra_simps)
  show "0 \<le> doorbell_offset stride a i \<and> doorbell_offset stride a i < 2 ^ 64" if "i \<in> {0, 1}"
    using that b assms by (auto simp: doorbell_offset_def algebra_simps)
qed

lemma doorbell_offset_inj:
  assumes "4 \<le> stride" "i \<in> {0, 1}" "j \<in> {0, 1}" "doorbell_offset stride a i = doorbell_offset stride b j"
  shows "a = b \<and> i = j"
proof -
  have "2 * uint a + i = 2 * uint b + j" using assms(1,4) by (simp add: doorbell_offset_def)
  then have "uint a = uint b \<and> i = j" using assms(2,3) by auto presburger+
  then show ?thesis by (simp add: word_uint_eq_iff)
qed

text \<open>
  The doorbell registers of the queues do not collide: for every stride that a controller can report, from 4 to 2 to the 17 bytes,
  \<open>get_doorbells\<close> returns two addresses for each queue, and the addresses of two different queues, or of the two rings of
  one queue, are different.
\<close>

lemma doorbells_distinct:
  assumes "4 \<le> stride" "stride \<le> 2 ^ 17"
  shows "\<exists>sa ca. get_doorbells base stride a = Some (sa, ca) \<and> sa \<noteq> ca
    \<and> (\<forall>b sb cb. get_doorbells base stride b = Some (sb, cb) \<longrightarrow> a \<noteq> b \<longrightarrow> {sa, ca} \<inter> {sb, cb} = {})"
proof -
  have ne: "base + word_of_int (doorbell_offset stride x i) \<noteq> base + word_of_int (doorbell_offset stride y j)"
    if "i \<in> {0, 1}" "j \<in> {0, 1}" "x \<noteq> y \<or> i \<noteq> j" for x y i j
    using doorbell_offset_inj [OF assms(1) that(1,2), of x y] that
      offsets_distinct [of "doorbell_offset stride x i" "doorbell_offset stride y j" base]
      get_doorbells_eq(2) [OF assms] by blast
  show ?thesis
    unfolding get_doorbells_eq(1) [OF assms]
    using ne [of 0 1 a a] ne [of 0 0 _ a] ne [of 0 1 _ a] ne [of 1 0 _ a] ne [of 1 1 _ a] by auto
qed

end
