(* ===== verification/Core_Interrupts.thy ===== *)
theory Core_Interrupts
  imports Rust_Prelude
begin

text \<open>
  The interrupt state of a core (\<open>core_local/mod.rs\<close> and \<open>core_local/statics.rs\<close>): the counters of nested interrupts, exceptions
  and disabled interrupts, and the two calls with which every lock tells the core that it was taken and released.
\<close>

section \<open>Counters and the interrupt flag\<close>

text \<open>
  The part of \<open>CoreStatics\<close> that concerns interrupts. \<open>interrupt_flag\<close> is the flag of the processor that \<open>sti\<close> sets and \<open>cli\<close>
  clears. Atomic additions and subtractions wrap.
\<close>

record CoreStatics =
  core_id :: u8
  interrupt_count :: u64
  exception_count :: u64
  interrupts_disable_count :: u64
  interrupt_flag :: bool

definition core_empty :: CoreStatics where
  "core_empty = \<lparr>core_id = 0, interrupt_count = 0, exception_count = 0, interrupts_disable_count = 1, interrupt_flag = False\<rparr>"

definition core_initialize :: "CoreStatics \<Rightarrow> u8 \<Rightarrow> CoreStatics run" where
  "core_initialize boot_locals cid = do {
     assert_that (interrupt_count boot_locals = 0);
     assert_that (exception_count boot_locals = 0);
     assert_that (interrupts_disable_count boot_locals = 1);
     Some (boot_locals\<lparr>core_id := cid, interrupt_count := 0, exception_count := 0, interrupts_disable_count := 1\<rparr>)
   }"

definition counter_increment :: "u64 \<Rightarrow> u64" where
  "counter_increment c = c + 1"

definition counter_decrement :: "u64 \<Rightarrow> u64" where
  "counter_decrement c = c - 1"

definition inc_interrupt :: "CoreStatics \<Rightarrow> CoreStatics" where
  "inc_interrupt s = s\<lparr>interrupt_count := counter_increment (interrupt_count s)\<rparr>"

definition inc_exception :: "CoreStatics \<Rightarrow> CoreStatics" where
  "inc_exception s = s\<lparr>exception_count := counter_increment (exception_count s)\<rparr>"

definition in_interrupt :: "CoreStatics \<Rightarrow> bool" where
  "in_interrupt s \<longleftrightarrow> interrupt_count s > 0"

definition in_exception :: "CoreStatics \<Rightarrow> bool" where
  "in_exception s \<longleftrightarrow> exception_count s > 0"

definition enable_interrupts :: "CoreStatics \<Rightarrow> CoreStatics" where
  "enable_interrupts s =
     (let old_disable_count = interrupts_disable_count s;
          s1 = s\<lparr>interrupts_disable_count := old_disable_count - 1\<rparr>
      in if old_disable_count = 1 \<and> \<not> in_interrupt s1 then s1\<lparr>interrupt_flag := True\<rparr> else s1)"

definition decrement_interrupt_disable_count :: "CoreStatics \<Rightarrow> CoreStatics \<times> u64" where
  "decrement_interrupt_disable_count s =
     (s\<lparr>interrupts_disable_count := interrupts_disable_count s - 1\<rparr>, interrupts_disable_count s)"

definition disable_interrupts_guardless :: "CoreStatics \<Rightarrow> CoreStatics" where
  "disable_interrupts_guardless s =
     s\<lparr>interrupts_disable_count := interrupts_disable_count s + 1, interrupt_flag := False\<rparr>"

definition interrupts_enabled :: "CoreStatics \<Rightarrow> bool" where
  "interrupts_enabled s \<longleftrightarrow> interrupts_disable_count s = 0"

definition is_bsp :: "CoreStatics \<Rightarrow> bool" where
  "is_bsp s \<longleftrightarrow> core_id s = 0"

definition is_ap :: "CoreStatics \<Rightarrow> bool" where
  "is_ap s \<longleftrightarrow> \<not> is_bsp s"

definition enter_lock :: "bool \<Rightarrow> CoreStatics \<Rightarrow> CoreStatics" where
  "enter_lock disable_interrupts s = (if disable_interrupts then disable_interrupts_guardless s else s)"

definition exit_lock :: "bool \<Rightarrow> CoreStatics \<Rightarrow> CoreStatics" where
  "exit_lock enable s = (if enable then enable_interrupts s else s)"

section \<open>Nested locks\<close>

text \<open>
  Outside of the boot code the flag is set exactly when no lock has disabled interrupts and no handler runs.
\<close>

definition flag_ok :: "CoreStatics \<Rightarrow> bool" where
  "flag_ok s \<longleftrightarrow> interrupt_flag s = (interrupts_enabled s \<and> \<not> in_interrupt s)"

text \<open>The locks that a core holds, in the order in which it took them: each one disables interrupts or not.\<close>

datatype lock_op = Take bool | Release bool

fun run_call :: "lock_op \<Rightarrow> CoreStatics \<Rightarrow> CoreStatics" where
  "run_call (Take d) s = enter_lock d s"
| "run_call (Release d) s = exit_lock d s"

definition lock_calls :: "lock_op list \<Rightarrow> CoreStatics \<Rightarrow> CoreStatics" where
  "lock_calls = fold run_call"

fun disabling :: "lock_op list \<Rightarrow> nat" where
  "disabling [] = 0"
| "disabling (Take True # cs) = Suc (disabling cs)"
| "disabling (c # cs) = disabling cs"

fun enabling :: "lock_op list \<Rightarrow> nat" where
  "enabling [] = 0"
| "enabling (Release True # cs) = Suc (enabling cs)"
| "enabling (c # cs) = enabling cs"

text \<open>No prefix releases more disabling locks than it took.\<close>

definition releases_taken :: "lock_op list \<Rightarrow> bool" where
  "releases_taken cs \<longleftrightarrow> (\<forall>k \<le> length cs. enabling (take k cs) \<le> disabling (take k cs))"

lemma disabling_append [simp]: "disabling (cs @ ds) = disabling cs + disabling ds"
  by (induction cs rule: disabling.induct) auto

lemma enabling_append [simp]: "enabling (cs @ ds) = enabling cs + enabling ds"
  by (induction cs rule: enabling.induct) auto

lemma disabling_le: "disabling cs \<le> length cs"
  by (induction cs rule: disabling.induct) auto

text \<open>The state after a run of calls is determined by how many disabling locks are held.\<close>

definition held :: "lock_op list \<Rightarrow> nat" where
  "held cs = disabling cs - enabling cs"

lemma releases_takenD: "releases_taken cs \<Longrightarrow> enabling cs \<le> disabling cs"
  by (auto simp: releases_taken_def)

lemma releases_taken_snoc:
  assumes "releases_taken (cs @ [c])"
  shows "releases_taken cs" "enabling cs + enabling [c] \<le> disabling cs + disabling [c]"
proof -
  show "releases_taken cs"
    unfolding releases_taken_def
  proof (intro allI impI)
    fix k assume "k \<le> length cs"
    then show "enabling (take k cs) \<le> disabling (take k cs)"
      using assms [unfolded releases_taken_def, rule_format, of k] by simp
  qed
  show "enabling cs + enabling [c] \<le> disabling cs + disabling [c]"
    using assms [unfolded releases_taken_def, rule_format, of "length (cs @ [c])"] by simp
qed

lemma count_bound:
  assumes "unat (c :: u64) + n < 2 ^ 64"
  shows "unat (c + word_of_nat n) = unat c + n" "c + word_of_nat n = 0 \<longleftrightarrow> c = 0 \<and> n = 0"
proof -
  have n: "unat (word_of_nat n :: u64) = n" using assms by (simp add: unat_of_nat)
  then show eq: "unat (c + word_of_nat n) = unat c + n"
    using assms by (simp add: unat_word_ariths)
  show "c + word_of_nat n = 0 \<longleftrightarrow> c = 0 \<and> n = 0"
    using eq by (metis add_is_0 unat_0 unat_eq_zero)
qed

lemma lock_calls_state:
  assumes "flag_ok s" "releases_taken cs" "unat (interrupts_disable_count s) + length cs < 2 ^ 64"
  shows "lock_calls cs s = s\<lparr>interrupts_disable_count := interrupts_disable_count s + word_of_nat (held cs),
     interrupt_flag := (interrupt_flag s \<and> held cs = 0)\<rparr>"
  using assms
proof (induction cs rule: rev_induct)
  case Nil
  then show ?case by (simp add: lock_calls_def held_def)
next
  case (snoc c cs)
  let ?n = "interrupts_disable_count s"
  note taken = releases_taken_snoc [OF snoc.prems(2)]
  have IH: "lock_calls cs s = s\<lparr>interrupts_disable_count := ?n + word_of_nat (held cs),
     interrupt_flag := (interrupt_flag s \<and> held cs = 0)\<rparr>"
    using snoc taken by simp
  have step: "lock_calls (cs @ [c]) s = run_call c (lock_calls cs s)" by (simp add: lock_calls_def)
  have h: "held cs \<le> length cs" using disabling_le [of cs] by (simp add: held_def)
  consider (take) "c = Take True" | (release) "c = Release True" | (other) "c = Take False \<or> c = Release False"
    by (metis lock_op.exhaust)
  then show ?case
  proof cases
    case take
    then have "held (cs @ [c]) = Suc (held cs)" using releases_takenD [OF taken(1)] by (simp add: held_def Suc_diff_le)
    then show ?thesis using take unfolding step IH by (simp add: enter_lock_def disable_interrupts_guardless_def ac_simps)
  next
    case release
    then have pos: "0 < held cs" and eq: "held cs = Suc (held (cs @ [c]))" using taken(2) by (auto simp: held_def)
    have "unat (?n + word_of_nat (held cs)) = unat ?n + held cs"
      using count_bound(1) [of ?n "held cs"] h snoc.prems(3) by simp
    then have one: "?n + word_of_nat (held cs) = 1 \<longleftrightarrow> ?n = 0 \<and> held cs = 1"
      using pos by (auto simp: word_unat_eq_iff)
    show ?thesis
      using release pos snoc.prems(1) one unfolding step IH
      by (auto simp: exit_lock_def enable_interrupts_def Let_def eq flag_ok_def interrupts_enabled_def in_interrupt_def)
  next
    case other
    then have "held (cs @ [c]) = held cs" by (auto simp: held_def)
    then show ?thesis using other unfolding step IH by (auto simp: enter_lock_def exit_lock_def)
  qed
qed

text \<open>
  (C25) Locks restore the interrupt state: after any sequence of taken and released locks in which no more were released than
  taken, nested to any depth and taken in a handler or not, interrupts are off while a lock that disables them is held, and
  the state of the core is exactly the one before once all of them are released.
\<close>

theorem locks_restore_interrupts:
  assumes "flag_ok s" "releases_taken cs" "unat (interrupts_disable_count s) + length cs < 2 ^ 64"
  shows "flag_ok (lock_calls cs s) \<and> (enabling cs < disabling cs \<longrightarrow> \<not> interrupt_flag (lock_calls cs s))
    \<and> (enabling cs = disabling cs \<longrightarrow> lock_calls cs s = s)"
proof -
  note st = lock_calls_state [OF assms]
  have h: "held cs \<le> length cs" using disabling_le [of cs] by (simp add: held_def)
  have z: "interrupts_disable_count s + word_of_nat (held cs) = 0 \<longleftrightarrow> interrupts_disable_count s = 0 \<and> held cs = 0"
    using count_bound(2) [of "interrupts_disable_count s" "held cs"] h assms(3) by simp
  show ?thesis
    unfolding st using assms(1) z by (auto simp: held_def flag_ok_def interrupts_enabled_def in_interrupt_def)
qed

theorem locks_restore_interrupts_witness:
  "flag_ok \<lparr>core_id = 0, interrupt_count = 0, exception_count = 0, interrupts_disable_count = 0, interrupt_flag = True\<rparr>
   \<and> lock_calls [Take True, Take False, Take True, Release True, Release False, Release True]
      \<lparr>core_id = 0, interrupt_count = 0, exception_count = 0, interrupts_disable_count = 0, interrupt_flag = True\<rparr>
     = \<lparr>core_id = 0, interrupt_count = 0, exception_count = 0, interrupts_disable_count = 0, interrupt_flag = True\<rparr>"
proof -
  let ?s = "\<lparr>core_id = 0, interrupt_count = 0, exception_count = 0, interrupts_disable_count = 0, interrupt_flag = True\<rparr> :: CoreStatics"
  let ?cs = "[Take True, Take False, Take True, Release True, Release False, Release True]"
  have f: "flag_ok ?s" by (simp add: flag_ok_def interrupts_enabled_def in_interrupt_def)
  have "releases_taken ?cs" unfolding releases_taken_def by (auto simp: le_Suc_eq)
  from locks_restore_interrupts [OF f this] f show ?thesis by simp
qed

end
