(* ===== verification/Ticket_Lock.thy ===== *)
theory Ticket_Lock
  imports Core_Interrupts
begin

text \<open>
  The ticket lock of \<open>sync/lockcell.rs\<close>. Every atomic access of \<open>lock\<close> and \<open>unlock\<close> is a step of its own, a core is at one of the
  program points between them, and a run interleaves the steps of all cores. The atomic operations are
  sequentially consistent in the model.
\<close>

section \<open>The lock and the program points\<close>

datatype LockReason = Acquired | Shattered

record UnsafeTicketLock =
  current_ticket :: u64
  next_ticket :: u64
  shattered :: bool
  owner :: u16
  preemtable :: bool

definition ticket_lock_new :: UnsafeTicketLock where
  "ticket_lock_new = \<lparr>current_ticket = 0, next_ticket = 0, shattered = False, owner = NOT 0, preemtable = True\<rparr>"

definition ticket_lock_new_non_preemtable :: UnsafeTicketLock where
  "ticket_lock_new_non_preemtable =
     \<lparr>current_ticket = 0, next_ticket = 0, shattered = False, owner = NOT 0, preemtable = False\<rparr>"

text \<open>
  Where a core is: outside, at each access of \<open>lock\<close> in order, holding a guard, and at each access of \<open>unlock\<close>. The
  ticket a core has drawn is a local variable of \<open>lock\<close>.
\<close>

datatype pc =
    Outside
  | LoadShattered
  | EnterLock
  | DrawTicket
  | LoadCurrent u64
  | LoadOwner u64
  | SpinCurrent u64
  | StoreOwner
  | Holding LockReason
  | LoadUnlocked
  | LoadShatteredUnlock
  | ClearOwner
  | NextTicket
  | ExitLock
  | Panicked

text \<open>\<open>lock\<close> starts with the assertion on interrupts.\<close>

definition lock_call :: "UnsafeTicketLock \<Rightarrow> CoreStatics \<Rightarrow> pc" where
  "lock_call l cs = (if \<not> preemtable l \<or> \<not> in_interrupt cs then LoadShattered else Panicked)"

text \<open>The remaining accesses of \<open>lock\<close>, for the core with the given identifier.\<close>

fun lock_step :: "u8 \<Rightarrow> UnsafeTicketLock \<times> CoreStatics \<Rightarrow> pc \<Rightarrow> (UnsafeTicketLock \<times> CoreStatics) \<times> pc" where
  "lock_step i (l, cs) LoadShattered = ((l, cs), if shattered l then Holding Shattered else EnterLock)"
| "lock_step i (l, cs) EnterLock = ((l, enter_lock (\<not> preemtable l) cs), DrawTicket)"
| "lock_step i (l, cs) DrawTicket = ((l\<lparr>next_ticket := next_ticket l + 1\<rparr>, cs), LoadCurrent (next_ticket l))"
| "lock_step i (l, cs) (LoadCurrent t) = ((l, cs), if current_ticket l = t then StoreOwner else LoadOwner t)"
| "lock_step i (l, cs) (LoadOwner t) =
     ((l, cs), if owner l \<noteq> NOT 0 \<and> owner l = ucast i then Panicked else SpinCurrent t)"
| "lock_step i (l, cs) (SpinCurrent t) = ((l, cs), if current_ticket l = t then LoadCurrent t else SpinCurrent t)"
| "lock_step i (l, cs) StoreOwner = ((l\<lparr>owner := ucast i\<rparr>, cs), Holding Acquired)"
| "lock_step i (l, cs) pc = ((l, cs), pc)"

text \<open>\<open>unlock\<close>, with the check of debug builds.\<close>

definition is_unlocked :: "UnsafeTicketLock \<Rightarrow> bool" where
  "is_unlocked l \<longleftrightarrow> owner l = NOT 0"

definition is_preemtable :: "UnsafeTicketLock \<Rightarrow> bool" where
  "is_preemtable l = preemtable l"

fun unlock_step :: "UnsafeTicketLock \<times> CoreStatics \<Rightarrow> pc \<Rightarrow> (UnsafeTicketLock \<times> CoreStatics) \<times> pc" where
  "unlock_step (l, cs) LoadUnlocked = ((l, cs), if is_unlocked l then LoadShatteredUnlock else ClearOwner)"
| "unlock_step (l, cs) LoadShatteredUnlock = ((l, cs), if \<not> shattered l then Panicked else ClearOwner)"
| "unlock_step (l, cs) ClearOwner = ((l\<lparr>owner := NOT 0\<rparr>, cs), NextTicket)"
| "unlock_step (l, cs) NextTicket = ((l\<lparr>current_ticket := current_ticket l + 1\<rparr>, cs), ExitLock)"
| "unlock_step (l, cs) ExitLock = ((l, exit_lock (\<not> preemtable l) cs), Outside)"
| "unlock_step (l, cs) pc = ((l, cs), pc)"

definition shatter_permanent :: "UnsafeTicketLock \<Rightarrow> UnsafeTicketLock" where
  "shatter_permanent l = l\<lparr>shattered := True\<rparr>"

definition in_lock :: "pc \<Rightarrow> bool" where
  "in_lock p \<longleftrightarrow> (case p of LoadShattered \<Rightarrow> True | EnterLock \<Rightarrow> True | DrawTicket \<Rightarrow> True | LoadCurrent _ \<Rightarrow> True
     | LoadOwner _ \<Rightarrow> True | SpinCurrent _ \<Rightarrow> True | StoreOwner \<Rightarrow> True | _ \<Rightarrow> False)"

definition in_unlock :: "pc \<Rightarrow> bool" where
  "in_unlock p \<longleftrightarrow> p \<in> {LoadUnlocked, LoadShatteredUnlock, ClearOwner, NextTicket, ExitLock}"

section \<open>Runs\<close>

record ticket_system =
  lock_of :: UnsafeTicketLock
  cores :: "u8 \<Rightarrow> CoreStatics"
  pcs :: "u8 \<Rightarrow> pc"

definition set_core :: "u8 \<Rightarrow> (UnsafeTicketLock \<times> CoreStatics) \<times> pc \<Rightarrow> ticket_system \<Rightarrow> ticket_system" where
  "set_core i r S = \<lparr>lock_of = fst (fst r), cores = (cores S)(i := snd (fst r)), pcs = (pcs S)(i := snd r)\<rparr>"

text \<open>
  Some core calls \<open>lock\<close>, makes its next access, or drops its guard, which calls \<open>unlock\<close>. A core that holds the lock stays
  there as long as it likes.
\<close>

inductive ticket_step :: "ticket_system \<Rightarrow> ticket_system \<Rightarrow> bool" where
  call_lock: "pcs S i = Outside \<Longrightarrow>
    ticket_step S (set_core i ((lock_of S, cores S i), lock_call (lock_of S) (cores S i)) S)"
| in_lock: "in_lock (pcs S i) \<Longrightarrow> ticket_step S (set_core i (lock_step i (lock_of S, cores S i) (pcs S i)) S)"
| drop_guard: "pcs S i = Holding r \<Longrightarrow> ticket_step S (set_core i ((lock_of S, cores S i), LoadUnlocked) S)"
| in_unlock: "in_unlock (pcs S i) \<Longrightarrow> ticket_step S (set_core i (unlock_step (lock_of S, cores S i) (pcs S i)) S)"

definition ticket_start :: "ticket_system \<Rightarrow> bool" where
  "ticket_start S \<longleftrightarrow> lock_of S \<in> {ticket_lock_new, ticket_lock_new_non_preemtable}
     \<and> (\<forall>i. pcs S i = Outside \<and> \<not> in_interrupt (cores S i))"

text \<open>The ticket of a core, while it has one, as its distance from the ticket that is served.\<close>

fun drawn :: "UnsafeTicketLock \<Rightarrow> pc \<Rightarrow> u64 option" where
  "drawn l (LoadCurrent t) = Some t"
| "drawn l (LoadOwner t) = Some t"
| "drawn l (SpinCurrent t) = Some t"
| "drawn l StoreOwner = Some (current_ticket l)"
| "drawn l (Holding r) = Some (current_ticket l)"
| "drawn l LoadUnlocked = Some (current_ticket l)"
| "drawn l LoadShatteredUnlock = Some (current_ticket l)"
| "drawn l ClearOwner = Some (current_ticket l)"
| "drawn l NextTicket = Some (current_ticket l)"
| "drawn l _ = None"

text \<open>
  The invariant: the cores with a ticket form a queue, with consecutive tickets from the one that is served to the next to be drawn;
  only the first of the queue is past the wait, and the owner is set exactly while it holds the lock.
\<close>

definition owns :: "pc \<Rightarrow> bool" where
  "owns p \<longleftrightarrow> p \<in> {Holding Acquired, LoadUnlocked, ClearOwner}"

definition tickets_inv :: "UnsafeTicketLock \<Rightarrow> (u8 \<Rightarrow> pc) \<Rightarrow> u8 list \<Rightarrow> bool" where
  "tickets_inv l p Q \<longleftrightarrow> distinct Q \<and> (\<forall>i. i \<in> set Q \<longleftrightarrow> drawn l (p i) \<noteq> None)
     \<and> (\<forall>k < length Q. drawn l (p (Q ! k)) = Some (current_ticket l + word_of_nat k))
     \<and> next_ticket l = current_ticket l + word_of_nat (length Q)
     \<and> (\<forall>i. owns (p i) \<longrightarrow> owner l = ucast i)
     \<and> ((\<forall>i. \<not> owns (p i)) \<longrightarrow> owner l = NOT 0)
     \<and> (\<forall>i. p i \<notin> {Panicked, Holding Shattered, LoadShatteredUnlock}) \<and> \<not> shattered l"

lemma queue_length: "distinct (Q :: u8 list) \<Longrightarrow> length Q \<le> 256"
  using card_mono [of "UNIV :: u8 set" "set Q"] by (simp add: distinct_card card_word)

lemma word_of_nat_small:
  assumes "m \<le> 256" "n \<le> 256"
  shows "(word_of_nat m :: u64) = word_of_nat n \<longleftrightarrow> m = n"
  using assms by (simp add: word_of_nat_eq_iff take_bit_nat_eq_self)

lemma ucast_owner: "(ucast (i :: u8) :: u16) \<noteq> NOT 0" "(ucast (i :: u8) :: u16) = ucast (j :: u8) \<longleftrightarrow> i = j"
proof -
  show "(ucast i :: u16) \<noteq> NOT 0"
  proof
    assume "(ucast i :: u16) = NOT 0"
    then have "bit (ucast i :: u16) 8 = bit (NOT 0 :: u16) 8" by simp
    then show False by (auto simp: bit_simps dest: bit_imp_le_length)
  qed
  have "ucast (ucast i :: u16) = i" for i :: u8 by (rule ucast_back) simp
  then show "(ucast i :: u16) = ucast j \<longleftrightarrow> i = j" by metis
qed

lemma drawn_update [simp]:
  "drawn (l\<lparr>next_ticket := t\<rparr>) q = drawn l q" "drawn (l\<lparr>owner := j\<rparr>) q = drawn l q"
  by (cases q; simp)+

lemma queue_head:
  assumes "tickets_inv l p Q" "drawn l (p i) = Some (current_ticket l)"
  obtains Q' where "Q = i # Q'"
proof -
  have "i \<in> set Q" using assms by (auto simp: tickets_inv_def)
  then obtain k where k: "k < length Q" "Q ! k = i" by (auto simp: in_set_conv_nth)
  have "current_ticket l + word_of_nat k = current_ticket l" using assms k by (auto simp: tickets_inv_def)
  moreover have "k \<le> 256" using queue_length [of Q] k assms(1) by (simp add: tickets_inv_def)
  ultimately have "k = 0" using word_of_nat_small [of k 0] by simp
  then show ?thesis using that [of "tl Q"] k by (cases Q) auto
qed

text \<open>A step that changes neither the lock nor the ticket and the ownership of its core.\<close>

lemma tickets_inv_move:
  assumes "tickets_inv l p Q" "drawn l p' = drawn l (p i)" "owns p' = owns (p i)" "p' \<notin> {Panicked, Holding Shattered, LoadShatteredUnlock}"
  shows "tickets_inv l (p(i := p')) Q"
  using assms unfolding tickets_inv_def by (auto simp: fun_upd_apply)

lemma tickets_inv_draw:
  assumes "tickets_inv l p Q" "p i = DrawTicket"
  shows "tickets_inv (l\<lparr>next_ticket := next_ticket l + 1\<rparr>) (p(i := LoadCurrent (next_ticket l))) (Q @ [i])"
proof -
  let ?p = "p(i := LoadCurrent (next_ticket l))"
  have i: "i \<notin> set Q" using assms by (auto simp: tickets_inv_def)
  have tickets: "drawn l (?p ((Q @ [i]) ! k)) = Some (current_ticket l + word_of_nat k)" if "k < length (Q @ [i])" for k
  proof (cases "k = length Q")
    case True
    then show ?thesis using assms(1) by (simp add: tickets_inv_def)
  next
    case False
    then have k: "k < length Q" using that by simp
    then have "Q ! k \<noteq> i" using i by auto
    then show ?thesis using k assms(1) by (simp add: tickets_inv_def nth_append)
  qed
  have own: "owns (?p j) \<longleftrightarrow> owns (p j)" for j using assms(2) by (auto simp: owns_def)
  have "\<forall>j. ?p j \<notin> {Panicked, Holding Shattered, LoadShatteredUnlock}" using assms(1) by (simp add: tickets_inv_def)
  moreover have "\<forall>j. j \<in> set (Q @ [i]) \<longleftrightarrow> drawn l (?p j) \<noteq> None" using assms(1) by (auto simp: tickets_inv_def)
  moreover have "distinct (Q @ [i])" using i assms(1) by (simp add: tickets_inv_def)
  moreover have "next_ticket l + 1 = current_ticket l + word_of_nat (length (Q @ [i]))" using assms(1) by (simp add: tickets_inv_def)
  ultimately show ?thesis
    using assms(1) tickets unfolding tickets_inv_def own by simp
qed

lemma tickets_inv_store:
  assumes "tickets_inv l p Q" "p i = StoreOwner"
  shows "tickets_inv (l\<lparr>owner := ucast i\<rparr>) (p(i := Holding Acquired)) Q"
proof -
  obtain Q' where Q: "Q = i # Q'" by (rule queue_head [OF assms(1), of i]) (use assms(2) in auto)
  have "\<not> owns (p j)" if "j \<noteq> i" for j
  proof
    assume "owns (p j)"
    then have "drawn l (p j) = Some (current_ticket l)" by (auto simp: owns_def)
    then obtain Q'' where "Q = j # Q''" by (rule queue_head [OF assms(1)])
    then show False using Q that by simp
  qed
  then show ?thesis using assms by (auto simp: tickets_inv_def owns_def)
qed

lemma tickets_inv_clear:
  assumes "tickets_inv l p Q" "p i = ClearOwner"
  shows "tickets_inv (l\<lparr>owner := NOT 0\<rparr>) (p(i := NextTicket)) Q"
proof -
  have own: "owner l = ucast i" using assms by (auto simp: tickets_inv_def owns_def)
  have "\<not> owns (p j)" if "j \<noteq> i" for j
    using assms(1) own that ucast_owner(2) [of i j] by (auto simp: tickets_inv_def)
  then show ?thesis using assms by (auto simp: tickets_inv_def owns_def)
qed

lemma tickets_inv_next:
  assumes "tickets_inv l p Q" "p i = NextTicket"
  shows "tickets_inv (l\<lparr>current_ticket := current_ticket l + 1\<rparr>) (p(i := ExitLock)) (tl Q)"
proof -
  let ?l = "l\<lparr>current_ticket := current_ticket l + 1\<rparr>"
  obtain Q' where Q: "Q = i # Q'" by (rule queue_head [OF assms(1), of i]) (use assms(2) in auto)
  have waits: "drawn ?l (p j) = drawn l (p j)" if "j \<noteq> i" for j
  proof (cases "drawn l (p j) = Some (current_ticket l)")
    case True
    then obtain Q'' where "Q = j # Q''" by (rule queue_head [OF assms(1)])
    then show ?thesis using Q that by simp
  next
    case False
    then show ?thesis by (cases "p j") auto
  qed
  have i: "i \<notin> set Q'" and t: "\<And>k. k < length Q' \<Longrightarrow> drawn l (p (Q' ! k)) = Some (current_ticket l + word_of_nat (Suc k))"
    using assms(1) unfolding tickets_inv_def Q by force+
  have "drawn ?l ((p(i := ExitLock)) (Q' ! k)) = Some (current_ticket l + 1 + word_of_nat k)" if k: "k < length Q'" for k
  proof -
    have "Q' ! k \<noteq> i" using i k by auto
    then show ?thesis using t [OF k] waits by (simp add: ac_simps)
  qed
  moreover have "j \<in> set Q' \<longleftrightarrow> drawn ?l ((p(i := ExitLock)) j) \<noteq> None" for j
    using assms(1) i waits [of j] by (auto simp: tickets_inv_def Q)
  moreover have "owns ((p(i := ExitLock)) j) \<longleftrightarrow> owns (p j)" for j using assms(2) by (auto simp: owns_def)
  ultimately show ?thesis
    using assms unfolding tickets_inv_def Q by (auto simp: ac_simps)
qed

section \<open>Every step keeps the queue\<close>

text \<open>
  The abstract lock is the queue: drawing a ticket appends the core, passing the lock on removes the first, every
  other access leaves it.
\<close>

definition ticket_inv :: "ticket_system \<Rightarrow> u8 list \<Rightarrow> bool" where
  "ticket_inv S Q \<longleftrightarrow> tickets_inv (lock_of S) (pcs S) Q \<and> (\<forall>i. \<not> in_interrupt (cores S i))"

definition queue_after :: "u8 \<Rightarrow> pc \<Rightarrow> u8 list \<Rightarrow> u8 list" where
  "queue_after i p Q = (case p of DrawTicket \<Rightarrow> Q @ [i] | NextTicket \<Rightarrow> tl Q | _ \<Rightarrow> Q)"

lemma in_interrupt_lock [simp]: "in_interrupt (enter_lock d cs) = in_interrupt cs" "in_interrupt (exit_lock d cs) = in_interrupt cs"
  by (simp_all add: in_interrupt_def enter_lock_def exit_lock_def disable_interrupts_guardless_def enable_interrupts_def Let_def)

lemma lock_step_inv:
  assumes "ticket_inv S Q" "in_lock (pcs S i)"
  shows "ticket_inv (set_core i (lock_step i (lock_of S, cores S i) (pcs S i)) S) (queue_after i (pcs S i) Q)"
proof -
  have inv: "tickets_inv (lock_of S) (pcs S) Q" using assms(1) by (simp add: ticket_inv_def)
  have no_panic: "owner (lock_of S) \<noteq> ucast i" if "pcs S i = LoadOwner t" for t
    using inv that ucast_owner by (auto simp: tickets_inv_def owns_def) metis+
  have whole: "\<not> shattered (lock_of S)" using inv by (simp add: tickets_inv_def)
  note move = tickets_inv_move [OF inv, of _ i]
  show ?thesis
  proof (cases "pcs S i")
    case DrawTicket
    then show ?thesis using tickets_inv_draw [OF inv DrawTicket] assms(1) by (simp add: ticket_inv_def set_core_def queue_after_def)
  next
    case StoreOwner
    then show ?thesis using tickets_inv_store [OF inv StoreOwner] assms(1) by (simp add: ticket_inv_def set_core_def queue_after_def)
  qed (use assms move no_panic whole in \<open>auto simp: ticket_inv_def set_core_def queue_after_def in_lock_def owns_def\<close>)
qed

lemma unlock_step_inv:
  assumes "ticket_inv S Q" "in_unlock (pcs S i)"
  shows "ticket_inv (set_core i (unlock_step (lock_of S, cores S i) (pcs S i)) S) (queue_after i (pcs S i) Q)"
proof -
  have inv: "tickets_inv (lock_of S) (pcs S) Q" using assms(1) by (simp add: ticket_inv_def)
  have owned: "owner (lock_of S) = ucast i" if "pcs S i = LoadUnlocked"
    using inv that by (auto simp: tickets_inv_def owns_def)
  have never: "pcs S i \<noteq> LoadShatteredUnlock" using inv by (auto simp: tickets_inv_def)
  note move = tickets_inv_move [OF inv, of _ i]
  show ?thesis
  proof (cases "pcs S i")
    case ClearOwner
    then show ?thesis using tickets_inv_clear [OF inv ClearOwner] assms(1) by (simp add: ticket_inv_def set_core_def queue_after_def)
  next
    case NextTicket
    then show ?thesis using tickets_inv_next [OF inv NextTicket] assms(1) by (simp add: ticket_inv_def set_core_def queue_after_def)
  qed (use assms move owned never ucast_owner(1) in
      \<open>auto simp: ticket_inv_def set_core_def queue_after_def in_unlock_def owns_def is_unlocked_def\<close>)
qed

lemma ticket_step_inv:
  assumes "ticket_step S S'" "ticket_inv S Q"
  shows "\<exists>Q'. ticket_inv S' Q'"
  using assms(1)
proof cases
  case (call_lock i)
  then show ?thesis
    using assms(2) tickets_inv_move [of "lock_of S" "pcs S" Q LoadShattered i]
    by (auto simp: ticket_inv_def set_core_def lock_call_def owns_def)
next
  case (in_lock i)
  then show ?thesis using lock_step_inv [OF assms(2)] by blast
next
  case (drop_guard i r)
  have "r = Acquired" using assms(2) drop_guard(2) by (cases r) (auto simp: ticket_inv_def tickets_inv_def)
  then show ?thesis
    using drop_guard assms(2) tickets_inv_move [of "lock_of S" "pcs S" Q LoadUnlocked i]
    by (auto simp: ticket_inv_def set_core_def owns_def)
next
  case (in_unlock i)
  then show ?thesis using unlock_step_inv [OF assms(2)] by blast
qed

lemma ticket_start_inv: "ticket_start S \<Longrightarrow> ticket_inv S []"
  by (auto simp: ticket_start_def ticket_inv_def tickets_inv_def ticket_lock_new_def ticket_lock_new_non_preemtable_def owns_def)

lemma ticket_steps_inv:
  assumes "ticket_step\<^sup>*\<^sup>* S S'" "ticket_start S"
  obtains Q where "ticket_inv S' Q"
proof -
  from assms(1) have "\<exists>Q. ticket_inv S' Q"
    by (induction rule: rtranclp_induct) (auto intro: ticket_start_inv [OF assms(2)] dest: ticket_step_inv)
  then show ?thesis using that by blast
qed

text \<open>
  (C21) The ticket lock is a first-come-first-served mutual exclusion lock. In every state that any interleaving of the cores can
  reach, no core has panicked, neither with the report of a deadlock nor because the lock was not taken; the cores that have drawn a ticket
  form a queue with consecutive tickets; and at most one core holds the lock, the first of that queue.
\<close>

theorem ticket_lock_fifo:
  assumes "ticket_start S" "ticket_step\<^sup>*\<^sup>* S S'"
  shows "\<exists>Q. distinct Q \<and> (\<forall>k < length Q. drawn (lock_of S') (pcs S' (Q ! k)) = Some (current_ticket (lock_of S') + word_of_nat k))
    \<and> (\<forall>i. i \<in> set Q \<longleftrightarrow> drawn (lock_of S') (pcs S' i) \<noteq> None)
    \<and> (\<forall>i r. pcs S' i = Holding r \<longrightarrow> r = Acquired \<and> Q \<noteq> [] \<and> hd Q = i) \<and> (\<forall>i. pcs S' i \<noteq> Panicked)"
proof -
  obtain Q where "ticket_inv S' Q" by (rule ticket_steps_inv [OF assms(2,1)])
  then have inv: "tickets_inv (lock_of S') (pcs S') Q" by (simp add: ticket_inv_def)
  have "r = Acquired \<and> Q \<noteq> [] \<and> hd Q = i" if "pcs S' i = Holding r" for i r
  proof -
    have "drawn (lock_of S') (pcs S' i) = Some (current_ticket (lock_of S'))" using that by simp
    then obtain Q' where "Q = i # Q'" by (rule queue_head [OF inv])
    moreover have "r = Acquired" using inv that by (cases r) (auto simp: tickets_inv_def)
    ultimately show ?thesis by simp
  qed
  then show ?thesis using inv unfolding tickets_inv_def by blast
qed

text \<open>A concrete run: core 7 calls \<open>lock\<close> and draws a ticket.\<close>

definition run_core :: "u8 \<Rightarrow> ticket_system \<Rightarrow> ticket_system" where
  "run_core i S = set_core i (lock_step i (lock_of S, cores S i) (pcs S i)) S"

definition call_core :: "u8 \<Rightarrow> ticket_system \<Rightarrow> ticket_system" where
  "call_core i S = set_core i ((lock_of S, cores S i), lock_call (lock_of S) (cores S i)) S"

definition demo_start :: ticket_system where
  "demo_start = \<lparr>lock_of = ticket_lock_new, cores = (\<lambda>i. core_empty\<lparr>core_id := i\<rparr>), pcs = (\<lambda>i. Outside)\<rparr>"

definition demo_end :: ticket_system where
  "demo_end = run_core 7 (run_core 7 (run_core 7 (call_core 7 demo_start)))"

lemma run_core_step: "ticket_step\<^sup>*\<^sup>* S0 S \<Longrightarrow> in_lock (pcs S i) \<Longrightarrow> ticket_step\<^sup>*\<^sup>* S0 (run_core i S)"
  unfolding run_core_def by (meson rtranclp.rtrancl_into_rtrancl ticket_step.in_lock)

lemma call_core_step: "ticket_step\<^sup>*\<^sup>* S0 S \<Longrightarrow> pcs S i = Outside \<Longrightarrow> ticket_step\<^sup>*\<^sup>* S0 (call_core i S)"
  unfolding call_core_def by (meson rtranclp.rtrancl_into_rtrancl ticket_step.call_lock)

lemmas demo_defs = run_core_def call_core_def set_core_def lock_call_def demo_start_def ticket_lock_new_def core_empty_def
  in_interrupt_def in_lock_def

lemma demo_start: "ticket_start demo_start"
  by (simp add: ticket_start_def demo_start_def core_empty_def in_interrupt_def)

lemma demo_end: "ticket_step\<^sup>*\<^sup>* demo_start demo_end"
  unfolding demo_end_def by (intro run_core_step call_core_step rtranclp.rtrancl_refl) (simp_all add: demo_defs)

lemma demo_ticket: "pcs demo_end 7 = LoadCurrent 0" "current_ticket (lock_of demo_end) = 0"
  by (simp_all add: demo_end_def demo_defs)

theorem ticket_lock_fifo_witness:
  "ticket_step\<^sup>*\<^sup>* demo_start demo_end \<and> pcs demo_end 7 = LoadCurrent 0
    \<and> (\<exists>Q. distinct Q \<and> (7 :: u8) \<in> set Q \<and> (\<forall>i. pcs demo_end i \<noteq> Panicked))"
proof -
  obtain Q where Q: "distinct Q" "\<forall>i. i \<in> set Q \<longleftrightarrow> drawn (lock_of demo_end) (pcs demo_end i) \<noteq> None" "\<forall>i. pcs demo_end i \<noteq> Panicked"
    using ticket_lock_fifo [OF demo_start demo_end] by blast
  then have "7 \<in> set Q" using demo_ticket(1) by simp
  then show ?thesis using Q demo_end demo_ticket(1) by blast
qed

text \<open>
  (C22) The lock does not get stuck: in every reachable state the first core of the queue, if it is still waiting, holds the lock
  after at most four more accesses of its own.
\<close>

theorem ticket_lock_progress:
  assumes "ticket_start S" "ticket_step\<^sup>*\<^sup>* S S'" "drawn (lock_of S') (pcs S' i) = Some (current_ticket (lock_of S'))" "in_lock (pcs S' i)"
  shows "\<exists>n \<le> 4. pcs ((run_core i ^^ n) S') i = Holding Acquired"
proof -
  obtain Q where "ticket_inv S' Q" by (rule ticket_steps_inv [OF assms(2,1)])
  then have inv: "tickets_inv (lock_of S') (pcs S') Q" by (simp add: ticket_inv_def)
  have no_panic: "owner (lock_of S') \<noteq> ucast i" if "pcs S' i = LoadOwner t" for t
    using inv that ucast_owner by (auto simp: tickets_inv_def owns_def) metis+
  have one: "pcs ((run_core i ^^ 1) S') i = Holding Acquired" if "pcs S' i = StoreOwner"
    using that by (simp add: run_core_def set_core_def)
  have two: "pcs ((run_core i ^^ 2) S') i = Holding Acquired" if "pcs S' i = LoadCurrent (current_ticket (lock_of S'))"
    using that by (simp add: run_core_def set_core_def numeral_2_eq_2)
  have three: "pcs ((run_core i ^^ 3) S') i = Holding Acquired" if "pcs S' i = SpinCurrent (current_ticket (lock_of S'))"
    using that by (simp add: run_core_def set_core_def numeral_3_eq_3)
  have four: "pcs ((run_core i ^^ 4) S') i = Holding Acquired" if "pcs S' i = LoadOwner (current_ticket (lock_of S'))"
    using that no_panic by (simp add: run_core_def set_core_def eval_nat_numeral)
  from assms(3,4) consider "pcs S' i = StoreOwner" | "pcs S' i = LoadCurrent (current_ticket (lock_of S'))"
    | "pcs S' i = SpinCurrent (current_ticket (lock_of S'))" | "pcs S' i = LoadOwner (current_ticket (lock_of S'))"
    by (cases "pcs S' i") (auto simp: in_lock_def)
  then show ?thesis
  proof cases
    case 1
    show ?thesis by (intro exI [of _ 1] conjI one [OF 1]) simp
  next
    case 2
    show ?thesis by (intro exI [of _ 2] conjI two [OF 2]) simp
  next
    case 3
    show ?thesis by (intro exI [of _ 3] conjI three [OF 3]) simp
  next
    case 4
    show ?thesis by (intro exI [of _ 4] conjI four [OF 4]) simp
  qed
qed

theorem ticket_lock_progress_witness:
  "\<exists>n \<le> 4. pcs ((run_core 7 ^^ n) demo_end) 7 = Holding Acquired"
  by (rule ticket_lock_progress [OF demo_start demo_end]) (simp_all add: demo_ticket in_lock_def)

section \<open>Shattered locks\<close>

text \<open>
  A shattered lock hands out guards without \<open>enter_lock\<close>, but dropping such a guard runs \<open>exit_lock\<close> all the same: the
  core is left with one disabling less than before.
\<close>

definition unlock_all :: "UnsafeTicketLock \<times> CoreStatics \<Rightarrow> (UnsafeTicketLock \<times> CoreStatics) \<times> pc" where
  "unlock_all s = ((\<lambda>(s, p). unlock_step s p) ^^ 5) (s, LoadUnlocked)"

lemma shattered_guard_unbalanced:
  assumes "shattered l" "owner l = NOT 0" "\<not> preemtable l"
  shows "lock_step i (l, cs) LoadShattered = ((l, cs), Holding Shattered)"
    "unlock_all (l, cs) = ((l\<lparr>owner := NOT 0, current_ticket := current_ticket l + 1\<rparr>, enable_interrupts cs), Outside)"
  using assms by (simp_all add: unlock_all_def eval_nat_numeral is_unlocked_def exit_lock_def)

end
