(* ===== verification/RW_Cell.thy ===== *)
theory RW_Cell
  imports Ticket_Lock
begin

text \<open>
  The read-write lock of \<open>sync/lockcell.rs\<close> and the wrapper for uninitialised data, again with one step per atomic access.
\<close>

section \<open>Reading and writing\<close>

record ReadWriteCell =
  access_count :: int
  rw_preemtable :: bool

definition rw_new :: ReadWriteCell where
  "rw_new = \<lparr>access_count = 0, rw_preemtable = True\<rparr>"

definition rw_new_non_preemtable :: ReadWriteCell where
  "rw_new_non_preemtable = \<lparr>access_count = 0, rw_preemtable = False\<rparr>"

text \<open>The program points of \<open>read\<close>, \<open>lock\<close> and the two releases. \<open>cur_count\<close> is the local variable of \<open>read\<close>.\<close>

datatype rw_pc =
    RwOutside
  | ReadEnter
  | ReadLoad
  | ReadCas int
  | Reading
  | ReadSub
  | ReadExit
  | WriteEnter
  | WriteCas
  | Writing
  | WriteSwap
  | WriteExit
  | RwPanicked

definition isize_max :: int where
  "isize_max = 2 ^ 63 - 1"

fun read_step :: "ReadWriteCell \<times> CoreStatics \<Rightarrow> rw_pc \<Rightarrow> (ReadWriteCell \<times> CoreStatics) \<times> rw_pc" where
  "read_step (c, cs) ReadEnter = ((c, enter_lock False cs), ReadLoad)"
| "read_step (c, cs) ReadLoad = ((c, cs), if access_count c < 0 then ReadLoad else ReadCas (access_count c))"
| "read_step (c, cs) (ReadCas cur_count) =
     (if cur_count = isize_max then ((c, cs), RwPanicked)
      else if access_count c = cur_count then
        ((c\<lparr>access_count := cur_count + 1\<rparr>, cs), if 0 \<le> cur_count then Reading else RwPanicked)
      else ((c, cs), if access_count c < 0 then ReadLoad else ReadCas (access_count c)))"
| "read_step (c, cs) pc = ((c, cs), pc)"

definition write_call :: "ReadWriteCell \<Rightarrow> CoreStatics \<Rightarrow> rw_pc" where
  "write_call c cs = (if \<not> rw_preemtable c \<or> \<not> in_interrupt cs then WriteEnter else RwPanicked)"

fun write_step :: "ReadWriteCell \<times> CoreStatics \<Rightarrow> rw_pc \<Rightarrow> (ReadWriteCell \<times> CoreStatics) \<times> rw_pc" where
  "write_step (c, cs) WriteEnter = ((c, enter_lock (\<not> rw_preemtable c) cs), WriteCas)"
| "write_step (c, cs) WriteCas =
     (if access_count c = 0 then ((c\<lparr>access_count := - 1\<rparr>, cs), Writing) else ((c, cs), WriteCas))"
| "write_step (c, cs) pc = ((c, cs), pc)"

fun release_read_step :: "ReadWriteCell \<times> CoreStatics \<Rightarrow> rw_pc \<Rightarrow> (ReadWriteCell \<times> CoreStatics) \<times> rw_pc" where
  "release_read_step (c, cs) ReadSub =
     ((c\<lparr>access_count := access_count c - 1\<rparr>, cs), if 1 \<le> access_count c then ReadExit else RwPanicked)"
| "release_read_step (c, cs) ReadExit = ((c, exit_lock False cs), RwOutside)"
| "release_read_step (c, cs) pc = ((c, cs), pc)"

fun unlock_write_step :: "ReadWriteCell \<times> CoreStatics \<Rightarrow> rw_pc \<Rightarrow> (ReadWriteCell \<times> CoreStatics) \<times> rw_pc" where
  "unlock_write_step (c, cs) WriteSwap = ((c\<lparr>access_count := 0\<rparr>, cs), if access_count c = - 1 then WriteExit else RwPanicked)"
| "unlock_write_step (c, cs) WriteExit = ((c, exit_lock (\<not> rw_preemtable c) cs), RwOutside)"
| "unlock_write_step (c, cs) pc = ((c, cs), pc)"

definition open_to_read :: "ReadWriteCell \<Rightarrow> bool" where
  "open_to_read c \<longleftrightarrow> 0 \<le> access_count c"

definition rw_is_unlocked :: "ReadWriteCell \<Rightarrow> bool" where
  "rw_is_unlocked c \<longleftrightarrow> access_count c = 0"

definition rw_shatter_permanent :: "ReadWriteCell \<Rightarrow> ReadWriteCell" where
  "rw_shatter_permanent c = c\<lparr>access_count := 0\<rparr>"

section \<open>Runs\<close>

record rw_system =
  cell_of :: ReadWriteCell
  rw_cores :: "u8 \<Rightarrow> CoreStatics"
  rw_pcs :: "u8 \<Rightarrow> rw_pc"

definition set_rw :: "u8 \<Rightarrow> (ReadWriteCell \<times> CoreStatics) \<times> rw_pc \<Rightarrow> rw_system \<Rightarrow> rw_system" where
  "set_rw i r S = \<lparr>cell_of = fst (fst r), rw_cores = (rw_cores S)(i := snd (fst r)), rw_pcs = (rw_pcs S)(i := snd r)\<rparr>"

inductive rw_step :: "rw_system \<Rightarrow> rw_system \<Rightarrow> bool" where
  call_read: "rw_pcs S i = RwOutside \<Longrightarrow> rw_step S (set_rw i ((cell_of S, rw_cores S i), ReadEnter) S)"
| call_write: "rw_pcs S i = RwOutside \<Longrightarrow>
    rw_step S (set_rw i ((cell_of S, rw_cores S i), write_call (cell_of S) (rw_cores S i)) S)"
| in_read: "rw_pcs S i \<in> {ReadEnter, ReadLoad} \<union> range ReadCas \<Longrightarrow>
    rw_step S (set_rw i (read_step (cell_of S, rw_cores S i) (rw_pcs S i)) S)"
| in_write: "rw_pcs S i \<in> {WriteEnter, WriteCas} \<Longrightarrow>
    rw_step S (set_rw i (write_step (cell_of S, rw_cores S i) (rw_pcs S i)) S)"
| drop_read: "rw_pcs S i = Reading \<Longrightarrow> rw_step S (set_rw i ((cell_of S, rw_cores S i), ReadSub) S)"
| drop_write: "rw_pcs S i = Writing \<Longrightarrow> rw_step S (set_rw i ((cell_of S, rw_cores S i), WriteSwap) S)"
| in_release_read: "rw_pcs S i \<in> {ReadSub, ReadExit} \<Longrightarrow>
    rw_step S (set_rw i (release_read_step (cell_of S, rw_cores S i) (rw_pcs S i)) S)"
| in_unlock_write: "rw_pcs S i \<in> {WriteSwap, WriteExit} \<Longrightarrow>
    rw_step S (set_rw i (unlock_write_step (cell_of S, rw_cores S i) (rw_pcs S i)) S)"

definition rw_start :: "rw_system \<Rightarrow> bool" where
  "rw_start S \<longleftrightarrow> cell_of S \<in> {rw_new, rw_new_non_preemtable} \<and> (\<forall>i. rw_pcs S i = RwOutside \<and> \<not> in_interrupt (rw_cores S i))"

text \<open>The cores that hold a guard for reading or writing, until they have given it back.\<close>

definition readers :: "(u8 \<Rightarrow> rw_pc) \<Rightarrow> u8 set" where
  "readers p = {i. p i \<in> {Reading, ReadSub}}"

definition writers :: "(u8 \<Rightarrow> rw_pc) \<Rightarrow> u8 set" where
  "writers p = {i. p i \<in> {Writing, WriteSwap}}"

text \<open>
  The counter is the number of readers, or minus one with exactly one writer and no reader.
\<close>

definition rw_inv :: "rw_system \<Rightarrow> bool" where
  "rw_inv S \<longleftrightarrow>
     (access_count (cell_of S) = int (card (readers (rw_pcs S))) \<and> writers (rw_pcs S) = {}
       \<or> access_count (cell_of S) = - 1 \<and> readers (rw_pcs S) = {} \<and> (\<exists>w. writers (rw_pcs S) = {w}))
     \<and> (\<forall>i. rw_pcs S i \<noteq> RwPanicked \<and> \<not> in_interrupt (rw_cores S i) \<and> (\<forall>n. rw_pcs S i = ReadCas n \<longrightarrow> 0 \<le> n \<and> n \<le> 256))"

lemma readers_upd:
  "readers (p(i := q)) = (if q \<in> {Reading, ReadSub} then insert i (readers p) else readers p - {i})"
  by (auto simp: readers_def)

lemma writers_upd:
  "writers (p(i := q)) = (if q \<in> {Writing, WriteSwap} then insert i (writers p) else writers p - {i})"
  by (auto simp: writers_def)

lemma readers_bound: "card (readers p) \<le> 256"
  using card_mono [of "UNIV :: u8 set" "readers p"] by (simp add: card_word)

lemma in_readers: "i \<in> readers p \<longleftrightarrow> p i = Reading \<or> p i = ReadSub"
  by (auto simp: readers_def)

lemma in_writers: "i \<in> writers p \<longleftrightarrow> p i = Writing \<or> p i = WriteSwap"
  by (auto simp: writers_def)

lemma access_bound: "rw_inv S \<Longrightarrow> access_count (cell_of S) \<le> 256"
  using readers_bound [of "rw_pcs S"] by (auto simp: rw_inv_def)

lemma rw_invI:
  assumes "access_count c = int (card (readers p)) \<and> writers p = {} \<or> access_count c = - 1 \<and> readers p = {} \<and> (\<exists>w. writers p = {w})"
    "\<And>i. p i \<noteq> RwPanicked" "\<And>i. \<not> in_interrupt (cs i)" "\<And>i n. p i = ReadCas n \<Longrightarrow> 0 \<le> n \<and> n \<le> 256"
  shows "rw_inv \<lparr>cell_of = c, rw_cores = cs, rw_pcs = p\<rparr>"
  using assms by (auto simp: rw_inv_def)

text \<open>A step that changes neither the counter nor the guards.\<close>

lemma rw_inv_move:
  assumes "rw_inv S" "i \<notin> readers (rw_pcs S)" "i \<notin> writers (rw_pcs S)" "q \<notin> {Reading, ReadSub, Writing, WriteSwap, RwPanicked}"
    "\<And>n. q = ReadCas n \<Longrightarrow> 0 \<le> n \<and> n \<le> 256" "in_interrupt cs = in_interrupt (rw_cores S i)"
  shows "rw_inv (set_rw i ((cell_of S, cs), q) S)"
  unfolding set_rw_def by (rule rw_invI) (use assms in \<open>auto simp: rw_inv_def readers_upd writers_upd split: if_splits\<close>)

lemma read_acquire_inv:
  assumes "rw_inv S" "rw_pcs S i = ReadCas n" "access_count (cell_of S) = n"
  shows "rw_inv (set_rw i (((cell_of S)\<lparr>access_count := n + 1\<rparr>, rw_cores S i), Reading) S)"
proof -
  have n: "0 \<le> n" using assms(1,2) by (auto simp: rw_inv_def)
  then have "writers (rw_pcs S) = {}" "n = int (card (readers (rw_pcs S)))" using assms(1,3) by (auto simp: rw_inv_def)
  moreover have "i \<notin> readers (rw_pcs S)" using assms(2) by (simp add: in_readers)
  ultimately show ?thesis
    unfolding set_rw_def by (intro rw_invI) (use assms(1) in \<open>auto simp: rw_inv_def readers_upd writers_upd split: if_splits\<close>)
qed

lemma write_acquire_inv:
  assumes "rw_inv S" "rw_pcs S i = WriteCas" "access_count (cell_of S) = 0"
  shows "rw_inv (set_rw i (((cell_of S)\<lparr>access_count := - 1\<rparr>, rw_cores S i), Writing) S)"
proof -
  have "writers (rw_pcs S) = {}" "readers (rw_pcs S) = {}" using assms(1,3) by (auto simp: rw_inv_def)
  then show ?thesis
    unfolding set_rw_def by (intro rw_invI) (use assms(1) in \<open>auto simp: rw_inv_def readers_upd writers_upd split: if_splits\<close>)
qed

lemma read_release_inv:
  assumes "rw_inv S" "rw_pcs S i = ReadSub"
  shows "1 \<le> access_count (cell_of S)"
    "rw_inv (set_rw i (((cell_of S)\<lparr>access_count := access_count (cell_of S) - 1\<rparr>, rw_cores S i), ReadExit) S)"
proof -
  have i: "i \<in> readers (rw_pcs S)" using assms(2) by (simp add: in_readers)
  then have inv: "access_count (cell_of S) = int (card (readers (rw_pcs S)))" "writers (rw_pcs S) = {}"
    using assms(1) by (auto simp: rw_inv_def)
  have pos: "1 \<le> card (readers (rw_pcs S))" using i by (simp add: Suc_le_eq card_gt_0_iff) auto
  then show "1 \<le> access_count (cell_of S)" using inv by simp
  have "int (card (readers (rw_pcs S) - {i})) = int (card (readers (rw_pcs S))) - 1" using i pos by (simp add: of_nat_diff)
  then show "rw_inv (set_rw i (((cell_of S)\<lparr>access_count := access_count (cell_of S) - 1\<rparr>, rw_cores S i), ReadExit) S)"
    unfolding set_rw_def
    by (intro rw_invI) (use assms(1) inv in \<open>auto simp: rw_inv_def readers_upd writers_upd split: if_splits\<close>)
qed

lemma write_release_inv:
  assumes "rw_inv S" "rw_pcs S i = WriteSwap"
  shows "access_count (cell_of S) = - 1"
    "rw_inv (set_rw i (((cell_of S)\<lparr>access_count := 0\<rparr>, rw_cores S i), WriteExit) S)"
proof -
  have i: "i \<in> writers (rw_pcs S)" using assms(2) by (simp add: in_writers)
  then have inv: "access_count (cell_of S) = - 1" "readers (rw_pcs S) = {}" "writers (rw_pcs S) = {i}"
    using assms(1) by (auto simp: rw_inv_def)
  then show "access_count (cell_of S) = - 1" by simp
  show "rw_inv (set_rw i (((cell_of S)\<lparr>access_count := 0\<rparr>, rw_cores S i), WriteExit) S)"
    unfolding set_rw_def
    by (intro rw_invI) (use assms(1) inv in \<open>auto simp: rw_inv_def readers_upd writers_upd split: if_splits\<close>)
qed

text \<open>Dropping a guard moves between two points that both count as holding it.\<close>

lemma drop_inv:
  assumes "rw_inv S" "rw_pcs S i = Reading \<and> q = ReadSub \<or> rw_pcs S i = Writing \<and> q = WriteSwap"
  shows "rw_inv (set_rw i ((cell_of S, rw_cores S i), q) S)"
proof -
  have "readers ((rw_pcs S)(i := q)) = readers (rw_pcs S)" "writers ((rw_pcs S)(i := q)) = writers (rw_pcs S)"
    using assms(2) by (auto simp: readers_upd writers_upd in_readers in_writers)
  then show ?thesis
    unfolding set_rw_def by (intro rw_invI) (use assms in \<open>auto simp: rw_inv_def split: if_splits\<close>)
qed

lemma rw_step_inv:
  assumes "rw_step S S'" "rw_inv S"
  shows "rw_inv S'"
  using assms(1)
proof cases
  case (call_read i)
  then show ?thesis using rw_inv_move [OF assms(2), of i ReadEnter] by (simp add: in_readers in_writers)
next
  case (call_write i)
  then have "write_call (cell_of S) (rw_cores S i) = WriteEnter" using assms(2) by (simp add: write_call_def rw_inv_def)
  then show ?thesis using call_write rw_inv_move [OF assms(2), of i WriteEnter] by (simp add: in_readers in_writers)
next
  case (in_read i)
  have b: "access_count (cell_of S) \<le> 256" by (rule access_bound [OF assms(2)])
  have max: "n \<noteq> isize_max \<and> 0 \<le> n" if "rw_pcs S i = ReadCas n" for n
    using assms(2) that unfolding rw_inv_def isize_max_def by force
  show ?thesis
    using in_read(2) b max unfolding in_read(1)
    by (cases "rw_pcs S i") (auto simp: in_readers in_writers intro!: rw_inv_move [OF assms(2)] read_acquire_inv [OF assms(2)])
next
  case (in_write i)
  then show ?thesis
    by (auto simp: in_readers in_writers intro!: rw_inv_move [OF assms(2)] write_acquire_inv [OF assms(2)])
next
  case (drop_read i)
  then show ?thesis using drop_inv [OF assms(2)] by blast
next
  case (drop_write i)
  then show ?thesis using drop_inv [OF assms(2)] by blast
next
  case (in_release_read i)
  then show ?thesis
    by (auto simp: in_readers in_writers read_release_inv(1) [OF assms(2)]
      intro!: rw_inv_move [OF assms(2)] read_release_inv(2) [OF assms(2)])
next
  case (in_unlock_write i)
  then show ?thesis
    by (auto simp: in_readers in_writers write_release_inv(1) [OF assms(2)]
      intro!: rw_inv_move [OF assms(2)] write_release_inv(2) [OF assms(2)])
qed

lemma rw_start_inv: "rw_start S \<Longrightarrow> rw_inv S"
  by (auto simp: rw_start_def rw_inv_def rw_new_def rw_new_non_preemtable_def readers_def writers_def)

lemma rw_steps_inv: "rw_step\<^sup>*\<^sup>* S S' \<Longrightarrow> rw_inv S \<Longrightarrow> rw_inv S'"
  by (induction rule: rtranclp_induct) (auto dest: rw_step_inv)

text \<open>
  (C23) The read-write lock excludes writers: in every state that any interleaving of the cores can reach, a core that writes
  is alone, neither another writer nor a reader beside it, the counter is the number of readers or minus one, and no
  assertion of the lock fails.
\<close>

theorem rw_lock_exclusion:
  assumes "rw_start S" "rw_step\<^sup>*\<^sup>* S S'"
  shows "(\<forall>i j. rw_pcs S' i = Writing \<longrightarrow> rw_pcs S' j \<in> {Writing, Reading} \<longrightarrow> i = j)
    \<and> access_count (cell_of S') = (if writers (rw_pcs S') = {} then int (card (readers (rw_pcs S'))) else - 1)
    \<and> (\<forall>i. rw_pcs S' i \<noteq> RwPanicked)"
proof -
  have inv: "rw_inv S'" using rw_steps_inv [OF assms(2) rw_start_inv [OF assms(1)]] .
  have "i = j" if "rw_pcs S' i = Writing" "rw_pcs S' j \<in> {Writing, Reading}" for i j
  proof -
    have "i \<in> writers (rw_pcs S')" "j \<in> readers (rw_pcs S') \<union> writers (rw_pcs S')"
      using that by (auto simp: in_readers in_writers)
    then show ?thesis using inv by (auto simp: rw_inv_def)
  qed
  then show ?thesis using inv by (auto simp: rw_inv_def)
qed

definition rw_demo :: "rw_pc \<Rightarrow> int \<Rightarrow> rw_system" where
  "rw_demo p n = \<lparr>cell_of = rw_new\<lparr>access_count := n\<rparr>, rw_cores = (\<lambda>_. core_empty), rw_pcs = (\<lambda>_. RwOutside)(3 := p)\<rparr>"

lemma const_upd: "(\<lambda>_. c)(i := c) = (\<lambda>_. c)"
  by auto

lemma rw_demo_steps:
  "rw_step (rw_demo RwOutside 0) (rw_demo WriteEnter 0)" "rw_step (rw_demo WriteEnter 0) (rw_demo WriteCas 0)"
  "rw_step (rw_demo WriteCas 0) (rw_demo Writing (- 1))"
  using call_write [of "rw_demo RwOutside 0" 3] in_write [of "rw_demo WriteEnter 0" 3] in_write [of "rw_demo WriteCas 0" 3]
  by (simp_all add: rw_demo_def set_rw_def write_call_def rw_new_def in_interrupt_def core_empty_def enter_lock_def const_upd)

lemma rw_demo_run: "rw_start (rw_demo RwOutside 0)" "rw_step\<^sup>*\<^sup>* (rw_demo RwOutside 0) (rw_demo Writing (- 1))"
proof -
  show "rw_start (rw_demo RwOutside 0)" by (simp add: rw_start_def rw_demo_def rw_new_def in_interrupt_def core_empty_def)
  show "rw_step\<^sup>*\<^sup>* (rw_demo RwOutside 0) (rw_demo Writing (- 1))"
    using rw_demo_steps by (meson converse_rtranclp_into_rtranclp rtranclp.rtrancl_refl)
qed

theorem rw_lock_exclusion_witness:
  "rw_pcs (rw_demo Writing (- 1)) 3 = Writing \<and> rw_pcs (rw_demo Writing (- 1)) 4 \<notin> {Writing, Reading}
    \<and> access_count (cell_of (rw_demo Writing (- 1))) = - 1"
proof -
  have w: "rw_pcs (rw_demo Writing (- 1)) 3 = Writing" by (simp add: rw_demo_def)
  then have "writers (rw_pcs (rw_demo Writing (- 1))) \<noteq> {}" using in_writers by blast
  then have "access_count (cell_of (rw_demo Writing (- 1))) = - 1"
    using rw_lock_exclusion [OF rw_demo_run, THEN conjunct2, THEN conjunct1] by simp
  moreover have "rw_pcs (rw_demo Writing (- 1)) 4 \<notin> {Writing, Reading}"
    using rw_lock_exclusion [OF rw_demo_run, THEN conjunct1, rule_format, OF w, of 4] by auto
  ultimately show ?thesis using w by blast
qed

section \<open>The wrapper for uninitialised data\<close>

text \<open>
  \<open>UnwrapLock\<close> passes \<open>read\<close>, \<open>lock\<close> and \<open>unlock\<close> on to the wrapped lock. Its \<open>release_read\<close> calls its own \<open>force_release_read\<close>,
  which it does not implement, so that the empty body of the trait runs.
\<close>

definition unwrap_force_release_read :: "ReadWriteCell \<Rightarrow> ReadWriteCell" where
  "unwrap_force_release_read c = c"

definition unwrap_release_read :: "ReadWriteCell \<Rightarrow> ReadWriteCell" where
  "unwrap_release_read c = unwrap_force_release_read c"

inductive unwrap_step :: "rw_system \<Rightarrow> rw_system \<Rightarrow> bool" where
  unwrap_call_read: "rw_pcs S i = RwOutside \<Longrightarrow> unwrap_step S (set_rw i ((cell_of S, rw_cores S i), ReadEnter) S)"
| unwrap_call_write: "rw_pcs S i = RwOutside \<Longrightarrow>
    unwrap_step S (set_rw i ((cell_of S, rw_cores S i), write_call (cell_of S) (rw_cores S i)) S)"
| unwrap_in_read: "rw_pcs S i \<in> {ReadEnter, ReadLoad} \<union> range ReadCas \<Longrightarrow>
    unwrap_step S (set_rw i (read_step (cell_of S, rw_cores S i) (rw_pcs S i)) S)"
| unwrap_in_write: "rw_pcs S i \<in> {WriteEnter, WriteCas} \<Longrightarrow>
    unwrap_step S (set_rw i (write_step (cell_of S, rw_cores S i) (rw_pcs S i)) S)"
| unwrap_drop_read: "rw_pcs S i = Reading \<Longrightarrow>
    unwrap_step S (set_rw i ((unwrap_release_read (cell_of S), rw_cores S i), RwOutside) S)"
| unwrap_drop_write: "rw_pcs S i = Writing \<Longrightarrow> unwrap_step S (set_rw i ((cell_of S, rw_cores S i), WriteSwap) S)"
| unwrap_in_unlock: "rw_pcs S i \<in> {WriteSwap, WriteExit} \<Longrightarrow>
    unwrap_step S (set_rw i (unlock_write_step (cell_of S, rw_cores S i) (rw_pcs S i)) S)"

text \<open>Once the counter is positive without a writer it stays so.\<close>

definition stuck :: "rw_system \<Rightarrow> bool" where
  "stuck S \<longleftrightarrow> 1 \<le> access_count (cell_of S) \<and> writers (rw_pcs S) = {} \<and> (\<forall>i n. rw_pcs S i = ReadCas n \<longrightarrow> 0 \<le> n)"

lemma stuck_step:
  assumes "unwrap_step S S'" "stuck S"
  shows "stuck S'"
  using assms(1)
proof cases
  case (unwrap_in_read i)
  then show ?thesis
    using assms(2) by (cases "rw_pcs S i") (auto simp: stuck_def set_rw_def writers_upd split: if_splits)
qed (use assms(2) in \<open>auto simp: stuck_def set_rw_def writers_upd in_writers write_call_def unwrap_release_read_def unwrap_force_release_read_def split: if_splits\<close>)

definition unwrap_inv :: "rw_system \<Rightarrow> bool" where
  "unwrap_inv S \<longleftrightarrow>
     (0 \<le> access_count (cell_of S) \<and> writers (rw_pcs S) = {} \<and> (readers (rw_pcs S) \<noteq> {} \<longrightarrow> 1 \<le> access_count (cell_of S))
       \<or> access_count (cell_of S) = - 1 \<and> readers (rw_pcs S) = {} \<and> (\<exists>w. writers (rw_pcs S) = {w}))
     \<and> (\<forall>i n. rw_pcs S i = ReadCas n \<longrightarrow> 0 \<le> n) \<and> (\<forall>i. rw_pcs S i \<noteq> ReadSub)"

lemma unwrap_inv_move:
  assumes "unwrap_inv S" "i \<notin> readers (rw_pcs S)" "i \<notin> writers (rw_pcs S)" "q \<notin> {Reading, ReadSub, Writing, WriteSwap}"
    "\<And>n. q = ReadCas n \<Longrightarrow> 0 \<le> n"
  shows "unwrap_inv (set_rw i ((cell_of S, cs), q) S)"
  using assms by (auto simp: unwrap_inv_def set_rw_def readers_upd writers_upd split: if_splits)

lemma unwrap_step_inv:
  assumes "unwrap_step S S'" "unwrap_inv S"
  shows "unwrap_inv S'"
  using assms(1)
proof cases
  case (unwrap_in_read i)
  have "rw_pcs S i \<noteq> ReadCas (- 1)" using assms(2) by (fastforce simp: unwrap_inv_def)
  then show ?thesis
    using assms(2) unwrap_in_read by (cases "rw_pcs S i") (auto simp: unwrap_inv_def set_rw_def writers_upd readers_upd in_readers in_writers split: if_splits)
next
  case (unwrap_drop_write i)
  then have "i \<in> writers (rw_pcs S)" by (simp add: in_writers)
  then have "writers (rw_pcs S) = {i}" using assms(2) by (auto simp: unwrap_inv_def)
  then show ?thesis
    using assms(2) unwrap_drop_write by (auto simp: unwrap_inv_def set_rw_def writers_upd readers_upd split: if_splits)
next
  case (unwrap_in_unlock i)
  have "i \<notin> readers (rw_pcs S)" using unwrap_in_unlock by (auto simp: in_readers)
  show ?thesis
  proof (cases "rw_pcs S i = WriteSwap")
    case True
    then have "i \<in> writers (rw_pcs S)" by (simp add: in_writers)
    then have "writers (rw_pcs S) = {i}" "access_count (cell_of S) = - 1" "readers (rw_pcs S) = {}"
      using assms(2) by (auto simp: unwrap_inv_def)
    then show ?thesis
      using True assms(2) unwrap_in_unlock(1) by (simp add: unwrap_inv_def set_rw_def writers_upd readers_upd)
  next
    case False
    then have e: "rw_pcs S i = WriteExit" "i \<notin> writers (rw_pcs S)" using unwrap_in_unlock(2) by (auto simp: in_writers)
    then show ?thesis
      using assms(2) \<open>i \<notin> readers (rw_pcs S)\<close> unwrap_in_unlock(1) by (simp add: unwrap_inv_def set_rw_def writers_upd readers_upd)
  qed
next
  case (unwrap_drop_read i)
  then show ?thesis
    using assms(2) by (auto simp: unwrap_inv_def set_rw_def writers_upd readers_upd in_readers in_writers
        unwrap_release_read_def unwrap_force_release_read_def split: if_splits)
next
  case (unwrap_call_read i)
  then show ?thesis by (auto simp: in_readers in_writers intro!: unwrap_inv_move [OF assms(2)])
next
  case (unwrap_call_write i)
  then show ?thesis by (auto simp: in_readers in_writers write_call_def intro!: unwrap_inv_move [OF assms(2)])
next
  case (unwrap_in_write i)
  have out: "i \<notin> readers (rw_pcs S)" "i \<notin> writers (rw_pcs S)" using unwrap_in_write(2) by (auto simp: in_readers in_writers)
  show ?thesis
  proof (cases "rw_pcs S i = WriteCas \<and> access_count (cell_of S) = 0")
    case True
    then have "readers (rw_pcs S) = {}" "writers (rw_pcs S) = {}" using assms(2) by (auto simp: unwrap_inv_def)
    then show ?thesis
      using True assms(2) unwrap_in_write(1) by (simp add: unwrap_inv_def set_rw_def readers_upd writers_upd)
  next
    case False
    then show ?thesis using unwrap_in_write out by (auto intro!: unwrap_inv_move [OF assms(2)])
  qed
qed

text \<open>
  (C24) A read guard of the wrapper is never given back: once a core has read through an \<open>UnwrapLock\<close> over a read-write lock, then, whatever
  is done afterwards, dropping that guard and all others included, the counter stays positive and no core ever gets
  to write.
\<close>

theorem unwrap_read_blocks_writers:
  assumes "rw_start S" "unwrap_step\<^sup>*\<^sup>* S S1" "rw_pcs S1 i = Reading" "unwrap_step\<^sup>*\<^sup>* S1 S2"
  shows "1 \<le> access_count (cell_of S2) \<and> (\<forall>j. rw_pcs S2 j \<noteq> Writing)"
proof -
  have "unwrap_inv S"
    using assms(1) by (auto simp: rw_start_def unwrap_inv_def rw_new_def rw_new_non_preemtable_def readers_def writers_def)
  with assms(2) have inv: "unwrap_inv S1"
    by (induction rule: rtranclp_induct) (auto dest: unwrap_step_inv)
  have "i \<in> readers (rw_pcs S1)" using assms(3) by (simp add: in_readers)
  then have "stuck S1" using inv by (auto simp: unwrap_inv_def stuck_def)
  with assms(4) have "stuck S2" by (induction rule: rtranclp_induct) (auto dest: stuck_step)
  then show ?thesis using in_writers by (fastforce simp: stuck_def)
qed

lemma unwrap_demo_steps:
  "unwrap_step (rw_demo RwOutside 0) (rw_demo ReadEnter 0)" "unwrap_step (rw_demo ReadEnter 0) (rw_demo ReadLoad 0)"
  "unwrap_step (rw_demo ReadLoad 0) (rw_demo (ReadCas 0) 0)" "unwrap_step (rw_demo (ReadCas 0) 0) (rw_demo Reading 1)"
  "unwrap_step (rw_demo Reading 1) (rw_demo RwOutside 1)"
  using unwrap_call_read [of "rw_demo RwOutside 0" 3] unwrap_in_read [of "rw_demo ReadEnter 0" 3]
    unwrap_in_read [of "rw_demo ReadLoad 0" 3] unwrap_in_read [of "rw_demo (ReadCas 0) 0" 3] unwrap_drop_read [of "rw_demo Reading 1" 3]
  by (simp_all add: rw_demo_def set_rw_def rw_new_def enter_lock_def isize_max_def const_upd unwrap_release_read_def unwrap_force_release_read_def)

theorem unwrap_read_blocks_writers_witness:
  "unwrap_step\<^sup>*\<^sup>* (rw_demo Reading 1) (rw_demo RwOutside 1) \<and> 1 \<le> access_count (cell_of (rw_demo RwOutside 1))
    \<and> (\<forall>j. rw_pcs (rw_demo RwOutside 1) j \<noteq> Writing)"
proof -
  have a: "unwrap_step\<^sup>*\<^sup>* (rw_demo RwOutside 0) (rw_demo Reading 1)"
    using unwrap_demo_steps by (meson converse_rtranclp_into_rtranclp rtranclp.rtrancl_refl)
  have b: "unwrap_step\<^sup>*\<^sup>* (rw_demo Reading 1) (rw_demo RwOutside 1)" using unwrap_demo_steps(5) by blast
  have r: "rw_pcs (rw_demo Reading 1) 3 = Reading" by (simp add: rw_demo_def)
  show ?thesis using unwrap_read_blocks_writers [OF rw_demo_run(1) a r b] b by blast
qed

end
