(* ===== verification/Barriers.thy ===== *)
theory Barriers
  imports RW_Cell
begin

text \<open>
  The barrier of \<open>sync/barrier.rs\<close>, with one step per atomic access, used over and over by a fixed set of processors.
\<close>

section \<open>Entering a barrier\<close>

record Barrier =
  enter_count :: u32
  passing_count :: u32
  target :: u32

definition barrier_new :: "u32 \<Rightarrow> Barrier" where
  "barrier_new n = \<lparr>enter_count = 0, passing_count = 0, target = n\<rparr>"

definition set_target :: "u32 \<Rightarrow> Barrier \<Rightarrow> Barrier" where
  "set_target n b = b\<lparr>target := n\<rparr>"

definition shatter :: "Barrier \<Rightarrow> Barrier" where
  "shatter b = b\<lparr>enter_count := target b\<rparr>"

text \<open>
  The program points of \<open>enter\<close>; \<open>leader\<close> and \<open>current\<close> are its local variables. At the last point of each branch \<open>enter\<close>
  returns whether the processor was the leader.
\<close>

datatype bar_pc =
    BarOutside
  | LoadPassing
  | CasPassing
  | AddEnter bool
  | WaitAll bool u32
  | LeaderWait
  | ResetEnter
  | ResetPassing
  | SubPassing

fun enter_step :: "Barrier \<Rightarrow> bar_pc \<Rightarrow> (Barrier \<times> bar_pc) \<times> bool option" where
  "enter_step b LoadPassing =
     ((b, if passing_count b = target b \<or> passing_count b = 0 then CasPassing else LoadPassing), None)"
| "enter_step b CasPassing =
     (if passing_count b = 0 then ((b\<lparr>passing_count := target b\<rparr>, AddEnter True), None) else ((b, AddEnter False), None))"
| "enter_step b (AddEnter leader) = ((b\<lparr>enter_count := enter_count b + 1\<rparr>, WaitAll leader (enter_count b)), None)"
| "enter_step b (WaitAll leader current) =
     ((b, if current < target b then WaitAll leader (enter_count b) else if leader then LeaderWait else SubPassing), None)"
| "enter_step b LeaderWait = ((b, if passing_count b \<noteq> 1 then LeaderWait else ResetEnter), None)"
| "enter_step b ResetEnter = ((b\<lparr>enter_count := 0\<rparr>, ResetPassing), None)"
| "enter_step b ResetPassing = ((b\<lparr>passing_count := 0\<rparr>, BarOutside), Some True)"
| "enter_step b SubPassing = ((b\<lparr>passing_count := passing_count b - 1\<rparr>, BarOutside), Some False)"
| "enter_step b BarOutside = ((b, LoadPassing), None)"

section \<open>Runs\<close>

text \<open>
  For each processor, how often it has arrived at the barrier and how often it has left it; and how many leaders have left.
\<close>

record bar_system =
  bar :: Barrier
  bar_pcs :: "u8 \<Rightarrow> bar_pc"
  arrived :: "u8 \<Rightarrow> nat"
  departed :: "u8 \<Rightarrow> nat"
  led :: nat

definition bar_run :: "u8 \<Rightarrow> bar_system \<Rightarrow> bar_system" where
  "bar_run i S = (let ((b, q), r) = enter_step (bar S) (bar_pcs S i) in
     S\<lparr>bar := b, bar_pcs := (bar_pcs S)(i := q),
       arrived := (case bar_pcs S i of AddEnter _ \<Rightarrow> (arrived S)(i := Suc (arrived S i)) | _ \<Rightarrow> arrived S),
       departed := (case r of Some _ \<Rightarrow> (departed S)(i := Suc (departed S i)) | None \<Rightarrow> departed S),
       led := (case r of Some True \<Rightarrow> Suc (led S) | _ \<Rightarrow> led S)\<rparr>)"

inductive bar_step :: "u8 set \<Rightarrow> bar_system \<Rightarrow> bar_system \<Rightarrow> bool" for P where
  bar_step: "i \<in> P \<Longrightarrow> bar_step P S (bar_run i S)"

definition bar_start :: "u8 set \<Rightarrow> bar_system \<Rightarrow> bool" where
  "bar_start P S \<longleftrightarrow> bar S = barrier_new (word_of_nat (card P)) \<and> (\<forall>i. bar_pcs S i = BarOutside \<and> arrived S i = 0 \<and> departed S i = 0)
     \<and> led S = 0 \<and> P \<noteq> {}"

section \<open>The rounds of the barrier\<close>

definition waiting :: "bar_pc \<Rightarrow> bool" where
  "waiting p \<longleftrightarrow> p \<in> range (\<lambda>(l, c). WaitAll l c)"

definition waiters :: "u8 set \<Rightarrow> (u8 \<Rightarrow> bar_pc) \<Rightarrow> u8 set" where
  "waiters P p = {i \<in> P. waiting (p i)}"

definition before :: "bar_pc \<Rightarrow> bool" where
  "before p \<longleftrightarrow> p \<in> {BarOutside, LoadPassing, CasPassing}"

definition gone :: "bar_pc \<Rightarrow> bool" where
  "gone p \<longleftrightarrow> p \<in> {BarOutside, LoadPassing}"

text \<open>Nobody has claimed the round yet.\<close>

definition open_round :: "u8 set \<Rightarrow> nat \<Rightarrow> bar_system \<Rightarrow> bool" where
  "open_round P R S \<longleftrightarrow> passing_count (bar S) = 0 \<and> enter_count (bar S) = 0 \<and> led S = R
     \<and> (\<forall>i \<in> P. before (bar_pcs S i) \<and> arrived S i = R \<and> departed S i = R)"

text \<open>There is a leader, and not all have arrived.\<close>

definition filling :: "u8 set \<Rightarrow> nat \<Rightarrow> u8 \<Rightarrow> bar_system \<Rightarrow> bool" where
  "filling P R L S \<longleftrightarrow> passing_count (bar S) = target (bar S) \<and> led S = R \<and> L \<in> P
     \<and> unat (enter_count (bar S)) = card (waiters P (bar_pcs S)) \<and> card (waiters P (bar_pcs S)) < card P
     \<and> (\<forall>i \<in> P. departed S i = R \<and> arrived S i = (if waiting (bar_pcs S i) then Suc R else R)
          \<and> (\<forall>l c. bar_pcs S i = WaitAll l c \<longrightarrow> c < target (bar S)))
     \<and> (bar_pcs S L = AddEnter True \<or> (\<exists>c. bar_pcs S L = WaitAll True c))
     \<and> (\<forall>i \<in> P - {L}. before (bar_pcs S i) \<or> bar_pcs S i = AddEnter False \<or> (\<exists>c. bar_pcs S i = WaitAll False c))"

text \<open>All have arrived; \<open>W\<close> are those that have not passed, besides the leader.\<close>

definition full :: "u8 set \<Rightarrow> nat \<Rightarrow> u8 \<Rightarrow> u8 set \<Rightarrow> bar_system \<Rightarrow> bool" where
  "full P R L W S \<longleftrightarrow> enter_count (bar S) = target (bar S) \<and> led S = R \<and> L \<in> P \<and> W \<subseteq> P - {L}
     \<and> unat (passing_count (bar S)) = Suc (card W) \<and> (\<forall>i \<in> P. arrived S i = Suc R) \<and> departed S L = R
     \<and> (bar_pcs S L = LeaderWait \<or> (\<exists>c. bar_pcs S L = WaitAll True c) \<or> bar_pcs S L = ResetEnter \<and> W = {})
     \<and> (\<forall>i \<in> W. departed S i = R \<and> (bar_pcs S i = SubPassing \<or> (\<exists>c. bar_pcs S i = WaitAll False c)))
     \<and> (\<forall>i \<in> P - {L} - W. departed S i = Suc R \<and> gone (bar_pcs S i))"

text \<open>The leader has reset the first counter.\<close>

definition closing :: "u8 set \<Rightarrow> nat \<Rightarrow> u8 \<Rightarrow> bar_system \<Rightarrow> bool" where
  "closing P R L S \<longleftrightarrow> enter_count (bar S) = 0 \<and> passing_count (bar S) = 1 \<and> led S = R \<and> L \<in> P
     \<and> bar_pcs S L = ResetPassing \<and> departed S L = R \<and> (\<forall>i \<in> P. arrived S i = Suc R)
     \<and> (\<forall>i \<in> P - {L}. departed S i = Suc R \<and> gone (bar_pcs S i))"

definition bar_inv :: "u8 set \<Rightarrow> bar_system \<Rightarrow> bool" where
  "bar_inv P S \<longleftrightarrow> P \<noteq> {} \<and> unat (target (bar S)) = card P
     \<and> (\<exists>R. open_round P R S \<or> (\<exists>L. filling P R L S) \<or> (\<exists>L W. full P R L W S) \<or> (\<exists>L. closing P R L S))"

lemma waiting_simps [simp]: "waiting (WaitAll l c)" "\<not> waiting BarOutside" "\<not> waiting LoadPassing" "\<not> waiting CasPassing"
    "\<not> waiting (AddEnter l)" "\<not> waiting SubPassing" "\<not> waiting LeaderWait" "\<not> waiting ResetEnter" "\<not> waiting ResetPassing"
  by (auto simp: waiting_def)

lemma before_simps [simp]: "before BarOutside" "before LoadPassing" "before CasPassing" "\<not> before (WaitAll l c)" "\<not> before (AddEnter l)"
  by (simp_all add: before_def)

lemma gone_simps [simp]: "gone BarOutside" "gone LoadPassing"
  by (simp_all add: gone_def)

lemma bar_run_target [simp]: "target (bar (bar_run i S)) = target (bar S)"
  by (cases "bar_pcs S i") (simp_all add: bar_run_def)

lemma waiters_upd: "i \<in> P \<Longrightarrow> waiters P (p(i := q)) = (if waiting q then insert i (waiters P p) else waiters P p - {i})"
  by (auto simp: waiters_def)

lemma in_waiters: "i \<in> waiters P p \<longleftrightarrow> i \<in> P \<and> waiting (p i)"
  by (auto simp: waiters_def)

lemma bar_run_simps:
  "bar_pcs S i = BarOutside \<Longrightarrow> bar_run i S = S\<lparr>bar_pcs := (bar_pcs S)(i := LoadPassing)\<rparr>"
  "bar_pcs S i = LoadPassing \<Longrightarrow> bar_run i S = S\<lparr>bar_pcs := (bar_pcs S)(i :=
     if passing_count (bar S) = target (bar S) \<or> passing_count (bar S) = 0 then CasPassing else LoadPassing)\<rparr>"
  "bar_pcs S i = CasPassing \<Longrightarrow> passing_count (bar S) = 0 \<Longrightarrow>
     bar_run i S = S\<lparr>bar := (bar S)\<lparr>passing_count := target (bar S)\<rparr>, bar_pcs := (bar_pcs S)(i := AddEnter True)\<rparr>"
  "bar_pcs S i = CasPassing \<Longrightarrow> passing_count (bar S) \<noteq> 0 \<Longrightarrow> bar_run i S = S\<lparr>bar_pcs := (bar_pcs S)(i := AddEnter False)\<rparr>"
  "bar_pcs S i = AddEnter l \<Longrightarrow> bar_run i S = S\<lparr>bar := (bar S)\<lparr>enter_count := enter_count (bar S) + 1\<rparr>,
     bar_pcs := (bar_pcs S)(i := WaitAll l (enter_count (bar S))), arrived := (arrived S)(i := Suc (arrived S i))\<rparr>"
  "bar_pcs S i = WaitAll l c \<Longrightarrow> bar_run i S = S\<lparr>bar_pcs := (bar_pcs S)(i :=
     if c < target (bar S) then WaitAll l (enter_count (bar S)) else if l then LeaderWait else SubPassing)\<rparr>"
  "bar_pcs S i = LeaderWait \<Longrightarrow> bar_run i S = S\<lparr>bar_pcs := (bar_pcs S)(i := if passing_count (bar S) \<noteq> 1 then LeaderWait else ResetEnter)\<rparr>"
  "bar_pcs S i = ResetEnter \<Longrightarrow> bar_run i S = S\<lparr>bar := (bar S)\<lparr>enter_count := 0\<rparr>, bar_pcs := (bar_pcs S)(i := ResetPassing)\<rparr>"
  "bar_pcs S i = ResetPassing \<Longrightarrow> bar_run i S = S\<lparr>bar := (bar S)\<lparr>passing_count := 0\<rparr>,
     bar_pcs := (bar_pcs S)(i := BarOutside), departed := (departed S)(i := Suc (departed S i)), led := Suc (led S)\<rparr>"
  "bar_pcs S i = SubPassing \<Longrightarrow> bar_run i S = S\<lparr>bar := (bar S)\<lparr>passing_count := passing_count (bar S) - 1\<rparr>,
     bar_pcs := (bar_pcs S)(i := BarOutside), departed := (departed S)(i := Suc (departed S i))\<rparr>"
  by (simp_all add: bar_run_def)

lemma open_round_step:
  assumes "open_round P R S" "i \<in> P" "unat (target (bar S)) = card P"
  shows "open_round P R (bar_run i S) \<or> filling P R i (bar_run i S)"
proof -
  have i: "bar_pcs S i = BarOutside \<or> bar_pcs S i = LoadPassing \<or> bar_pcs S i = CasPassing"
    using assms(1,2) by (auto simp: open_round_def before_def)
  have pos: "0 < card P" using assms(2) by (auto simp: card_gt_0_iff)
  have nw: "\<not> waiting (bar_pcs S j) \<and> (\<forall>l c. bar_pcs S j \<noteq> WaitAll l c)" if "j \<in> P" for j
    using assms(1) that by (auto simp: open_round_def before_def)
  then have none: "waiters P (bar_pcs S) = {}" by (auto simp: waiters_def)
  show ?thesis
  proof (cases "bar_pcs S i = CasPassing")
    case True
    then have "filling P R i (bar_run i S)"
      using assms pos none nw unfolding filling_def open_round_def by (simp add: bar_run_simps waiters_upd)
    then show ?thesis ..
  next
    case False
    then show ?thesis using i assms(1) by (auto simp: bar_run_simps open_round_def)
  qed
qed

lemma fillingD:
  assumes "filling P R L S"
  shows "passing_count (bar S) = target (bar S)" "led S = R" "L \<in> P" "unat (enter_count (bar S)) = card (waiters P (bar_pcs S))"
    "card (waiters P (bar_pcs S)) < card P" "bar_pcs S L = AddEnter True \<or> (\<exists>c. bar_pcs S L = WaitAll True c)"
    "i \<in> P \<Longrightarrow> departed S i = R" "i \<in> P \<Longrightarrow> arrived S i = (if waiting (bar_pcs S i) then Suc R else R)"
    "i \<in> P \<Longrightarrow> bar_pcs S i = WaitAll l c \<Longrightarrow> c < target (bar S)"
    "i \<in> P \<Longrightarrow> i \<noteq> L \<Longrightarrow> before (bar_pcs S i) \<or> bar_pcs S i = AddEnter False \<or> (\<exists>c. bar_pcs S i = WaitAll False c)"
  using assms unfolding filling_def by blast+

lemma unat_add_one: "unat (w :: u32) < n \<Longrightarrow> n \<le> unat (m :: u32) \<Longrightarrow> unat (w + 1) = Suc (unat w)"
proof -
  assume "unat w < n" "n \<le> unat m"
  moreover have "unat m < 2 ^ LENGTH(32)" by (rule unsigned_less)
  ultimately show ?thesis by (simp add: unat_word_ariths)
qed

text \<open>An arrival: the round goes on filling, or it is full.\<close>

lemma filling_arrive:
  assumes "filling P R L S" "i \<in> P" "unat (target (bar S)) = card P" "bar_pcs S i = AddEnter l"
  shows "filling P R L (bar_run i S) \<or> full P R L (P - {L}) (bar_run i S)"
proof -
  let ?W = "waiters P (bar_pcs S)" and ?S = "bar_run i S"
  note F = fillingD [OF assms(1)]
  have l: "l = (i = L)" using F(6) F(10) [OF assms(2)] assms(4) by auto
  have W: "waiters P (bar_pcs ?S) = insert i ?W" using assms(2,4) by (simp add: bar_run_simps waiters_upd)
  have cW: "card (insert i ?W) = Suc (card ?W)" using assms(4) by (simp add: in_waiters)
  have e: "unat (enter_count (bar S) + 1) = Suc (card ?W)"
    using unat_add_one [of "enter_count (bar S)" "card P" "target (bar S)"] F(4,5) assms(3) by simp
  have c: "enter_count (bar S) < target (bar S)" using F(4,5) assms(3) by (simp add: word_less_nat_alt)
  show ?thesis
  proof (cases "Suc (card ?W) < card P")
    case True
    then have "filling P R L ?S"
      using F assms(2,3,4) W cW e c l unfolding filling_def by (auto simp: bar_run_simps)
    then show ?thesis ..
  next
    case False
    then have n: "Suc (card ?W) = card P" using F(5) by simp
    have "insert i ?W = P" using n cW assms(2) by (intro card_subset_eq) (auto simp: waiters_def)
    then have all: "waiting (bar_pcs S j)" if "j \<in> P" "j \<noteq> i" for j using that by (auto simp: in_waiters)
    have "enter_count (bar S) + 1 = target (bar S)" using e n assms(3) by (simp add: word_unat_eq_iff)
    moreover have "card P = Suc (card (P - {L}))" using F(3) by (metis card_Suc_Diff1 finite)
    moreover have "\<exists>c. bar_pcs ?S j = WaitAll (j = L) c" if j: "j \<in> P" for j
    proof (cases "j = i")
      case True
      then show ?thesis using l assms(4) by (simp add: bar_run_simps)
    next
      case False
      obtain l' c where "bar_pcs S j = WaitAll l' c" using all [OF j False] by (auto simp: waiting_def)
      then show ?thesis using F(6) F(10) [OF j] False assms(4) by (cases "j = L") (auto simp: bar_run_simps)
    qed
    moreover have "arrived ?S j = Suc R" if "j \<in> P" for j
      using all [OF that] F(8) [OF that] assms(4) by (cases "j = i") (auto simp: bar_run_simps)
    moreover have "bar ?S = (bar S)\<lparr>enter_count := enter_count (bar S) + 1\<rparr>" "led ?S = led S" "departed ?S = departed S"
      using assms(4) by (simp_all add: bar_run_simps)
    ultimately have "full P R L (P - {L}) ?S"
      using F(1-3) F(7) assms(3) unfolding full_def by fastforce
    then show ?thesis ..
  qed
qed

lemma filling_step:
  assumes "filling P R L S" "i \<in> P" "unat (target (bar S)) = card P"
  shows "filling P R L (bar_run i S) \<or> full P R L (P - {L}) (bar_run i S)"
proof (cases "\<exists>l. bar_pcs S i = AddEnter l")
  case True
  then show ?thesis using filling_arrive [OF assms] by blast
next
  case False
  note F = fillingD [OF assms(1)]
  have c: "enter_count (bar S) < target (bar S)" using F(4,5) assms(3) by (simp add: word_less_nat_alt)
  have nz: "passing_count (bar S) \<noteq> 0" using F(1,5) assms(3) by (auto simp: word_unat_eq_iff)
  have same: "filling P R L (S\<lparr>bar_pcs := (bar_pcs S)(i := q)\<rparr>)"
    if q: "waiting q = waiting (bar_pcs S i)" "\<And>l c. q = WaitAll l c \<Longrightarrow> c < target (bar S)"
      "i = L \<Longrightarrow> \<exists>c. q = WaitAll True c" "i \<noteq> L \<Longrightarrow> before q \<or> q = AddEnter False \<or> (\<exists>c. q = WaitAll False c)" for q
  proof -
    have "waiters P ((bar_pcs S)(i := q)) = waiters P (bar_pcs S)" using q(1) assms(2) by (auto simp: waiters_def)
    then show ?thesis using F q assms(2) unfolding filling_def by auto
  qed
  show ?thesis
  proof (cases "i = L")
    case True
    then obtain c' where "bar_pcs S i = WaitAll True c'" using F(6) False by auto
    moreover from this have "c' < target (bar S)" by (rule F(9) [OF assms(2)])
    ultimately show ?thesis using same [of "WaitAll True (enter_count (bar S))"] c True by (simp add: bar_run_simps)
  next
    case other: False
    then consider "bar_pcs S i = BarOutside" | "bar_pcs S i = LoadPassing" | "bar_pcs S i = CasPassing" | c' where "bar_pcs S i = WaitAll False c'"
      using F(10) [OF assms(2)] False by (auto simp: before_def)
    then show ?thesis
    proof cases
      case 1
      then show ?thesis using same [of LoadPassing] other by (simp add: bar_run_simps)
    next
      case 2
      then show ?thesis using same [of CasPassing] other F(1) by (simp add: bar_run_simps)
    next
      case 3
      then show ?thesis using same [of "AddEnter False"] other nz by (simp add: bar_run_simps)
    next
      case (4 c')
      then have "c' < target (bar S)" by (rule F(9) [OF assms(2)])
      then show ?thesis using 4 same [of "WaitAll False (enter_count (bar S))"] c other by (simp add: bar_run_simps)
    qed
  qed
qed

lemma fullD:
  assumes "full P R L W S"
  shows "enter_count (bar S) = target (bar S)" "led S = R" "L \<in> P" "W \<subseteq> P - {L}" "unat (passing_count (bar S)) = Suc (card W)"
    "departed S L = R" "bar_pcs S L = LeaderWait \<or> (\<exists>c. bar_pcs S L = WaitAll True c) \<or> bar_pcs S L = ResetEnter \<and> W = {}"
    "i \<in> P \<Longrightarrow> arrived S i = Suc R" "i \<in> W \<Longrightarrow> departed S i = R"
    "i \<in> W \<Longrightarrow> bar_pcs S i = SubPassing \<or> (\<exists>c. bar_pcs S i = WaitAll False c)"
    "i \<in> P \<Longrightarrow> i \<noteq> L \<Longrightarrow> i \<notin> W \<Longrightarrow> departed S i = Suc R" "i \<in> P \<Longrightarrow> i \<noteq> L \<Longrightarrow> i \<notin> W \<Longrightarrow> gone (bar_pcs S i)"
  using assms unfolding full_def by blast+

lemma full_leader_step:
  assumes "full P R L W S" "unat (target (bar S)) = card P"
  shows "full P R L W (bar_run L S) \<or> closing P R L (bar_run L S)"
proof -
  note F = fullD [OF assms(1)]
  have W0: "W = {}" if "passing_count (bar S) = 1" using F(5) that by simp
  have keep: "full P R L W (S\<lparr>bar_pcs := (bar_pcs S)(L := q)\<rparr>)"
    if "q = LeaderWait \<or> (\<exists>c. q = WaitAll True c) \<or> q = ResetEnter \<and> W = {}" for q
    using assms(1) that F(3,4) unfolding full_def by auto
  consider "bar_pcs S L = LeaderWait" | c where "bar_pcs S L = WaitAll True c" | "bar_pcs S L = ResetEnter" "W = {}" using F(7) by blast
  then show ?thesis
  proof cases
    case 1
    then show ?thesis using keep [of LeaderWait] keep [of ResetEnter] W0 by (simp add: bar_run_simps)
  next
    case (2 c)
    then show ?thesis using keep [of LeaderWait] keep [of "WaitAll True (enter_count (bar S))"] by (simp add: bar_run_simps)
  next
    case 3
    have "unat (passing_count (bar S)) = 1" using F(5) 3(2) by simp
    then have "passing_count (bar S) = 1" by (simp add: word_unat_eq_iff)
    then have "closing P R L (bar_run L S)"
      using 3 F(2,3,6) F(8) F(11) F(12) unfolding closing_def by (auto simp: bar_run_simps)
    then show ?thesis ..
  qed
qed

lemma full_other_step:
  assumes "full P R L W S" "unat (target (bar S)) = card P" "i \<in> P" "i \<noteq> L"
  shows "full P R L W (bar_run i S) \<or> full P R L (W - {i}) (bar_run i S)"
proof -
  note F = fullD [OF assms(1)]
  have move: "full P R L W (S\<lparr>bar_pcs := (bar_pcs S)(i := q)\<rparr>)"
    if "if i \<in> W then q = SubPassing \<or> (\<exists>c. q = WaitAll False c) else gone q" for q
    using assms(1,4) that unfolding full_def by (simp split: if_splits)
  show ?thesis
  proof (cases "i \<in> W")
    case True
    then consider "bar_pcs S i = SubPassing" | c where "bar_pcs S i = WaitAll False c" using F(10) by blast
    then show ?thesis
    proof cases
      case 1
      have fin: "finite W" by simp
      have "card W = Suc (card (W - {i}))" using True fin by (metis card_Suc_Diff1)
      then have p: "unat (passing_count (bar S) - 1) = Suc (card (W - {i}))"
        using F(5) by (metis One_nat_def diff_Suc_1 unat_1 unat_minus_one unat_0 nat.distinct(1))
      have sub: "W - {i} \<subseteq> P - {L}" using F(4) by blast
      have "full P R L (W - {i}) (bar_run i S)"
        unfolding full_def bar_run_simps(10) [OF 1]
      proof (intro conjI ballI)
        fix j assume j: "j \<in> W - {i}"
        then show "departed (S\<lparr>bar := (bar S)\<lparr>passing_count := passing_count (bar S) - 1\<rparr>, bar_pcs := (bar_pcs S)(i := BarOutside),
            departed := (departed S)(i := Suc (departed S i))\<rparr>) j = R" using F(9) [of j] by simp
      next
        fix j assume "j \<in> P - {L} - (W - {i})"
        then show "departed (S\<lparr>bar := (bar S)\<lparr>passing_count := passing_count (bar S) - 1\<rparr>, bar_pcs := (bar_pcs S)(i := BarOutside),
            departed := (departed S)(i := Suc (departed S i))\<rparr>) j = Suc R" using F(9) [OF True] F(11) [of j] by (cases "j = i") auto
      qed (use F(1-3) F(6) F(8) F(10) F(12) p sub assms(4) F(7) in auto)
      then show ?thesis ..
    next
      case (2 c)
      have "full P R L W (bar_run i S)"
        unfolding bar_run_simps(6) [OF 2] using move True by auto
      then show ?thesis ..
    qed
  next
    case False
    then have "gone (bar_pcs S i)" using F(12) assms(3,4) by blast
    moreover have "card W < card (P - {L})"
      using F(4) False assms(3,4) by (intro psubset_card_mono) auto
    then have "Suc (card W) < card P" using F(3) by (metis Suc_less_eq card_Suc_Diff1 finite)
    then have "passing_count (bar S) \<noteq> target (bar S)" "passing_count (bar S) \<noteq> 0"
      using F(5) assms(2) by (auto simp: word_unat_eq_iff)
    ultimately have "full P R L W (bar_run i S)"
      using move [of LoadPassing] False by (auto simp: bar_run_simps gone_def)
    then show ?thesis ..
  qed
qed

lemma closing_step:
  assumes "closing P R L S" "unat (target (bar S)) = card P" "i \<in> P"
  shows "closing P R L (bar_run i S) \<or> open_round P (Suc R) (bar_run i S)"
proof (cases "i = L")
  case True
  then have "open_round P (Suc R) (bar_run i S)"
    using assms(1) unfolding closing_def open_round_def by (auto simp: bar_run_simps gone_def before_def)
  then show ?thesis ..
next
  case False
  have "card {i, L} \<le> card P" using assms by (intro card_mono) (auto simp: closing_def)
  then have "target (bar S) \<noteq> 1" using False assms(2) by auto
  moreover have "bar_pcs S i = BarOutside \<or> bar_pcs S i = LoadPassing" and p: "passing_count (bar S) = 1"
    using assms(1,3) False by (auto simp: closing_def gone_def)
  ultimately have "bar_run i S = S\<lparr>bar_pcs := (bar_pcs S)(i := LoadPassing)\<rparr>" by (auto simp: bar_run_simps)
  then have "closing P R L (bar_run i S)" using assms(1) False by (simp add: closing_def)
  then show ?thesis ..
qed

lemma bar_step_inv:
  assumes "bar_step P S S'" "bar_inv P S"
  shows "bar_inv P S'"
proof -
  obtain i where i: "i \<in> P" "S' = bar_run i S" using assms(1) by cases
  have t: "unat (target (bar S)) = card P" and ne: "P \<noteq> {}" using assms(2) by (simp_all add: bar_inv_def)
  obtain R where "open_round P R S \<or> (\<exists>L. filling P R L S) \<or> (\<exists>L W. full P R L W S) \<or> (\<exists>L. closing P R L S)"
    using assms(2) unfolding bar_inv_def by blast
  then have "\<exists>R. open_round P R S' \<or> (\<exists>L. filling P R L S') \<or> (\<exists>L W. full P R L W S') \<or> (\<exists>L. closing P R L S')"
    unfolding i(2)
    using open_round_step [OF _ i(1) t] filling_step [OF _ i(1) t] full_leader_step [OF _ t] full_other_step [OF _ t i(1)]
      closing_step [OF _ t i(1)] by metis
  then show ?thesis using t ne by (simp add: bar_inv_def i(2))
qed

lemma bar_start_inv:
  assumes "bar_start P S"
  shows "bar_inv P S"
proof -
  have "card P \<le> 256" using card_mono [of "UNIV :: u8 set" P] by (simp add: card_word)
  then have "unat (target (bar S)) = card P" using assms by (simp add: bar_start_def barrier_new_def unat_of_nat)
  moreover have "open_round P 0 S" using assms by (simp add: bar_start_def barrier_new_def open_round_def)
  ultimately show ?thesis using assms by (auto simp: bar_inv_def bar_start_def)
qed

lemma bar_steps_inv: "(bar_step P)\<^sup>*\<^sup>* S S' \<Longrightarrow> bar_inv P S \<Longrightarrow> bar_inv P S'"
  by (induction rule: rtranclp_induct) (auto dest: bar_step_inv)

text \<open>How far apart the processors can be.\<close>

lemma bar_inv_rounds:
  assumes "bar_inv P S"
  obtains R where "\<forall>i \<in> P. arrived S i \<in> {R, Suc R} \<and> departed S i \<in> {R, Suc R}"
    "(\<exists>i \<in> P. departed S i = Suc R) \<longrightarrow> (\<forall>i \<in> P. arrived S i = Suc R)" "\<exists>i \<in> P. departed S i = R" "led S = R"
proof -
  obtain R where "open_round P R S \<or> (\<exists>L. filling P R L S) \<or> (\<exists>L W. full P R L W S) \<or> (\<exists>L. closing P R L S)" and ne: "P \<noteq> {}"
    using assms unfolding bar_inv_def by blast
  then consider "open_round P R S" | L where "filling P R L S" | L W where "full P R L W S" | L where "closing P R L S" by blast
  then show ?thesis
  proof cases
    case 1
    then show ?thesis using that [of R] ne by (auto simp: open_round_def)
  next
    case (2 L)
    have "arrived S i \<in> {R, Suc R} \<and> departed S i = R" if "i \<in> P" for i
      using fillingD(7,8) [OF 2 that] by simp
    then show ?thesis using that [of R] fillingD(2,3) [OF 2] by fastforce
  next
    case (3 L W)
    have "departed S i \<in> {R, Suc R}" if "i \<in> P" for i
      using fullD(6) [OF 3] fullD(9) [OF 3, of i] fullD(11) [OF 3 that] by (cases "i = L"; cases "i \<in> W") auto
    then show ?thesis using that [of R] fullD(2,3,6) [OF 3] fullD(8) [OF 3] by fastforce
  next
    case (4 L)
    then show ?thesis using that [of R] unfolding closing_def by fastforce
  qed
qed

text \<open>
  (C26) A barrier separates rounds: whatever the interleaving of the processors that use it, over any number of rounds, no processor
  has left the barrier more often than any other has arrived at it, and none arrives a second time before the round it is in is
  over for it; and each round has exactly one leader.
\<close>

theorem barrier_separates:
  assumes "bar_start P S" "(bar_step P)\<^sup>*\<^sup>* S S'" "i \<in> P" "j \<in> P"
  shows "departed S' i \<le> arrived S' j \<and> arrived S' i \<le> Suc (departed S' i) \<and> led S' = Min (departed S' ` P)"
proof -
  have "bar_inv P S'" by (rule bar_steps_inv [OF assms(2) bar_start_inv [OF assms(1)]])
  then obtain R where R: "\<forall>i \<in> P. arrived S' i \<in> {R, Suc R} \<and> departed S' i \<in> {R, Suc R}"
    "(\<exists>i \<in> P. departed S' i = Suc R) \<longrightarrow> (\<forall>i \<in> P. arrived S' i = Suc R)" "\<exists>i \<in> P. departed S' i = R" "led S' = R"
    by (rule bar_inv_rounds)
  have "Min (departed S' ` P) = R"
    by (rule Min_eqI) (use R(1,3) in auto)
  moreover have "departed S' i \<le> arrived S' j"
    using R(1,2) assms(3,4) by (cases "departed S' i = Suc R") fastforce+
  moreover have "arrived S' i \<le> Suc (departed S' i)" using R(1) assms(3) by fastforce
  ultimately show ?thesis using R(4) by simp
qed

definition bar_demo :: bar_system where
  "bar_demo = \<lparr>bar = barrier_new 2, bar_pcs = (\<lambda>_. BarOutside), arrived = (\<lambda>_. 0), departed = (\<lambda>_. 0), led = 0\<rparr>"

theorem barrier_separates_witness:
  "departed (bar_run 5 (bar_run 4 bar_demo)) 4 \<le> arrived (bar_run 5 (bar_run 4 bar_demo)) 5
    \<and> led (bar_run 5 (bar_run 4 bar_demo)) = Min (departed (bar_run 5 (bar_run 4 bar_demo)) ` {4, 5})"
proof -
  have s: "bar_start {4, 5} bar_demo" by (simp add: bar_start_def bar_demo_def)
  have "bar_step {4, 5} bar_demo (bar_run 4 bar_demo)" "bar_step {4, 5} (bar_run 4 bar_demo) (bar_run 5 (bar_run 4 bar_demo))"
    by (auto intro: bar_step.intros)
  then have r: "(bar_step {4, 5})\<^sup>*\<^sup>* bar_demo (bar_run 5 (bar_run 4 bar_demo))" by simp
  show ?thesis using barrier_separates [OF s r, of 4 5] by blast
qed

end
