(* ===== verification/Block_Groups.thy ===== *)
theory Block_Groups
  imports Rust_Prelude
begin

text \<open>
  Block addresses and groups of blocks (\<open>block-device/src/structs.rs\<close>). A \<open>u64\<close> is a natural number, and every addition,
  subtraction and multiplication checks its range; an \<open>LBA\<close> is an address that is not the largest \<open>u64\<close>.
\<close>

section \<open>Block addresses\<close>

definition lba_new :: "nat \<Rightarrow> nat option" where
  "lba_new addr = (if addr = u64_max then None else Some addr)"

definition lba_new_unchecked :: "nat \<Rightarrow> nat run" where
  "lba_new_unchecked addr = do {
     assert_that (addr \<noteq> u64_max);
     Some addr
   }"

definition from_byte_offset :: "nat \<Rightarrow> nat \<Rightarrow> nat option run" where
  "from_byte_offset block_size offset = do {
     assert_that (block_size \<noteq> 0);
     Some (lba_new (offset div block_size))
   }"

definition to_byte_offset :: "nat \<Rightarrow> nat \<Rightarrow> nat run" where
  "to_byte_offset block_size lba = u64_mul lba block_size"

definition lba_add :: "nat \<Rightarrow> nat \<Rightarrow> nat run" where
  "lba_add lba rhs = do {
     s \<leftarrow> u64_add lba rhs;
     assert_that (s \<noteq> u64_max);
     lba_new_unchecked s
   }"

definition lba_diff :: "nat \<Rightarrow> nat \<Rightarrow> nat run" where
  "lba_diff lba rhs = do {
     assert_that (rhs \<le> lba);
     u64_sub lba rhs
   }"

definition lba_sub :: "nat \<Rightarrow> nat \<Rightarrow> nat run" where
  "lba_sub lba rhs = do {
     d \<leftarrow> u64_sub lba rhs;
     lba_new_unchecked d
   }"

definition lba_cmp :: "nat \<Rightarrow> nat \<Rightarrow> Ordering" where
  "lba_cmp lba other = cmp lba other"

definition LBA_MAX :: nat where
  "LBA_MAX = u64_max - 1"

section \<open>Groups\<close>

record BlockGroup =
  bg_start :: nat
  bg_count :: nat

text \<open>\<open>NonZeroU64::new\<close> followed by \<open>expect\<close>.\<close>

definition non_zero :: "nat \<Rightarrow> nat run" where
  "non_zero n = do {
     assert_that (n \<noteq> 0);
     Some n
   }"

definition group_new :: "nat \<Rightarrow> nat \<Rightarrow> BlockGroup run" where
  "group_new start end = do {
     e \<leftarrow> u64_add end 1;
     d \<leftarrow> u64_sub e start;
     n \<leftarrow> non_zero d;
     Some \<lparr>bg_start = start, bg_count = n\<rparr>
   }"

definition with_count :: "nat \<Rightarrow> nat \<Rightarrow> BlockGroup" where
  "with_count start n = \<lparr>bg_start = start, bg_count = n\<rparr>"

definition single :: "nat \<Rightarrow> BlockGroup" where
  "single block = \<lparr>bg_start = block, bg_count = 1\<rparr>"

definition group_end :: "BlockGroup \<Rightarrow> nat run" where
  "group_end g = do {
     e \<leftarrow> lba_add (bg_start g) (bg_count g);
     lba_sub e 1
   }"

definition group_bytes :: "nat \<Rightarrow> BlockGroup \<Rightarrow> nat run" where
  "group_bytes block_size g = u64_mul (bg_count g) block_size"

definition group_contains :: "nat \<Rightarrow> BlockGroup \<Rightarrow> bool run" where
  "group_contains lba g =
     (if \<not> bg_start g \<le> lba then Some False
      else do {
        e \<leftarrow> group_end g;
        Some (lba \<le> e)
      })"

definition subgroup :: "nat \<Rightarrow> BlockGroup \<Rightarrow> BlockGroup option run" where
  "subgroup block_offset g =
     (if bg_count g > block_offset then do {
        s \<leftarrow> lba_add (bg_start g) block_offset;
        e \<leftarrow> group_end g;
        g' \<leftarrow> group_new s e;
        Some (Some g')
      } else Some None)"

definition remove_end :: "nat \<Rightarrow> BlockGroup \<Rightarrow> BlockGroup option run" where
  "remove_end blocks_to_remove g =
     (if bg_count g > blocks_to_remove then do {
        e \<leftarrow> group_end g;
        e' \<leftarrow> lba_sub e blocks_to_remove;
        g' \<leftarrow> group_new (bg_start g) e';
        Some (Some g')
      } else Some None)"

definition with_new_length :: "nat \<Rightarrow> BlockGroup \<Rightarrow> BlockGroup option run" where
  "with_new_length new_length g = do {
     d \<leftarrow> u64_sub (bg_count g) new_length;
     remove_end d g
   }"

section \<open>The blocks of a group\<close>

definition blocks :: "BlockGroup \<Rightarrow> nat set" where
  "blocks g = {bg_start g..<bg_start g + bg_count g}"

text \<open>A group is not empty, and the address past its end is an address.\<close>

definition group_ok :: "BlockGroup \<Rightarrow> bool" where
  "group_ok g \<longleftrightarrow> 0 < bg_count g \<and> bg_start g + bg_count g < u64_max"

lemma u64_max_pos: "0 < u64_max"
  by (simp add: u64_max_def)

lemma lba_add_eq: "lba_add a n = (if a + n < u64_max then Some (a + n) else None)"
  by (auto simp: lba_add_def lba_new_unchecked_def u64_add_def)

lemma lba_sub_eq: "a < u64_max \<Longrightarrow> n \<le> a \<Longrightarrow> lba_sub a n = Some (a - n)"
  by (simp add: lba_sub_def lba_new_unchecked_def u64_sub_def assert_that_def)

lemma group_end_eq [simp]: "group_ok g \<Longrightarrow> group_end g = Some (bg_start g + bg_count g - 1)"
  by (simp add: group_end_def group_ok_def lba_add_eq lba_sub_eq)

lemma group_contains_eq [simp]: "group_ok g \<Longrightarrow> group_contains lba g = Some (lba \<in> blocks g)"
  by (auto simp: group_contains_def blocks_def group_ok_def)

lemma group_new_eq:
  "s \<le> e \<Longrightarrow> e < u64_max \<Longrightarrow> group_new s e = Some \<lparr>bg_start = s, bg_count = e + 1 - s\<rparr>"
  by (auto simp: group_new_def non_zero_def u64_add_def u64_sub_def)

lemma blocks_simps [simp]: "blocks (with_count s n) = {s..<s + n}" "blocks (single s) = {s}"
  by (auto simp: blocks_def with_count_def single_def)

lemma card_blocks: "card (blocks g) = bg_count g"
  by (simp add: blocks_def)

lemma group_parts:
  assumes "group_ok g"
  shows "subgroup n g = Some (if n < bg_count g then Some \<lparr>bg_start = bg_start g + n, bg_count = bg_count g - n\<rparr> else None)"
    "remove_end n g = Some (if n < bg_count g then Some \<lparr>bg_start = bg_start g, bg_count = bg_count g - n\<rparr> else None)"
  using assms by (auto simp: subgroup_def remove_end_def lba_add_eq lba_sub_eq group_new_eq group_ok_def)

text \<open>
  The two ways to cut a group agree: cutting off the first \<open>n\<close> blocks and keeping the first \<open>n\<close> blocks give two groups
  that are disjoint and make up the group, for every length strictly between zero and its size.
\<close>

lemma group_cut:
  assumes "group_ok g" "0 < n" "n < bg_count g"
  shows "\<exists>a b. with_new_length n g = Some (Some a) \<and> subgroup n g = Some (Some b) \<and> group_ok a \<and> group_ok b
    \<and> blocks a \<inter> blocks b = {} \<and> blocks a \<union> blocks b = blocks g"
proof -
  let ?a = "\<lparr>bg_start = bg_start g, bg_count = n\<rparr>" and ?b = "\<lparr>bg_start = bg_start g + n, bg_count = bg_count g - n\<rparr>"
  have "with_new_length n g = Some (Some ?a)"
    using assms by (simp add: with_new_length_def u64_sub_def group_parts)
  moreover have "subgroup n g = Some (Some ?b)" using assms by (simp add: group_parts)
  moreover have "blocks ?a \<inter> blocks ?b = {}" "blocks ?a \<union> blocks ?b = blocks g"
    using assms by (auto simp: blocks_def)
  ultimately show ?thesis using assms by (auto simp: group_ok_def)
qed

end
