(* ===== verification/File_Device.thy ===== *)
theory File_Device
  imports Block_Groups
begin

text \<open>
  Block devices (\<open>block-device/src/lib.rs\<close>) and the implementation over a host file (\<open>host-libs/wfs/src/lib.rs\<close>). The trait
  \<open>BlockDevice\<close> is a record of the operations its clients call; the locale \<open>block_device\<close> states what the trait promises and is
  interpreted on the file device.
\<close>

section \<open>Errors\<close>

datatype 'e ReadBlockDeviceError = RBDevice 'e | RBAllocation

datatype 'e WriteBlockDeviceError =
    WBDevice 'e
  | WBNotEnoughData (wb_expected: nat) (wb_size: nat)
  | WBAllocation

datatype 'e ReadPointerError =
    RPDevice 'e
  | RPAllocation
  | RPNotEnoughData (rp_block_size: nat) (rp_expected: nat)

datatype 'e CompareExchangeError = CEDevice 'e | CEOutdatedData

fun pointer_error_from :: "'e ReadBlockDeviceError \<Rightarrow> 'e ReadPointerError" where
  "pointer_error_from (RBDevice e) = RPDevice e"
| "pointer_error_from RBAllocation = RPAllocation"

section \<open>Operations that fail and keep a state\<close>

text \<open>A call that may panic, fail with an error, and changes its receiver either way. \<open>attempt\<close> is the operator \<open>?\<close>.\<close>

type_synonym ('s, 'e, 'a) prog = "'s \<Rightarrow> (('e + 'a) \<times> 's) run"

definition ok :: "'a \<Rightarrow> ('s, 'e, 'a) prog" where
  "ok x s = Some (Inr x, s)"

definition err :: "'e \<Rightarrow> ('s, 'e, 'a) prog" where
  "err e s = Some (Inl e, s)"

definition attempt :: "('s, 'e, 'a) prog \<Rightarrow> ('a \<Rightarrow> ('s, 'e, 'b) prog) \<Rightarrow> ('s, 'e, 'b) prog" where
  "attempt m k s = do {
     (r, s') \<leftarrow> m s;
     case r of Inl e \<Rightarrow> Some (Inl e, s') | Inr x \<Rightarrow> k x s'
   }"

definition map_err :: "('e \<Rightarrow> 'f) \<Rightarrow> ('s, 'e, 'a) prog \<Rightarrow> ('s, 'f, 'a) prog" where
  "map_err h m s = map_option (map_prod (map_sum h (\<lambda>x. x)) (\<lambda>t. t)) (m s)"

definition asserting :: "bool \<Rightarrow> ('s, 'e, 'a) prog \<Rightarrow> ('s, 'e, 'a) prog" where
  "asserting c m s = (if c then m s else None)"

lemma attempt_eqs [simp]:
  "m s = None \<Longrightarrow> attempt m k s = None"
  "m s = Some (Inl e, s') \<Longrightarrow> attempt m k s = Some (Inl e, s')"
  "m s = Some (Inr x, s') \<Longrightarrow> attempt m k s = k x s'"
  by (simp_all add: attempt_def)

lemma attempt_Some:
  "attempt m k s = Some (r, t) \<longleftrightarrow>
     (\<exists>e. m s = Some (Inl e, t) \<and> r = Inl e) \<or> (\<exists>x s'. m s = Some (Inr x, s') \<and> k x s' = Some (r, t))"
  by (cases "m s") (auto simp: attempt_def split: sum.splits)

lemma ok_err_simps [simp]:
  "ok x s = Some (r, t) \<longleftrightarrow> r = Inr x \<and> t = s" "err e s = Some (r, t) \<longleftrightarrow> r = Inl e \<and> t = s"
  "asserting c m s = Some p \<longleftrightarrow> c \<and> m s = Some p"
  by (auto simp: ok_def err_def asserting_def)

lemma map_err_Some:
  "map_err h m s = Some (r, t) \<longleftrightarrow> (\<exists>r'. m s = Some (r', t) \<and> r = map_sum h (\<lambda>x. x) r')"
  by (auto simp: map_err_def)

section \<open>The trait\<close>

text \<open>
  A buffer to read into is given by its length, or by its bytes where the result keeps some of them. The iterator of groups of
  \<open>write_blocks\<close> is the list of what the calls of \<open>next\<close> give; a call of \<open>next\<close> may panic.
\<close>

record ('d, 'e) BlockDevice =
  DEV_BLOCK_SIZE :: nat
  dev_size :: "'d \<Rightarrow> nat"
  read_block :: "nat \<Rightarrow> nat \<Rightarrow> ('d, 'e ReadBlockDeviceError, u8 list) prog"
  read_blocks :: "BlockGroup list \<Rightarrow> u8 list \<Rightarrow> ('d, 'e ReadBlockDeviceError, u8 list) prog"
  write_block :: "nat \<Rightarrow> u8 list \<Rightarrow> ('d, 'e WriteBlockDeviceError, unit) prog"
  write_blocks :: "BlockGroup run list \<Rightarrow> u8 list \<Rightarrow> ('d, 'e WriteBlockDeviceError, unit) prog"
  write_partial_block :: "nat \<Rightarrow> u8 list \<Rightarrow> nat \<Rightarrow> ('d, 'e WriteBlockDeviceError, unit) prog"

text \<open>\<open>last_lba\<close> has a default body.\<close>

definition last_lba :: "('d, 'e) BlockDevice \<Rightarrow> 'd \<Rightarrow> nat run" where
  "last_lba dev d = do {
     n \<leftarrow> u64_sub (dev_size dev d) 1;
     lba_new n
   }"

text \<open>
  A value of a type in a block: its size, the bytes of \<open>Block<T>\<close> (\<open>block_data\<close>: the value at offset 0 followed by the padding) and
  the value read back from such bytes. The layout of a type is the compiler's; what the code relies on is \<open>layout_ok\<close>: the bytes
  fill one block and the value read from them is the value written, for the values of the type (the second argument).
\<close>

record 'a block_layout =
  size_of :: nat
  block_data :: "'a \<Rightarrow> u8 list"
  from_block :: "u8 list \<Rightarrow> 'a"

definition layout_ok :: "nat \<Rightarrow> ('a \<Rightarrow> bool) \<Rightarrow> 'a block_layout \<Rightarrow> bool" where
  "layout_ok block_size valid L \<longleftrightarrow> size_of L \<le> block_size \<and>
     (\<forall>x. valid x \<longrightarrow> length (block_data L x) = block_size \<and> from_block L (block_data L x) = x)"

definition read_pointer :: "('d, 'e) BlockDevice \<Rightarrow> 'a block_layout \<Rightarrow> nat \<Rightarrow> ('d, 'e ReadPointerError, 'a) prog" where
  "read_pointer dev L lba =
     (if \<not> size_of L \<le> DEV_BLOCK_SIZE dev
      then err (RPNotEnoughData (DEV_BLOCK_SIZE dev) (size_of L))
      else attempt (map_err pointer_error_from (read_block dev lba (DEV_BLOCK_SIZE dev)))
        (\<lambda>data. ok (from_block L data)))"

section \<open>What the trait promises\<close>

text \<open>
  \<open>content d lba\<close> is the block stored at \<open>lba\<close>; \<open>healthy d lba\<close> says that the next accesses of \<open>lba\<close> succeed. A failed write
  leaves the other blocks alone.
\<close>

locale block_device =
  fixes dev :: "('d, 'e) BlockDevice" and content :: "'d \<Rightarrow> nat \<Rightarrow> u8 list" and healthy :: "'d \<Rightarrow> nat \<Rightarrow> bool"
  assumes write_ok: "write_block dev lba data d = Some (Inr u, d') \<Longrightarrow> content d' = (content d)(lba := data)"
    and write_err: "write_block dev lba data d = Some (Inl e, d') \<Longrightarrow> b \<noteq> lba \<Longrightarrow> content d' b = content d b"
    and read_ok: "read_block dev lba n d = Some (Inr data, d') \<Longrightarrow> n = DEV_BLOCK_SIZE dev \<Longrightarrow> data = content d lba"
    and read_keeps: "read_block dev lba n d = Some (r, d') \<Longrightarrow> content d' = content d \<and> (\<forall>b. healthy d b \<longrightarrow> healthy d' b)"
    and healthy_read: "healthy d lba \<Longrightarrow> \<exists>data d'. read_block dev lba (DEV_BLOCK_SIZE dev) d = Some (Inr data, d')"
    and healthy_write: "healthy d lba \<Longrightarrow> length data = DEV_BLOCK_SIZE dev \<Longrightarrow>
      \<exists>d'. write_block dev lba data d = Some (Inr (), d') \<and> (\<forall>b. healthy d b \<longrightarrow> healthy d' b)"
begin

lemma read_pointer_ok:
  assumes "layout_ok (DEV_BLOCK_SIZE dev) valid L" "valid x" "content d lba = block_data L x" "healthy d lba"
  shows "\<exists>d'. read_pointer dev L lba d = Some (Inr x, d') \<and> content d' = content d \<and> (\<forall>b. healthy d b \<longrightarrow> healthy d' b)"
proof -
  obtain data d' where r: "read_block dev lba (DEV_BLOCK_SIZE dev) d = Some (Inr data, d')"
    using healthy_read [OF assms(4)] by blast
  moreover have "data = block_data L x" using read_ok [OF r refl] assms(3) by simp
  ultimately have "read_pointer dev L lba d = Some (Inr x, d')"
    using assms(1,2) by (simp add: read_pointer_def attempt_def map_err_def layout_ok_def ok_def)
  then show ?thesis using read_keeps [OF r] by blast
qed

lemma write_read_pointer:
  assumes "layout_ok (DEV_BLOCK_SIZE dev) valid L" "valid x" "healthy d lba"
  shows "\<exists>d' d''. write_block dev lba (block_data L x) d = Some (Inr (), d') \<and> read_pointer dev L lba d' = Some (Inr x, d'')"
proof -
  have "length (block_data L x) = DEV_BLOCK_SIZE dev" using assms(1,2) by (simp add: layout_ok_def)
  then obtain d' where w: "write_block dev lba (block_data L x) d = Some (Inr (), d')" and h: "healthy d' lba"
    using healthy_write [OF assms(3)] assms(3) by blast
  then have "content d' lba = block_data L x" using write_ok [OF w] by simp
  then show ?thesis using read_pointer_ok [OF assms(1,2) _ h] w by blast
qed

end

section \<open>A host file\<close>

text \<open>
  The file behind the device: its bytes, the position of the next access and what the operating system does at each of the next
  calls: all of the transfer, part of it, or an error. When nothing is listed every call completes.
\<close>

datatype io = Complete | Short nat | Fail

datatype io_error = OsError | UnexpectedEOF | IncompleteWrite

record File =
  contents :: "u8 list"
  cursor :: nat
  io_calls :: "io list"

definition os_call :: "(io \<Rightarrow> (File, io_error, 'a) prog) \<Rightarrow> (File, io_error, 'a) prog" where
  "os_call body f =
     (case io_calls f of
        [] \<Rightarrow> body Complete f
      | Fail # cs \<Rightarrow> Some (Inl OsError, f\<lparr>io_calls := cs\<rparr>)
      | c # cs \<Rightarrow> body c (f\<lparr>io_calls := cs\<rparr>))"

fun transferred :: "io \<Rightarrow> nat \<Rightarrow> nat" where
  "transferred (Short k) n = min k n"
| "transferred _ n = n"

definition file_seek :: "nat \<Rightarrow> (File, io_error, nat) prog" where
  "file_seek pos = os_call (\<lambda>_ f. Some (Inr pos, f\<lparr>cursor := pos\<rparr>))"

definition file_seek_end :: "(File, io_error, nat) prog" where
  "file_seek_end = os_call (\<lambda>_ f. Some (Inr (length (contents f)), f\<lparr>cursor := length (contents f)\<rparr>))"

definition file_read :: "nat \<Rightarrow> (File, io_error, u8 list) prog" where
  "file_read n = os_call (\<lambda>c f.
     let bytes = take (transferred c n) (drop (cursor f) (contents f))
     in Some (Inr bytes, f\<lparr>cursor := cursor f + length bytes\<rparr>))"

definition patch :: "nat \<Rightarrow> u8 list \<Rightarrow> u8 list \<Rightarrow> u8 list" where
  "patch pos data bytes =
     (if data = [] then bytes
      else let padded = bytes @ replicate (pos - length bytes) 0
        in take pos padded @ data @ drop (pos + length data) padded)"

definition file_write :: "u8 list \<Rightarrow> (File, io_error, nat) prog" where
  "file_write data = os_call (\<lambda>c f.
     let part = take (transferred c (length data)) data
     in Some (Inr (length part), f\<lparr>contents := patch (cursor f) part (contents f), cursor := cursor f + length part\<rparr>))"

definition file_set_len :: "nat \<Rightarrow> (File, io_error, unit) prog" where
  "file_set_len n = os_call (\<lambda>_ f.
     Some (Inr (), f\<lparr>contents := take n (contents f) @ replicate (n - length (contents f)) 0\<rparr>))"

definition file_flush :: "(File, io_error, unit) prog" where
  "file_flush = os_call (\<lambda>_ f. Some (Inr (), f))"

section \<open>The device over a file\<close>

definition BLOCK_SIZE :: nat where
  "BLOCK_SIZE = 4096"

record FileDevice =
  max_block_count :: nat
  fd_file :: File

text \<open>\<open>File::options().open\<close> is the first call on a file; the state is the file found (empty when it was created).\<close>

definition file_open :: "(File, io_error, unit) prog" where
  "file_open = os_call (\<lambda>_ f. Some (Inr (), f\<lparr>cursor := 0\<rparr>))"

definition FileDevice_create :: "nat \<Rightarrow> (File, io_error, FileDevice) prog" where
  "FileDevice_create block_count =
     attempt file_open (\<lambda>_.
     attempt file_seek_end (\<lambda>old_size f. do {
       bytes \<leftarrow> u64_mul block_count BLOCK_SIZE;
       let new_size = max old_size bytes;
       attempt (file_seek 0) (\<lambda>_.
         attempt (file_set_len new_size) (\<lambda>_ f.
           Some (Inr \<lparr>max_block_count = block_count, fd_file = f\<rparr>, f))) f
     }))"

definition FileDevice_open :: "(File, io_error, FileDevice) prog" where
  "FileDevice_open =
     attempt file_open (\<lambda>_.
     attempt file_seek_end (\<lambda>size.
     attempt (file_seek 0) (\<lambda>_ f.
       Some (Inr \<lparr>max_block_count = size div BLOCK_SIZE, fd_file = f\<rparr>, f))))"

definition FileDevice_close :: "FileDevice \<Rightarrow> ((io_error + unit) \<times> File) run" where
  "FileDevice_close d = file_flush (fd_file d)"

text \<open>Taking the lock of the file; \<open>seek\<close> to a block multiplies its address by the block size.\<close>

definition with_file :: "(File, 'e, 'a) prog \<Rightarrow> (FileDevice, 'e, 'a) prog" where
  "with_file m d = map_option (\<lambda>(r, f). (r, d\<lparr>fd_file := f\<rparr>)) (m (fd_file d))"

definition seek_block :: "nat \<Rightarrow> nat \<Rightarrow> (File, io_error, nat) prog" where
  "seek_block lba offset f = do {
     p \<leftarrow> u64_mul lba BLOCK_SIZE;
     q \<leftarrow> u64_add p offset;
     file_seek q f
   }"

definition read_contig_internal :: "nat \<Rightarrow> nat \<Rightarrow> (File, io_error, u8 list) prog" where
  "read_contig_internal start n =
     attempt (seek_block start 0) (\<lambda>_.
     attempt (file_read n) (\<lambda>bytes.
       if length bytes \<noteq> n then err UnexpectedEOF else ok bytes))"

definition fd_read_block :: "nat \<Rightarrow> nat \<Rightarrow> (FileDevice, io_error ReadBlockDeviceError, u8 list) prog" where
  "fd_read_block lba buffer_len =
     asserting (buffer_len = BLOCK_SIZE)
       (with_file (map_err RBDevice (read_contig_internal lba buffer_len)))"

definition fd_read_blocks_contig :: "nat \<Rightarrow> nat \<Rightarrow> nat \<Rightarrow> (FileDevice, io_error ReadBlockDeviceError, u8 list) prog" where
  "fd_read_blocks_contig start block_count buffer_len d = do {
     n \<leftarrow> u64_mul BLOCK_SIZE block_count;
     asserting (buffer_len = n)
       (with_file (map_err RBDevice (read_contig_internal start buffer_len))) d
   }"

text \<open>\<open>read_blocks\<close>: the groups are read one after the other into the buffer; \<open>acc\<close> is what the buffer holds below the cursor.\<close>

fun total_bytes :: "BlockGroup list \<Rightarrow> nat run" where
  "total_bytes [] = Some 0"
| "total_bytes (g # gs) = do {
     n \<leftarrow> group_bytes BLOCK_SIZE g;
     m \<leftarrow> total_bytes gs;
     u64_add n m
   }"

fun read_groups :: "BlockGroup list \<Rightarrow> nat \<Rightarrow> u8 list \<Rightarrow> (File, io_error, u8 list) prog" where
  "read_groups [] buffer_len acc f = Some (Inr acc, f)"
| "read_groups (g # gs) buffer_len acc f = do {
     n \<leftarrow> group_bytes BLOCK_SIZE g;
     end_cursor \<leftarrow> u64_add (length acc) n;
     assert_that (end_cursor \<le> buffer_len);
     attempt (read_contig_internal (bg_start g) n) (\<lambda>bytes. read_groups gs buffer_len (acc @ bytes)) f
   }"

definition fd_read_blocks :: "BlockGroup list \<Rightarrow> u8 list \<Rightarrow> (FileDevice, io_error ReadBlockDeviceError, u8 list) prog" where
  "fd_read_blocks groups buffer d = do {
     total_bytes_to_read \<leftarrow> total_bytes groups;
     assert_that (total_bytes_to_read < length buffer);
     assert_that (length buffer mod BLOCK_SIZE = 0);
     attempt (with_file (map_err RBDevice (read_groups groups (length buffer) [])))
       (\<lambda>bytes. asserting (length bytes = total_bytes_to_read) (ok (bytes @ drop (length bytes) buffer))) d
   }"

definition fd_write_block :: "nat \<Rightarrow> u8 list \<Rightarrow> (FileDevice, io_error WriteBlockDeviceError, unit) prog" where
  "fd_write_block lba data =
     (if length data \<noteq> BLOCK_SIZE then err (WBNotEnoughData BLOCK_SIZE (length data))
      else with_file (map_err WBDevice
        (attempt (seek_block lba 0) (\<lambda>_.
         attempt (file_write data) (\<lambda>n.
           if n \<noteq> BLOCK_SIZE then err IncompleteWrite else ok ())))))"

definition fd_write_blocks_contig :: "nat \<Rightarrow> u8 list \<Rightarrow> (FileDevice, io_error WriteBlockDeviceError, unit) prog" where
  "fd_write_blocks_contig start data =
     asserting (length data mod BLOCK_SIZE = 0)
       (with_file (map_err WBDevice
         (attempt (seek_block start 0) (\<lambda>_.
          attempt (file_write data) (\<lambda>n.
            if n \<noteq> length data then err IncompleteWrite else ok ())))))"

definition fd_read_block_atomic :: "nat \<Rightarrow> nat \<Rightarrow> (FileDevice, io_error ReadBlockDeviceError, u8 list) prog" where
  "fd_read_block_atomic lba buffer_len = fd_read_block lba buffer_len"

definition fd_write_block_atomic :: "nat \<Rightarrow> u8 list \<Rightarrow> (FileDevice, io_error WriteBlockDeviceError, unit) prog" where
  "fd_write_block_atomic lba data = fd_write_block lba data"

text \<open>\<open>compare_exchange_block\<close> also changes \<open>current\<close>: the buffer of the caller is the second result.\<close>

definition fd_compare_exchange_block ::
    "nat \<Rightarrow> u8 list \<Rightarrow> u8 list \<Rightarrow> FileDevice \<Rightarrow> ((io_error CompareExchangeError + unit) \<times> u8 list \<times> FileDevice) run" where
  "fd_compare_exchange_block lba current new d = do {
     assert_that (length current = BLOCK_SIZE);
     assert_that (length new = BLOCK_SIZE);
     (r, d') \<leftarrow> with_file
       (attempt (seek_block lba 0) (\<lambda>_.
        attempt (file_read BLOCK_SIZE) (\<lambda>block.
          if length block \<noteq> BLOCK_SIZE then err UnexpectedEOF
          else if block \<noteq> current then ok (Some block)
          else attempt (seek_block lba 0) (\<lambda>_.
            attempt (file_write new) (\<lambda>n.
              if n \<noteq> BLOCK_SIZE then err IncompleteWrite else ok None))))) d;
     case r of
       Inl e \<Rightarrow> Some (Inl (CEDevice e), current, d')
     | Inr (Some block) \<Rightarrow> Some (Inl CEOutdatedData, block, d')
     | Inr None \<Rightarrow> Some (Inr (), current, d')
   }"

fun write_groups :: "BlockGroup run list \<Rightarrow> u8 list \<Rightarrow> (FileDevice, io_error WriteBlockDeviceError, unit) prog" where
  "write_groups [] data d = Some (Inr (), d)"
| "write_groups (next # gs) data d = do {
     g \<leftarrow> next;
     n \<leftarrow> group_bytes BLOCK_SIZE g;
     assert_that (n \<le> length data);
     attempt (fd_write_blocks_contig (bg_start g) (take n data)) (\<lambda>_. write_groups gs (drop n data)) d
   }"

definition fd_write_blocks :: "BlockGroup run list \<Rightarrow> u8 list \<Rightarrow> (FileDevice, io_error WriteBlockDeviceError, unit) prog" where
  "fd_write_blocks groups data d = do {
     assert_that (length data mod BLOCK_SIZE = 0);
     write_groups groups data d
   }"

definition fd_write_partial_block :: "nat \<Rightarrow> u8 list \<Rightarrow> nat \<Rightarrow> (FileDevice, io_error WriteBlockDeviceError, unit) prog" where
  "fd_write_partial_block lba data offset =
     asserting (length data + offset \<le> BLOCK_SIZE)
       (with_file (map_err WBDevice
         (attempt (seek_block lba offset) (\<lambda>_.
          attempt (file_write data) (\<lambda>n.
            if n \<noteq> length data then err IncompleteWrite else ok ())))))"

definition file_device :: "(FileDevice, io_error) BlockDevice" where
  "file_device = \<lparr>DEV_BLOCK_SIZE = 4096, dev_size = max_block_count, read_block = fd_read_block, read_blocks = fd_read_blocks,
     write_block = fd_write_block, write_blocks = fd_write_blocks, write_partial_block = fd_write_partial_block\<rparr>"

section \<open>The file device keeps the promises of the trait\<close>

definition byte_at :: "u8 list \<Rightarrow> nat \<Rightarrow> u8" where
  "byte_at bytes i = (if i < length bytes then bytes ! i else 0)"

definition file_content :: "FileDevice \<Rightarrow> nat \<Rightarrow> u8 list" where
  "file_content d lba = map (byte_at (contents (fd_file d))) [lba * BLOCK_SIZE..<lba * BLOCK_SIZE + BLOCK_SIZE]"

definition file_healthy :: "FileDevice \<Rightarrow> nat \<Rightarrow> bool" where
  "file_healthy d lba \<longleftrightarrow> io_calls (fd_file d) = [] \<and> lba * BLOCK_SIZE \<le> u64_max
     \<and> lba * BLOCK_SIZE + BLOCK_SIZE \<le> length (contents (fd_file d))"

lemma byte_at_patch:
  "byte_at (patch pos data bytes) i = (if pos \<le> i \<and> i < pos + length data then data ! (i - pos) else byte_at bytes i)"
  by (auto simp: byte_at_def patch_def Let_def nth_append min_def)

lemma length_patch: "length (patch pos data bytes) = (if data = [] then length bytes else max (length bytes) (pos + length data))"
  by (auto simp: patch_def Let_def)

lemma os_call_Nil: "io_calls f = [] \<Longrightarrow> os_call body f = body Complete f"
  by (simp add: os_call_def)

lemma os_call_Some:
  "os_call body f = Some (r, f') \<Longrightarrow>
     (r = Inl OsError \<and> f' = f\<lparr>io_calls := tl (io_calls f)\<rparr> \<and> io_calls f \<noteq> [])
     \<or> (\<exists>c. body c (f\<lparr>io_calls := tl (io_calls f)\<rparr>) = Some (r, f'))"
proof (cases "io_calls f")
  case Nil
  then have "f\<lparr>io_calls := tl (io_calls f)\<rparr> = f" by (cases f) simp
  moreover assume "os_call body f = Some (r, f')"
  ultimately show ?thesis using Nil by (intro disjI2 exI [of _ Complete]) (simp only: os_call_Nil)
next
  case (Cons c cs)
  moreover assume "os_call body f = Some (r, f')"
  ultimately show ?thesis by (cases c) (auto simp: os_call_def)
qed

lemma seek_block_D:
  assumes "seek_block lba off f = Some (r, f')"
  shows "contents f' = contents f \<and> io_calls f' = tl (io_calls f) \<and> (\<forall>q. r = Inr q \<longrightarrow> cursor f' = lba * BLOCK_SIZE + off)"
  using assms by (auto simp: seek_block_def file_seek_def run_simps dest!: os_call_Some)

lemma file_read_D:
  assumes "file_read n f = Some (r, f')"
  shows "contents f' = contents f \<and> io_calls f' = tl (io_calls f)
    \<and> (\<forall>bytes. r = Inr bytes \<longrightarrow> (\<exists>k \<le> n. bytes = take k (drop (cursor f) (contents f))))"
proof -
  have "transferred c n \<le> n" for c by (cases c) auto
  then show ?thesis using assms by (fastforce simp: file_read_def Let_def dest!: os_call_Some)
qed

lemma file_write_D:
  assumes "file_write data f = Some (r, f')"
  shows "io_calls f' = tl (io_calls f) \<and> (case r of Inl e \<Rightarrow> contents f' = contents f
    | Inr k \<Rightarrow> k \<le> length data \<and> contents f' = patch (cursor f) (take k data) (contents f))"
proof -
  have "transferred c (length data) \<le> length data" for c by (cases c) auto
  then show ?thesis using assms by (auto simp: file_write_def Let_def min_absorb2 dest!: os_call_Some)
qed

lemma with_file_Some:
  "with_file m d = Some (r, d') \<longleftrightarrow> (\<exists>f. m (fd_file d) = Some (r, f) \<and> d' = d\<lparr>fd_file := f\<rparr>)"
  by (auto simp: with_file_def)

lemma take_drop_content:
  assumes "length (take k (drop p bytes)) = n" "k \<le> n"
  shows "take k (drop p bytes) = map (byte_at bytes) [p..<p + n]"
  using assms by (intro nth_equalityI) (auto simp: byte_at_def)

lemma read_contig_D:
  assumes "read_contig_internal lba n f = Some (r, f')"
  shows "contents f' = contents f \<and> (io_calls f = [] \<longrightarrow> io_calls f' = [])
    \<and> (\<forall>bytes. r = Inr bytes \<longrightarrow> bytes = map (byte_at (contents f)) [lba * BLOCK_SIZE..<lba * BLOCK_SIZE + n])"
  using assms unfolding read_contig_internal_def attempt_Some
  by (fastforce split: if_splits dest!: seek_block_D file_read_D intro: take_drop_content)

lemma block_indices_disjoint:
  "lba * BLOCK_SIZE \<le> i \<Longrightarrow> i < lba * BLOCK_SIZE + BLOCK_SIZE \<Longrightarrow> b * BLOCK_SIZE \<le> i \<Longrightarrow> i < b * BLOCK_SIZE + BLOCK_SIZE \<Longrightarrow> b = lba"
proof -
  assume a: "lba * BLOCK_SIZE \<le> i" "i < lba * BLOCK_SIZE + BLOCK_SIZE" "b * BLOCK_SIZE \<le> i" "i < b * BLOCK_SIZE + BLOCK_SIZE"
  have "i div BLOCK_SIZE = lba" using a(1,2) by (intro div_nat_eqI) (simp_all add: mult.commute)
  moreover have "i div BLOCK_SIZE = b" using a(3,4) by (intro div_nat_eqI) (simp_all add: mult.commute)
  ultimately show ?thesis by simp
qed

lemma file_content_patch:
  assumes "contents (fd_file d') = patch (lba * BLOCK_SIZE + off) data (contents (fd_file d))" "off + length data \<le> BLOCK_SIZE"
  shows "b \<noteq> lba \<Longrightarrow> file_content d' b = file_content d b"
    and "file_content d' lba = take off (file_content d lba) @ data @ drop (off + length data) (file_content d lba)"
proof -
  assume "b \<noteq> lba"
  then have "\<not> (lba * BLOCK_SIZE + off \<le> i \<and> i < lba * BLOCK_SIZE + off + length data)"
    if "b * BLOCK_SIZE \<le> i" "i < b * BLOCK_SIZE + BLOCK_SIZE" for i
    using that assms(2) block_indices_disjoint [of lba i b] by linarith
  then show "file_content d' b = file_content d b"
    unfolding file_content_def assms(1) by (intro map_cong refl) (auto simp: byte_at_patch)
next
  show "file_content d' lba = take off (file_content d lba) @ data @ drop (off + length data) (file_content d lba)"
    using assms by (intro nth_equalityI) (auto simp: file_content_def byte_at_patch nth_append)
qed

lemma length_file_content [simp]: "length (file_content d lba) = BLOCK_SIZE"
  by (simp add: file_content_def)

lemma fd_write_block_D:
  assumes "fd_write_block lba data d = Some (r, d')"
  shows "(\<exists>k \<le> BLOCK_SIZE. contents (fd_file d') = patch (lba * BLOCK_SIZE + 0) (take k data) (contents (fd_file d)))
    \<and> (\<forall>u. r = Inr u \<longrightarrow> length data = BLOCK_SIZE
      \<and> contents (fd_file d') = patch (lba * BLOCK_SIZE + 0) data (contents (fd_file d)))"
proof (cases "length data = BLOCK_SIZE")
  case False
  then show ?thesis using assms by (auto simp: fd_write_block_def patch_def intro!: exI [of _ 0])
next
  case len: True
  obtain r' f where r': "attempt (seek_block lba 0) (\<lambda>_. attempt (file_write data) (\<lambda>n.
      if n \<noteq> BLOCK_SIZE then err IncompleteWrite else ok ())) (fd_file d) = Some (r', f)"
    and r: "r = map_sum WBDevice (\<lambda>x. x) r'" and d': "d' = d\<lparr>fd_file := f\<rparr>"
    using assms len by (auto simp: fd_write_block_def with_file_Some map_err_Some)
  from r' consider (seekf) e where "seek_block lba 0 (fd_file d) = Some (Inl e, f)" "r' = Inl e"
    | (writef) q f1 e where "seek_block lba 0 (fd_file d) = Some (Inr q, f1)" "file_write data f1 = Some (Inl e, f)" "r' = Inl e"
    | (wrote) q f1 n where "seek_block lba 0 (fd_file d) = Some (Inr q, f1)" "file_write data f1 = Some (Inr n, f)"
      "r' = (if n \<noteq> BLOCK_SIZE then Inl IncompleteWrite else Inr ())"
    by (auto simp: attempt_Some split: if_splits)
  then show ?thesis
  proof cases
    case seekf
    then show ?thesis using r d' by (auto dest!: seek_block_D simp: patch_def intro!: exI [of _ 0])
  next
    case writef
    then show ?thesis using r d' by (auto dest!: seek_block_D file_write_D simp: patch_def intro!: exI [of _ 0])
  next
    case wrote
    then show ?thesis using r d' len by (auto dest!: seek_block_D file_write_D split: if_splits)
  qed
qed

lemma fd_read_block_D:
  assumes "fd_read_block lba n d = Some (r, d')"
  shows "file_content d' = file_content d \<and> (\<forall>b. file_healthy d b \<longrightarrow> file_healthy d' b) \<and> (\<forall>data. r = Inr data \<longrightarrow> data = file_content d lba)"
proof -
  obtain r' f where r': "read_contig_internal lba BLOCK_SIZE (fd_file d) = Some (r', f)"
    and r: "r = map_sum RBDevice (\<lambda>x. x) r'" and d': "d' = d\<lparr>fd_file := f\<rparr>"
    using assms by (auto simp: fd_read_block_def with_file_Some map_err_Some)
  then show ?thesis using read_contig_D [OF r'] r
    by (cases r') (auto simp: file_content_def file_healthy_def fun_eq_iff)
qed

lemma fd_healthy_read:
  assumes "file_healthy d lba"
  shows "\<exists>data d'. fd_read_block lba BLOCK_SIZE d = Some (Inr data, d')"
proof -
  have "lba * BLOCK_SIZE \<le> u64_max" "io_calls (fd_file d) = []" "lba * BLOCK_SIZE + BLOCK_SIZE \<le> length (contents (fd_file d))"
    using assms by (simp_all add: file_healthy_def)
  then show ?thesis
    by (simp add: fd_read_block_def asserting_def with_file_def map_err_def read_contig_internal_def attempt_def
      seek_block_def u64_mul_def u64_add_def file_seek_def file_read_def os_call_Nil Let_def ok_def)
qed

lemma fd_healthy_write:
  assumes "file_healthy d lba" "length data = BLOCK_SIZE"
  shows "\<exists>d'. fd_write_block lba data d = Some (Inr (), d') \<and> (\<forall>b. file_healthy d b \<longrightarrow> file_healthy d' b)"
proof -
  have "lba * BLOCK_SIZE \<le> u64_max" "io_calls (fd_file d) = []" using assms by (simp_all add: file_healthy_def)
  then show ?thesis using assms(2)
    by (simp add: fd_write_block_def with_file_def map_err_def attempt_def
      seek_block_def u64_mul_def u64_add_def file_seek_def file_write_def os_call_Nil Let_def ok_def file_healthy_def length_patch le_max_iff_disj)
qed

interpretation fd: block_device file_device file_content file_healthy
proof unfold_locales
  fix lba data d u d' assume "write_block file_device lba data d = Some (Inr u, d')"
  then have w: "fd_write_block lba data d = Some (Inr u, d')" by (simp add: file_device_def)
  note D = fd_write_block_D [OF w]
  show "file_content d' = (file_content d)(lba := data)"
    using D file_content_patch [of d' lba 0 data d] by (auto simp: fun_eq_iff)
next
  fix lba data d e d' and b :: nat assume "write_block file_device lba data d = Some (Inl e, d')" and b: "b \<noteq> lba"
  then have w: "fd_write_block lba data d = Some (Inl e, d')" by (simp add: file_device_def)
  then obtain k where "k \<le> BLOCK_SIZE" "contents (fd_file d') = patch (lba * BLOCK_SIZE + 0) (take k data) (contents (fd_file d))"
    using fd_write_block_D [OF w] by blast
  then show "file_content d' b = file_content d b"
    using file_content_patch(1) [of d' lba 0 "take k data" d b] b by simp
next
  fix lba n d data d' assume "read_block file_device lba n d = Some (Inr data, d')"
  then show "data = file_content d lba" using fd_read_block_D by (auto simp: file_device_def)
next
  fix lba n d r d' assume "read_block file_device lba n d = Some (r, d')"
  then show "file_content d' = file_content d \<and> (\<forall>b. file_healthy d b \<longrightarrow> file_healthy d' b)"
    using fd_read_block_D by (auto simp: file_device_def)
next
  fix d lba assume "file_healthy d lba"
  then show "\<exists>data d'. read_block file_device lba (DEV_BLOCK_SIZE file_device) d = Some (Inr data, d')"
    using fd_healthy_read by (simp add: file_device_def BLOCK_SIZE_def)
next
  fix d lba and data :: "u8 list" assume "file_healthy d lba" "length data = DEV_BLOCK_SIZE file_device"
  then show "\<exists>d'. write_block file_device lba data d = Some (Inr (), d') \<and> (\<forall>b. file_healthy d b \<longrightarrow> file_healthy d' b)"
    using fd_healthy_write by (simp add: file_device_def BLOCK_SIZE_def)
qed

text \<open>
  On a file that answers every call in full, \<open>compare_exchange_block\<close> stores the new block exactly when the old one is the expected
  one, and otherwise hands the stored block to the caller; nothing else changes.
\<close>

lemma healthy_seek_read:
  assumes "file_healthy d lba"
  shows "seek_block lba 0 (fd_file d) = Some (Inr (lba * BLOCK_SIZE), (fd_file d)\<lparr>cursor := lba * BLOCK_SIZE\<rparr>)"
    "file_read BLOCK_SIZE ((fd_file d)\<lparr>cursor := lba * BLOCK_SIZE\<rparr>)
      = Some (Inr (file_content d lba), (fd_file d)\<lparr>cursor := lba * BLOCK_SIZE + BLOCK_SIZE\<rparr>)"
proof -
  have h: "lba * BLOCK_SIZE \<le> u64_max" "io_calls (fd_file d) = []" "lba * BLOCK_SIZE + BLOCK_SIZE \<le> length (contents (fd_file d))"
    using assms by (simp_all add: file_healthy_def)
  then show "seek_block lba 0 (fd_file d) = Some (Inr (lba * BLOCK_SIZE), (fd_file d)\<lparr>cursor := lba * BLOCK_SIZE\<rparr>)"
    by (simp add: seek_block_def u64_mul_def u64_add_def file_seek_def os_call_Nil)
  have "take BLOCK_SIZE (drop (lba * BLOCK_SIZE) (contents (fd_file d))) = file_content d lba"
    unfolding file_content_def using h(3) by (intro take_drop_content) auto
  then show "file_read BLOCK_SIZE ((fd_file d)\<lparr>cursor := lba * BLOCK_SIZE\<rparr>)
      = Some (Inr (file_content d lba), (fd_file d)\<lparr>cursor := lba * BLOCK_SIZE + BLOCK_SIZE\<rparr>)"
    using h(2,3) by (simp add: file_read_def os_call_Nil Let_def min_absorb2)
qed

lemma compare_exchange_correct:
  assumes h: "file_healthy d lba" and len: "length current = BLOCK_SIZE" "length new = BLOCK_SIZE"
  shows "\<exists>d'. fd_compare_exchange_block lba current new d =
      Some (if file_content d lba = current then (Inr (), current, d') else (Inl CEOutdatedData, file_content d lba, d'))
    \<and> file_content d' = (if file_content d lba = current then (file_content d)(lba := new) else file_content d)"
proof (cases "file_content d lba = current")
  case True
  define f' where "f' = (fd_file d)\<lparr>contents := patch (lba * BLOCK_SIZE) new (contents (fd_file d)), cursor := lba * BLOCK_SIZE + BLOCK_SIZE\<rparr>"
  have w: "file_write new ((fd_file d)\<lparr>cursor := lba * BLOCK_SIZE\<rparr>) = Some (Inr BLOCK_SIZE, f')"
    using h len by (simp add: file_healthy_def file_write_def os_call_Nil Let_def f'_def)
  have s: "seek_block lba 0 ((fd_file d)\<lparr>cursor := lba * BLOCK_SIZE + BLOCK_SIZE\<rparr>) = Some (Inr (lba * BLOCK_SIZE), (fd_file d)\<lparr>cursor := lba * BLOCK_SIZE\<rparr>)"
    using h by (simp add: file_healthy_def seek_block_def u64_mul_def u64_add_def file_seek_def os_call_Nil)
  have "fd_compare_exchange_block lba current new d = Some (Inr (), current, d\<lparr>fd_file := f'\<rparr>)"
    using healthy_seek_read [OF h] len True w s by (simp add: fd_compare_exchange_block_def with_file_def ok_def)
  moreover have "file_content (d\<lparr>fd_file := f'\<rparr>) = (file_content d)(lba := new)"
    using file_content_patch [of "d\<lparr>fd_file := f'\<rparr>" lba 0 new d] len by (auto simp: fun_eq_iff f'_def)
  ultimately show ?thesis using True by auto
next
  case False
  let ?d = "d\<lparr>fd_file := (fd_file d)\<lparr>cursor := lba * BLOCK_SIZE + BLOCK_SIZE\<rparr>\<rparr>"
  have "fd_compare_exchange_block lba current new d = Some (Inl CEOutdatedData, file_content d lba, ?d)"
    using healthy_seek_read [OF h] len False by (simp add: fd_compare_exchange_block_def with_file_def ok_def)
  moreover have "file_content ?d = file_content d" by (simp add: file_content_def fun_eq_iff)
  ultimately show ?thesis using False by auto
qed

text \<open>\<open>read_blocks\<close> refuses a buffer of exactly the size of the groups, which the trait allows.\<close>

lemma read_blocks_exact_buffer:
  "total_bytes groups = Some (length buffer) \<Longrightarrow> fd_read_blocks groups buffer d = None"
  by (simp add: fd_read_blocks_def)

end
