(* ===== verification/Block_Allocator.thy ===== *)
theory Block_Allocator
  imports File_Device
begin

text \<open>
  The block allocator of the file system (\<open>wasabi-fs/src/block_allocator.rs\<close>): a sorted list of free groups, best-fit allocation, and
  the list of free groups kept on the device as a chain of blocks.
\<close>

section \<open>Errors\<close>

text \<open>
  The errors of \<open>fs.rs\<close> that the code modelled here returns. A device error is boxed as a \<open>dyn Error\<close>, which the file system never
  opens again: only the operation that failed is kept.
\<close>

datatype FileType = FileT | DirectoryT

datatype device_failure = ReadFailure | WriteFailure

datatype FsError =
    BlockDeviceError device_failure
  | BlockDeviceToSmall nat nat
  | BlockDeviceFull nat
  | NoConsecutiveFreeBlocks nat
  | WriteAllocatorFreeList
  | StringToLong
  | Oom
  | FileTypeMismatch nat FileType FileType
  | ReadZeroBytes
  | MalformedStringLength
  | MalformedStringUtf8

section \<open>The allocator\<close>

record BlockAllocator =
  free :: "BlockGroup list"
  on_disk :: "nat option"
  self_on_disk :: "nat list"
  dirty :: bool

fun windows_apart :: "BlockGroup list \<Rightarrow> bool run" where
  "windows_apart (first # second # gs) = do {
     past_first_end \<leftarrow> lba_add (bg_start first) (bg_count first);
     if past_first_end < bg_start second then windows_apart (second # gs) else Some False
   }"
| "windows_apart _ = Some True"

definition check_consistent :: "BlockAllocator \<Rightarrow> (unit + unit) run" where
  "check_consistent A = do {
     c \<leftarrow> windows_apart (free A);
     Some (if c then Inr () else Inl ())
   }"

text \<open>\<open>debug_assert!(self.check_consistent().is_ok())\<close>\<close>

definition debug_consistent :: "BlockAllocator \<Rightarrow> BlockAllocator run" where
  "debug_consistent A = do {
     r \<leftarrow> check_consistent A;
     assert_that (r = Inr ());
     Some A
   }"

definition is_dirty :: "BlockAllocator \<Rightarrow> bool" where
  "is_dirty A = dirty A"

definition check_matches_device :: "BlockAllocator \<Rightarrow> (unit + unit) run" where
  "check_matches_device A = (if is_dirty A then Some (Inl ()) else check_consistent A)"

fun containing :: "nat \<Rightarrow> BlockGroup list \<Rightarrow> nat option run" where
  "containing lba [] = Some None"
| "containing lba (g # gs) = do {
     c \<leftarrow> group_contains lba g;
     if c then Some (Some 0) else map_option (map_option Suc) (containing lba gs)
   }"

definition mark_used :: "nat \<Rightarrow> BlockAllocator \<Rightarrow> ((unit + unit) \<times> BlockAllocator) run" where
  "mark_used lba A = do {
     p \<leftarrow> containing lba (free A);
     case p of
       None \<Rightarrow> Some (Inl (), A)
     | Some block_index \<Rightarrow>
         let g = free A ! block_index in
         if lba = bg_start g then
           if bg_count g = 1 then do {
             A' \<leftarrow> debug_consistent (A\<lparr>free := remove_at block_index (free A)\<rparr>);
             Some (Inr (), A')
           } else do {
             s \<leftarrow> lba_add (bg_start g) 1;
             c \<leftarrow> u64_sub (bg_count g) 1;
             n \<leftarrow> non_zero c;
             A' \<leftarrow> debug_consistent (A\<lparr>free := (free A)[block_index := \<lparr>bg_start = s, bg_count = n\<rparr>]\<rparr>);
             Some (Inr (), A')
           }
         else do {
           end \<leftarrow> group_end g;
           if lba = end then do {
             c \<leftarrow> u64_sub (bg_count g) 1;
             n \<leftarrow> non_zero c;
             A' \<leftarrow> debug_consistent (A\<lparr>free := (free A)[block_index := g\<lparr>bg_count := n\<rparr>]\<rparr>);
             Some (Inr (), A')
           } else do {
             c \<leftarrow> lba_diff lba (bg_start g);
             n \<leftarrow> non_zero c;
             s \<leftarrow> lba_add lba 1;
             new_group \<leftarrow> group_new s end;
             A' \<leftarrow> debug_consistent (A\<lparr>free := insert_at (block_index + 1) new_group ((free A)[block_index := g\<lparr>bg_count := n\<rparr>])\<rparr>);
             Some (Inr (), A')
           }
         }
   }"

fun mark_all_used :: "nat list \<Rightarrow> BlockAllocator \<Rightarrow> BlockAllocator run" where
  "mark_all_used [] A = Some A"
| "mark_all_used (b # bs) A = do {
     (r, A') \<leftarrow> mark_used b A;
     assert_that (r = Inr ());
     mark_all_used bs A'
   }"

definition BlockAllocator_empty :: "nat list \<Rightarrow> nat \<Rightarrow> BlockAllocator run" where
  "BlockAllocator_empty inital_usage max_lba = do {
     n \<leftarrow> non_zero max_lba;
     mark_all_used inital_usage \<lparr>free = [with_count 0 n], on_disk = None, self_on_disk = [], dirty = True\<rparr>
   }"

text \<open>The search of \<open>allocate_group\<close>: the index of the best group so far and what it leaves; \<open>usize::MAX\<close> stands for none.\<close>

fun best_fit :: "nat \<Rightarrow> nat \<Rightarrow> BlockGroup list \<Rightarrow> nat \<Rightarrow> nat \<Rightarrow> (nat \<times> nat) run" where
  "best_fit want i [] best best_rem = Some (best, best_rem)"
| "best_fit want i (g # gs) best best_rem =
     (if bg_count g < want then best_fit want (i + 1) gs best best_rem
      else do {
        rem \<leftarrow> u64_sub (bg_count g) want;
        if rem < best_rem then best_fit want (i + 1) gs i rem else best_fit want (i + 1) gs best best_rem
      })"

definition allocate_group :: "nat \<Rightarrow> (BlockAllocator, FsError, BlockGroup) prog" where
  "allocate_group want A = do {
     assert_that (1 \<le> want);
     (best, best_rem) \<leftarrow> best_fit want 0 (free A) u64_max u64_max;
     if best = u64_max then Some (Inl (NoConsecutiveFreeBlocks want), A)
     else let A' = A\<lparr>dirty := True\<rparr> in
       if best_rem = 0 then Some (Inr (free A ! best), A'\<lparr>free := remove_at best (free A)\<rparr>)
       else do {
         n \<leftarrow> non_zero want;
         s \<leftarrow> lba_add (bg_start (free A ! best)) want;
         m \<leftarrow> non_zero best_rem;
         A'' \<leftarrow> debug_consistent (A'\<lparr>free := (free A)[best := \<lparr>bg_start = s, bg_count = m\<rparr>]\<rparr>);
         Some (Inr \<lparr>bg_start = bg_start (free A ! best), bg_count = n\<rparr>, A'')
       }
   }"

text \<open>\<open>free_group\<close>: the loop over the indices; a group after every free group is dropped by the end of the loop.\<close>

fun free_loop :: "BlockGroup \<Rightarrow> BlockGroup list \<Rightarrow> BlockGroup list run" where
  "free_loop g [] = Some []"
| "free_loop g (current # gs) =
     (if bg_start current > bg_start g then Some (g # current # gs)
      else do {
        end \<leftarrow> group_end current;
        past \<leftarrow> lba_add end 1;
        if past = bg_start g then do {
          c \<leftarrow> u64_add (bg_count current) (bg_count g);
          n \<leftarrow> non_zero c;
          Some (current\<lparr>bg_count := n\<rparr> # gs)
        } else do {
          end' \<leftarrow> group_end current;
          assert_that (bg_start g > end');
          gs' \<leftarrow> free_loop g gs;
          Some (current # gs')
        }
      })"

definition free_group :: "BlockGroup \<Rightarrow> BlockAllocator \<Rightarrow> BlockAllocator run" where
  "free_group g A = do {
     gs \<leftarrow> free_loop g (free A);
     debug_consistent (A\<lparr>dirty := True, free := gs\<rparr>)
   }"

definition free_block :: "nat \<Rightarrow> BlockAllocator \<Rightarrow> BlockAllocator run" where
  "free_block block A = free_group \<lparr>bg_start = block, bg_count = 1\<rparr> A"

definition allocate_block :: "(BlockAllocator, FsError, nat) prog" where
  "allocate_block = attempt (allocate_group 1) (\<lambda>g. ok (bg_start g))"

text \<open>A \<open>BlockGroupList\<close> is the list of its groups.\<close>

fun free_groups :: "BlockGroup list \<Rightarrow> BlockAllocator \<Rightarrow> BlockAllocator run" where
  "free_groups [] A = Some A"
| "free_groups (g # gs) A = do {
     A' \<leftarrow> free_group g A;
     free_groups gs A'
   }"

fun block_count :: "BlockGroup list \<Rightarrow> nat run" where
  "block_count [] = Some 0"
| "block_count (g # gs) = do {
     n \<leftarrow> block_count gs;
     u64_add (bg_count g) n
   }"

text \<open>\<open>u64::ilog2\<close> of a positive number.\<close>

fun ilog2 :: "nat \<Rightarrow> nat" where
  "ilog2 n = (if n < 2 then 0 else Suc (ilog2 (n div 2)))"

declare ilog2.simps [simp del]

function allocate_loop ::
    "nat \<Rightarrow> nat \<Rightarrow> nat \<Rightarrow> BlockGroup list \<Rightarrow> (BlockAllocator, FsError, BlockGroup list) prog" where
  "allocate_loop count remaining_size group_size list A =
     (if remaining_size = 0 then Some (Inr list, A)
      else if group_size = 0 then
        map_option (\<lambda>A'. (Inl (BlockDeviceFull count), A')) (free_groups list A)
      else if remaining_size > group_size then allocate_loop count remaining_size (group_size div 2) list A
      else
        (case allocate_group group_size A of
           None \<Rightarrow> None
         | Some (Inl _, A') \<Rightarrow> allocate_loop count remaining_size (group_size div 2) list A'
         | Some (Inr g, A') \<Rightarrow>
             (case u64_sub remaining_size group_size of
                None \<Rightarrow> None
              | Some r \<Rightarrow> allocate_loop count r group_size (list @ [g]) A')))"
  by pat_completeness auto
termination
  by (relation "measure (\<lambda>(c, r, g, l, A). r + g)") auto

declare allocate_loop.simps [simp del]

definition allocate_list :: "nat \<Rightarrow> (BlockAllocator, FsError, BlockGroup list) prog" where
  "allocate_list count A = do {
     assert_that (1 \<le> count);
     attempt (allocate_loop count count (2 ^ ilog2 count) [])
       (\<lambda>list A. do {
          n \<leftarrow> block_count list;
          assert_that (n = count);
          Some (Inr list, A\<lparr>dirty := True\<rparr>)
        }) A
   }"

section \<open>Consistent allocators\<close>

text \<open>The free groups are ordered, with at least one used block between two of them.\<close>

abbreviation before :: "BlockGroup \<Rightarrow> BlockGroup \<Rightarrow> bool" where
  "before g h \<equiv> bg_start g + bg_count g < bg_start h"

definition apart :: "BlockGroup list \<Rightarrow> bool" where
  "apart gs \<longleftrightarrow> (\<forall>g \<in> set gs. group_ok g) \<and> sorted_wrt before gs"

definition blocks_of :: "BlockGroup list \<Rightarrow> nat set" where
  "blocks_of gs = (\<Union>g \<in> set gs. blocks g)"

abbreviation free_blocks :: "BlockAllocator \<Rightarrow> nat set" where
  "free_blocks A \<equiv> blocks_of (free A)"

abbreviation consistent :: "BlockAllocator \<Rightarrow> bool" where
  "consistent A \<equiv> apart (free A)"

lemma blocks_of_simps [simp]:
  "blocks_of [] = {}" "blocks_of (g # gs) = blocks g \<union> blocks_of gs" "blocks_of (gs @ hs) = blocks_of gs \<union> blocks_of hs"
  by (auto simp: blocks_of_def)

lemma apart_simps:
  "apart []"
  "apart (g # gs) \<longleftrightarrow> group_ok g \<and> (\<forall>h \<in> set gs. before g h) \<and> apart gs"
  "apart (gs @ hs) \<longleftrightarrow> apart gs \<and> apart hs \<and> (\<forall>g \<in> set gs. \<forall>h \<in> set hs. before g h)"
  by (auto simp: apart_def sorted_wrt_append)

lemma apart_member: "apart gs \<Longrightarrow> g \<in> set gs \<Longrightarrow> group_ok g"
  by (simp add: apart_def)

lemma windows_apart_eq:
  "\<forall>g \<in> set gs. group_ok g \<Longrightarrow> windows_apart gs = Some (sorted_wrt before gs)"
proof (induction gs rule: windows_apart.induct)
  case (1 g h gs)
  then show ?case by (cases "before g h") (fastforce simp: lba_add_eq group_ok_def)+
qed auto

lemma debug_consistent_eq:
  "\<forall>g \<in> set (free A). group_ok g \<Longrightarrow> debug_consistent A = (if apart (free A) then Some A else None)"
  by (simp add: debug_consistent_def check_consistent_def windows_apart_eq apart_def)

lemma debug_consistent_apart [simp]: "apart (free A) \<Longrightarrow> debug_consistent A = Some A"
  by (simp add: debug_consistent_eq apart_member)

lemma check_consistent_eq: "\<forall>g \<in> set (free A). group_ok g \<Longrightarrow> check_consistent A = Some (if consistent A then Inr () else Inl ())"
  by (simp add: check_consistent_def windows_apart_eq apart_def)

lemma start_in_blocks: "group_ok g \<Longrightarrow> bg_start g \<in> blocks g"
  by (simp add: group_ok_def blocks_def)

lemma spaced_disjoint: "apart (gs @ g # hs) \<Longrightarrow> blocks g \<inter> blocks_of (gs @ hs) = {}"
  by (fastforce simp: apart_simps blocks_of_def blocks_def)

section \<open>Freeing\<close>

definition touches_free :: "BlockGroup \<Rightarrow> BlockGroup list \<Rightarrow> bool" where
  "touches_free g gs \<longleftrightarrow> (\<exists>h \<in> set gs. bg_start g < bg_start h \<or> bg_start h + bg_count h = bg_start g)"

lemma free_loop_spec:
  assumes "apart gs" "group_ok g" "blocks_of gs \<inter> blocks g = {}"
  shows "\<exists>gs'. free_loop g gs = Some gs' \<and> (\<forall>h \<in> set gs'. group_ok h \<and> (bg_start h = bg_start g \<or> bg_start h \<in> bg_start ` set gs))
    \<and> blocks_of gs' = (if touches_free g gs then blocks_of gs \<union> blocks g else blocks_of gs)
    \<and> (sorted_wrt before gs' \<longleftrightarrow> (\<forall>h \<in> set gs. bg_start h \<noteq> bg_start g + bg_count g))"
  using assms
proof (induction gs)
  case (Cons c gs)
  have c: "group_ok c" "apart gs" "\<forall>h \<in> set gs. before c h" using Cons.prems by (simp_all add: apart_simps)
  have dis: "blocks c \<inter> blocks g = {}" "blocks_of gs \<inter> blocks g = {}" using Cons.prems(3) by auto
  consider (insert) "bg_start g < bg_start c" | (merge) "bg_start c + bg_count c = bg_start g" | (pass) "bg_start c + bg_count c < bg_start g"
    using dis(1) c(1) Cons.prems(2) by (force simp: blocks_def group_ok_def)
  then show ?case
  proof cases
    case insert
    have "bg_start c \<notin> blocks g" using dis(1) start_in_blocks [OF c(1)] by blast
    then have "bg_start g + bg_count g \<le> bg_start c" using insert by (simp add: blocks_def)
    moreover from this have "sorted_wrt before (g # c # gs) \<longleftrightarrow> (\<forall>h \<in> set (c # gs). bg_start h \<noteq> bg_start g + bg_count g)"
      using c Cons.prems by (fastforce simp: apart_def)
    ultimately show ?thesis using insert Cons.prems by (auto simp: touches_free_def apart_def)
  next
    case merge
    let ?m = "c\<lparr>bg_count := bg_count c + bg_count g\<rparr>"
    have "bg_start g + bg_count g \<le> bg_start h" if "h \<in> set gs" for h
    proof -
      have "bg_start h \<notin> blocks g" using that dis(2) start_in_blocks apart_member [OF c(2) that] by (force simp: blocks_of_def)
      then show ?thesis using that c(3) merge by (auto simp: blocks_def)
    qed
    then have "sorted_wrt before (?m # gs) \<longleftrightarrow> (\<forall>h \<in> set (c # gs). bg_start h \<noteq> bg_start g + bg_count g)"
      using c(1,2) merge by (force simp: apart_def group_ok_def)
    moreover have "free_loop g (c # gs) = Some (?m # gs)"
      using merge c(1) Cons.prems(2) by (auto simp: group_ok_def lba_add_eq u64_add_def non_zero_def)
    moreover have "blocks ?m = blocks c \<union> blocks g" using merge by (auto simp: blocks_def)
    moreover have "group_ok ?m" using merge c(1) Cons.prems(2) by (simp add: group_ok_def)
    ultimately show ?thesis using merge c(2) by (auto simp: touches_free_def apart_def)
  next
    case pass
    obtain gs' where gs': "free_loop g gs = Some gs'"
      "\<forall>h \<in> set gs'. group_ok h \<and> (bg_start h = bg_start g \<or> bg_start h \<in> bg_start ` set gs)"
      "blocks_of gs' = (if touches_free g gs then blocks_of gs \<union> blocks g else blocks_of gs)"
      "sorted_wrt before gs' \<longleftrightarrow> (\<forall>h \<in> set gs. bg_start h \<noteq> bg_start g + bg_count g)"
      using Cons.IH [OF c(2) Cons.prems(2) dis(2)] by blast
    have "free_loop g (c # gs) = Some (c # gs')"
      using pass c(1) gs'(1) by (auto simp: group_ok_def lba_add_eq assert_that_bind)
    moreover have "\<forall>h \<in> set gs'. before c h" using gs'(2) c(3) pass by auto
    moreover have "touches_free g (c # gs) = touches_free g gs" using pass by (auto simp: touches_free_def)
    ultimately show ?thesis using gs' c(1) pass by auto
  qed
qed (simp add: touches_free_def)

text \<open>
  (C29) Freeing a group of used blocks, exactly. With the debug assertions on, \<open>free_group\<close> panics when a free group starts right after
  the freed one, because it never merges with the following group. Otherwise it returns a consistent allocator, and the blocks are free
  again only if some free group comes later or ends right before them: a group that lies after every free group is forgotten, its blocks
  are neither free nor used by anyone.
\<close>

theorem free_group_correct:
  assumes "consistent A" "group_ok g" "free_blocks A \<inter> blocks g = {}"
  shows "if \<exists>h \<in> set (free A). bg_start h = bg_start g + bg_count g then free_group g A = None
    else \<exists>A'. free_group g A = Some A' \<and> consistent A' \<and> dirty A'
      \<and> on_disk A' = on_disk A \<and> self_on_disk A' = self_on_disk A
      \<and> free_blocks A' = (if \<exists>h \<in> set (free A). bg_start g < bg_start h \<or> bg_start h + bg_count h = bg_start g
          then free_blocks A \<union> blocks g else free_blocks A)"
proof -
  obtain gs' where gs': "free_loop g (free A) = Some gs'" "\<forall>h \<in> set gs'. group_ok h"
    "blocks_of gs' = (if touches_free g (free A) then free_blocks A \<union> blocks g else free_blocks A)"
    "sorted_wrt before gs' \<longleftrightarrow> (\<forall>h \<in> set (free A). bg_start h \<noteq> bg_start g + bg_count g)"
    using free_loop_spec [OF assms] by blast
  moreover have "free_group g A = (if apart gs' then Some (A\<lparr>dirty := True, free := gs'\<rparr>) else None)"
    using gs'(1,2) by (simp add: free_group_def debug_consistent_eq)
  moreover have "apart gs' \<longleftrightarrow> (\<forall>h \<in> set (free A). bg_start h \<noteq> bg_start g + bg_count g)"
    using gs'(2,4) by (simp add: apart_def)
  ultimately show ?thesis by (auto simp: touches_free_def)
qed

definition sample_allocator :: BlockAllocator where
  "sample_allocator = \<lparr>free = [\<lparr>bg_start = 2, bg_count = 3\<rparr>, \<lparr>bg_start = 9, bg_count = 4\<rparr>], on_disk = None, self_on_disk = [], dirty = False\<rparr>"

theorem free_group_correct_witness:
  "free_group (single 8) sample_allocator = None
   \<and> (\<exists>A'. free_group (single 20) sample_allocator = Some A' \<and> free_blocks A' = free_blocks sample_allocator)
   \<and> (\<exists>A'. free_group (single 5) sample_allocator = Some A' \<and> free_blocks A' = free_blocks sample_allocator \<union> {5})"
proof (intro conjI)
  have ok: "consistent sample_allocator" "group_ok (single 8)" "group_ok (single 20)" "group_ok (single 5)"
    by (simp_all add: sample_allocator_def apart_def group_ok_def single_def u64_max_def)
  have dis: "free_blocks sample_allocator \<inter> blocks (single b) = {}" if "b \<in> {8, 20, 5}" for b
    using that by (auto simp: sample_allocator_def blocks_def single_def)
  show "free_group (single 8) sample_allocator = None"
    using free_group_correct [OF ok(1,2) dis] by (simp add: sample_allocator_def single_def)
  show "\<exists>A'. free_group (single 20) sample_allocator = Some A' \<and> free_blocks A' = free_blocks sample_allocator"
    using free_group_correct [OF ok(1,3) dis] by (auto simp: sample_allocator_def single_def)
  show "\<exists>A'. free_group (single 5) sample_allocator = Some A' \<and> free_blocks A' = free_blocks sample_allocator \<union> {5}"
    using free_group_correct [OF ok(1,4) dis] by (auto simp: sample_allocator_def single_def blocks_def)
qed

section \<open>Best fit\<close>

text \<open>The search never panics; what it returns leaves no more than any group that is large enough.\<close>

lemma best_fit_spec:
  "\<exists>b r. best_fit want i gs b0 r0 = Some (b, r) \<and> r \<le> r0 \<and> (\<forall>h \<in> set gs. want \<le> bg_count h \<longrightarrow> r \<le> bg_count h - want)
     \<and> (b = b0 \<and> r = r0 \<or> (\<exists>j < length gs. b = i + j \<and> want \<le> bg_count (gs ! j) \<and> r = bg_count (gs ! j) - want))"
proof (induction gs arbitrary: i b0 r0)
  case (Cons g gs)
  define b1 where "b1 = (if want \<le> bg_count g \<and> bg_count g - want < r0 then i else b0)"
  define r1 where "r1 = (if want \<le> bg_count g \<and> bg_count g - want < r0 then bg_count g - want else r0)"
  have step: "best_fit want i (g # gs) b0 r0 = best_fit want (i + 1) gs b1 r1"
    by (auto simp: b1_def r1_def u64_sub_def)
  obtain b r where br: "best_fit want (i + 1) gs b1 r1 = Some (b, r)" "r \<le> r1" "\<forall>h \<in> set gs. want \<le> bg_count h \<longrightarrow> r \<le> bg_count h - want"
    and found: "b = b1 \<and> r = r1 \<or> (\<exists>j < length gs. b = i + 1 + j \<and> want \<le> bg_count (gs ! j) \<and> r = bg_count (gs ! j) - want)"
    using Cons.IH [of "i + 1" b1 r1] by blast
  have "r1 \<le> r0" "want \<le> bg_count g \<Longrightarrow> r1 \<le> bg_count g - want" by (auto simp: r1_def)
  moreover from found have "b = b0 \<and> r = r0 \<or> (\<exists>j < length (g # gs). b = i + j \<and> want \<le> bg_count ((g # gs) ! j) \<and> r = bg_count ((g # gs) ! j) - want)"
  proof
    assume "b = b1 \<and> r = r1"
    then show ?thesis by (auto simp: b1_def r1_def intro!: exI [of _ 0])
  next
    assume "\<exists>j < length gs. b = i + 1 + j \<and> want \<le> bg_count (gs ! j) \<and> r = bg_count (gs ! j) - want"
    then obtain j where "j < length gs" "b = i + 1 + j" "want \<le> bg_count (gs ! j)" "r = bg_count (gs ! j) - want" by blast
    then show ?thesis by (intro disjI2 exI [of _ "Suc j"]) simp
  qed
  ultimately show ?case using br step by (intro exI [of _ b] exI [of _ r]) auto
qed simp

text \<open>A consistent list is short: every group takes a block, so an index is never \<open>usize::MAX\<close>.\<close>

lemma apart_length: "apart gs \<Longrightarrow> length gs < u64_max"
proof -
  assume a: "apart gs"
  have "gs \<noteq> [] \<Longrightarrow> bg_start (hd gs) + length gs \<le> bg_start (last gs) + bg_count (last gs)" using a
  proof (induction gs)
    case (Cons g gs)
    show ?case
    proof (cases gs)
      case Nil
      then show ?thesis using Cons.prems by (simp add: apart_simps group_ok_def)
    next
      case (Cons h hs)
      then have "bg_start g < bg_start (hd gs)" using Cons.prems by (auto simp: apart_simps)
      moreover have "bg_start (hd gs) + length gs \<le> bg_start (last gs) + bg_count (last gs)"
        using Cons.IH Cons.prems Cons by (simp add: apart_simps)
      ultimately show ?thesis using Cons by simp
    qed
  qed simp
  then show "length gs < u64_max"
    using a apart_member [OF a, of "last gs"] by (cases "gs = []") (auto simp: u64_max_pos group_ok_def)
qed

text \<open>Cutting the front of a group of a consistent list.\<close>

lemma apart_cut_front:
  assumes "apart (xs @ g # ys)" "0 < n" "n < bg_count g"
  defines "rest \<equiv> \<lparr>bg_start = bg_start g + n, bg_count = bg_count g - n\<rparr>"
  shows "apart (xs @ rest # ys)" "blocks_of (xs @ rest # ys) = blocks_of (xs @ g # ys) - {bg_start g..<bg_start g + n}"
proof -
  show "apart (xs @ rest # ys)" using assms(1-3) by (auto simp: apart_simps group_ok_def rest_def)
  have "blocks g = {bg_start g..<bg_start g + n} \<union> blocks rest" "{bg_start g..<bg_start g + n} \<inter> blocks rest = {}"
    using assms(2,3) by (auto simp: blocks_def rest_def)
  moreover have "blocks g \<inter> blocks_of (xs @ ys) = {}" by (rule spaced_disjoint [OF assms(1)])
  ultimately show "blocks_of (xs @ rest # ys) = blocks_of (xs @ g # ys) - {bg_start g..<bg_start g + n}" by auto
qed

lemma apart_remove:
  assumes "apart (xs @ g # ys)"
  shows "apart (xs @ ys)" "blocks_of (xs @ ys) = blocks_of (xs @ g # ys) - blocks g"
  using assms spaced_disjoint [OF assms] by (auto simp: apart_simps)

lemma best_fit_choice:
  assumes A: "apart gs" and fits: "\<exists>h \<in> set gs. want \<le> bg_count h"
  obtains xs h ys where "gs = xs @ h # ys" "best_fit want 0 gs u64_max u64_max = Some (length xs, bg_count h - want)"
    "want \<le> bg_count h" "\<forall>k \<in> set gs. want \<le> bg_count k \<longrightarrow> bg_count h \<le> bg_count k" "length xs < u64_max"
proof -
  obtain b r where br: "best_fit want 0 gs u64_max u64_max = Some (b, r)"
    and least: "\<forall>h \<in> set gs. want \<le> bg_count h \<longrightarrow> r \<le> bg_count h - want"
    and found: "b = u64_max \<and> r = u64_max \<or> (\<exists>j < length gs. b = 0 + j \<and> want \<le> bg_count (gs ! j) \<and> r = bg_count (gs ! j) - want)"
    using best_fit_spec [of want 0 gs u64_max u64_max] by blast
  have "r \<noteq> u64_max" using least fits apart_member [OF A] by (fastforce simp: group_ok_def)
  then obtain j where j: "j < length gs" "b = j" and big: "want \<le> bg_count (gs ! j)" and r: "r = bg_count (gs ! j) - want"
    using found by auto
  show ?thesis
  proof (rule that)
    show "gs = take j gs @ gs ! j # drop (Suc j) gs" using j(1) by (rule id_take_nth_drop)
    show "best_fit want 0 gs u64_max u64_max = Some (length (take j gs), bg_count (gs ! j) - want)" using br j r by simp
    show "\<forall>k \<in> set gs. want \<le> bg_count k \<longrightarrow> bg_count (gs ! j) \<le> bg_count k" using least r big by fastforce
    show "length (take j gs) < u64_max" using apart_length [OF A] j(1) by simp
  qed (rule big)
qed

lemma best_fit_none:
  assumes "apart gs" "\<not> (\<exists>h \<in> set gs. want \<le> bg_count h)"
  shows "best_fit want 0 gs u64_max u64_max = Some (u64_max, u64_max)"
  using best_fit_spec [of want 0 gs u64_max u64_max] assms(2) by fastforce

definition without_front :: "nat \<Rightarrow> BlockGroup \<Rightarrow> BlockGroup list" where
  "without_front n g = (if bg_count g = n then [] else [\<lparr>bg_start = bg_start g + n, bg_count = bg_count g - n\<rparr>])"

lemma without_front_apart:
  assumes "apart (xs @ g # ys)" "0 < n" "n \<le> bg_count g"
  shows "apart (xs @ without_front n g @ ys)" "blocks_of (xs @ without_front n g @ ys) = blocks_of (xs @ g # ys) - {bg_start g..<bg_start g + n}"
  using apart_remove [OF assms(1)] apart_cut_front [OF assms(1), of n] assms(2,3)
  by (auto simp: without_front_def blocks_def)

lemma allocate_group_from:
  assumes "free A = xs @ h # ys" "consistent A" "best_fit want 0 (free A) u64_max u64_max = Some (length xs, bg_count h - want)"
    and "1 \<le> want" "want \<le> bg_count h" "length xs < u64_max"
  shows "allocate_group want A = Some (Inr (with_count (bg_start h) want), A\<lparr>dirty := True, free := xs @ without_front want h @ ys\<rparr>)"
proof (cases "bg_count h = want")
  case True
  then show ?thesis using assms by (auto simp: allocate_group_def Let_def without_front_def with_count_def)
next
  case False
  have "apart (xs @ without_front want h @ ys)" using without_front_apart [of xs h ys want] assms by simp
  moreover have "bg_start h + want < u64_max" using assms(1,2,5) by (auto simp: apart_simps group_ok_def)
  ultimately show ?thesis using assms False
    by (simp add: allocate_group_def Let_def without_front_def with_count_def non_zero_def lba_add_eq list_update_append nth_append)
qed

lemma allocate_group_none:
  "consistent A \<Longrightarrow> 1 \<le> want \<Longrightarrow> \<not> (\<exists>h \<in> set (free A). want \<le> bg_count h) \<Longrightarrow> allocate_group want A = Some (Inl (NoConsecutiveFreeBlocks want), A)"
  by (auto simp: allocate_group_def best_fit_none)

lemma allocate_group_some:
  assumes A: "consistent A" and want: "1 \<le> want" and fits: "\<exists>h \<in> set (free A). want \<le> bg_count h"
  obtains h A' where "allocate_group want A = Some (Inr (with_count (bg_start h) want), A')" "h \<in> set (free A)" "want \<le> bg_count h"
    "\<forall>k \<in> set (free A). want \<le> bg_count k \<longrightarrow> bg_count h \<le> bg_count k"
    "free_blocks A' = free_blocks A - {bg_start h..<bg_start h + want}" "consistent A'" "dirty A'"
    "on_disk A' = on_disk A" "self_on_disk A' = self_on_disk A" "length (free A') \<le> length (free A)"
proof -
  from best_fit_choice [OF A fits] obtain xs h ys where gs: "free A = xs @ h # ys"
    and fit: "best_fit want 0 (free A) u64_max u64_max = Some (length xs, bg_count h - want)" "want \<le> bg_count h" "length xs < u64_max"
    and best: "\<forall>k \<in> set (free A). want \<le> bg_count k \<longrightarrow> bg_count h \<le> bg_count k"
    by metis
  let ?A' = "A\<lparr>dirty := True, free := xs @ without_front want h @ ys\<rparr>"
  have run: "allocate_group want A = Some (Inr (with_count (bg_start h) want), ?A')"
    using allocate_group_from [OF gs A fit(1) want fit(2,3)] .
  have ap: "apart (xs @ h # ys)" using A gs by simp
  show ?thesis
  proof (rule that [OF run])
    show "free_blocks ?A' = free_blocks A - {bg_start h..<bg_start h + want}" "consistent ?A'"
      using without_front_apart [OF ap, of want] want fit(2) gs by simp_all
    show "length (free ?A') \<le> length (free A)" using gs by (simp add: without_front_def)
  qed (use gs best fit(2) in simp_all)
qed

text \<open>
  (C27) \<open>allocate_group\<close> on a consistent allocator: it fails, changing nothing, exactly when no free group is large enough; otherwise it
  returns a group of the requested size taken from the front of a smallest group that is large enough, and the new allocator is
  consistent, dirty, and its free blocks are the old ones without the blocks returned.
\<close>

theorem allocate_group_correct:
  assumes A: "consistent A" and want: "1 \<le> want"
  shows "if \<exists>h \<in> set (free A). want \<le> bg_count h
    then \<exists>g h A'. allocate_group want A = Some (Inr g, A') \<and> h \<in> set (free A) \<and> want \<le> bg_count h
      \<and> (\<forall>k \<in> set (free A). want \<le> bg_count k \<longrightarrow> bg_count h \<le> bg_count k)
      \<and> bg_start g = bg_start h \<and> bg_count g = want \<and> blocks g \<subseteq> free_blocks A
      \<and> free_blocks A' = free_blocks A - blocks g \<and> consistent A' \<and> dirty A'
      \<and> on_disk A' = on_disk A \<and> self_on_disk A' = self_on_disk A
    else allocate_group want A = Some (Inl (NoConsecutiveFreeBlocks want), A)"
proof (cases "\<exists>h \<in> set (free A). want \<le> bg_count h")
  case True
  then obtain h A' where run: "allocate_group want A = Some (Inr (with_count (bg_start h) want), A')" "h \<in> set (free A)" "want \<le> bg_count h"
    "\<forall>k \<in> set (free A). want \<le> bg_count k \<longrightarrow> bg_count h \<le> bg_count k"
    "free_blocks A' = free_blocks A - {bg_start h..<bg_start h + want}" "consistent A'" "dirty A'"
    "on_disk A' = on_disk A" "self_on_disk A' = self_on_disk A"
    using allocate_group_some [OF A want] by metis
  have "{bg_start h..<bg_start h + want} \<subseteq> free_blocks A" using run(2,3) by (fastforce simp: blocks_of_def blocks_def)
  then show ?thesis unfolding if_P [OF True] using run
    by - (rule exI [of _ "with_count (bg_start h) want"], rule exI [of _ h], rule exI [of _ A'], simp add: with_count_def blocks_def)
next
  case False
  then show ?thesis using allocate_group_none [OF A want] by auto
qed

theorem allocate_group_correct_witness:
  "\<exists>A'. allocate_group 3 sample_allocator = Some (Inr \<lparr>bg_start = 2, bg_count = 3\<rparr>, A') \<and> free_blocks A' = {9..<13}"
proof -
  have "consistent sample_allocator" by (simp add: sample_allocator_def apart_def group_ok_def u64_max_def)
  moreover have fits: "\<exists>h \<in> set (free sample_allocator). 3 \<le> bg_count h" by (simp add: sample_allocator_def)
  ultimately obtain g h A' where
    "allocate_group 3 sample_allocator = Some (Inr g, A')" "h \<in> set (free sample_allocator)" "3 \<le> bg_count h"
    "\<forall>k \<in> set (free sample_allocator). 3 \<le> bg_count k \<longrightarrow> bg_count h \<le> bg_count k"
    "bg_start g = bg_start h" "bg_count g = 3" "free_blocks A' = free_blocks sample_allocator - blocks g"
    using allocate_group_correct [of sample_allocator 3] unfolding if_P [OF fits] by auto
  moreover from this have "g = \<lparr>bg_start = 2, bg_count = 3\<rparr>" by (cases g) (auto simp: sample_allocator_def)
  moreover have "free_blocks sample_allocator - blocks \<lparr>bg_start = 2, bg_count = 3\<rparr> = {9..<13}"
    by (auto simp: sample_allocator_def blocks_def)
  ultimately show ?thesis by auto
qed

section \<open>Several groups\<close>

lemma ilog2_bounds: "1 \<le> n \<Longrightarrow> 2 ^ ilog2 n \<le> n \<and> n < 2 ^ Suc (ilog2 n)"
proof (induction n rule: ilog2.induct)
  case (1 n)
  show ?case
  proof (cases "n < 2")
    case True
    then show ?thesis using 1(2) by (simp add: ilog2.simps [of n])
  next
    case False
    then have "2 ^ ilog2 (n div 2) \<le> n div 2 \<and> n div 2 < 2 ^ Suc (ilog2 (n div 2))" using 1 by simp
    then show ?thesis using False by (simp add: ilog2.simps [of n]) linarith
  qed
qed

lemma ilog2_power: "ilog2 (2 ^ k) = k"
  by (induction k) (simp_all add: ilog2.simps)

lemma allocate_loop_full: "group_size < remaining \<Longrightarrow> allocate_loop count remaining group_size [] A = Some (Inl (BlockDeviceFull count), A)"
proof (induction group_size rule: less_induct)
  case (less g)
  show ?case
  proof (cases "g = 0")
    case True
    then show ?thesis using less.prems by (simp add: allocate_loop.simps [of _ _ 0])
  next
    case False
    then have "allocate_loop count remaining (g div 2) [] A = Some (Inl (BlockDeviceFull count), A)"
      using less.IH [of "g div 2"] less.prems by (simp add: div_less_dividend le_less_trans [OF div_le_dividend])
    then show ?thesis using False less.prems by (simp add: allocate_loop.simps [of _ _ g])
  qed
qed

lemma allocate_none:
  assumes "consistent A" "1 \<le> count" "\<not> ((\<exists>k. count = 2 ^ k) \<and> (\<exists>h \<in> set (free A). count \<le> bg_count h))"
  shows "allocate_list count A = Some (Inl (BlockDeviceFull count), A)"
proof (cases "count = 2 ^ ilog2 count")
  case False
  then have "2 ^ ilog2 count < count" using ilog2_bounds [OF assms(2)] by simp
  then show ?thesis using assms(2) by (simp add: allocate_list_def allocate_loop_full)
next
  case True
  then have "\<not> (\<exists>h \<in> set (free A). count \<le> bg_count h)" using assms(3) by blast
  then have "allocate_group count A = Some (Inl (NoConsecutiveFreeBlocks count), A)" using allocate_group_none assms(1,2) by blast
  moreover have "allocate_loop count count (count div 2) [] A = Some (Inl (BlockDeviceFull count), A)"
    using assms(2) by (intro allocate_loop_full) simp
  ultimately have "allocate_loop count count (2 ^ ilog2 count) [] A = Some (Inl (BlockDeviceFull count), A)"
    using assms(2) True [symmetric] by (simp add: allocate_loop.simps [of _ _ count])
  then show ?thesis using assms(2) by (simp add: allocate_list_def)
qed

lemma allocate_some:
  assumes A: "consistent A" and g: "allocate_group (2 ^ k) A = Some (Inr g, A')" and fields: "bg_count g = 2 ^ k" "dirty A'" and k: "2 ^ k \<le> u64_max"
  shows "allocate_list (2 ^ k) A = Some (Inr [g], A')"
proof -
  have "allocate_loop (2 ^ k) (2 ^ k) (2 ^ k) [] A = Some (Inr [g], A')"
    using g by (simp add: allocate_loop.simps [of _ _ "2 ^ k"] allocate_loop.simps [of _ 0] u64_sub_def)
  moreover have "A'\<lparr>dirty := True\<rparr> = A'" using fields(2) by (cases A') simp
  ultimately show ?thesis using fields k by (simp add: allocate_list_def ilog2_power u64_add_def)
qed

lemma allocate_list_fits:
  assumes A: "consistent A" and n: "n = 2 ^ k" and fits: "\<exists>h \<in> set (free A). n \<le> bg_count h"
  obtains g A' where "allocate_list n A = Some (Inr [g], A')" "group_ok g" "bg_count g = n" "blocks g \<subseteq> free_blocks A"
    "free_blocks A' = free_blocks A - blocks g" "consistent A'" "dirty A'" "length (free A') \<le> length (free A)"
    "on_disk A' = on_disk A" "self_on_disk A' = self_on_disk A"
proof -
  have pos: "1 \<le> n" using n by simp
  obtain h A' where run: "allocate_group n A = Some (Inr (with_count (bg_start h) n), A')"
    and h: "h \<in> set (free A)" "n \<le> bg_count h"
    and A': "free_blocks A' = free_blocks A - {bg_start h..<bg_start h + n}" "consistent A'" "dirty A'" "on_disk A' = on_disk A"
      "self_on_disk A' = self_on_disk A" "length (free A') \<le> length (free A)"
    using allocate_group_some [OF A pos fits] by metis
  let ?g = "with_count (bg_start h) n"
  have "group_ok h" using h(1) A apart_member by blast
  then have ok: "group_ok ?g" using h(2) pos by (simp add: group_ok_def with_count_def)
  have cnt: "bg_count ?g = n" by (simp add: with_count_def)
  have al: "allocate_list n A = Some (Inr [?g], A')"
    using allocate_some [OF A, of k ?g A'] run n A'(3) cnt ok by (simp add: group_ok_def)
  have sub: "blocks ?g \<subseteq> free_blocks A" using h by (fastforce simp: blocks_of_def blocks_def with_count_def)
  have "free_blocks A' = free_blocks A - blocks ?g" using A'(1) by simp
  then show ?thesis by (intro that [OF al ok cnt sub _ A'(2,3,6,4,5)])
qed

text \<open>
  (C28) \<open>allocate\<close> compares the remaining size and the group size the wrong way round. It succeeds only when the count is a power of two
  and one free group holds all of it, and then returns that single group; in every other case it reports a full device and changes
  nothing, however many blocks are free.
\<close>

theorem allocate_outcome:
  assumes "consistent A" "1 \<le> count"
  shows "if (\<exists>k. count = 2 ^ k) \<and> (\<exists>h \<in> set (free A). count \<le> bg_count h)
    then \<exists>g A'. allocate_list count A = Some (Inr [g], A') \<and> bg_count g = count \<and> blocks g \<subseteq> free_blocks A
      \<and> free_blocks A' = free_blocks A - blocks g \<and> consistent A' \<and> dirty A'
    else allocate_list count A = Some (Inl (BlockDeviceFull count), A)"
proof (cases "(\<exists>k. count = 2 ^ k) \<and> (\<exists>h \<in> set (free A). count \<le> bg_count h)")
  case True
  then obtain k where k: "count = 2 ^ k" and fits: "\<exists>h \<in> set (free A). count \<le> bg_count h" by blast
  show ?thesis unfolding if_P [OF True] using allocate_list_fits [OF assms(1) k fits] by metis
next
  case False
  then show ?thesis using allocate_none [OF assms False] by simp
qed

theorem allocate_outcome_witness:
  "(\<exists>g A'. allocate_list 4 sample_allocator = Some (Inr [g], A') \<and> bg_count g = 4)
   \<and> allocate_list 3 sample_allocator = Some (Inl (BlockDeviceFull 3), sample_allocator)
   \<and> card (free_blocks sample_allocator) = 7"
proof (intro conjI)
  have c: "consistent sample_allocator" by (simp add: sample_allocator_def apart_def group_ok_def u64_max_def)
  have fits: "(\<exists>k. (4::nat) = 2 ^ k) \<and> (\<exists>h \<in> set (free sample_allocator). 4 \<le> bg_count h)"
    by (auto simp: sample_allocator_def intro: exI [of _ 2])
  show "\<exists>g A'. allocate_list 4 sample_allocator = Some (Inr [g], A') \<and> bg_count g = 4"
    using allocate_outcome [OF c, of 4] unfolding if_P [OF fits] by auto
  have "(3::nat) \<noteq> 2 ^ k" for k by (cases k) (simp, metis dvd_triv_left odd_numeral power_Suc)
  then show "allocate_list 3 sample_allocator = Some (Inl (BlockDeviceFull 3), sample_allocator)"
    using allocate_outcome [OF c, of 3] by auto
  have "free_blocks sample_allocator = {2..<5} \<union> {9..<13}" by (auto simp: sample_allocator_def blocks_def)
  then show "card (free_blocks sample_allocator) = 7" by (simp add: card_Un_disjoint)
qed

section \<open>Marking blocks as used\<close>

lemma containing_eq:
  "\<forall>g \<in> set gs. group_ok g \<Longrightarrow> containing lba gs = Some (position (\<lambda>g. lba \<in> blocks g) gs)"
  by (induction gs) auto

definition without_block :: "nat \<Rightarrow> BlockGroup \<Rightarrow> BlockGroup list" where
  "without_block lba g =
     (if lba = bg_start g then [] else [\<lparr>bg_start = bg_start g, bg_count = lba - bg_start g\<rparr>])
     @ (if lba + 1 = bg_start g + bg_count g then [] else [\<lparr>bg_start = lba + 1, bg_count = bg_start g + bg_count g - (lba + 1)\<rparr>])"

lemma without_block_apart:
  assumes "apart (xs @ g # ys)" "lba \<in> blocks g"
  shows "apart (xs @ without_block lba g @ ys)" "blocks_of (xs @ without_block lba g @ ys) = blocks_of (xs @ g # ys) - {lba}"
proof -
  show "apart (xs @ without_block lba g @ ys)"
    using assms by (auto simp: apart_simps without_block_def group_ok_def blocks_def)
  have "blocks_of (without_block lba g) = blocks g - {lba}" using assms(2) by (auto simp: without_block_def blocks_def)
  moreover have "lba \<notin> blocks_of (xs @ ys)" using spaced_disjoint [OF assms(1)] assms(2) by blast
  ultimately show "blocks_of (xs @ without_block lba g @ ys) = blocks_of (xs @ g # ys) - {lba}" by auto
qed

lemma mark_used_run:
  assumes A: "consistent A" and gs: "free A = xs @ g # ys" and pos: "position (\<lambda>g. lba \<in> blocks g) (free A) = Some (length xs)"
    and lba: "lba \<in> blocks g"
  shows "mark_used lba A = Some (Inr (), A\<lparr>free := xs @ without_block lba g @ ys\<rparr>)"
proof -
  have ap: "apart (xs @ without_block lba g @ ys)" using without_block_apart [of xs g ys lba] A gs lba by simp
  have ok: "group_ok g" using A gs by (simp add: apart_simps)
  have c: "containing lba (free A) = Some (Some (length xs))" using containing_eq pos A by (simp add: apart_def)
  have upd: "g\<lparr>bg_count := n\<rparr> = \<lparr>bg_start = bg_start g, bg_count = n\<rparr>" for n by (cases g) simp
  have range: "bg_start g \<le> lba" "lba < bg_start g + bg_count g" "bg_start g + bg_count g < u64_max"
    using lba ok by (simp_all add: blocks_def group_ok_def)
  consider (only) "lba = bg_start g" "bg_count g = 1" | (first) "lba = bg_start g" "bg_count g \<noteq> 1"
    | (final) "lba \<noteq> bg_start g" "lba = bg_start g + bg_count g - 1" | (inner) "lba \<noteq> bg_start g" "lba \<noteq> bg_start g + bg_count g - 1" by blast
  then show ?thesis
  proof cases
    case only
    then show ?thesis using c gs ap by (simp add: mark_used_def Let_def without_block_def)
  next
    case first
    then show ?thesis using c gs ap ok lba
      by (simp add: mark_used_def Let_def without_block_def lba_add_eq u64_sub_def non_zero_def group_ok_def blocks_def list_update_append)
  next
    case final
    then have n: "bg_count g - 1 = lba - bg_start g" "lba + 1 = bg_start g + bg_count g" "bg_count g - 1 \<noteq> 0" using range by simp_all
    then show ?thesis using c gs ap ok final
      by (simp add: mark_used_def Let_def without_block_def u64_sub_def non_zero_def upd list_update_append)
  next
    case inner
    then have n: "lba - bg_start g \<noteq> 0" "lba + 1 < bg_start g + bg_count g" "bg_start g + bg_count g - 1 + 1 = bg_start g + bg_count g"
      using range by simp_all
    have "group_new (lba + 1) (bg_start g + bg_count g - 1) = Some \<lparr>bg_start = lba + 1, bg_count = bg_start g + bg_count g - (lba + 1)\<rparr>"
      using n range by (simp add: group_new_eq)
    then show ?thesis using c gs ap ok inner n range
      by (simp add: mark_used_def Let_def without_block_def lba_diff_def lba_add_eq u64_sub_def non_zero_def upd list_update_append insert_at_def)
  qed
qed

lemma mark_used_spec:
  assumes "consistent A"
  shows "if lba \<in> free_blocks A
    then \<exists>A'. mark_used lba A = Some (Inr (), A') \<and> consistent A' \<and> free_blocks A' = free_blocks A - {lba}
      \<and> dirty A' = dirty A \<and> on_disk A' = on_disk A \<and> self_on_disk A' = self_on_disk A
    else mark_used lba A = Some (Inl (), A)"
proof (cases "position (\<lambda>g. lba \<in> blocks g) (free A)")
  case None
  then have "lba \<notin> free_blocks A" by (auto simp: position_None blocks_of_def)
  moreover have "containing lba (free A) = Some None" using None containing_eq assms by (simp add: apart_def)
  ultimately show ?thesis by (simp add: mark_used_def)
next
  case (Some i)
  then obtain xs g ys where gs: "free A = xs @ g # ys" and i: "length xs = i" and lba: "lba \<in> blocks g"
    by (rule position_split)
  have ap: "apart (xs @ g # ys)" using assms gs by simp
  have "mark_used lba A = Some (Inr (), A\<lparr>free := xs @ without_block lba g @ ys\<rparr>)"
    using mark_used_run [OF assms gs _ lba] Some i by simp
  moreover have "lba \<in> free_blocks A" using gs lba by simp
  ultimately show ?thesis using without_block_apart [OF ap lba] gs by auto
qed

lemma mark_all_used_spec:
  "consistent A \<Longrightarrow> distinct bs \<Longrightarrow> set bs \<subseteq> free_blocks A \<Longrightarrow>
   \<exists>A'. mark_all_used bs A = Some A' \<and> consistent A' \<and> free_blocks A' = free_blocks A - set bs
      \<and> dirty A' = dirty A \<and> on_disk A' = on_disk A \<and> self_on_disk A' = self_on_disk A"
proof (induction bs arbitrary: A)
  case (Cons b bs)
  then obtain A1 where A1: "mark_used b A = Some (Inr (), A1)" "consistent A1" "free_blocks A1 = free_blocks A - {b}"
    "dirty A1 = dirty A" "on_disk A1 = on_disk A" "self_on_disk A1 = self_on_disk A"
    using mark_used_spec [of A b] by auto
  moreover have "\<exists>A'. mark_all_used bs A1 = Some A' \<and> consistent A' \<and> free_blocks A' = free_blocks A1 - set bs
      \<and> dirty A' = dirty A1 \<and> on_disk A' = on_disk A1 \<and> self_on_disk A' = self_on_disk A1"
    using Cons A1(2,3) by (intro Cons.IH) auto
  ultimately show ?case by (auto simp: Diff_insert2 [symmetric] insert_commute)
qed simp

text \<open>
  A fresh allocator: the free blocks are the addresses below \<open>max_lba\<close> that are not in use already. The address \<open>max_lba\<close> itself, the
  largest usable one, is not among them.
\<close>

lemma empty_correct:
  assumes "0 < max_lba" "max_lba < u64_max" "distinct usage" "\<forall>b \<in> set usage. b < max_lba"
  shows "\<exists>A. BlockAllocator_empty usage max_lba = Some A \<and> consistent A \<and> free_blocks A = {0..<max_lba} - set usage
    \<and> max_lba \<notin> free_blocks A \<and> dirty A \<and> self_on_disk A = [] \<and> on_disk A = None"
proof -
  let ?A = "\<lparr>free = [with_count 0 max_lba], on_disk = None, self_on_disk = [], dirty = True\<rparr>"
  have "consistent ?A" "free_blocks ?A = {0..<max_lba}" using assms(1,2) by (simp_all add: apart_def group_ok_def with_count_def blocks_def)
  then have "\<exists>A'. mark_all_used usage ?A = Some A' \<and> consistent A' \<and> free_blocks A' = free_blocks ?A - set usage
      \<and> dirty A' = dirty ?A \<and> on_disk A' = on_disk ?A \<and> self_on_disk A' = self_on_disk ?A"
    using assms(3,4) by (intro mark_all_used_spec) auto
  then show ?thesis using assms(1) \<open>free_blocks ?A = {0..<max_lba}\<close> by (auto simp: BlockAllocator_empty_def non_zero_def)
qed

end
