(* ===== verification/Block_Iter.thy ===== *)
theory Block_Iter
  imports File_Device
begin

text \<open>
  Iterating over the blocks of a list of groups (\<open>BlockGroupListBlockIter\<close> of \<open>block_allocator.rs\<close>, with the \<open>Peekable\<close> of the standard
  library), and chains of blocks on a device: each block holds a part of a list and a pointer to the next block.
\<close>

section \<open>Iterating over the blocks of a list of groups\<close>

record BlockIter =
  group_iter :: "BlockGroup list"
  current_group :: "BlockGroup option"
  current_index :: nat

definition block_iter :: "BlockGroup list \<Rightarrow> BlockIter" where
  "block_iter groups = \<lparr>group_iter = groups, current_group = None, current_index = 0\<rparr>"

definition fetch_group :: "BlockIter \<Rightarrow> BlockIter" where
  "fetch_group it =
     (if current_group it = None then
        (case group_iter it of
           [] \<Rightarrow> it
         | g # gs \<Rightarrow> it\<lparr>group_iter := gs, current_group := Some g\<rparr>)
      else it)"

definition block_next :: "BlockIter \<Rightarrow> (nat option \<times> BlockIter) run" where
  "block_next it0 =
     (let it = fetch_group it0 in
      case current_group it of
        None \<Rightarrow> Some (None, it)
      | Some g \<Rightarrow> do {
          assert_that (current_index it < bg_count g);
          result \<leftarrow> lba_add (bg_start g) (current_index it);
          last_index \<leftarrow> u64_sub (bg_count g) 1;
          if current_index it = last_index then Some (Some result, it\<lparr>current_group := None, current_index := 0\<rparr>)
          else do {
            i \<leftarrow> u64_add (current_index it) 1;
            Some (Some result, it\<lparr>current_index := i\<rparr>)
          }
        })"

text \<open>\<open>Peekable\<close> of the standard library over this iterator.\<close>

record Peekable =
  pk_iter :: BlockIter
  pk_peeked :: "nat option option"

definition peekable :: "BlockIter \<Rightarrow> Peekable" where
  "peekable it = \<lparr>pk_iter = it, pk_peeked = None\<rparr>"

definition peek :: "Peekable \<Rightarrow> (nat option \<times> Peekable) run" where
  "peek pk =
     (case pk_peeked pk of
        Some v \<Rightarrow> Some (v, pk)
      | None \<Rightarrow> do {
          (v, it) \<leftarrow> block_next (pk_iter pk);
          Some (v, \<lparr>pk_iter = it, pk_peeked = Some v\<rparr>)
        })"

definition peek_next :: "Peekable \<Rightarrow> (nat option \<times> Peekable) run" where
  "peek_next pk =
     (case pk_peeked pk of
        Some v \<Rightarrow> Some (v, pk\<lparr>pk_peeked := None\<rparr>)
      | None \<Rightarrow> do {
          (v, it) \<leftarrow> block_next (pk_iter pk);
          Some (v, \<lparr>pk_iter = it, pk_peeked = None\<rparr>)
        })"

text \<open>How many blocks are still to come: the measure of the loops over the iterator.\<close>

definition iter_size :: "BlockIter \<Rightarrow> nat" where
  "iter_size it = (case current_group it of None \<Rightarrow> 0 | Some g \<Rightarrow> bg_count g - current_index it) + sum_list (map bg_count (group_iter it))"

definition peek_size :: "Peekable \<Rightarrow> nat" where
  "peek_size pk = iter_size (pk_iter pk) + (case pk_peeked pk of Some (Some _) \<Rightarrow> 1 | _ \<Rightarrow> 0)"

lemma block_next_size:
  "block_next it = Some (v, it') \<Longrightarrow> iter_size it' + (if v = None then 0 else 1) \<le> iter_size it"
  by (cases "current_group it"; cases "group_iter it")
    (auto simp: block_next_def fetch_group_def Let_def iter_size_def run_simps lba_add_eq split: if_splits)

lemma peek_size_le: "peek pk = Some (v, pk') \<Longrightarrow> peek_size pk' \<le> peek_size pk"
  by (auto simp: peek_def peek_size_def run_simps split: option.splits dest!: block_next_size)

lemma peek_next_size: "peek_next pk = Some (Some b, pk') \<Longrightarrow> peek_size pk' < peek_size pk"
  by (auto simp: peek_next_def peek_size_def run_simps split: option.splits dest!: block_next_size)

section \<open>The iterator yields the blocks in order\<close>

definition group_list :: "BlockGroup \<Rightarrow> nat list" where
  "group_list g = [bg_start g..<bg_start g + bg_count g]"

lemma length_group_list [simp]: "length (group_list g) = bg_count g"
  by (simp add: group_list_def)

lemma nth_group_list: "i < bg_count g \<Longrightarrow> group_list g ! i = bg_start g + i"
  by (simp add: group_list_def)

lemma set_group_list [simp]: "set (group_list g) = blocks g" "distinct (group_list g)"
  by (simp_all add: group_list_def blocks_def)

definition iter_list :: "BlockIter \<Rightarrow> nat list" where
  "iter_list it = (case current_group it of None \<Rightarrow> [] | Some g \<Rightarrow> drop (current_index it) (group_list g))
     @ concat (map group_list (group_iter it))"

definition iter_ok :: "BlockIter \<Rightarrow> bool" where
  "iter_ok it \<longleftrightarrow> (\<forall>g \<in> set (group_iter it). group_ok g)
     \<and> (case current_group it of None \<Rightarrow> current_index it = 0 | Some g \<Rightarrow> group_ok g \<and> current_index it < bg_count g)"

lemma fetch_group_same: "iter_ok it \<Longrightarrow> iter_ok (fetch_group it) \<and> iter_list (fetch_group it) = iter_list it
    \<and> (current_group (fetch_group it) = None \<longrightarrow> iter_list it = [])"
  by (cases "group_iter it"; cases "current_group it") (auto simp: fetch_group_def iter_ok_def iter_list_def group_ok_def group_list_def)

lemma block_next_spec:
  assumes "iter_ok it"
  shows "\<exists>it'. block_next it = Some (if iter_list it = [] then None else Some (hd (iter_list it)), it')
    \<and> iter_ok it' \<and> iter_list it' = tl (iter_list it)"
proof -
  define f where "f = fetch_group it"
  have f: "iter_ok f" "iter_list f = iter_list it" "current_group f = None \<longrightarrow> iter_list it = []"
    using fetch_group_same [OF assms] by (simp_all add: f_def)
  show ?thesis
  proof (cases "current_group f")
    case None
    then show ?thesis using f by (auto simp: block_next_def Let_def f_def [symmetric])
  next
    case (Some g)
    then have g: "group_ok g" "current_index f < bg_count g" using f(1) by (simp_all add: iter_ok_def)
    then have d: "drop (current_index f) (group_list g) = (bg_start g + current_index f) # drop (Suc (current_index f)) (group_list g)"
      using Cons_nth_drop_Suc [of "current_index f" "group_list g"] by (simp add: nth_group_list)
    have l: "iter_list it = (bg_start g + current_index f) # drop (Suc (current_index f)) (group_list g) @ concat (map group_list (group_iter f))"
      unfolding f(2) [symmetric] using Some d by (simp add: iter_list_def)
    have lba: "lba_add (bg_start g) (current_index f) = Some (bg_start g + current_index f)"
      using g by (simp add: lba_add_eq group_ok_def)
    define it' where "it' = (if current_index f = bg_count g - 1 then f\<lparr>current_group := None, current_index := 0\<rparr> else f\<lparr>current_index := current_index f + 1\<rparr>)"
    have "block_next it = Some (Some (bg_start g + current_index f), it')"
      using g lba Some by (simp add: block_next_def Let_def f_def [symmetric] u64_sub_def u64_add_def it'_def group_ok_def)
    moreover have "iter_ok it'" using f(1) g Some by (auto simp: it'_def iter_ok_def)
    moreover have "iter_list it' = tl (iter_list it)" using l g Some by (auto simp: it'_def iter_list_def)
    ultimately show ?thesis using l by simp
  qed
qed

definition peek_list :: "Peekable \<Rightarrow> nat list" where
  "peek_list pk = (case pk_peeked pk of Some (Some b) \<Rightarrow> [b] | _ \<Rightarrow> []) @ iter_list (pk_iter pk)"

definition peek_ok :: "Peekable \<Rightarrow> bool" where
  "peek_ok pk \<longleftrightarrow> iter_ok (pk_iter pk) \<and> (pk_peeked pk = Some None \<longrightarrow> iter_list (pk_iter pk) = [])"

definition head :: "'a list \<Rightarrow> 'a option" where
  "head xs = (case xs of [] \<Rightarrow> None | x # _ \<Rightarrow> Some x)"

lemma head_simps [simp]: "head [] = None" "head (x # xs) = Some x" "head xs = None \<longleftrightarrow> xs = []"
  by (simp_all add: head_def split: list.splits)

lemma head_hd: "head xs = (if xs = [] then None else Some (hd xs))"
  by (cases xs) auto

lemma peek_spec:
  assumes "peek_ok pk"
  shows "\<exists>pk'. peek pk = Some (head (peek_list pk), pk') \<and> peek_ok pk' \<and> peek_list pk' = peek_list pk"
proof (cases "pk_peeked pk")
  case None
  then show ?thesis using assms block_next_spec [of "pk_iter pk"]
    by (cases "iter_list (pk_iter pk)") (auto simp: peek_def peek_ok_def peek_list_def)
next
  case (Some v)
  then show ?thesis using assms by (cases v) (auto simp: peek_def peek_ok_def peek_list_def)
qed

lemma peek_next_spec:
  assumes "peek_ok pk"
  shows "\<exists>pk'. peek_next pk = Some (head (peek_list pk), pk') \<and> peek_ok pk' \<and> peek_list pk' = tl (peek_list pk)"
proof (cases "pk_peeked pk")
  case None
  then show ?thesis using assms block_next_spec [of "pk_iter pk"]
    by (cases "iter_list (pk_iter pk)") (auto simp: peek_next_def peek_ok_def peek_list_def)
next
  case (Some v)
  then show ?thesis using assms by (cases v) (auto simp: peek_next_def peek_ok_def peek_list_def)
qed

lemma peekable_block_iter:
  "\<forall>g \<in> set gs. group_ok g \<Longrightarrow> peek_ok (peekable (block_iter gs)) \<and> peek_list (peekable (block_iter gs)) = concat (map group_list gs)"
  by (simp add: peekable_def block_iter_def peek_ok_def peek_list_def iter_ok_def iter_list_def)

section \<open>Chains of blocks\<close>

text \<open>
  The blocks of a chain: the addresses with the parts of the list, where \<open>mk\<close> builds a block from a part and the next pointer; there may
  be more addresses than parts. \<open>store\<close> is the device after the blocks have been written.
\<close>

fun chain_blocks :: "('p list \<Rightarrow> nat option \<Rightarrow> 'x) \<Rightarrow> 'p list list \<Rightarrow> nat list \<Rightarrow> (nat \<times> 'x) list" where
  "chain_blocks mk cs [] = []"
| "chain_blocks mk cs (b # bs) = (b, mk (concat (take 1 cs)) (head bs)) # chain_blocks mk (tl cs) bs"

definition store :: "'x block_layout \<Rightarrow> (nat \<times> 'x) list \<Rightarrow> (nat \<Rightarrow> u8 list) \<Rightarrow> nat \<Rightarrow> u8 list" where
  "store L ws c = foldl (\<lambda>c (b, x). c(b := block_data L x)) c ws"

lemma store_simps [simp]: "store L [] c = c" "store L ((b, x) # ws) c = store L ws (c(b := block_data L x))"
  "store L (vs @ ws) c = store L ws (store L vs c)"
  by (simp_all add: store_def)

lemma chain_blocks_split:
  "length cs \<le> length bs \<Longrightarrow> chain_blocks mk cs bs = take (length cs) (chain_blocks mk cs bs) @ chain_blocks mk [] (drop (length cs) bs)"
proof (induction mk cs bs rule: chain_blocks.induct)
  case (2 mk cs b bs)
  then show ?case by (cases cs) auto
qed simp

lemma store_other: "b \<notin> fst ` set ws \<Longrightarrow> store L ws c b = c b"
  by (induction ws arbitrary: c) auto

lemma store_distinct: "distinct (map fst ws) \<Longrightarrow> (b, x) \<in> set ws \<Longrightarrow> store L ws c b = block_data L x"
  by (induction ws arbitrary: c) (auto simp: store_other)

lemma fst_chain_blocks [simp]: "map fst (chain_blocks mk cs bs) = bs"
  by (induction mk cs bs rule: chain_blocks.induct) auto

lemma length_chain_blocks [simp]: "length (chain_blocks mk cs bs) = length bs"
  by (induction mk cs bs rule: chain_blocks.induct) auto

lemma chain_blocks_member:
  "(b, x) \<in> set (chain_blocks mk cs bs) \<Longrightarrow>
   \<exists>c n. x = mk c n \<and> b \<in> set bs \<and> (c = [] \<or> c \<in> set cs) \<and> (\<forall>p. n = Some p \<longrightarrow> p \<in> set bs)"
proof (induction mk cs bs rule: chain_blocks.induct)
  case (2 mk cs b' bs)
  show ?case
  proof (cases "(b, x) \<in> set (chain_blocks mk (tl cs) bs)")
    case True
    then obtain c n where "x = mk c n" "b \<in> set bs" "c = [] \<or> c \<in> set (tl cs)" "\<forall>p. n = Some p \<longrightarrow> p \<in> set bs"
      using "2.IH" by blast
    then show ?thesis by (cases cs) auto
  next
    case False
    then have x: "x = mk (concat (take 1 cs)) (head bs)" "b = b'" using "2.prems" by auto
    have "concat (take 1 cs) = [] \<or> concat (take 1 cs) \<in> set cs" by (cases cs) auto
    moreover have "\<forall>p. head bs = Some p \<longrightarrow> p \<in> set bs" by (cases bs) auto
    ultimately show ?thesis using x by (intro exI [of _ "concat (take 1 cs)"] exI [of _ "head bs"]) auto
  qed
qed simp

lemma chunks_member: "c \<in> set (chunks n xs) \<Longrightarrow> length c \<le> n \<and> set c \<subseteq> set xs"
proof (induction n xs rule: chunks.induct)
  case (1 n xs)
  then show ?case
    by (cases "xs = [] \<or> n = 0") (auto simp: chunks.simps [of n xs] dest: in_set_takeD in_set_dropD)
qed

lemma counts_required_for_mono: "0 < e \<Longrightarrow> m \<le> m' \<Longrightarrow> counts_required_for e m \<le> counts_required_for e m'"
  using counts_required_for_covers [of e m'] by (intro counts_required_for_least) auto

context block_device
begin

lemma healthy_store:
  assumes "healthy d b" "layout_ok (DEV_BLOCK_SIZE dev) valid L" "valid x"
  obtains d' where "write_block dev b (block_data L x) d = Some (Inr (), d')" "content d' = (content d)(b := block_data L x)"
    "\<forall>b. healthy d b \<longrightarrow> healthy d' b"
proof -
  have "length (block_data L x) = DEV_BLOCK_SIZE dev" using assms(2,3) by (simp add: layout_ok_def)
  then show ?thesis using healthy_write [OF assms(1)] write_ok that by blast
qed

end

section \<open>Little-endian numbers\<close>

fun le_bytes :: "nat \<Rightarrow> nat \<Rightarrow> u8 list" where
  "le_bytes 0 n = []"
| "le_bytes (Suc k) n = of_nat (n mod 256) # le_bytes k (n div 256)"

fun le_value :: "u8 list \<Rightarrow> nat" where
  "le_value [] = 0"
| "le_value (b # bs) = unat b + 256 * le_value bs"

lemma length_le_bytes [simp]: "length (le_bytes k n) = k"
  by (induction k n rule: le_bytes.induct) auto

lemma le_value_bytes: "n < 256 ^ k \<Longrightarrow> le_value (le_bytes k n) = n"
proof (induction k n rule: le_bytes.induct)
  case (2 k n)
  then have "n div 256 < 256 ^ k" by (simp add: less_mult_imp_div_less mult.commute)
  then show ?case using 2 by (simp add: unat_of_nat take_bit_eq_mod)
qed simp

lemma le_u64: "n \<le> u64_max \<Longrightarrow> le_value (le_bytes 8 n) = n"
  by (rule le_value_bytes) (simp add: u64_max_def)

section \<open>A layout for parts of lists of groups\<close>

text \<open>
  One layout that \<open>layout_ok\<close> allows, for both kinds of chains: the number of groups, the next pointer with all ones for none, and the
  groups, as little-endian words.
\<close>

definition group_to_bytes :: "BlockGroup \<Rightarrow> u8 list" where
  "group_to_bytes g = le_bytes 8 (bg_start g) @ le_bytes 8 (bg_count g)"

definition group_from_bytes :: "u8 list \<Rightarrow> BlockGroup" where
  "group_from_bytes bs = \<lparr>bg_start = le_value (take 8 bs), bg_count = le_value (take 8 (drop 8 bs))\<rparr>"

definition groups_layout :: "('x \<Rightarrow> BlockGroup list) \<Rightarrow> ('x \<Rightarrow> nat option) \<Rightarrow> (BlockGroup list \<Rightarrow> nat option \<Rightarrow> 'x) \<Rightarrow> 'x block_layout" where
  "groups_layout groups next mk = \<lparr>size_of = 4096,
     block_data = (\<lambda>x. [of_nat (length (groups x))] @ le_bytes 8 (case next x of None \<Rightarrow> u64_max | Some p \<Rightarrow> p)
       @ concat (map group_to_bytes (groups x)) @ replicate (4087 - 16 * length (groups x)) 0),
     from_block = (\<lambda>bs. mk (map (\<lambda>i. group_from_bytes (drop (9 + 16 * i) bs)) [0..<unat (bs ! 0)])
       (let p = le_value (take 8 (drop 1 bs)) in if p = u64_max then None else Some p))\<rparr>"

lemma group_from_to_bytes: "group_ok g \<Longrightarrow> group_from_bytes (group_to_bytes g @ bs) = g"
  by (simp add: group_from_bytes_def group_to_bytes_def le_u64 group_ok_def)

lemma length_group_to_bytes [simp]: "length (group_to_bytes g) = 16"
  by (simp add: group_to_bytes_def)

lemma length_groups_to_bytes: "length (concat (map group_to_bytes gs)) = 16 * length gs"
  by (induction gs) auto

lemma drop_groups: "drop (16 * i) (concat (map group_to_bytes gs) @ bs) = concat (map group_to_bytes (drop i gs)) @ (if i \<le> length gs then bs else drop (16 * (i - length gs)) bs)"
proof (induction gs arbitrary: i)
  case (Cons g gs)
  then show ?case by (cases i) auto
qed simp

lemma drop_header: "drop (9 + m) (w # le_bytes 8 n @ bs) = drop m bs"
proof -
  have "9 + m = Suc (8 + m)" by simp
  then show ?thesis by (simp only: drop_Suc_Cons drop_append) simp
qed

lemma groups_layout_ok:
  assumes "\<And>x. valid x \<Longrightarrow> length (groups x) \<le> 255 \<and> (\<forall>g \<in> set (groups x). group_ok g) \<and> (\<forall>p. next x = Some p \<longrightarrow> p < u64_max)
    \<and> mk (groups x) (next x) = x"
  shows "layout_ok 4096 valid (groups_layout groups next mk)"
proof -
  let ?L = "groups_layout groups next mk"
  have "from_block ?L (block_data ?L x) = x" "length (block_data ?L x) = 4096" if "valid x" for x
  proof -
    note x = assms [OF that]
    let ?n = "length (groups x)"
    have n: "?n \<le> 255" using x by simp
    then show "length (block_data ?L x) = 4096" by (simp add: groups_layout_def length_groups_to_bytes)
    define tl where "tl = concat (map group_to_bytes (groups x)) @ replicate (4087 - 16 * ?n) 0"
    have bd: "block_data ?L x = of_nat ?n # le_bytes 8 (case next x of None \<Rightarrow> u64_max | Some p \<Rightarrow> p) @ tl"
      by (simp add: groups_layout_def tl_def)
    have "group_from_bytes (drop (16 * i) tl) = groups x ! i" if "i < ?n" for i
    proof -
      have "drop i (groups x) = groups x ! i # drop (Suc i) (groups x)" using that by (rule Cons_nth_drop_Suc [symmetric])
      then have "drop (16 * i) tl = group_to_bytes (groups x ! i) @ concat (map group_to_bytes (drop (Suc i) (groups x))) @ replicate (4087 - 16 * ?n) 0"
        using that unfolding tl_def drop_groups by simp
      then show ?thesis using that x by (simp add: group_from_to_bytes)
    qed
    then have "map (\<lambda>i. group_from_bytes (drop (9 + 16 * i) (block_data ?L x))) [0..<?n] = groups x"
      unfolding bd drop_header by (intro nth_equalityI) auto
    moreover have "unat (block_data ?L x ! 0) = ?n" using n by (simp add: bd unat_of_nat take_bit_nat_eq_self)
    moreover have "(let p = le_value (take 8 (drop 1 (block_data ?L x))) in if p = u64_max then None else Some p) = next x"
      using x by (auto simp: bd le_u64 Let_def split: option.splits)
    ultimately show "from_block ?L (block_data ?L x) = x" using x by (simp add: groups_layout_def)
  qed
  then show ?thesis by (simp add: layout_ok_def) (simp add: groups_layout_def)
qed

definition sample_file :: FileDevice where
  "sample_file = \<lparr>max_block_count = 16, fd_file = \<lparr>contents = replicate 65536 0, cursor = 0, io_calls = []\<rparr>\<rparr>"

end
