(* ===== verification/Allocator_Disk.thy ===== *)
theory Allocator_Disk
  imports Block_Allocator Block_Iter
begin

text \<open>
  The block allocator on the device (\<open>write\<close> and \<open>load\<close> of \<open>block_allocator.rs\<close>): writing the free groups as a chain of
  blocks, and reading the chain back.
\<close>

section \<open>Writing\<close>

definition BLOCK_RANGES_COUNT_PER_BLOCK :: nat where
  "BLOCK_RANGES_COUNT_PER_BLOCK = 250"

record FreeBlockGroups =
  fb_free :: "BlockGroup list"
  fb_next :: "nat option"

definition CALC_ALLOC_SIZE_TRY_COUNT :: nat where
  "CALC_ALLOC_SIZE_TRY_COUNT = 10"

fun free_all_blocks :: "nat list \<Rightarrow> BlockAllocator \<Rightarrow> BlockAllocator run" where
  "free_all_blocks [] A = Some A"
| "free_all_blocks (b # bs) A = do {
     A' \<leftarrow> free_block b A;
     free_all_blocks bs A'
   }"

text \<open>The loop that looks for blocks for the free list itself.\<close>

function reserve :: "nat \<Rightarrow> nat \<Rightarrow> nat \<Rightarrow> (BlockAllocator, FsError, BlockGroup list) prog" where
  "reserve blocks_required free_group_count loop_count new =
     (case allocate_list blocks_required new of
        None \<Rightarrow> None
      | Some (Inl e, new1) \<Rightarrow> Some (Inl e, new1)
      | Some (Inr on_disk_blocks, new1) \<Rightarrow>
          (case block_count on_disk_blocks of
             None \<Rightarrow> None
           | Some n \<Rightarrow>
               if counts_required_for BLOCK_RANGES_COUNT_PER_BLOCK (length (free new1)) \<le> n then Some (Inr on_disk_blocks, new1)
               else if \<not> free_group_count < length (free new1) then None
               else (case free_groups on_disk_blocks new1 of
                  None \<Rightarrow> None
                | Some new2 \<Rightarrow>
                    if loop_count \<ge> CALC_ALLOC_SIZE_TRY_COUNT then Some (Inl WriteAllocatorFreeList, new2)
                    else reserve blocks_required (length (free new1)) (loop_count + 1) new2)))"
  by pat_completeness auto
termination
  by (relation "measure (\<lambda>(b, f, l, A). CALC_ALLOC_SIZE_TRY_COUNT - l)") auto

declare reserve.simps [simp del]

definition write_failed :: "'x \<Rightarrow> FsError" where
  "write_failed e = BlockDeviceError WriteFailure"

fun write_chunks ::
    "('d, 'e) BlockDevice \<Rightarrow> FreeBlockGroups block_layout \<Rightarrow> BlockGroup list list \<Rightarrow> Peekable \<Rightarrow> ('d, FsError, Peekable) prog" where
  "write_chunks dev L [] pk d = Some (Inr pk, d)"
| "write_chunks dev L (block_data1 # cs) pk d = do {
     (v, pk1) \<leftarrow> peek_next pk;
     lba \<leftarrow> v;
     (next, pk2) \<leftarrow> peek pk1;
     attempt (map_err write_failed
         (write_block dev lba (block_data L \<lparr>fb_free = take BLOCK_RANGES_COUNT_PER_BLOCK block_data1, fb_next = next\<rparr>)))
       (\<lambda>_. write_chunks dev L cs pk2) d
   }"

function write_rest ::
    "('d, 'e) BlockDevice \<Rightarrow> FreeBlockGroups block_layout \<Rightarrow> Peekable \<Rightarrow> ('d, FsError, unit) prog" where
  "write_rest dev L pk d =
     (case peek_next pk of
        None \<Rightarrow> None
      | Some (None, pk1) \<Rightarrow> Some (Inr (), d)
      | Some (Some empty_block_lba, pk1) \<Rightarrow>
          (case peek pk1 of
             None \<Rightarrow> None
           | Some (next, pk2) \<Rightarrow>
               (case map_err write_failed (write_block dev empty_block_lba (block_data L \<lparr>fb_free = [], fb_next = next\<rparr>)) d of
                  None \<Rightarrow> None
                | Some (Inl e, d1) \<Rightarrow> Some (Inl e, d1)
                | Some (Inr _, d1) \<Rightarrow> write_rest dev L pk2 d1)))"
  by pat_completeness auto
termination
  by (relation "measure (\<lambda>(dev, L, pk, d). peek_size pk)")
    (auto dest!: peek_next_size peek_size_le)

declare write_rest.simps [simp del]

definition BlockAllocator_write ::
    "('d, 'e) BlockDevice \<Rightarrow> FreeBlockGroups block_layout \<Rightarrow> (BlockAllocator \<times> 'd, FsError, nat) prog" where
  "BlockAllocator_write dev L = (\<lambda>(A, d). do {
     _ \<leftarrow> debug_consistent A;
     new \<leftarrow> free_all_blocks (self_on_disk A) (A\<lparr>self_on_disk := [], on_disk := None\<rparr>);
     let free_group_count = max (length (free new)) 1;
     let blocks_required = counts_required_for BLOCK_RANGES_COUNT_PER_BLOCK free_group_count;
     (r, new1) \<leftarrow> reserve blocks_required free_group_count 0 new;
     case r of
       Inl e \<Rightarrow> Some (Inl e, (A, d))
     | Inr on_disk_blocks \<Rightarrow> do {
         (first, pk) \<leftarrow> peek (peekable (block_iter on_disk_blocks));
         first_block \<leftarrow> first;
         (r1, d1) \<leftarrow> attempt (write_chunks dev L (chunks BLOCK_RANGES_COUNT_PER_BLOCK (free new1)) pk) (write_rest dev L) d;
         case r1 of
           Inl e \<Rightarrow> Some (Inl e, (A, d1))
         | Inr _ \<Rightarrow> Some (Inr first_block, (new1\<lparr>dirty := False\<rparr>, d1))
       }
   })"

section \<open>Loading\<close>

text \<open>The chain on the device may be a cycle, then the loop never ends: no value.\<close>

partial_function (option) load_loop ::
    "('d, 'e) BlockDevice \<Rightarrow> FreeBlockGroups block_layout \<Rightarrow> nat option \<Rightarrow> BlockGroup list \<Rightarrow> nat list \<Rightarrow> 'd
      \<Rightarrow> (('e ReadPointerError + (BlockGroup list \<times> nat list)) \<times> 'd) run" where
  "load_loop dev L next_block groups self_blocks d =
     (case next_block of
        None \<Rightarrow> Some (Inr (groups, self_blocks), d)
      | Some block \<Rightarrow> do {
          (r, d1) \<leftarrow> read_pointer dev L block d;
          case r of
            Inl e \<Rightarrow> Some (Inl e, d1)
          | Inr data \<Rightarrow> load_loop dev L (fb_next data) (groups @ fb_free data) (self_blocks @ [block]) d1
        })"

definition BlockAllocator_load ::
    "('d, 'e) BlockDevice \<Rightarrow> FreeBlockGroups block_layout \<Rightarrow> nat \<Rightarrow> ('d, 'e ReadPointerError, BlockAllocator) prog" where
  "BlockAllocator_load dev L free_ptr =
     attempt (load_loop dev L (Some free_ptr) [] [])
       (\<lambda>(groups, self_blocks) d. do {
          A \<leftarrow> debug_consistent \<lparr>free = groups, on_disk = Some free_ptr, self_on_disk = self_blocks, dirty = False\<rparr>;
          Some (Inr A, d)
        })"

section \<open>The chain of free groups\<close>

abbreviation free_part :: "BlockGroup list \<Rightarrow> nat option \<Rightarrow> FreeBlockGroups" where
  "free_part gs n \<equiv> \<lparr>fb_free = gs, fb_next = n\<rparr>"

definition fb_ok :: "FreeBlockGroups \<Rightarrow> bool" where
  "fb_ok x \<longleftrightarrow> length (fb_free x) \<le> BLOCK_RANGES_COUNT_PER_BLOCK \<and> (\<forall>g \<in> set (fb_free x). group_ok g)
     \<and> (\<forall>p. fb_next x = Some p \<longrightarrow> p < u64_max)"

lemma chain_blocks_ok:
  assumes "(b, x) \<in> set (chain_blocks free_part cs bs)" "\<forall>c \<in> set cs. length c \<le> BLOCK_RANGES_COUNT_PER_BLOCK \<and> (\<forall>g \<in> set c. group_ok g)"
    and "\<forall>b \<in> set bs. b < u64_max"
  shows "fb_ok x"
  using chain_blocks_member [OF assms(1)] assms(2,3) by (auto simp: fb_ok_def)

text \<open>How many blocks \<open>write\<close> asks for, and what it gets.\<close>

definition blocks_wanted :: "BlockAllocator \<Rightarrow> nat" where
  "blocks_wanted A = counts_required_for BLOCK_RANGES_COUNT_PER_BLOCK (max (length (free A)) 1)"

lemma blocks_wanted_pos: "1 \<le> blocks_wanted A"
proof -
  have "counts_required_for BLOCK_RANGES_COUNT_PER_BLOCK 1 \<le> blocks_wanted A"
    unfolding blocks_wanted_def by (intro counts_required_for_mono) (simp_all add: BLOCK_RANGES_COUNT_PER_BLOCK_def)
  then show ?thesis by (simp add: counts_required_for_def BLOCK_RANGES_COUNT_PER_BLOCK_def)
qed

lemma reserve_none:
  assumes "consistent A" "\<not> ((\<exists>k. blocks_wanted A = 2 ^ k) \<and> (\<exists>h \<in> set (free A). blocks_wanted A \<le> bg_count h))"
  shows "reserve (blocks_wanted A) (max (length (free A)) 1) 0 A = Some (Inl (BlockDeviceFull (blocks_wanted A)), A)"
  using allocate_none [OF assms(1) blocks_wanted_pos assms(2)] by (simp add: reserve.simps [of "blocks_wanted A"])

lemma reserve_some:
  assumes A: "consistent A" and k: "blocks_wanted A = 2 ^ k" and fits: "\<exists>h \<in> set (free A). blocks_wanted A \<le> bg_count h"
  obtains g A' where "reserve (blocks_wanted A) (max (length (free A)) 1) 0 A = Some (Inr [g], A')" "group_ok g" "bg_count g = blocks_wanted A"
    "blocks g \<subseteq> free_blocks A" "free_blocks A' = free_blocks A - blocks g" "consistent A'" "length (free A') \<le> length (free A)"
    "on_disk A' = on_disk A" "self_on_disk A' = self_on_disk A"
proof -
  obtain g A' where al: "allocate_list (blocks_wanted A) A = Some (Inr [g], A')" and g: "group_ok g" "bg_count g = blocks_wanted A"
      "blocks g \<subseteq> free_blocks A" and A': "free_blocks A' = free_blocks A - blocks g" "consistent A'" "length (free A') \<le> length (free A)"
      "on_disk A' = on_disk A" "self_on_disk A' = self_on_disk A"
    using allocate_list_fits [OF A k fits] by metis
  have "counts_required_for BLOCK_RANGES_COUNT_PER_BLOCK (length (free A')) \<le> blocks_wanted A"
    unfolding blocks_wanted_def using A'(3) by (intro counts_required_for_mono) (simp_all add: BLOCK_RANGES_COUNT_PER_BLOCK_def)
  moreover have "blocks_wanted A \<le> u64_max" using g by (simp add: group_ok_def)
  ultimately have run: "reserve (blocks_wanted A) (max (length (free A)) 1) 0 A = Some (Inr [g], A')"
    using al g(2) by (simp add: reserve.simps [of "blocks_wanted A"] u64_add_def)
  then show ?thesis using g A' by (rule that)
qed

text \<open>
  What freeing the blocks of an old list does to the set of free blocks: freeing \<open>b\<close> panics when the next block is free; \<open>b\<close> is free
  again when the block before it or a block after it is, and is lost otherwise.
\<close>

fun freed :: "nat list \<Rightarrow> nat set \<Rightarrow> nat set option" where
  "freed [] F = Some F"
| "freed (b # bs) F =
     (if Suc b \<in> F then None else freed bs (if \<exists>x \<in> F. b \<le> Suc x then insert b F else F))"

lemma start_free_iff:
  assumes "apart gs" "b \<notin> blocks_of gs"
  shows "(\<exists>h \<in> set gs. bg_start h = Suc b) \<longleftrightarrow> Suc b \<in> blocks_of gs"
proof
  assume "\<exists>h \<in> set gs. bg_start h = Suc b"
  then show "Suc b \<in> blocks_of gs" using apart_member [OF assms(1)] by (force simp: blocks_of_def dest: start_in_blocks)
next
  assume "Suc b \<in> blocks_of gs"
  then obtain h where h: "h \<in> set gs" "Suc b \<in> blocks h" by (auto simp: blocks_of_def)
  then have "b \<notin> blocks h" using assms(2) by (auto simp: blocks_of_def)
  then have "bg_start h = Suc b" using h(2) by (auto simp: blocks_def)
  with h(1) show "\<exists>h \<in> set gs. bg_start h = Suc b" by blast
qed

lemma touches_free_iff:
  assumes "apart gs" "b \<notin> blocks_of gs"
  shows "touches_free \<lparr>bg_start = b, bg_count = 1\<rparr> gs \<longleftrightarrow> (\<exists>x \<in> blocks_of gs. b \<le> Suc x)"
proof
  assume "touches_free \<lparr>bg_start = b, bg_count = 1\<rparr> gs"
  then obtain h where h: "h \<in> set gs" "b < bg_start h \<or> bg_start h + bg_count h = b" by (auto simp: touches_free_def)
  have "0 < bg_count h" using apart_member [OF assms(1) h(1)] by (simp add: group_ok_def)
  then have "bg_start h + bg_count h - 1 \<in> blocks h" "b \<le> Suc (bg_start h + bg_count h - 1)" using h(2) by (auto simp: blocks_def)
  with h(1) show "\<exists>x \<in> blocks_of gs. b \<le> Suc x" by (auto simp: blocks_of_def)
next
  assume "\<exists>x \<in> blocks_of gs. b \<le> Suc x"
  then obtain h x where h: "h \<in> set gs" "x \<in> blocks h" "b \<le> Suc x" by (auto simp: blocks_of_def)
  then have "b \<notin> blocks h" using assms(2) by (auto simp: blocks_of_def)
  then have "b < bg_start h \<or> bg_start h + bg_count h = b" using h(2,3) by (auto simp: blocks_def)
  with h(1) show "touches_free \<lparr>bg_start = b, bg_count = 1\<rparr> gs" by (auto simp: touches_free_def)
qed

lemma free_block_cases:
  assumes "consistent A" "b \<notin> free_blocks A" "Suc b < u64_max"
  shows "if Suc b \<in> free_blocks A then free_block b A = None
    else \<exists>A'. free_block b A = Some A' \<and> consistent A' \<and> on_disk A' = on_disk A \<and> self_on_disk A' = self_on_disk A
      \<and> free_blocks A' = (if \<exists>x \<in> free_blocks A. b \<le> Suc x then insert b (free_blocks A) else free_blocks A)"
proof -
  let ?g = "\<lparr>bg_start = b, bg_count = 1\<rparr>"
  have g: "group_ok ?g" "free_blocks A \<inter> blocks ?g = {}" using assms(2,3) by (simp_all add: group_ok_def blocks_def)
  obtain gs' where gs': "free_loop ?g (free A) = Some gs'" "\<forall>h \<in> set gs'. group_ok h"
    "blocks_of gs' = (if touches_free ?g (free A) then free_blocks A \<union> blocks ?g else free_blocks A)"
    "sorted_wrt before gs' \<longleftrightarrow> (\<forall>h \<in> set (free A). bg_start h \<noteq> bg_start ?g + bg_count ?g)"
    using free_loop_spec [OF assms(1) g] by blast
  have "apart gs' \<longleftrightarrow> Suc b \<notin> free_blocks A" using gs'(2,4) start_free_iff [OF assms(1,2)] by (auto simp: apart_def)
  moreover have "free_block b A = (if apart gs' then Some (A\<lparr>dirty := True, free := gs'\<rparr>) else None)"
    using gs'(1,2) by (simp add: free_block_def free_group_def debug_consistent_eq)
  moreover have "blocks ?g = {b}" by (auto simp: blocks_def)
  ultimately show ?thesis using gs'(3) touches_free_iff [OF assms(1,2)] by simp
qed

lemma free_all_blocks_cases:
  assumes "consistent A" "distinct bs" "set bs \<inter> free_blocks A = {}" "\<forall>b \<in> set bs. Suc b < u64_max"
  shows "case freed bs (free_blocks A) of
      None \<Rightarrow> free_all_blocks bs A = None
    | Some F \<Rightarrow> \<exists>A'. free_all_blocks bs A = Some A' \<and> consistent A' \<and> free_blocks A' = F
        \<and> on_disk A' = on_disk A \<and> self_on_disk A' = self_on_disk A"
  using assms
proof (induction bs arbitrary: A)
  case (Cons b bs)
  let ?F = "free_blocks A"
  have b: "b \<notin> ?F" "Suc b < u64_max" using Cons.prems by auto
  show ?case
  proof (cases "Suc b \<in> ?F")
    case True
    then show ?thesis using free_block_cases [OF Cons.prems(1) b] by simp
  next
    case False
    then obtain A1 where A1: "free_block b A = Some A1" "consistent A1" "on_disk A1 = on_disk A" "self_on_disk A1 = self_on_disk A"
      "free_blocks A1 = (if \<exists>x \<in> ?F. b \<le> Suc x then insert b ?F else ?F)" using free_block_cases [OF Cons.prems(1) b] by auto
    have "set bs \<inter> free_blocks A1 = {}" using A1(5) Cons.prems(2,3) by (auto split: if_splits)
    from Cons.IH [OF A1(2) _ this] Cons.prems(2,4) have IH: "case freed bs (free_blocks A1) of
      None \<Rightarrow> free_all_blocks bs A1 = None
    | Some F \<Rightarrow> \<exists>A'. free_all_blocks bs A1 = Some A' \<and> consistent A' \<and> free_blocks A' = F
        \<and> on_disk A' = on_disk A \<and> self_on_disk A' = self_on_disk A" unfolding A1(3,4) by simp
    have "freed (b # bs) ?F = freed bs (free_blocks A1)" using False unfolding A1(5) by (simp only: freed.simps if_False)
    moreover have "free_all_blocks (b # bs) A = free_all_blocks bs A1" using A1(1) by simp
    ultimately show ?thesis using IH by (simp only:)
  qed
qed simp

lemma freed_blocks: "freed bs F = Some F' \<Longrightarrow> F \<subseteq> F' \<and> F' \<subseteq> F \<union> set bs"
  by (induction bs arbitrary: F) (force split: if_splits)+

text \<open>The blocks of a list that \<open>write\<close> has allocated are consecutive: they are freed all or lost all.\<close>

lemma freed_run:
  assumes "q \<notin> F" "\<forall>b \<in> {p..<q}. b \<notin> F"
  shows "freed [p..<q] F = Some (if \<exists>x \<in> F. p \<le> Suc x then F \<union> {p..<q} else F)"
  using assms
proof (induction "q - p" arbitrary: p F)
  case (Suc n)
  have p: "[p..<q] = p # [Suc p..<q]" "{p..<q} = insert p {Suc p..<q}" "n = q - Suc p" "q \<noteq> p" using Suc.hyps(2) by (auto simp: upt_conv_Cons)
  have after: "Suc p \<notin> F" using Suc.prems p(4) Suc.hyps(2) by (cases "Suc p = q") auto
  show ?case
  proof (cases "\<exists>x \<in> F. p \<le> Suc x")
    case True
    have "freed [Suc p..<q] (insert p F) = Some (insert p F \<union> {Suc p..<q})"
      using Suc.hyps(1) [OF p(3), of "insert p F"] Suc.prems p(4) by auto
    then show ?thesis using True after p(1,2) by simp
  next
    case False
    then have "\<not> (\<exists>x \<in> F. Suc p \<le> Suc x)" by force
    then have "freed [Suc p..<q] F = Some F" using Suc.hyps(1) [OF p(3), of F] Suc.prems by auto
    then show ?thesis using False after p(1) by simp
  qed
qed simp

lemma freed_run_none:
  assumes "p < q" "q \<in> F" "\<forall>b \<in> {p..<q}. b \<notin> F"
  shows "freed [p..<q] F = None"
  using assms
proof (induction "q - p" arbitrary: p F)
  case (Suc n)
  have p: "[p..<q] = p # [Suc p..<q]" using Suc.prems(1) by (simp add: upt_conv_Cons)
  show ?case
  proof (cases "Suc p = q")
    case False
    have "p \<le> Suc q" using Suc.prems(1) by simp
    then have "\<exists>x \<in> F. p \<le> Suc x" using Suc.prems(2) by blast
    moreover have "freed [Suc p..<q] (insert p F) = None"
      using Suc.hyps(1) [of "Suc p" "insert p F"] Suc.hyps(2) Suc.prems False by auto
    moreover have "Suc p \<notin> F" using Suc.prems False by simp
    ultimately show ?thesis by (simp add: p)
  qed (use p Suc.prems(2) in simp)
qed simp

text \<open>
  An allocation takes the blocks of a list from the front of a free group, so after \<open>load\<close> the rest of that group starts right
  after the list, and the next \<open>write\<close> panics.
\<close>

lemma rewrite_panics:
  assumes "consistent A" "self_on_disk A = [p..<q]" "p < q" "\<forall>b \<in> {p..<q}. b \<notin> free_blocks A" "q \<in> free_blocks A" "q < u64_max"
  shows "BlockAllocator_write dev L (A, d) = None"
proof -
  let ?new = "A\<lparr>self_on_disk := [], on_disk := None\<rparr>"
  have "free_all_blocks [p..<q] ?new = None"
    using free_all_blocks_cases [of ?new "[p..<q]"] freed_run_none [of p q "free_blocks A"] assms by auto
  then show ?thesis using assms(1,2) by (simp add: BlockAllocator_write_def)
qed

context block_device
begin

lemma write_chunks_spec:
  assumes "peek_ok pk" "peek_list pk = bs" "length cs \<le> length bs" "\<forall>b \<in> set bs. healthy d b \<and> b < u64_max"
    and "\<forall>c \<in> set cs. length c \<le> BLOCK_RANGES_COUNT_PER_BLOCK \<and> (\<forall>g \<in> set c. group_ok g)" "layout_ok (DEV_BLOCK_SIZE dev) fb_ok L"
  shows "\<exists>pk' d'. write_chunks dev L cs pk d = Some (Inr pk', d') \<and> peek_ok pk' \<and> peek_list pk' = drop (length cs) bs
    \<and> content d' = store L (take (length cs) (chain_blocks free_part cs bs)) (content d) \<and> (\<forall>b. healthy d b \<longrightarrow> healthy d' b)"
  using assms
proof (induction cs arbitrary: pk bs d)
  case (Cons c cs)
  obtain b bs' where bs: "bs = b # bs'" using Cons.prems(3) by (cases bs) auto
  obtain pk1 where pk1: "peek_next pk = Some (Some b, pk1)" "peek_ok pk1" "peek_list pk1 = bs'"
    using peek_next_spec [OF Cons.prems(1)] Cons.prems(2) bs by auto
  obtain pk2 where pk2: "peek pk1 = Some (head bs', pk2)" "peek_ok pk2" "peek_list pk2 = bs'"
    using peek_spec [OF pk1(2)] pk1(3) by auto
  define x where "x = \<lparr>fb_free = c, fb_next = head bs'\<rparr>"
  have "fb_ok x" using Cons.prems(4,5) bs by (auto simp: x_def fb_ok_def head_def split: list.splits)
  then obtain d1 where d1: "write_block dev b (block_data L x) d = Some (Inr (), d1)" "content d1 = (content d)(b := block_data L x)"
    "\<forall>b. healthy d b \<longrightarrow> healthy d1 b"
    using healthy_store [of d b fb_ok L x] Cons.prems(4,6) bs by (metis list.set_intros(1))
  have "\<exists>pk' d'. write_chunks dev L cs pk2 d1 = Some (Inr pk', d') \<and> peek_ok pk' \<and> peek_list pk' = drop (length cs) bs'
    \<and> content d' = store L (take (length cs) (chain_blocks free_part cs bs')) (content d1) \<and> (\<forall>b. healthy d1 b \<longrightarrow> healthy d' b)"
    using Cons.prems d1(3) bs by (intro Cons.IH pk2) auto
  moreover have "write_chunks dev L (c # cs) pk d = write_chunks dev L cs pk2 d1"
    using pk1(1) pk2(1) d1(1) Cons.prems(5) by (simp add: attempt_def map_err_def x_def)
  ultimately show ?case using d1(2,3) bs by (auto simp: x_def)
qed simp

lemma write_rest_spec:
  assumes "peek_ok pk" "peek_list pk = bs" "\<forall>b \<in> set bs. healthy d b \<and> b < u64_max" "layout_ok (DEV_BLOCK_SIZE dev) fb_ok L"
  shows "\<exists>d'. write_rest dev L pk d = Some (Inr (), d')
    \<and> content d' = store L (chain_blocks free_part [] bs) (content d) \<and> (\<forall>b. healthy d b \<longrightarrow> healthy d' b)"
  using assms
proof (induction bs arbitrary: pk d)
  case Nil
  then show ?case using peek_next_spec [OF Nil(1)] by (auto simp: write_rest.simps [of _ _ pk])
next
  case (Cons b bs)
  obtain pk1 where pk1: "peek_next pk = Some (Some b, pk1)" "peek_ok pk1" "peek_list pk1 = bs"
    using peek_next_spec [OF Cons.prems(1)] Cons.prems(2) by auto
  obtain pk2 where pk2: "peek pk1 = Some (head bs, pk2)" "peek_ok pk2" "peek_list pk2 = bs"
    using peek_spec [OF pk1(2)] pk1(3) by auto
  define x where "x = \<lparr>fb_free = [], fb_next = head bs\<rparr>"
  have "fb_ok x" using Cons.prems(3) by (auto simp: x_def fb_ok_def head_def split: list.splits)
  then obtain d1 where d1: "write_block dev b (block_data L x) d = Some (Inr (), d1)" "content d1 = (content d)(b := block_data L x)"
    "\<forall>b. healthy d b \<longrightarrow> healthy d1 b"
    using healthy_store [of d b fb_ok L x] Cons.prems(3,4) by (metis list.set_intros(1))
  have "\<exists>d'. write_rest dev L pk2 d1 = Some (Inr (), d')
    \<and> content d' = store L (chain_blocks free_part [] bs) (content d1) \<and> (\<forall>b. healthy d1 b \<longrightarrow> healthy d' b)"
    using Cons.prems d1(3) by (intro Cons.IH pk2) auto
  moreover have "write_rest dev L pk d = write_rest dev L pk2 d1"
    using pk1(1) pk2(1) d1(1) by (simp add: write_rest.simps [of _ _ pk] map_err_def x_def)
  ultimately show ?case using d1(2,3) by (auto simp: x_def)
qed

lemma load_loop_spec:
  assumes "\<forall>(b, x) \<in> set (chain_blocks free_part cs bs). content d b = block_data L x \<and> fb_ok x \<and> healthy d b" "length cs \<le> length bs"
    and "layout_ok (DEV_BLOCK_SIZE dev) fb_ok L"
  shows "\<exists>d'. load_loop dev L (head bs) gs sb d = Some (Inr (gs @ concat cs, sb @ bs), d')"
  using assms
proof (induction bs arbitrary: cs gs sb d)
  case Nil
  then show ?case by (simp add: load_loop.simps [of _ _ None])
next
  case (Cons b bs)
  define x where "x = \<lparr>fb_free = concat (take 1 cs), fb_next = head bs\<rparr>"
  have x: "content d b = block_data L x" "fb_ok x" "healthy d b" using Cons.prems(1) by (simp_all add: x_def)
  obtain d1 where d1: "read_pointer dev L b d = Some (Inr x, d1)" "content d1 = content d" "\<forall>b. healthy d b \<longrightarrow> healthy d1 b"
    using read_pointer_ok [OF Cons.prems(3) x(2,1,3)] by blast
  have "\<exists>d'. load_loop dev L (head bs) (gs @ fb_free x) (sb @ [b]) d1 = Some (Inr ((gs @ fb_free x) @ concat (tl cs), (sb @ [b]) @ bs), d')"
    using Cons.prems d1(2,3) by (intro Cons.IH) auto
  moreover have "fb_free x @ concat (tl cs) = concat cs" by (cases cs) (simp_all add: x_def)
  moreover have "load_loop dev L (head (b # bs)) gs sb d = load_loop dev L (head bs) (gs @ fb_free x) (sb @ [b]) d1"
    using d1(1) by (simp add: load_loop.simps [of _ _ "Some b"] x_def)
  ultimately show ?case by auto
qed

lemma store_load:
  assumes gs: "apart gs" and bs: "distinct bs" "bs \<noteq> []" "\<forall>b \<in> set bs. healthy d b \<and> b < u64_max"
    and len: "counts_required_for BLOCK_RANGES_COUNT_PER_BLOCK (length gs) \<le> length bs"
    and L: "layout_ok (DEV_BLOCK_SIZE dev) fb_ok L" and pk: "peek_ok pk" "peek_list pk = bs"
  defines "cs \<equiv> chunks BLOCK_RANGES_COUNT_PER_BLOCK gs"
  shows "\<exists>d'. attempt (write_chunks dev L cs pk) (write_rest dev L) d = Some (Inr (), d')
    \<and> (\<forall>b. b \<notin> set bs \<longrightarrow> content d' b = content d b) \<and> (\<forall>b. healthy d b \<longrightarrow> healthy d' b)
    \<and> (\<exists>d''. BlockAllocator_load dev L (hd bs) d' = Some (Inr \<lparr>free = gs, on_disk = Some (hd bs), self_on_disk = bs, dirty = False\<rparr>, d''))"
proof -
  have n: "0 < BLOCK_RANGES_COUNT_PER_BLOCK" by (simp add: BLOCK_RANGES_COUNT_PER_BLOCK_def)
  have cs: "length cs \<le> length bs" "concat cs = gs" using len n by (simp_all add: cs_def length_chunks concat_chunks)
  have cs_ok: "\<forall>c \<in> set cs. length c \<le> BLOCK_RANGES_COUNT_PER_BLOCK \<and> (\<forall>g \<in> set c. group_ok g)"
    using chunks_member apart_member [OF gs] by (fastforce simp: cs_def)
  obtain pk' d1 where d1: "write_chunks dev L cs pk d = Some (Inr pk', d1)" "peek_ok pk'" "peek_list pk' = drop (length cs) bs"
    "content d1 = store L (take (length cs) (chain_blocks free_part cs bs)) (content d)" "\<forall>b. healthy d b \<longrightarrow> healthy d1 b"
    using write_chunks_spec [OF pk cs(1) bs(3) cs_ok L] by blast
  have "\<forall>b \<in> set (drop (length cs) bs). healthy d1 b \<and> b < u64_max" using bs(3) d1(5) by (auto dest: in_set_dropD)
  from write_rest_spec [OF d1(2,3) this L] obtain d2 where d2: "write_rest dev L pk' d1 = Some (Inr (), d2)"
    "content d2 = store L (chain_blocks free_part [] (drop (length cs) bs)) (content d1)" "\<forall>b. healthy d1 b \<longrightarrow> healthy d2 b" by blast
  have c: "content d2 = store L (chain_blocks free_part cs bs) (content d)"
    using chain_blocks_split [OF cs(1)] d1(4) d2(2) by (metis store_simps(3))
  have fst: "fst ` set (chain_blocks free_part cs bs) = set bs" by (metis fst_chain_blocks set_map)
  have "\<forall>(b, x) \<in> set (chain_blocks free_part cs bs). content d2 b = block_data L x \<and> fb_ok x \<and> healthy d2 b"
  proof (clarify, intro conjI)
    fix b x assume x: "(b, x) \<in> set (chain_blocks free_part cs bs)"
    show "content d2 b = block_data L x" unfolding c using x bs(1) by (intro store_distinct) simp_all
    show "fb_ok x" using x cs_ok bs(3) by (intro chain_blocks_ok) auto
    have "b \<in> set bs" using x fst by force
    then show "healthy d2 b" using bs(3) d1(5) d2(3) by blast
  qed
  from load_loop_spec [OF this cs(1) L, of "[]" "[]"] obtain d3 where "load_loop dev L (Some (hd bs)) [] [] d2 = Some (Inr (gs, bs), d3)"
    using bs(2) cs(2) by (auto simp: head_hd)
  then have "BlockAllocator_load dev L (hd bs) d2 = Some (Inr \<lparr>free = gs, on_disk = Some (hd bs), self_on_disk = bs, dirty = False\<rparr>, d3)"
    using gs by (simp add: BlockAllocator_load_def)
  moreover have "\<forall>b. b \<notin> set bs \<longrightarrow> content d2 b = content d b" using c fst by (simp add: store_other)
  moreover have "attempt (write_chunks dev L cs pk) (write_rest dev L) d = Some (Inr (), d2)" using d1(1) d2(1) by simp
  ultimately show ?thesis using d1(5) d2(3) by blast
qed

lemma write_load:
  assumes A: "consistent A" "free_all_blocks (self_on_disk A) (A\<lparr>self_on_disk := [], on_disk := None\<rparr>) = Some N"
    and N: "consistent N" "self_on_disk N = []" "on_disk N = None"
    and L: "layout_ok (DEV_BLOCK_SIZE dev) fb_ok L" and healthy: "\<forall>b \<in> free_blocks N. healthy d b"
    and k: "blocks_wanted N = 2 ^ k" and fits: "\<exists>h \<in> set (free N). blocks_wanted N \<le> bg_count h"
  shows "\<exists>ptr A' d' d''. BlockAllocator_write dev L (A, d) = Some (Inr ptr, (A', d'))
    \<and> {ptr..<ptr + blocks_wanted N} \<subseteq> free_blocks N \<and> free_blocks A' = free_blocks N - {ptr..<ptr + blocks_wanted N}
    \<and> consistent A' \<and> \<not> dirty A' \<and> on_disk A' = None \<and> self_on_disk A' = []
    \<and> (\<forall>b. b \<notin> {ptr..<ptr + blocks_wanted N} \<longrightarrow> content d' b = content d b)
    \<and> BlockAllocator_load dev L ptr d' = Some (Inr (A'\<lparr>on_disk := Some ptr, self_on_disk := [ptr..<ptr + blocks_wanted N]\<rparr>), d'')"
proof -
  obtain g A1 where r: "reserve (blocks_wanted N) (max (length (free N)) 1) 0 N = Some (Inr [g], A1)" and g: "group_ok g" "bg_count g = blocks_wanted N"
      "blocks g \<subseteq> free_blocks N" and A1: "free_blocks A1 = free_blocks N - blocks g" "consistent A1" "length (free A1) \<le> length (free N)"
      "on_disk A1 = None" "self_on_disk A1 = []"
    using reserve_some [OF N(1) k fits] N(2,3) by metis
  obtain pk where pk: "peek (peekable (block_iter [g])) = Some (head (group_list g), pk)" "peek_ok pk" "peek_list pk = group_list g"
    using peek_spec [of "peekable (block_iter [g])"] peekable_block_iter [of "[g]"] g(1) by auto
  have bs: "group_list g \<noteq> []" "hd (group_list g) = bg_start g" "group_list g = [bg_start g..<bg_start g + blocks_wanted N]"
    using g blocks_wanted_pos [of N] by (simp_all add: group_list_def)
  have blk: "blocks g = {bg_start g..<bg_start g + blocks_wanted N}" using g(2) by (simp add: blocks_def)
  have hl: "\<forall>b \<in> set (group_list g). healthy d b \<and> b < u64_max" using g(1,3) healthy by (auto simp: blocks_def group_ok_def)
  have "counts_required_for BLOCK_RANGES_COUNT_PER_BLOCK (length (free A1)) \<le> length (group_list g)"
    using A1(3) counts_required_for_mono [of BLOCK_RANGES_COUNT_PER_BLOCK "length (free A1)" "max (length (free N)) 1"]
    by (simp add: g(2) blocks_wanted_def BLOCK_RANGES_COUNT_PER_BLOCK_def)
  from store_load [OF A1(2) set_group_list(2) bs(1) hl this L pk(2,3)]
  obtain d' d'' where d': "attempt (write_chunks dev L (chunks BLOCK_RANGES_COUNT_PER_BLOCK (free A1)) pk) (write_rest dev L) d = Some (Inr (), d')"
    "\<forall>b. b \<notin> blocks g \<longrightarrow> content d' b = content d b"
    "BlockAllocator_load dev L (bg_start g) d' = Some (Inr \<lparr>free = free A1, on_disk = Some (bg_start g), self_on_disk = group_list g, dirty = False\<rparr>, d'')"
    using bs(2) by auto
  have "BlockAllocator_write dev L (A, d) = Some (Inr (bg_start g), (A1\<lparr>dirty := False\<rparr>, d'))"
    using A r [unfolded blocks_wanted_def] pk(1) d'(1) bs by (simp add: BlockAllocator_write_def Let_def head_hd)
  moreover have "(A1\<lparr>dirty := False\<rparr>)\<lparr>on_disk := Some (bg_start g), self_on_disk := group_list g\<rparr>
      = \<lparr>free = free A1, on_disk = Some (bg_start g), self_on_disk = group_list g, dirty = False\<rparr>"
    by (cases A1) simp
  ultimately show ?thesis using A1 g(3) d'(2,3) unfolding blk bs(3)
    by - (rule exI [of _ "bg_start g"], rule exI [of _ "A1\<lparr>dirty := False\<rparr>"], rule exI [of _ d'], rule exI [of _ d''], simp)
qed

lemma write_outcome:
  assumes A: "consistent A" "free_all_blocks (self_on_disk A) (A\<lparr>self_on_disk := [], on_disk := None\<rparr>) = Some N"
    and N: "consistent N" "self_on_disk N = []" "on_disk N = None"
    and L: "layout_ok (DEV_BLOCK_SIZE dev) fb_ok L" and healthy: "\<forall>b \<in> free_blocks N. healthy d b"
  defines "n \<equiv> counts_required_for BLOCK_RANGES_COUNT_PER_BLOCK (max (length (free N)) 1)"
  shows "if (\<exists>k. n = 2 ^ k) \<and> (\<exists>h \<in> set (free N). n \<le> bg_count h)
    then \<exists>ptr A' d' d''. BlockAllocator_write dev L (A, d) = Some (Inr ptr, (A', d'))
      \<and> {ptr..<ptr + n} \<subseteq> free_blocks N \<and> free_blocks A' = free_blocks N - {ptr..<ptr + n} \<and> consistent A' \<and> \<not> dirty A'
      \<and> (\<forall>b. b \<notin> {ptr..<ptr + n} \<longrightarrow> content d' b = content d b)
      \<and> BlockAllocator_load dev L ptr d' = Some (Inr (A'\<lparr>on_disk := Some ptr, self_on_disk := [ptr..<ptr + n]\<rparr>), d'')
    else BlockAllocator_write dev L (A, d) = Some (Inl (BlockDeviceFull n), (A, d))"
proof (cases "(\<exists>k. n = 2 ^ k) \<and> (\<exists>h \<in> set (free N). n \<le> bg_count h)")
  case True
  have n: "n = blocks_wanted N" by (simp add: n_def blocks_wanted_def)
  show ?thesis unfolding if_P [OF True] using write_load [OF A N L healthy] True unfolding n by metis
next
  case False
  then have "reserve n (max (length (free N)) 1) 0 N = Some (Inl (BlockDeviceFull n), N)"
    using reserve_none [OF N(1)] unfolding n_def blocks_wanted_def by blast
  then have "BlockAllocator_write dev L (A, d) = Some (Inl (BlockDeviceFull n), (A, d))"
    using A by (simp add: BlockAllocator_write_def Let_def n_def)
  then show ?thesis using False by simp
qed

end

section \<open>Writing and loading over a file\<close>

text \<open>
  (C30) Writing the allocator to a file device, and loading it again. The blocks of the list written last, \<open>self_on_disk\<close>, are freed
  first, one after the other: \<open>write\<close> panics when one of them is followed by a free block, and blocks after every free block are
  lost. When the number of blocks the new list needs is a power of two and one free group holds them, \<open>write\<close> then succeeds: it takes
  exactly that many consecutive free blocks, changes no other block of the device, and \<open>load\<close> from the returned pointer gives an
  allocator with the same free groups that also knows its own blocks. In every other case \<open>write\<close> reports a full device and changes
  neither the allocator nor the device. The old list must be of distinct used blocks, and the device must be able to access the
  free blocks and those of the old list.
\<close>

theorem allocator_write_load:
  assumes "consistent A" "distinct (self_on_disk A)" "set (self_on_disk A) \<inter> free_blocks A = {}" "\<forall>b \<in> set (self_on_disk A). Suc b < u64_max"
    and "layout_ok 4096 fb_ok L" "\<forall>b \<in> free_blocks A \<union> set (self_on_disk A). file_healthy d b"
  shows "case freed (self_on_disk A) (free_blocks A) of
      None \<Rightarrow> BlockAllocator_write file_device L (A, d) = None
    | Some F \<Rightarrow> \<exists>N. free_all_blocks (self_on_disk A) (A\<lparr>self_on_disk := [], on_disk := None\<rparr>) = Some N \<and> consistent N \<and> free_blocks N = F
        \<and> (let n = counts_required_for BLOCK_RANGES_COUNT_PER_BLOCK (max (length (free N)) 1) in
           if (\<exists>k. n = 2 ^ k) \<and> (\<exists>h \<in> set (free N). n \<le> bg_count h)
           then \<exists>ptr A' d' d''. BlockAllocator_write file_device L (A, d) = Some (Inr ptr, (A', d'))
             \<and> {ptr..<ptr + n} \<subseteq> F \<and> free_blocks A' = F - {ptr..<ptr + n} \<and> consistent A' \<and> \<not> dirty A'
             \<and> (\<forall>b. b \<notin> {ptr..<ptr + n} \<longrightarrow> file_content d' b = file_content d b)
             \<and> BlockAllocator_load file_device L ptr d' = Some (Inr (A'\<lparr>on_disk := Some ptr, self_on_disk := [ptr..<ptr + n]\<rparr>), d'')
           else BlockAllocator_write file_device L (A, d) = Some (Inl (BlockDeviceFull n), (A, d)))"
proof -
  let ?new = "A\<lparr>self_on_disk := [], on_disk := None\<rparr>"
  note cases = free_all_blocks_cases [of ?new "self_on_disk A", simplified, OF assms(1-4)]
  show ?thesis
  proof (cases "freed (self_on_disk A) (free_blocks A)")
    case None
    then show ?thesis using cases assms(1) by (simp add: BlockAllocator_write_def)
  next
    case (Some F)
    then obtain N where N: "free_all_blocks (self_on_disk A) ?new = Some N" "consistent N" "free_blocks N = F" "on_disk N = None" "self_on_disk N = []"
      using cases by auto
    have h: "\<forall>b \<in> free_blocks N. file_healthy d b" using freed_blocks [OF Some] assms(6) N(3) by blast
    have L: "layout_ok (DEV_BLOCK_SIZE file_device) fb_ok L" using assms(5) by (simp add: file_device_def)
    show ?thesis
      unfolding Some option.case Let_def
      by (intro exI [of _ N] conjI N(1,2,3) fd.write_outcome [OF assms(1) N(1,2,5,4) L h, unfolded N(3)])
  qed
qed

definition sample_layout :: "FreeBlockGroups block_layout" where
  "sample_layout = groups_layout fb_free fb_next free_part"

lemma sample_layout_ok: "layout_ok 4096 fb_ok sample_layout"
  unfolding sample_layout_def by (rule groups_layout_ok) (simp add: fb_ok_def BLOCK_RANGES_COUNT_PER_BLOCK_def)

definition loaded_allocator :: "nat list \<Rightarrow> BlockAllocator" where
  "loaded_allocator bs = sample_allocator\<lparr>on_disk := head bs, self_on_disk := bs\<rparr>"

lemma loaded_allocator_ok:
  assumes "set bs \<subseteq> {5, 6, 8}"
  shows "consistent (loaded_allocator bs)" "set (self_on_disk (loaded_allocator bs)) \<inter> free_blocks (loaded_allocator bs) = {}"
    "\<forall>b \<in> set (self_on_disk (loaded_allocator bs)). Suc b < u64_max"
    "\<forall>b \<in> free_blocks (loaded_allocator bs) \<union> set (self_on_disk (loaded_allocator bs)). file_healthy sample_file b"
  using assms
  by (auto simp: loaded_allocator_def sample_allocator_def apart_def group_ok_def u64_max_def blocks_def sample_file_def file_healthy_def BLOCK_SIZE_def)

theorem allocator_write_load_witness:
  "(\<exists>ptr A' d' d''. BlockAllocator_write file_device sample_layout (loaded_allocator [5, 6], sample_file) = Some (Inr ptr, (A', d'))
      \<and> ptr \<in> {2..6} \<union> {9..12} \<and> free_blocks A' = {2..6} \<union> {9..12} - {ptr}
      \<and> BlockAllocator_load file_device sample_layout ptr d' = Some (Inr (A'\<lparr>on_disk := Some ptr, self_on_disk := [ptr]\<rparr>), d''))
   \<and> BlockAllocator_write file_device sample_layout (loaded_allocator [8], sample_file) = None"
proof
  let ?A = "loaded_allocator [5, 6]" and ?F = "{2..6} \<union> {9..12 :: nat}"
  have old: "self_on_disk ?A = [5, 6]" "free_blocks ?A = {2..4} \<union> {9..12}"
    by (auto simp: loaded_allocator_def sample_allocator_def blocks_def)
  have "{2..4} \<union> {9..12} \<union> {5..<7} = ?F" by auto
  moreover have "\<exists>x \<in> {2..4} \<union> {9..12 :: nat}. 5 \<le> Suc x" by (auto intro!: bexI [of _ 4])
  ultimately have "freed [5..<7] (free_blocks ?A) = Some ?F" unfolding old(2) by (subst freed_run) simp_all
  moreover have "[5..<7] = [5, 6 :: nat]" by (simp add: upt_rec)
  ultimately have F: "freed [5, 6] (free_blocks ?A) = Some ?F" by (simp only:)
  have N: "free_all_blocks [5, 6] (?A\<lparr>self_on_disk := [], on_disk := None\<rparr>)
    = Some \<lparr>free = [\<lparr>bg_start = 2, bg_count = 5\<rparr>, \<lparr>bg_start = 9, bg_count = 4\<rparr>], on_disk = None, self_on_disk = [], dirty = True\<rparr>"
    by (simp add: loaded_allocator_def sample_allocator_def free_block_def free_group_def apart_def group_ok_def
        lba_add_eq u64_add_def non_zero_def u64_max_def)
  have n: "counts_required_for BLOCK_RANGES_COUNT_PER_BLOCK (max (length [\<lparr>bg_start = 2, bg_count = 5\<rparr>, \<lparr>bg_start = 9, bg_count = 4\<rparr>]) 1) = 1"
    by (simp add: counts_required_for_def BLOCK_RANGES_COUNT_PER_BLOCK_def)
  have c: "(\<exists>k. (1::nat) = 2 ^ k) \<and> (\<exists>h \<in> set [\<lparr>bg_start = 2, bg_count = 5\<rparr>, \<lparr>bg_start = 9, bg_count = 4\<rparr>]. 1 \<le> bg_count h)"
    by (auto intro: exI [of _ 0])
  have s: "set [5, 6] \<subseteq> {5, 6, 8 :: nat}" and d: "distinct (self_on_disk ?A)" by (simp_all add: old(1))
  from allocator_write_load [OF loaded_allocator_ok(1) [OF s] d loaded_allocator_ok(2,3) [OF s] sample_layout_ok loaded_allocator_ok(4) [OF s]]
  obtain ptr A' d' d'' where "BlockAllocator_write file_device sample_layout (?A, sample_file) = Some (Inr ptr, (A', d'))"
      "{ptr..<ptr + 1} \<subseteq> ?F" "free_blocks A' = ?F - {ptr..<ptr + 1}"
      "BlockAllocator_load file_device sample_layout ptr d' = Some (Inr (A'\<lparr>on_disk := Some ptr, self_on_disk := [ptr..<ptr + 1]\<rparr>), d'')"
    unfolding old(1) F option.case N option.inject Let_def by (auto simp only: BlockAllocator.select_convs n if_P [OF c])
  then show "\<exists>ptr A' d' d''. BlockAllocator_write file_device sample_layout (?A, sample_file) = Some (Inr ptr, (A', d'))
      \<and> ptr \<in> ?F \<and> free_blocks A' = ?F - {ptr}
      \<and> BlockAllocator_load file_device sample_layout ptr d' = Some (Inr (A'\<lparr>on_disk := Some ptr, self_on_disk := [ptr]\<rparr>), d'')"
    by auto
  show "BlockAllocator_write file_device sample_layout (loaded_allocator [8], sample_file) = None"
    using allocator_write_load [OF loaded_allocator_ok(1) _ loaded_allocator_ok(2,3) sample_layout_ok loaded_allocator_ok(4), of "[8]"]
    by (simp add: loaded_allocator_def sample_allocator_def blocks_def)
qed

end
