(* ===== verification/Block_Lists.thy ===== *)
theory Block_Lists
  imports Block_Allocator Block_Iter
begin

text \<open>
  The list of the blocks of a file in memory and on the device, and the file nodes that hold it (\<open>BlockList\<close>, \<open>BlockListAccess\<close> and
  \<open>FileNode\<close> of \<open>wasabi-fs/src/mem_structs.rs\<close>, with the structures of \<open>fs_structs.rs\<close> they are stored as).
\<close>

section \<open>Lists of groups\<close>

datatype BlockList = Single BlockGroup | Groups "BlockGroup list"

datatype BlockListHead = HeadSingle BlockGroup | HeadList nat

definition BLOCK_LIST_GROUP_COUNT :: nat where
  "BLOCK_LIST_GROUP_COUNT = (BLOCK_SIZE - (1 + 8)) div 16"

record FsBlockList =
  bl_blocks :: "BlockGroup list"
  bl_next :: "nat option"

fun as_slice :: "BlockList \<Rightarrow> BlockGroup list" where
  "as_slice (Single g) = [g]"
| "as_slice (Groups gs) = gs"

definition list_block_count :: "BlockList \<Rightarrow> nat run" where
  "list_block_count l = block_count (as_slice l)"

definition list_single :: "BlockList \<Rightarrow> BlockGroup run" where
  "list_single l = do {
     assert_that (length (as_slice l) = 1);
     Some (as_slice l ! 0)
   }"

fun list_push :: "BlockGroup list \<Rightarrow> BlockList \<Rightarrow> BlockList" where
  "list_push groups (Single first) = Groups (first # groups)"
| "list_push groups (Groups gs) = Groups (gs @ groups)"

fun head_of_lba :: "nat \<Rightarrow> BlockListHead" where
  "head_of_lba lba = HeadSingle (with_count lba 1)"

definition list_of_lba :: "nat \<Rightarrow> BlockList run" where
  "list_of_lba lba = do {
     g \<leftarrow> group_new lba lba;
     Some (Single g)
   }"

definition read_failed :: "'x \<Rightarrow> FsError" where
  "read_failed e = BlockDeviceError ReadFailure"

partial_function (option) list_read_loop ::
    "('d, 'e) BlockDevice \<Rightarrow> FsBlockList block_layout \<Rightarrow> nat option \<Rightarrow> BlockGroup list \<Rightarrow> 'd \<Rightarrow> ((FsError + BlockGroup list) \<times> 'd) run" where
  "list_read_loop dev L next_block_ptr groups d =
     (case next_block_ptr of
        None \<Rightarrow> Some (Inr groups, d)
      | Some block_ptr \<Rightarrow> do {
          (r, d1) \<leftarrow> read_pointer dev L block_ptr d;
          case r of
            Inl e \<Rightarrow> Some (Inl (read_failed e), d1)
          | Inr block \<Rightarrow> list_read_loop dev L (bl_next block) (groups @ bl_blocks block) d1
        })"

fun list_read :: "('d, 'e) BlockDevice \<Rightarrow> FsBlockList block_layout \<Rightarrow> BlockListHead \<Rightarrow> ('d, FsError, BlockList) prog" where
  "list_read dev L (HeadSingle g) d = Some (Inr (Single g), d)"
| "list_read dev L (HeadList ptr) d = attempt (list_read_loop dev L (Some ptr) []) (\<lambda>gs. ok (Groups gs)) d"

text \<open>
  The loop of \<open>write\<close> goes over the addresses, each with the one after it, zipped with the parts of the list; the device error is boxed.
\<close>

definition list_write_failed :: "'x \<Rightarrow> FsError" where
  "list_write_failed e = BlockDeviceError WriteFailure"

fun write_parts ::
    "('d, 'e) BlockDevice \<Rightarrow> FsBlockList block_layout \<Rightarrow> BlockGroup list list \<Rightarrow> Peekable \<Rightarrow> ('d, FsError, unit) prog" where
  "write_parts dev L cs pk d = do {
     (block_addr, pk1) \<leftarrow> peek_next pk;
     (next_block_addr, pk2) \<leftarrow> peek pk1;
     case block_addr of
       None \<Rightarrow> Some (Inr (), d)
     | Some b \<Rightarrow>
         (case cs of
            [] \<Rightarrow> Some (Inr (), d)
          | groups # cs' \<Rightarrow>
              attempt (map_err list_write_failed (write_block dev b (block_data L \<lparr>bl_blocks = groups, bl_next = next_block_addr\<rparr>)))
                (\<lambda>_. write_parts dev L cs' pk2) d)
   }"

declare write_parts.simps [simp del]

fun list_write ::
    "('d, 'e) BlockDevice \<Rightarrow> FsBlockList block_layout \<Rightarrow> BlockList \<Rightarrow> ('d \<times> BlockAllocator, FsError, BlockListHead) prog" where
  "list_write dev L (Single g) (d, A) = Some (Inr (HeadSingle g), (d, A))"
| "list_write dev L (Groups block_groups) (d, A) = do {
     let data_block_count = counts_required_for BLOCK_LIST_GROUP_COUNT (length block_groups);
     assert_that (data_block_count \<ge> 1);
     (r, A1) \<leftarrow> allocate_list data_block_count A;
     case r of
       Inl e \<Rightarrow> Some (Inl e, (d, A1))
     | Inr data_blocks \<Rightarrow> do {
         first \<leftarrow> head data_blocks;
         (r1, d1) \<leftarrow> write_parts dev L (chunks BLOCK_LIST_GROUP_COUNT block_groups) (peekable (block_iter data_blocks)) d;
         case r1 of
           Inl e \<Rightarrow> Some (Inl e, (d1, A1))
         | Inr _ \<Rightarrow> Some (Inr (HeadList (bg_start first)), (d1, A1))
       }
   }"

section \<open>File nodes\<close>

datatype BlockListAccess = OnDevice BlockListHead | InMem BlockList | Both BlockList BlockListHead

fun get_list :: "BlockListAccess \<Rightarrow> BlockList run" where
  "get_list (OnDevice _) = None"
| "get_list (InMem l) = Some l"
| "get_list (Both l _) = Some l"

record FsFileNode =
  fs_id :: nat
  fs_parent :: "nat option"
  fs_typ :: FileType
  fs_permissions :: "u8 list"
  fs_uid :: nat
  fs_gid :: nat
  fs_size :: nat
  fs_created_at :: nat
  fs_modified_at :: nat
  fs_block_data :: BlockListHead
  fs_block_count :: nat

record FileNode =
  fn_id :: nat
  fn_parent :: "nat option"
  fn_typ :: FileType
  fn_permissions :: "u8 list"
  fn_uid :: nat
  fn_gid :: nat
  fn_size :: nat
  fn_created_at :: nat
  fn_modified_at :: nat
  fn_block_data :: BlockListAccess
  fn_block_count :: nat

definition FileNode_new :: "nat \<Rightarrow> nat option \<Rightarrow> FileType \<Rightarrow> nat \<Rightarrow> BlockListAccess \<Rightarrow> nat \<Rightarrow> FileNode" where
  "FileNode_new ident parent typ sz block_data1 count =
     \<lparr>fn_id = ident, fn_parent = parent, fn_typ = typ, fn_permissions = replicate 4 0, fn_uid = 0, fn_gid = 0, fn_size = sz,
      fn_created_at = 0, fn_modified_at = 0, fn_block_data = block_data1, fn_block_count = count\<rparr>"

definition FileNode_from :: "FsFileNode \<Rightarrow> FileNode" where
  "FileNode_from n =
     \<lparr>fn_id = fs_id n, fn_parent = fs_parent n, fn_typ = fs_typ n, fn_permissions = fs_permissions n, fn_uid = fs_uid n, fn_gid = fs_gid n,
      fn_size = fs_size n, fn_created_at = fs_created_at n, fn_modified_at = fs_modified_at n,
      fn_block_data = OnDevice (fs_block_data n), fn_block_count = fs_block_count n\<rparr>"

definition fs_node :: "FileNode \<Rightarrow> BlockListHead \<Rightarrow> FsFileNode" where
  "fs_node n hp =
     \<lparr>fs_id = fn_id n, fs_parent = fn_parent n, fs_typ = fn_typ n, fs_permissions = fn_permissions n, fs_uid = fn_uid n, fs_gid = fn_gid n,
      fs_size = fn_size n, fs_created_at = fn_created_at n, fs_modified_at = fn_modified_at n,
      fs_block_data = hp, fs_block_count = fn_block_count n\<rparr>"

text \<open>\<open>FileNode::write\<close>, under the write lock of the block data, which it changes: the node is part of the result.\<close>

definition FileNode_write ::
    "('d, 'e) BlockDevice \<Rightarrow> FsBlockList block_layout \<Rightarrow> (FileNode \<times> 'd \<times> BlockAllocator, FsError, FsFileNode) prog" where
  "FileNode_write dev L = (\<lambda>(n, d, A).
     (case fn_block_data n of
        OnDevice data \<Rightarrow> Some (Inr (fs_node n data), (n, d, A))
      | access \<Rightarrow> do {
          list \<leftarrow> get_list access;
          (r, d1, A1) \<leftarrow> list_write dev L list (d, A);
          case r of
            Inl e \<Rightarrow> Some (Inl e, (n, d1, A1))
          | Inr hp \<Rightarrow> Some (Inr (fs_node n hp), (n\<lparr>fn_block_data := Both list hp\<rparr>, d1, A1))
        }))"

definition resolve_block_data ::
    "('d, 'e) BlockDevice \<Rightarrow> FsBlockList block_layout \<Rightarrow> (FileNode \<times> 'd, FsError, unit) prog" where
  "resolve_block_data dev L = (\<lambda>(n, d).
     (case fn_block_data n of
        OnDevice hp \<Rightarrow> do {
          (r, d1) \<leftarrow> list_read dev L hp d;
          case r of
            Inl e \<Rightarrow> Some (Inl e, (n, d1))
          | Inr list \<Rightarrow> Some (Inr (), (n\<lparr>fn_block_data := InMem list\<rparr>, d1))
        }
      | _ \<Rightarrow> Some (Inr (), (n, d))))"

section \<open>Round trip\<close>

abbreviation list_part :: "BlockGroup list \<Rightarrow> nat option \<Rightarrow> FsBlockList" where
  "list_part gs n \<equiv> \<lparr>bl_blocks = gs, bl_next = n\<rparr>"

definition bl_ok :: "FsBlockList \<Rightarrow> bool" where
  "bl_ok x \<longleftrightarrow> length (bl_blocks x) \<le> BLOCK_LIST_GROUP_COUNT \<and> (\<forall>g \<in> set (bl_blocks x). group_ok g)
     \<and> (\<forall>p. bl_next x = Some p \<longrightarrow> p < u64_max)"

context block_device
begin

lemma write_parts_spec:
  assumes "peek_ok pk" "peek_list pk = bs" "length cs = length bs" "\<forall>b \<in> set bs. healthy d b \<and> b < u64_max"
    and "\<forall>c \<in> set cs. length c \<le> BLOCK_LIST_GROUP_COUNT \<and> (\<forall>g \<in> set c. group_ok g)" "layout_ok (DEV_BLOCK_SIZE dev) bl_ok L"
  shows "\<exists>d'. write_parts dev L cs pk d = Some (Inr (), d')
    \<and> content d' = store L (chain_blocks list_part cs bs) (content d) \<and> (\<forall>b. healthy d b \<longrightarrow> healthy d' b)"
  using assms
proof (induction cs arbitrary: pk bs d)
  case Nil
  obtain pk1 where pk1: "peek_next pk = Some (None, pk1)" "peek_ok pk1" using peek_next_spec [OF Nil(1)] Nil(2,3) by auto
  obtain v where "peek pk1 = Some v" using peek_spec [OF pk1(2)] by blast
  then show ?case using pk1(1) Nil(2,3) by (cases v) (simp add: write_parts.simps [of _ _ "[]"])
next
  case (Cons c cs)
  obtain b bs' where bs: "bs = b # bs'" using Cons.prems(3) by (cases bs) auto
  obtain pk1 where pk1: "peek_next pk = Some (Some b, pk1)" "peek_ok pk1" "peek_list pk1 = bs'"
    using peek_next_spec [OF Cons.prems(1)] Cons.prems(2) bs by auto
  obtain pk2 where pk2: "peek pk1 = Some (head bs', pk2)" "peek_ok pk2" "peek_list pk2 = bs'"
    using peek_spec [OF pk1(2)] pk1(3) by auto
  define x where "x = list_part c (head bs')"
  have "bl_ok x" using Cons.prems(4,5) bs by (auto simp: x_def bl_ok_def head_def split: list.splits)
  then obtain d1 where d1: "write_block dev b (block_data L x) d = Some (Inr (), d1)" "content d1 = (content d)(b := block_data L x)"
    "\<forall>b. healthy d b \<longrightarrow> healthy d1 b"
    using healthy_store [of d b bl_ok L x] Cons.prems(4,6) bs by (metis list.set_intros(1))
  have "\<exists>d'. write_parts dev L cs pk2 d1 = Some (Inr (), d')
    \<and> content d' = store L (chain_blocks list_part cs bs') (content d1) \<and> (\<forall>b. healthy d1 b \<longrightarrow> healthy d' b)"
    using Cons.prems d1(3) bs by (intro Cons.IH pk2) auto
  moreover have "write_parts dev L (c # cs) pk d = write_parts dev L cs pk2 d1"
    using pk1(1) pk2(1) d1(1) by (simp add: write_parts.simps [of _ _ "c # cs"] attempt_def map_err_def x_def)
  ultimately show ?case using d1(2,3) bs by (auto simp: x_def)
qed

lemma list_read_loop_spec:
  assumes "\<forall>(b, x) \<in> set (chain_blocks list_part cs bs). content d b = block_data L x \<and> bl_ok x \<and> healthy d b" "length cs = length bs"
    and "layout_ok (DEV_BLOCK_SIZE dev) bl_ok L"
  shows "\<exists>d'. list_read_loop dev L (head bs) gs d = Some (Inr (gs @ concat cs), d')"
  using assms
proof (induction bs arbitrary: cs gs d)
  case Nil
  then show ?case by (simp add: list_read_loop.simps [of _ _ None])
next
  case (Cons b bs)
  obtain c cs' where cs: "cs = c # cs'" using Cons.prems(2) by (cases cs) auto
  define x where "x = list_part c (head bs)"
  have x: "content d b = block_data L x" "bl_ok x" "healthy d b" using Cons.prems(1) by (simp_all add: x_def cs)
  obtain d1 where d1: "read_pointer dev L b d = Some (Inr x, d1)" "content d1 = content d" "\<forall>b. healthy d b \<longrightarrow> healthy d1 b"
    using read_pointer_ok [OF Cons.prems(3) x(2,1,3)] by blast
  have "\<exists>d'. list_read_loop dev L (head bs) (gs @ c) d1 = Some (Inr ((gs @ c) @ concat cs'), d')"
    using Cons.prems d1(2,3) by (intro Cons.IH) (auto simp: cs)
  moreover have "list_read_loop dev L (head (b # bs)) gs d = list_read_loop dev L (head bs) (gs @ c) d1"
    using d1(1) by (simp add: list_read_loop.simps [of _ _ "Some b"] x_def)
  ultimately show ?case by (auto simp: cs)
qed

lemma list_write_read:
  assumes A: "consistent A" and L: "layout_ok (DEV_BLOCK_SIZE dev) bl_ok L" and healthy: "\<forall>b \<in> free_blocks A. healthy d b"
    and gs: "\<forall>g \<in> set gs. group_ok g" and n: "n = counts_required_for BLOCK_LIST_GROUP_COUNT (length gs)" "n = 2 ^ k"
    and fits: "\<exists>h \<in> set (free A). n \<le> bg_count h"
  shows "\<exists>ptr A' d' d''. list_write dev L (Groups gs) (d, A) = Some (Inr (HeadList ptr), (d', A'))
    \<and> {ptr..<ptr + n} \<subseteq> free_blocks A \<and> free_blocks A' = free_blocks A - {ptr..<ptr + n} \<and> consistent A'
    \<and> (\<forall>b. b \<notin> {ptr..<ptr + n} \<longrightarrow> content d' b = content d b)
    \<and> list_read dev L (HeadList ptr) d' = Some (Inr (Groups gs), d'')"
proof -
  obtain g A' where al: "allocate_list n A = Some (Inr [g], A')" and g: "group_ok g" "bg_count g = n" "blocks g \<subseteq> free_blocks A"
    and A': "free_blocks A' = free_blocks A - blocks g" "consistent A'"
    using allocate_list_fits [OF A n(2) fits] by metis
  define cs where "cs = chunks BLOCK_LIST_GROUP_COUNT gs"
  define pk where "pk = peekable (block_iter [g])"
  have c: "0 < BLOCK_LIST_GROUP_COUNT" by (simp add: BLOCK_LIST_GROUP_COUNT_def BLOCK_SIZE_def)
  have pk: "peek_ok pk" "peek_list pk = group_list g" using peekable_block_iter [of "[g]"] g(1) by (simp_all add: pk_def)
  have cs: "length cs = length (group_list g)" "concat cs = gs" using c n(1) g(2) by (simp_all add: cs_def length_chunks concat_chunks)
  have cs_ok: "\<forall>c \<in> set cs. length c \<le> BLOCK_LIST_GROUP_COUNT \<and> (\<forall>g \<in> set c. group_ok g)"
    using chunks_member gs by (fastforce simp: cs_def)
  have hl: "\<forall>b \<in> set (group_list g). healthy d b \<and> b < u64_max" using g(1,3) healthy by (auto simp: blocks_def group_ok_def)
  obtain d' where d': "write_parts dev L cs pk d = Some (Inr (), d')" "content d' = store L (chain_blocks list_part cs (group_list g)) (content d)"
    "\<forall>b. healthy d b \<longrightarrow> healthy d' b"
    using write_parts_spec [OF pk cs(1) hl cs_ok L] by blast
  have fst: "fst ` set (chain_blocks list_part cs (group_list g)) = blocks g" by (metis fst_chain_blocks set_map set_group_list(1))
  have stored: "\<forall>(b, x) \<in> set (chain_blocks list_part cs (group_list g)). content d' b = block_data L x \<and> bl_ok x \<and> healthy d' b"
  proof (clarify, intro conjI)
    fix b x assume x: "(b, x) \<in> set (chain_blocks list_part cs (group_list g))"
    show "content d' b = block_data L x" unfolding d'(2) using x by (intro store_distinct) simp_all
    show "bl_ok x" "healthy d' b" using chain_blocks_member [OF x] cs_ok hl d'(3) by (auto simp: bl_ok_def)
  qed
  have h: "group_list g = bg_start g # tl (group_list g)" using g(1) by (simp add: group_list_def group_ok_def upt_conv_Cons)
  then have "head (group_list g) = Some (bg_start g)" by (metis head_simps(2))
  then obtain d'' where "list_read_loop dev L (Some (bg_start g)) [] d' = Some (Inr gs, d'')"
    using list_read_loop_spec [OF stored cs(1) L, of "[]"] cs(2) by auto
  then have "list_read dev L (HeadList (bg_start g)) d' = Some (Inr (Groups gs), d'')" by (simp add: ok_def)
  moreover have "1 \<le> n" using n(2) by simp
  then have "list_write dev L (Groups gs) (d, A) = Some (Inr (HeadList (bg_start g)), (d', A'))"
    using al d'(1) unfolding n(1) by (simp add: cs_def pk_def)
  moreover have "\<forall>b. b \<notin> blocks g \<longrightarrow> content d' b = content d b" using d'(2) fst by (simp add: store_other)
  moreover have "blocks g = {bg_start g..<bg_start g + n}" using g(2) by (simp add: blocks_def)
  ultimately show ?thesis using A' g(3)
    by - (rule exI [of _ "bg_start g"], rule exI [of _ A'], rule exI [of _ d'], rule exI [of _ d''], simp)
qed

end

section \<open>File nodes on a file device\<close>

text \<open>
  (C31) A file node whose list of blocks is in memory survives the device: when the blocks for the list can be allocated, \<open>write\<close>
  succeeds, changes only newly allocated blocks, and the node made from the stored one, with its list loaded by \<open>resolve_block_data\<close>, is
  the node that was written.
\<close>

theorem file_node_roundtrip:
  assumes "consistent A" "layout_ok 4096 bl_ok L" "\<forall>b \<in> free_blocks A. file_healthy d b" "fn_block_data node = InMem (Groups gs)"
    and "\<forall>g \<in> set gs. group_ok g" "counts_required_for BLOCK_LIST_GROUP_COUNT (length gs) = 2 ^ k" "\<exists>h \<in> set (free A). 2 ^ k \<le> bg_count h"
  shows "\<exists>fsn node' A' d' d'' ptr. FileNode_write file_device L (node, d, A) = Some (Inr fsn, (node', d', A'))
    \<and> {ptr..<ptr + 2 ^ k} \<subseteq> free_blocks A \<and> free_blocks A' = free_blocks A - {ptr..<ptr + 2 ^ k} \<and> consistent A'
    \<and> (\<forall>b. b \<notin> {ptr..<ptr + 2 ^ k} \<longrightarrow> file_content d' b = file_content d b)
    \<and> resolve_block_data file_device L (FileNode_from fsn, d') = Some (Inr (), (node, d''))"
proof -
  have L: "layout_ok (DEV_BLOCK_SIZE file_device) bl_ok L" using assms(2) by (simp add: file_device_def)
  obtain ptr A' d' d'' where w: "list_write file_device L (Groups gs) (d, A) = Some (Inr (HeadList ptr), (d', A'))"
    and fr: "{ptr..<ptr + 2 ^ k} \<subseteq> free_blocks A" "free_blocks A' = free_blocks A - {ptr..<ptr + 2 ^ k}" "consistent A'"
      "\<forall>b. b \<notin> {ptr..<ptr + 2 ^ k} \<longrightarrow> file_content d' b = file_content d b"
    and r: "list_read file_device L (HeadList ptr) d' = Some (Inr (Groups gs), d'')"
    using fd.list_write_read [OF assms(1) L assms(3,5) assms(6) [symmetric] refl assms(7)] by metis
  let ?fsn = "fs_node node (HeadList ptr)" and ?node' = "node\<lparr>fn_block_data := Both (Groups gs) (HeadList ptr)\<rparr>"
  have "FileNode_write file_device L (node, d, A) = Some (Inr ?fsn, (?node', d', A'))"
    using w assms(4) by (simp add: FileNode_write_def)
  moreover have "(FileNode_from ?fsn)\<lparr>fn_block_data := InMem (Groups gs)\<rparr> = node"
    using assms(4) by (cases node) (simp add: FileNode_from_def fs_node_def)
  then have "resolve_block_data file_device L (FileNode_from ?fsn, d') = Some (Inr (), (node, d''))"
    using r by (simp add: resolve_block_data_def FileNode_from_def fs_node_def)
  ultimately show ?thesis using fr
    by - (rule exI [of _ ?fsn], rule exI [of _ ?node'], rule exI [of _ A'], rule exI [of _ d'], rule exI [of _ d''], rule exI [of _ ptr], simp)
qed

definition sample_list_layout :: "FsBlockList block_layout" where
  "sample_list_layout = groups_layout bl_blocks bl_next list_part"

lemma sample_list_layout_ok: "layout_ok 4096 bl_ok sample_list_layout"
  unfolding sample_list_layout_def by (rule groups_layout_ok) (simp add: bl_ok_def BLOCK_LIST_GROUP_COUNT_def BLOCK_SIZE_def)

definition sample_node :: FileNode where
  "sample_node = FileNode_new 7 (Some 1) FileT 9000 (InMem (Groups [\<lparr>bg_start = 5, bg_count = 2\<rparr>, \<lparr>bg_start = 14, bg_count = 1\<rparr>])) 3"

theorem file_node_roundtrip_witness:
  "\<exists>fsn node' A' d' d''. FileNode_write file_device sample_list_layout (sample_node, sample_file, sample_allocator) = Some (Inr fsn, (node', d', A'))
    \<and> resolve_block_data file_device sample_list_layout (FileNode_from fsn, d') = Some (Inr (), (sample_node, d''))"
proof -
  have A: "consistent sample_allocator" by (simp add: sample_allocator_def apart_def group_ok_def u64_max_def)
  have h: "\<forall>b \<in> free_blocks sample_allocator. file_healthy sample_file b"
    by (auto simp: sample_allocator_def sample_file_def file_healthy_def BLOCK_SIZE_def u64_max_def blocks_def)
  let ?gs = "[\<lparr>bg_start = 5, bg_count = 2\<rparr>, \<lparr>bg_start = 14, bg_count = 1\<rparr>]"
  have n: "fn_block_data sample_node = InMem (Groups ?gs)" by (simp add: sample_node_def FileNode_new_def)
  have gs: "\<forall>g \<in> set ?gs. group_ok g" by (simp add: group_ok_def u64_max_def)
  have c: "counts_required_for BLOCK_LIST_GROUP_COUNT (length ?gs) = 2 ^ 0"
    by (simp add: counts_required_for_def BLOCK_LIST_GROUP_COUNT_def BLOCK_SIZE_def)
  have f: "\<exists>h \<in> set (free sample_allocator). 2 ^ 0 \<le> bg_count h" by (simp add: sample_allocator_def)
  show ?thesis using file_node_roundtrip [OF A sample_list_layout_ok h n gs c f] by meson
qed

end
