(* ===== verification/File_Data.thy ===== *)
theory File_Data
  imports Block_Lists
begin

text \<open>
  Reading and writing the bytes of a file: the iterator over the blocks a range of bytes covers (\<open>BlockListPartialIter\<close> of
  \<open>wasabi-fs/src/mem_structs.rs\<close>) and \<open>read_file\<close>, \<open>write_file\<close> and \<open>write_blocks_partial\<close> of \<open>wasabi-fs/src/fs.rs\<close>, for the node
  that the tree holds for the file.
\<close>

section \<open>The blocks of a range of bytes\<close>

definition blocks_required_for :: "nat \<Rightarrow> nat" where
  "blocks_required_for bytes = counts_required_for BLOCK_SIZE bytes"

record PartialBlockGroup =
  pg_group :: BlockGroup
  pg_offset :: nat
  pg_len :: nat

fun partial_next :: "BlockGroup list \<Rightarrow> nat \<Rightarrow> nat \<Rightarrow> (PartialBlockGroup option \<times> BlockGroup list \<times> nat \<times> nat) run" where
  "partial_next [] skip_bytes remaining_bytes = Some (None, [], skip_bytes, remaining_bytes)"
| "partial_next (g # gs) skip_bytes remaining_bytes = do {
     b \<leftarrow> group_bytes BLOCK_SIZE g;
     if skip_bytes \<ge> b then do {
       s \<leftarrow> u64_sub skip_bytes b;
       partial_next gs s remaining_bytes
     } else do {
       (g1, offset) \<leftarrow>
         (if skip_bytes > 0 then do {
            sg \<leftarrow> subgroup (skip_bytes div BLOCK_SIZE) g;
            g' \<leftarrow> sg;
            Some (g', skip_bytes mod BLOCK_SIZE)
          } else Some (g, 0));
       b1 \<leftarrow> group_bytes BLOCK_SIZE g1;
       (g2, len) \<leftarrow>
         (if remaining_bytes < b1 then do {
            r \<leftarrow> with_new_length (blocks_required_for remaining_bytes) g1;
            g' \<leftarrow> r;
            Some (g', remaining_bytes)
          } else Some (g1, b1));
       assert_that (remaining_bytes \<ge> len);
       rem \<leftarrow> u64_sub remaining_bytes len;
       e \<leftarrow> u64_add offset len;
       b2 \<leftarrow> group_bytes BLOCK_SIZE g2;
       assert_that (e \<le> b2);
       Some (Some \<lparr>pg_group = g2, pg_offset = offset, pg_len = len\<rparr>, gs, 0, rem)
     }
   }"

lemma partial_next_shorter: "partial_next gs s r = Some (Some p, gs', s', r') \<Longrightarrow> length gs' < length gs"
proof (induction gs s r rule: partial_next.induct)
  case (2 g gs s r)
  show ?case
  proof (cases "\<exists>b. group_bytes BLOCK_SIZE g = Some b \<and> b \<le> s")
    case True
    then obtain b where b: "group_bytes BLOCK_SIZE g = Some b" "b \<le> s" by blast
    then have "partial_next gs (s - b) r = Some (Some p, gs', s', r')" using "2.prems" by (simp add: u64_sub_def)
    then have "length gs' < length gs" using b by (intro "2.IH"(1)) (auto simp: u64_sub_def)
    then show ?thesis by simp
  next
    case False
    then show ?thesis using "2.prems" by (auto simp: run_simps split: if_splits)
  qed
qed simp

text \<open>What the calls of \<open>next\<close> give, up to the end of the iterator or the first panic.\<close>

function partial_items :: "BlockGroup list \<Rightarrow> nat \<Rightarrow> nat \<Rightarrow> PartialBlockGroup run list" where
  "partial_items gs skip_bytes remaining_bytes =
     (case partial_next gs skip_bytes remaining_bytes of
        None \<Rightarrow> [None]
      | Some (None, _) \<Rightarrow> []
      | Some (Some p, gs', s', r') \<Rightarrow> Some p # partial_items gs' s' r')"
  by pat_completeness auto
termination
  by (relation "measure (\<lambda>(gs, s, r). length gs)") (auto dest: partial_next_shorter)

declare partial_items.simps [simp del]

definition iter_partial :: "BlockList \<Rightarrow> nat \<Rightarrow> nat \<Rightarrow> PartialBlockGroup run list" where
  "iter_partial l byte_offset bytes = partial_items (as_slice l) byte_offset bytes"

fun all_items :: "'a run list \<Rightarrow> 'a list run" where
  "all_items [] = Some []"
| "all_items (x # xs) = do {
     y \<leftarrow> x;
     ys \<leftarrow> all_items xs;
     Some (y # ys)
   }"

section \<open>Reading\<close>

definition next_multiple_of :: "nat \<Rightarrow> nat \<Rightarrow> nat run" where
  "next_multiple_of n m = (if n mod m = 0 then Some n else u64_add n (m - n mod m))"

fun fs_error_from :: "'e ReadBlockDeviceError \<Rightarrow> FsError" where
  "fs_error_from (RBDevice e) = BlockDeviceError ReadFailure"
| "fs_error_from RBAllocation = Oom"

definition read_file ::
    "('d, 'e) BlockDevice \<Rightarrow> FsBlockList block_layout \<Rightarrow> nat \<Rightarrow> nat \<Rightarrow> (FileNode \<times> 'd, FsError, u8 list) prog" where
  "read_file dev L offset sz = (\<lambda>(n, d).
     if sz = 0 then Some (Inl ReadZeroBytes, (n, d))
     else if fn_typ n \<noteq> FileT then Some (Inl (FileTypeMismatch (fn_id n) (fn_typ n) FileT), (n, d))
     else attempt (resolve_block_data dev L) (\<lambda>_ (n, d). do {
       list \<leftarrow> get_list (fn_block_data n);
       let block_list = iter_partial list offset sz;
       first \<leftarrow> head block_list;
       p \<leftarrow> first;
       let offset_in_first_block = pg_offset p;
       m \<leftarrow> next_multiple_of sz BLOCK_SIZE;
       groups \<leftarrow> all_items block_list;
       (r, d1) \<leftarrow> read_blocks dev (map pg_group groups) (replicate m 0) d;
       case r of
         Inl e \<Rightarrow> Some (Inl (fs_error_from e), (n, d1))
       | Inr data \<Rightarrow> do {
           end \<leftarrow> u64_add offset_in_first_block sz;
           assert_that (length data \<ge> end);
           Some (Inr (take sz (drop offset_in_first_block data)), (n, d1))
         }
     }) (n, d))"

section \<open>Writing\<close>

text \<open>\<open>with_positions\<close> looks one item ahead, so a panic of the next item is a panic of this one.\<close>

fun with_positions :: "bool \<Rightarrow> 'a run list \<Rightarrow> (bool \<times> bool \<times> 'a) run list" where
  "with_positions first [] = []"
| "with_positions first (None # xs) = [None]"
| "with_positions first (Some x # xs) =
     (if head xs = Some None then [None] else Some (first, xs = [], x) # with_positions False xs)"

text \<open>The closure of \<open>filter_map\<close>, with the two variables it assigns.\<close>

record partial_blocks =
  partial_first_block :: "PartialBlockGroup option"
  partial_last_block :: "PartialBlockGroup option"

definition select_group ::
    "bool \<times> bool \<times> PartialBlockGroup \<Rightarrow> partial_blocks \<Rightarrow> (BlockGroup option \<times> partial_blocks) run" where
  "select_group = (\<lambda>(first, last, group) pb.
     if first \<and> pg_offset group \<noteq> 0 then do {
       remaining \<leftarrow> subgroup 1 (pg_group group);
       let pb1 = pb\<lparr>partial_first_block := Some group\<rparr>;
       if last then
         if bg_count (pg_group group) = 1 then do {
           assert_that (remaining = None);
           Some (remaining, pb1)
         } else do {
           remaining1 \<leftarrow> (case remaining of None \<Rightarrow> Some None | Some g \<Rightarrow> remove_end 1 g);
           Some (remaining1, pb1\<lparr>partial_last_block := Some group\<rparr>)
         }
       else Some (remaining, pb1)
     } else if last \<and> pg_len group \<noteq> BLOCK_SIZE then do {
       g \<leftarrow> remove_end 1 (pg_group group);
       Some (g, pb\<lparr>partial_last_block := Some group\<rparr>)
     } else do {
       assert_that (pg_offset group = 0);
       assert_that (pg_len group = BLOCK_SIZE);
       Some (Some (pg_group group), pb)
     })"

fun select_groups :: "(bool \<times> bool \<times> PartialBlockGroup) run list \<Rightarrow> partial_blocks \<Rightarrow> BlockGroup run list \<times> partial_blocks" where
  "select_groups [] pb = ([], pb)"
| "select_groups (None # xs) pb = ([None], pb)"
| "select_groups (Some x # xs) pb =
     (case select_group x pb of
        None \<Rightarrow> ([None], pb)
      | Some (None, pb1) \<Rightarrow> select_groups xs pb1
      | Some (Some g, pb1) \<Rightarrow> (let (gs, pb2) = select_groups xs pb1 in (Some g # gs, pb2)))"

text \<open>Slices \<open>data[..n]\<close> and \<open>data[n..]\<close> panic out of range.\<close>

definition slice_to :: "nat \<Rightarrow> 'a list \<Rightarrow> 'a list run" where
  "slice_to n xs = (if n \<le> length xs then Some (take n xs) else None)"

definition slice_from :: "nat \<Rightarrow> 'a list \<Rightarrow> 'a list run" where
  "slice_from n xs = (if n \<le> length xs then Some (drop n xs) else None)"

definition write_first ::
    "('d, 'e) BlockDevice \<Rightarrow> u8 list \<Rightarrow> PartialBlockGroup option \<Rightarrow> ('d, FsError, unit) prog" where
  "write_first dev data p d =
     (case p of
        None \<Rightarrow> Some (Inr (), d)
      | Some g \<Rightarrow> do {
          room \<leftarrow> u64_sub BLOCK_SIZE (pg_offset g);
          part \<leftarrow> slice_to (min room (pg_len g)) data;
          map_err list_write_failed (write_partial_block dev (bg_start (pg_group g)) part (pg_offset g)) d
        })"

definition write_last ::
    "('d, 'e) BlockDevice \<Rightarrow> u8 list \<Rightarrow> PartialBlockGroup option \<Rightarrow> ('d, FsError, unit) prog" where
  "write_last dev data p d =
     (case p of
        None \<Rightarrow> Some (Inr (), d)
      | Some g \<Rightarrow> do {
          length_plus_offset \<leftarrow> u64_add (pg_len g) (pg_offset g);
          c \<leftarrow> u64_sub (bg_count (pg_group g)) 1;
          before \<leftarrow> u64_mul BLOCK_SIZE c;
          last_block_data_len \<leftarrow> u64_sub length_plus_offset before;
          start \<leftarrow> u64_sub (length data) last_block_data_len;
          last_block_data \<leftarrow> slice_from start data;
          assert_that (length last_block_data = last_block_data_len);
          e \<leftarrow> group_end (pg_group g);
          map_err list_write_failed (write_partial_block dev e last_block_data 0) d
        })"

definition write_blocks_partial ::
    "('d, 'e) BlockDevice \<Rightarrow> BlockList \<Rightarrow> nat \<Rightarrow> u8 list \<Rightarrow> ('d, FsError, unit) prog" where
  "write_blocks_partial dev l offset data d = do {
     let offset_block_skip = offset div BLOCK_SIZE;
     skipped \<leftarrow> u64_mul offset_block_skip BLOCK_SIZE;
     offset_in_first_block \<leftarrow> u64_sub offset skipped;
     covered \<leftarrow> u64_add offset_in_first_block (length data);
     total \<leftarrow> list_block_count l;
     assert_that (total \<ge> blocks_required_for covered);
     let (groups, pb) = select_groups (with_positions True (iter_partial l offset (length data)))
           \<lparr>partial_first_block = None, partial_last_block = None\<rparr>;
     rest \<leftarrow> u64_sub (length data) offset;
     let full_block_data_len = rest div BLOCK_SIZE * BLOCK_SIZE;
     tail \<leftarrow> slice_from offset data;
     full_block_data \<leftarrow> slice_to full_block_data_len tail;
     attempt (map_err list_write_failed (write_blocks dev groups full_block_data)) (\<lambda>_.
       attempt (write_first dev data (partial_first_block pb)) (\<lambda>_.
         write_last dev data (partial_last_block pb))) d
   }"

definition grow_node :: "nat \<Rightarrow> (FileNode \<times> BlockAllocator, FsError, unit) prog" where
  "grow_node write_len = (\<lambda>(n, A).
     if blocks_required_for write_len > fn_block_count n then do {
       blocks_to_alloc \<leftarrow> u64_sub (blocks_required_for write_len) (fn_block_count n);
       (r, A1) \<leftarrow> allocate_list blocks_to_alloc A;
       case r of
         Inl e \<Rightarrow> Some (Inl e, (n, A1))
       | Inr new_blocks \<Rightarrow> do {
           list \<leftarrow> get_list (fn_block_data n);
           let block_list = list_push new_blocks list;
           c \<leftarrow> list_block_count block_list;
           Some (Inr (), (n\<lparr>fn_block_count := c, fn_block_data := InMem block_list\<rparr>, A1))
         }
     } else Some (Inr (), (n, A)))"

text \<open>\<open>write_file\<close> for the node found in the tree; the node returned is the one the tree is updated with.\<close>

definition write_file ::
    "('d, 'e) BlockDevice \<Rightarrow> FsBlockList block_layout \<Rightarrow> nat \<Rightarrow> u8 list \<Rightarrow> (FileNode \<times> 'd \<times> BlockAllocator, FsError, unit) prog" where
  "write_file dev L offset data = (\<lambda>(n, d, A).
     if fn_typ n \<noteq> FileT then Some (Inl (FileTypeMismatch (fn_id n) (fn_typ n) FileT), (n, d, A))
     else if data = [] then Some (Inr (), (n, d, A))
     else do {
       (r, n1, d1) \<leftarrow> resolve_block_data dev L (n, d);
       case r of
         Inl e \<Rightarrow> Some (Inl e, (n1, d1, A))
       | Inr _ \<Rightarrow> do {
           write_len \<leftarrow> u64_add offset (length data);
           (r1, n2, A1) \<leftarrow> grow_node write_len (n1, A);
           case r1 of
             Inl e \<Rightarrow> Some (Inl e, (n1, d1, A1))
           | Inr _ \<Rightarrow> do {
               list \<leftarrow> get_list (fn_block_data n2);
               (r2, d2) \<leftarrow> write_blocks_partial dev list offset data d1;
               case r2 of
                 Inl e \<Rightarrow> Some (Inl e, (n1, d2, A1))
               | Inr _ \<Rightarrow> Some (Inr (), (n2, d2, A1))
             }
         }
     })"

section \<open>Ranges that start at a block\<close>

lemma BLOCK_SIZE_pos [simp]: "0 < BLOCK_SIZE" "BLOCK_SIZE \<noteq> 0"
  by (simp_all add: BLOCK_SIZE_def)

definition in_bytes :: "BlockGroup list \<Rightarrow> bool" where
  "in_bytes gs \<longleftrightarrow> (\<forall>g \<in> set gs. group_ok g) \<and> BLOCK_SIZE * sum_list (map bg_count gs) \<le> u64_max"

lemma in_bytes_Cons: "in_bytes (g # gs) \<Longrightarrow> group_ok g \<and> BLOCK_SIZE * bg_count g \<le> u64_max \<and> in_bytes gs"
  by (simp add: in_bytes_def add_mult_distrib2)

lemma blocks_required_for_covers: "bytes \<le> BLOCK_SIZE * blocks_required_for bytes"
  by (simp add: blocks_required_for_def counts_required_for_covers)

lemma blocks_required_for_le: "bytes \<le> BLOCK_SIZE * n \<Longrightarrow> blocks_required_for bytes \<le> n"
  by (simp add: blocks_required_for_def counts_required_for_least)

lemma blocks_required_for_pos: "0 < bytes \<Longrightarrow> 0 < blocks_required_for bytes"
  using blocks_required_for_covers [of bytes] by (cases "blocks_required_for bytes") auto

lemma group_bytes_eq: "BLOCK_SIZE * bg_count g \<le> u64_max \<Longrightarrow> group_bytes BLOCK_SIZE g = Some (BLOCK_SIZE * bg_count g)"
  by (simp add: group_bytes_def u64_mul_def mult.commute)

lemma with_new_length_eq:
  "group_ok g \<Longrightarrow> n \<le> bg_count g \<Longrightarrow> with_new_length n g = Some (if n = 0 then None else Some \<lparr>bg_start = bg_start g, bg_count = n\<rparr>)"
  by (auto simp: with_new_length_def u64_sub_def group_parts group_ok_def)

text \<open>The first group of the rest of the list, from its block \<open>k\<close> on.\<close>

lemma partial_next_skip:
  "in_bytes (g # gs) \<Longrightarrow> bg_count g \<le> k \<Longrightarrow> partial_next (g # gs) (BLOCK_SIZE * k) r = partial_next gs (BLOCK_SIZE * (k - bg_count g)) r"
  by (drule in_bytes_Cons) (simp add: group_bytes_eq u64_sub_def diff_mult_distrib2)

lemma partial_next_here:
  assumes "in_bytes (g # gs)" "k < bg_count g"
  defines "rest \<equiv> \<lparr>bg_start = bg_start g + k, bg_count = bg_count g - k\<rparr>"
  shows "partial_next (g # gs) (BLOCK_SIZE * k) r =
    (if r = 0 then None
     else if r < BLOCK_SIZE * (bg_count g - k)
     then Some (Some \<lparr>pg_group = rest\<lparr>bg_count := blocks_required_for r\<rparr>, pg_offset = 0, pg_len = r\<rparr>, gs, 0, 0)
     else Some (Some \<lparr>pg_group = rest, pg_offset = 0, pg_len = BLOCK_SIZE * (bg_count g - k)\<rparr>, gs, 0, r - BLOCK_SIZE * (bg_count g - k)))"
proof -
  have g: "group_ok g" "BLOCK_SIZE * bg_count g \<le> u64_max" using in_bytes_Cons [OF assms(1)] by simp_all
  have lt: "\<not> BLOCK_SIZE * bg_count g \<le> BLOCK_SIZE * k" using assms(2) by simp
  have "BLOCK_SIZE * (bg_count g - k) \<le> u64_max" using g(2) by (meson diff_le_self mult_le_mono2 order_trans)
  then have rest: "group_ok rest" "BLOCK_SIZE * bg_count rest \<le> u64_max" using assms(2) g by (auto simp: rest_def group_ok_def)
  have "(if BLOCK_SIZE * k > 0 then do {
            sg \<leftarrow> subgroup (BLOCK_SIZE * k div BLOCK_SIZE) g;
            g' \<leftarrow> sg;
            Some (g', BLOCK_SIZE * k mod BLOCK_SIZE)
          } else Some (g, 0)) = Some (rest, 0)"
    using g assms(2) by (auto simp: group_parts rest_def)
  then have here: "partial_next (g # gs) (BLOCK_SIZE * k) r = do {
       (g2, len) \<leftarrow>
         (if r < BLOCK_SIZE * bg_count rest then do {
            x \<leftarrow> with_new_length (blocks_required_for r) rest;
            g' \<leftarrow> x;
            Some (g', r)
          } else Some (rest, BLOCK_SIZE * bg_count rest));
       assert_that (r \<ge> len);
       rem \<leftarrow> u64_sub r len;
       e \<leftarrow> u64_add 0 len;
       b2 \<leftarrow> group_bytes BLOCK_SIZE g2;
       assert_that (e \<le> b2);
       Some (Some \<lparr>pg_group = g2, pg_offset = 0, pg_len = len\<rparr>, gs, 0, rem)
     }"
    using g lt rest by (simp add: group_bytes_eq)
  show ?thesis
  proof (cases "r < BLOCK_SIZE * bg_count rest")
    case False
    moreover have "0 < BLOCK_SIZE * bg_count rest" using assms(2) by (simp add: rest_def)
    ultimately have "0 < r" by linarith
    then show ?thesis unfolding here using False rest assms(2)
      by (auto simp: group_bytes_eq u64_sub_def u64_add_def rest_def)
  next
    case True
    have n: "blocks_required_for r \<le> bg_count rest" using True by (intro blocks_required_for_le) simp
    have "BLOCK_SIZE * blocks_required_for r \<le> u64_max" using n rest(2) by (meson mult_le_mono2 order_trans)
    then show ?thesis unfolding here using True n rest blocks_required_for_covers [of r] blocks_required_for_pos [of r]
      by (auto simp: with_new_length_eq group_bytes_eq u64_sub_def u64_add_def rest_def blocks_required_for_def counts_required_for_def)
  qed
qed

text \<open>The whole iterator.\<close>

declare partial_next.simps(2) [simp del]

lemma all_items_Some: "all_items (Some p # xs) = map_option ((#) p) (all_items xs)"
  by (cases "all_items xs") auto

lemma partial_items_Nil: "partial_items [] s r = []"
  by (simp add: partial_items.simps [of "[]"])

lemma partial_items_skip:
  "in_bytes (g # gs) \<Longrightarrow> bg_count g \<le> k \<Longrightarrow> partial_items (g # gs) (BLOCK_SIZE * k) r = partial_items gs (BLOCK_SIZE * (k - bg_count g)) r"
  by (simp only: partial_items.simps [of "g # gs"] partial_items.simps [of gs] partial_next_skip)

lemma blocks_required_for_add: "blocks_required_for (BLOCK_SIZE * m + r) = m + blocks_required_for r"
  by (simp add: blocks_required_for_def counts_required_for_def)

lemma group_list_drop: "group_list \<lparr>bg_start = bg_start g + k, bg_count = m\<rparr> = take m (drop k (group_list g))" if "k + m \<le> bg_count g"
  using that by (simp add: group_list_def take_upt add.assoc)

abbreviation run_items :: "BlockGroup list \<Rightarrow> nat \<Rightarrow> nat \<Rightarrow> PartialBlockGroup list run" where
  "run_items gs k r \<equiv> all_items (partial_items gs (BLOCK_SIZE * k) r)"

text \<open>The items cover the blocks of the range.\<close>

definition covers_range :: "BlockGroup list \<Rightarrow> nat \<Rightarrow> nat \<Rightarrow> PartialBlockGroup list \<Rightarrow> bool" where
  "covers_range gs k r ps \<longleftrightarrow> (\<forall>p \<in> set ps. pg_offset p = 0 \<and> group_ok (pg_group p))
     \<and> concat (map (\<lambda>p. group_list (pg_group p)) ps) = take (blocks_required_for r) (drop k (concat (map group_list gs)))
     \<and> sum_list (map pg_len ps) = min r (BLOCK_SIZE * (sum_list (map bg_count gs) - k))"

lemma items_skip:
  assumes "in_bytes (g # gs)" "bg_count g \<le> k"
  shows "run_items (g # gs) k r = run_items gs (k - bg_count g) r" "covers_range (g # gs) k r ps = covers_range gs (k - bg_count g) r ps"
  using assms by (simp_all add: partial_items_skip covers_range_def add.commute)

lemma items_part:
  assumes "in_bytes (g # gs)" "k < bg_count g" "0 < r" "r < BLOCK_SIZE * (bg_count g - k)"
  shows "\<exists>p. run_items (g # gs) k r = map_option ((#) p) (run_items gs 0 0) \<and> (gs = [] \<longrightarrow> covers_range (g # gs) k r [p])"
proof -
  let ?p = "\<lparr>pg_group = \<lparr>bg_start = bg_start g + k, bg_count = blocks_required_for r\<rparr>, pg_offset = 0, pg_len = r\<rparr>"
  have n: "k + blocks_required_for r \<le> bg_count g" using blocks_required_for_le [of r "bg_count g - k"] assms(2,4) by simp
  have "run_items (g # gs) k r = map_option ((#) ?p) (run_items gs 0 0)"
    using partial_next_here [OF assms(1,2), of r] assms(3,4)
    by (simp add: partial_items.simps [of "g # gs"] all_items_Some del: all_items.simps)
  moreover have "gs = [] \<Longrightarrow> covers_range (g # gs) k r [?p]"
    using assms n in_bytes_Cons [OF assms(1)] blocks_required_for_pos [of r]
    by (simp add: covers_range_def group_list_drop group_ok_def)
  ultimately show ?thesis by blast
qed

lemma items_all:
  assumes "in_bytes (g # gs)" "bg_count g = k + m" "0 < m"
  shows "\<exists>p. run_items (g # gs) k (BLOCK_SIZE * m + r) = map_option ((#) p) (run_items gs 0 r)
    \<and> (\<forall>ps. covers_range gs 0 r ps \<longrightarrow> covers_range (g # gs) k (BLOCK_SIZE * m + r) (p # ps))"
proof -
  let ?p = "\<lparr>pg_group = \<lparr>bg_start = bg_start g + k, bg_count = m\<rparr>, pg_offset = 0, pg_len = BLOCK_SIZE * m\<rparr>"
  have "run_items (g # gs) k (BLOCK_SIZE * m + r) = map_option ((#) ?p) (run_items gs 0 r)"
    using partial_next_here [OF assms(1), of k "BLOCK_SIZE * m + r"] assms(2,3)
    by (simp add: partial_items.simps [of "g # gs"] all_items_Some del: all_items.simps)
  moreover have "covers_range (g # gs) k (BLOCK_SIZE * m + r) (?p # ps)" if "covers_range gs 0 r ps" for ps
    using that assms(2,3) in_bytes_Cons [OF assms(1)]
    by (simp add: covers_range_def group_list_drop group_ok_def blocks_required_for_add add_mult_distrib2)
  ultimately show ?thesis by blast
qed

lemma partial_items_aligned:
  assumes "in_bytes gs" "0 < r \<or> k = 0"
  shows "if gs = [] \<or> BLOCK_SIZE * sum_list (map bg_count (butlast gs)) < BLOCK_SIZE * k + r
    then \<exists>ps. run_items gs k r = Some ps \<and> covers_range gs k r ps
    else run_items gs k r = None"
  using assms
proof (induction gs arbitrary: k r)
  case Nil
  then show ?case by (simp add: partial_items_Nil covers_range_def)
next
  case (Cons g gs)
  have gs: "in_bytes gs" "group_ok g" using in_bytes_Cons [OF Cons.prems(1)] by simp_all
  consider (skip) m where "k = bg_count g + m" | (zero) "k < bg_count g" "r = 0"
    | (part) "k < bg_count g" "0 < r" "r < BLOCK_SIZE * (bg_count g - k)"
    | (full) m r' where "bg_count g = k + m" "0 < m" "r = BLOCK_SIZE * m + r'"
  proof (cases "bg_count g \<le> k")
    case True
    then show ?thesis using that(1) [of "k - bg_count g"] by simp
  next
    case False
    then have "bg_count g = k + (bg_count g - k)" "0 < bg_count g - k" by simp_all
    then obtain m where m: "bg_count g = k + m" "0 < m" by blast
    consider "r = 0" | "0 < r" "r < BLOCK_SIZE * m" | "BLOCK_SIZE * m \<le> r" by linarith
    then show ?thesis using that(2-4) m by cases (auto simp: le_iff_add)
  qed
  then show ?case
  proof cases
    case (skip m)
    then have "run_items (g # gs) k r = run_items gs m r" "\<And>ps. covers_range (g # gs) k r ps = covers_range gs m r ps"
      using items_skip [OF Cons.prems(1), of k] by simp_all
    moreover have "0 < r" using Cons.prems(2) skip gs(2) by (simp add: group_ok_def)
    moreover from this have "if gs = [] \<or> BLOCK_SIZE * sum_list (map bg_count (butlast gs)) < BLOCK_SIZE * m + r
      then \<exists>ps. run_items gs m r = Some ps \<and> covers_range gs m r ps else run_items gs m r = None" using Cons.IH [OF gs(1)] by blast
    ultimately show ?thesis using skip by (cases "gs = []") (simp_all add: add_mult_distrib2)
  next
    case zero
    then have "run_items (g # gs) k r = None" using partial_next_here [OF Cons.prems(1), of k r] by (simp add: partial_items.simps [of "g # gs"])
    moreover have "k = 0" using Cons.prems(2) zero by simp
    ultimately show ?thesis using zero by simp
  next
    case part
    then obtain p where p: "run_items (g # gs) k r = map_option ((#) p) (run_items gs 0 0)" "gs = [] \<longrightarrow> covers_range (g # gs) k r [p]"
      using items_part [OF Cons.prems(1)] by blast
    have "BLOCK_SIZE * k + r < BLOCK_SIZE * bg_count g"
      using part by (simp add: diff_mult_distrib2 less_diff_conv add.commute)
    then have "gs \<noteq> [] \<Longrightarrow> \<not> BLOCK_SIZE * sum_list (map bg_count (butlast (g # gs))) < BLOCK_SIZE * k + r"
      by (simp add: add_mult_distrib2)
    moreover have "gs \<noteq> [] \<Longrightarrow> run_items gs 0 0 = None" using Cons.IH [OF gs(1), of 0 0] by simp
    ultimately show ?thesis using p part(2) by (cases "gs = []") (auto simp: partial_items_Nil)
  next
    case (full m r')
    then obtain p where p: "run_items (g # gs) k r = map_option ((#) p) (run_items gs 0 r')"
      "\<forall>ps. covers_range gs 0 r' ps \<longrightarrow> covers_range (g # gs) k r (p # ps)"
      using items_all [OF Cons.prems(1)] by blast
    have "gs \<noteq> [] \<Longrightarrow> BLOCK_SIZE * sum_list (map bg_count (butlast (g # gs))) < BLOCK_SIZE * k + r
        \<longleftrightarrow> BLOCK_SIZE * sum_list (map bg_count (butlast gs)) < BLOCK_SIZE * 0 + r'"
      using full by (simp add: add_mult_distrib2)
    moreover have "0 < r" using full by simp
    moreover have "if gs = [] \<or> BLOCK_SIZE * sum_list (map bg_count (butlast gs)) < BLOCK_SIZE * 0 + r'
      then \<exists>ps. run_items gs 0 r' = Some ps \<and> covers_range gs 0 r' ps else run_items gs 0 r' = None" using Cons.IH [OF gs(1)] by blast
    ultimately show ?thesis using p by (cases "gs = []") (auto split: if_splits)
  qed
qed

text \<open>
  (C32) The blocks of a range of bytes that starts at a block boundary. When the range reaches the last group of the list, iterating
  gives exactly the blocks of the range, in order, and lengths that add up to the part of the range that the list has. When it ends
  before the last group the iterator panics: after the last byte it asks the next group for a part of no blocks.
\<close>

theorem partial_range_correct:
  assumes "in_bytes gs" "0 < r"
  shows "if gs = [] \<or> BLOCK_SIZE * sum_list (map bg_count (butlast gs)) < BLOCK_SIZE * k + r
    then \<exists>ps. all_items (partial_items gs (BLOCK_SIZE * k) r) = Some ps
      \<and> concat (map (\<lambda>p. group_list (pg_group p)) ps) = take (blocks_required_for r) (drop k (concat (map group_list gs)))
      \<and> (\<forall>p \<in> set ps. pg_offset p = 0)
      \<and> sum_list (map pg_len ps) = min r (BLOCK_SIZE * (sum_list (map bg_count gs) - k))
    else all_items (partial_items gs (BLOCK_SIZE * k) r) = None"
  using partial_items_aligned [OF assms(1), of r k] assms(2)
  by (cases "gs = [] \<or> BLOCK_SIZE * sum_list (map bg_count (butlast gs)) < BLOCK_SIZE * k + r") (auto simp: covers_range_def)

theorem partial_range_correct_witness:
  "(\<exists>ps. all_items (partial_items [\<lparr>bg_start = 4, bg_count = 2\<rparr>, \<lparr>bg_start = 9, bg_count = 3\<rparr>] 4096 10000) = Some ps
     \<and> concat (map (\<lambda>p. group_list (pg_group p)) ps) = [5, 9, 10])
   \<and> all_items (partial_items [\<lparr>bg_start = 4, bg_count = 2\<rparr>, \<lparr>bg_start = 9, bg_count = 3\<rparr>] 4096 100) = None"
proof -
  let ?gs = "[\<lparr>bg_start = 4, bg_count = 2\<rparr>, \<lparr>bg_start = 9, bg_count = 3\<rparr>]"
  have g: "in_bytes ?gs" by (simp add: in_bytes_def group_ok_def u64_max_def BLOCK_SIZE_def)
  have l: "group_list \<lparr>bg_start = 4, bg_count = 2\<rparr> = [4, 5]" "group_list \<lparr>bg_start = 9, bg_count = 3\<rparr> = [9, 10, 11]"
    by (simp_all add: group_list_def upt_rec)
  have n: "blocks_required_for 10000 = 3" by (simp add: blocks_required_for_def counts_required_for_def BLOCK_SIZE_def)
  show ?thesis
    using partial_range_correct [OF g, of 10000 1] partial_range_correct [OF g, of 100 1]
    by (auto simp: BLOCK_SIZE_def l n)
qed

section \<open>Reading over a file device\<close>

lemma total_bytes_eq:
  "in_bytes gs \<Longrightarrow> total_bytes gs = Some (BLOCK_SIZE * sum_list (map bg_count gs))"
proof (induction gs)
  case (Cons g gs)
  have "BLOCK_SIZE * bg_count g + BLOCK_SIZE * sum_list (map bg_count gs) \<le> u64_max"
    using Cons.prems by (simp add: in_bytes_def add_mult_distrib2)
  then show ?case using Cons in_bytes_Cons [OF Cons.prems] by (simp add: group_bytes_eq u64_add_def add_mult_distrib2)
qed simp

lemma sum_counts: "sum_list (map bg_count gs) = length (concat (map group_list gs))"
  by (induction gs) auto

lemma next_multiple_of_eq:
  assumes "next_multiple_of sz BLOCK_SIZE = Some m"
  shows "m = BLOCK_SIZE * blocks_required_for sz"
proof (cases "sz mod BLOCK_SIZE = 0")
  case True
  then show ?thesis using assms by (auto simp: next_multiple_of_def blocks_required_for_def counts_required_for_def)
next
  case False
  have "m = sz + (BLOCK_SIZE - sz mod BLOCK_SIZE)" using assms False by (auto simp: next_multiple_of_def)
  moreover have "sz = BLOCK_SIZE * (sz div BLOCK_SIZE) + sz mod BLOCK_SIZE" by simp
  moreover have "sz mod BLOCK_SIZE < BLOCK_SIZE" by simp
  ultimately have "m = BLOCK_SIZE * (sz div BLOCK_SIZE) + BLOCK_SIZE" by linarith
  then show ?thesis using False by (simp add: blocks_required_for_def counts_required_for_def)
qed

lemma next_multiple_of_fits:
  assumes "sz + BLOCK_SIZE \<le> u64_max"
  shows "BLOCK_SIZE * blocks_required_for sz \<le> u64_max" "next_multiple_of sz BLOCK_SIZE = Some (BLOCK_SIZE * blocks_required_for sz)"
proof -
  have "\<exists>m \<le> u64_max. next_multiple_of sz BLOCK_SIZE = Some m" using assms by (simp add: next_multiple_of_def u64_add_def)
  then show "BLOCK_SIZE * blocks_required_for sz \<le> u64_max" "next_multiple_of sz BLOCK_SIZE = Some (BLOCK_SIZE * blocks_required_for sz)"
    using next_multiple_of_eq [of sz] by auto
qed

lemma group_contents:
  "concat (map (file_content d) [b..<b + c]) = map (byte_at (contents (fd_file d))) [b * BLOCK_SIZE..<b * BLOCK_SIZE + BLOCK_SIZE * c]"
proof (induction c)
  case (Suc c)
  have "[b * BLOCK_SIZE..<b * BLOCK_SIZE + BLOCK_SIZE * Suc c]
      = [b * BLOCK_SIZE..<b * BLOCK_SIZE + BLOCK_SIZE * c] @ [(b + c) * BLOCK_SIZE..<(b + c) * BLOCK_SIZE + BLOCK_SIZE]"
    using upt_add_eq_append [of "b * BLOCK_SIZE" "b * BLOCK_SIZE + BLOCK_SIZE * c" BLOCK_SIZE]
    by (simp add: algebra_simps)
  then show ?case using Suc by (simp add: file_content_def)
qed simp

lemma read_contig_healthy:
  assumes "io_calls f = []" "contents f = contents (fd_file d)" "0 < c" "\<forall>b \<in> {lba..<lba + c}. file_healthy d b"
  shows "\<exists>f'. read_contig_internal lba (BLOCK_SIZE * c) f = Some (Inr (concat (map (file_content d) [lba..<lba + c])), f')
    \<and> contents f' = contents f \<and> io_calls f' = []"
proof -
  have "file_healthy d lba" "file_healthy d (lba + (c - 1))" using assms(3,4) by simp_all
  moreover have "(lba + (c - 1)) * BLOCK_SIZE + BLOCK_SIZE = lba * BLOCK_SIZE + BLOCK_SIZE * c"
    using assms(3) by (cases c) (simp_all add: algebra_simps)
  ultimately have b: "lba * BLOCK_SIZE \<le> u64_max" "lba * BLOCK_SIZE + BLOCK_SIZE * c \<le> length (contents f)"
    unfolding file_healthy_def assms(2) by auto
  have "length (take (BLOCK_SIZE * c) (drop (lba * BLOCK_SIZE) (contents f))) = BLOCK_SIZE * c" using b(2) by simp
  then have "take (BLOCK_SIZE * c) (drop (lba * BLOCK_SIZE) (contents f)) = concat (map (file_content d) [lba..<lba + c])"
    using take_drop_content unfolding group_contents assms(2) by blast
  then show ?thesis using b assms(1)
    by (simp add: read_contig_internal_def attempt_def seek_block_def u64_mul_def u64_add_def file_seek_def file_read_def os_call_Nil Let_def ok_def
        group_contents)
qed

lemma read_groups_healthy:
  assumes "io_calls f = []" "contents f = contents (fd_file d)" "in_bytes gs" "\<forall>b \<in> set (concat (map group_list gs)). file_healthy d b"
    and "length acc + BLOCK_SIZE * sum_list (map bg_count gs) \<le> buffer_len" "buffer_len \<le> u64_max"
  shows "\<exists>f'. read_groups gs buffer_len acc f = Some (Inr (acc @ concat (map (file_content d) (concat (map group_list gs)))), f')
    \<and> contents f' = contents f \<and> io_calls f' = []"
  using assms
proof (induction gs arbitrary: acc f)
  case (Cons g gs)
  let ?c = "concat (map (file_content d) (group_list g))"
  have g: "group_ok g" "BLOCK_SIZE * bg_count g \<le> u64_max" "in_bytes gs" using in_bytes_Cons [OF Cons.prems(3)] by simp_all
  have "0 < bg_count g" "\<forall>b \<in> {bg_start g..<bg_start g + bg_count g}. file_healthy d b"
    using g(1) Cons.prems(4) by (auto simp: group_ok_def group_list_def)
  from read_contig_healthy [OF Cons.prems(1,2) this] obtain f1 where
    f1: "read_contig_internal (bg_start g) (BLOCK_SIZE * bg_count g) f = Some (Inr ?c, f1)" "contents f1 = contents f" "io_calls f1 = []"
    unfolding group_list_def by blast
  have len: "length ?c = BLOCK_SIZE * bg_count g" by (simp add: group_list_def group_contents)
  have "length acc + BLOCK_SIZE * bg_count g + BLOCK_SIZE * sum_list (map bg_count gs) \<le> buffer_len"
    using Cons.prems(5) by (simp add: add_mult_distrib2)
  then have room: "length (acc @ ?c) + BLOCK_SIZE * sum_list (map bg_count gs) \<le> buffer_len" "length acc + BLOCK_SIZE * bg_count g \<le> buffer_len"
    unfolding length_append len by linarith+
  have "read_groups (g # gs) buffer_len acc f = read_groups gs buffer_len (acc @ ?c) f1"
    using f1(1) g(2) room(2) Cons.prems(6) by (simp add: group_bytes_eq u64_add_def attempt_def)
  moreover obtain f' where "read_groups gs buffer_len (acc @ ?c) f1
      = Some (Inr ((acc @ ?c) @ concat (map (file_content d) (concat (map group_list gs)))), f')" "contents f' = contents f1" "io_calls f' = []"
    using Cons.IH [OF f1(3) _ g(3) _ room(1) Cons.prems(6)] f1(2) Cons.prems(2,4) by auto
  ultimately show ?case using f1(2) by simp
qed simp

lemma read_blocks_healthy:
  assumes "in_bytes gs" "\<forall>b \<in> set (concat (map group_list gs)). file_healthy d b" "gs \<noteq> []"
    and "BLOCK_SIZE * sum_list (map bg_count gs) < length buffer" "length buffer mod BLOCK_SIZE = 0" "length buffer \<le> u64_max"
  shows "\<exists>d'. fd_read_blocks gs buffer d = Some (Inr (concat (map (file_content d) (concat (map group_list gs)))
      @ drop (BLOCK_SIZE * sum_list (map bg_count gs)) buffer), d') \<and> file_content d' = file_content d"
proof -
  let ?c = "concat (map (file_content d) (concat (map group_list gs)))"
  obtain g gs' where gs: "gs = g # gs'" using assms(3) by (cases gs) auto
  then have "bg_start g \<in> set (concat (map group_list gs))" using assms(1) by (simp add: in_bytes_def group_ok_def group_list_def)
  then have "io_calls (fd_file d) = []" using assms(2) by (auto simp: file_healthy_def)
  from read_groups_healthy [OF this refl assms(1,2), of "[]" "length buffer"] assms(4,6) obtain f' where
    f': "read_groups gs (length buffer) [] (fd_file d) = Some (Inr ?c, f')" "contents f' = contents (fd_file d)" by auto
  have "length ?c = BLOCK_SIZE * sum_list (map bg_count gs)"
    unfolding sum_counts by (simp add: length_concat comp_def sum_list_triv mult.commute)
  then have "fd_read_blocks gs buffer d = Some (Inr (?c @ drop (BLOCK_SIZE * sum_list (map bg_count gs)) buffer), d\<lparr>fd_file := f'\<rparr>)"
    using f'(1) assms(4,5) by (simp add: fd_read_blocks_def total_bytes_eq [OF assms(1)] attempt_def with_file_def map_err_def asserting_def ok_def)
  moreover have "file_content (d\<lparr>fd_file := f'\<rparr>) = file_content d" using f'(2) by (simp add: file_content_def fun_eq_iff)
  ultimately show ?thesis by blast
qed

text \<open>The items of a range that the iterator gives without a panic, and how many blocks they are.\<close>

lemma read_items:
  assumes "in_bytes gs" "0 < sz" "run_items gs k sz = Some ps"
  shows "in_bytes (map pg_group ps)" "\<forall>p \<in> set ps. pg_offset p = 0"
    "concat (map group_list (map pg_group ps)) = take (blocks_required_for sz) (drop k (concat (map group_list gs)))"
    "sum_list (map bg_count (map pg_group ps)) = min (blocks_required_for sz) (sum_list (map bg_count gs) - k)"
proof -
  have c: "covers_range gs k sz ps" using partial_items_aligned [OF assms(1), of sz k] assms(2,3) by (auto split: if_splits)
  then show "\<forall>p \<in> set ps. pg_offset p = 0" by (simp add: covers_range_def)
  show l: "concat (map group_list (map pg_group ps)) = take (blocks_required_for sz) (drop k (concat (map group_list gs)))"
    using c by (simp add: covers_range_def comp_def)
  then show n: "sum_list (map bg_count (map pg_group ps)) = min (blocks_required_for sz) (sum_list (map bg_count gs) - k)"
    unfolding sum_counts by (simp add: min.commute)
  have "BLOCK_SIZE * sum_list (map bg_count (map pg_group ps)) \<le> BLOCK_SIZE * sum_list (map bg_count gs)" unfolding n by (intro mult_le_mono2) simp
  also have "\<dots> \<le> u64_max" using assms(1) by (simp add: in_bytes_def)
  finally show "in_bytes (map pg_group ps)" using c by (auto simp: in_bytes_def covers_range_def)
qed

lemma read_inside_panics:
  assumes "fn_typ n = FileT" "fn_block_data n = InMem list" "in_bytes (as_slice list)" "0 < sz"
    and "BLOCK_SIZE * k + sz \<le> BLOCK_SIZE * sum_list (map bg_count (as_slice list))"
  shows "read_file file_device L (BLOCK_SIZE * k) sz (n, d) = None"
proof (cases "run_items (as_slice list) k sz")
  case None
  then show ?thesis using assms by (auto simp: read_file_def attempt_def resolve_block_data_def iter_partial_def Let_def Option.bind_eq_None_conv)
next
  case (Some ps)
  note items = read_items [OF assms(3,4) Some]
  have "blocks_required_for sz \<le> sum_list (map bg_count (as_slice list)) - k"
    using assms(5) by (intro blocks_required_for_le) (simp add: diff_mult_distrib2)
  then have "total_bytes (map pg_group ps) = Some (BLOCK_SIZE * blocks_required_for sz)" using items(1,4) by (simp add: total_bytes_eq)
  then have "fd_read_blocks (map pg_group ps) (replicate m 0) d = None" if "next_multiple_of sz BLOCK_SIZE = Some m" for m
    using next_multiple_of_eq [OF that] by (intro read_blocks_exact_buffer) simp
  then show ?thesis using assms Some
    by (auto simp: read_file_def attempt_def resolve_block_data_def iter_partial_def Let_def Option.bind_eq_None_conv file_device_def)
qed

lemma read_after_panics:
  assumes "fn_typ n = FileT" "fn_block_data n = InMem list" "in_bytes (as_slice list)" "0 < sz"
    and "sum_list (map bg_count (as_slice list)) \<le> k"
  shows "read_file file_device L (BLOCK_SIZE * k) sz (n, d) = None"
proof (cases "run_items (as_slice list) k sz")
  case None
  then show ?thesis using assms by (auto simp: read_file_def attempt_def resolve_block_data_def iter_partial_def Let_def Option.bind_eq_None_conv)
next
  case (Some ps)
  note items = read_items [OF assms(3,4) Some]
  have "ps = []" using items(1,4) assms(5) by (cases ps) (auto simp: in_bytes_def group_ok_def)
  then have "partial_items (as_slice list) (BLOCK_SIZE * k) sz = []"
    using Some by (cases "partial_items (as_slice list) (BLOCK_SIZE * k) sz") (auto simp: Option.bind_eq_Some_conv)
  then show ?thesis using assms by (simp add: read_file_def attempt_def resolve_block_data_def iter_partial_def Let_def)
qed

lemma read_across:
  assumes n: "fn_typ n = FileT" "fn_block_data n = InMem list" and gs: "in_bytes (as_slice list)"
    and k: "k < sum_list (map bg_count (as_slice list))" "BLOCK_SIZE * sum_list (map bg_count (as_slice list)) < BLOCK_SIZE * k + sz"
    and h: "\<forall>b \<in> set (drop k (concat (map group_list (as_slice list)))). file_healthy d b" and sz: "sz + BLOCK_SIZE \<le> u64_max"
  shows "\<exists>d'. read_file file_device L (BLOCK_SIZE * k) sz (n, d)
      = Some (Inr (concat (map (file_content d) (drop k (concat (map group_list (as_slice list)))))
          @ replicate (sz - BLOCK_SIZE * (sum_list (map bg_count (as_slice list)) - k)) 0), (n, d'))
    \<and> file_content d' = file_content d"
proof -
  let ?gs = "as_slice list" and ?bs = "drop k (concat (map group_list (as_slice list)))"
  let ?t = "sum_list (map bg_count ?gs) - k" and ?m = "BLOCK_SIZE * blocks_required_for sz"
  have "BLOCK_SIZE * k < BLOCK_SIZE * sum_list (map bg_count ?gs)" using k(1) by simp
  then have t: "BLOCK_SIZE * ?t < sz" "0 < sz" using k(2) unfolding diff_mult_distrib2 by linarith+
  have "BLOCK_SIZE * ?t < ?m" using t(1) blocks_required_for_covers [of sz] by (rule less_le_trans)
  then have m: "?t < blocks_required_for sz" by simp
  have "BLOCK_SIZE * sum_list (map bg_count (butlast ?gs)) \<le> BLOCK_SIZE * sum_list (map bg_count ?gs)"
    by (cases ?gs rule: rev_cases) simp_all
  then have "BLOCK_SIZE * sum_list (map bg_count (butlast ?gs)) < BLOCK_SIZE * k + sz" using k(2) by (rule le_less_trans)
  then obtain ps where ps: "run_items ?gs k sz = Some ps" using partial_items_aligned [OF gs, of sz k] t(2) by auto
  note items = read_items [OF gs t(2) ps]
  have bs: "concat (map group_list (map pg_group ps)) = ?bs" "sum_list (map bg_count (map pg_group ps)) = ?t"
    using items(3,4) m by (simp_all add: sum_counts)
  obtain p ps' where p: "ps = p # ps'" "pg_offset p = 0" using bs(2) k(1) items(2) by (cases ps) auto
  have hd: "head (partial_items ?gs (BLOCK_SIZE * k) sz) = Some (Some p)"
    using ps p(1) by (cases "partial_items ?gs (BLOCK_SIZE * k) sz") (auto simp: Option.bind_eq_Some_conv)
  note buf = next_multiple_of_fits [OF sz]
  obtain d' where d': "fd_read_blocks (map pg_group ps) (replicate ?m 0) d
      = Some (Inr (concat (map (file_content d) ?bs) @ replicate (?m - BLOCK_SIZE * ?t) 0), d')" "file_content d' = file_content d"
    using read_blocks_healthy [OF items(1), of d "replicate ?m 0"] h p(1) m buf(1) unfolding bs by auto
  have len: "length (concat (map (file_content d) ?bs)) = BLOCK_SIZE * ?t"
    unfolding sum_counts by (simp add: length_concat comp_def sum_list_triv mult.commute)
  have "take sz (concat (map (file_content d) ?bs) @ replicate (?m - BLOCK_SIZE * ?t) 0)
      = concat (map (file_content d) ?bs) @ replicate (sz - BLOCK_SIZE * ?t) 0"
    using t(1) blocks_required_for_covers [of sz] unfolding take_append len by (simp add: len take_all)
  moreover have "sz \<le> BLOCK_SIZE * ?t + (?m - BLOCK_SIZE * ?t)" using blocks_required_for_covers [of sz] by linarith
  ultimately show ?thesis
    using n t ps p(2) hd buf d' sz len
    by (simp add: read_file_def attempt_def resolve_block_data_def iter_partial_def Let_def file_device_def u64_add_def)
qed

text \<open>
  (C33) Reading a file on a file device, for every range of bytes that starts at a block boundary. A range inside the file is never
  read: the call panics, either in the iterator or in \<open>read_blocks\<close>, which wants a buffer larger than the blocks to read and is given
  one of exactly their size. A range that starts after the last block panics too. Only a range that starts in the file and ends after
  its last block is read: the call returns the bytes of the blocks from the start of the range on, filled up with zeros.
\<close>

theorem read_file_outcome:
  assumes "fn_typ n = FileT" "fn_block_data n = InMem list" "in_bytes (as_slice list)" "0 < sz"
  shows "if sum_list (map bg_count (as_slice list)) \<le> k \<or> BLOCK_SIZE * k + sz \<le> BLOCK_SIZE * sum_list (map bg_count (as_slice list))
    then read_file file_device L (BLOCK_SIZE * k) sz (n, d) = None
    else (\<forall>b \<in> set (drop k (concat (map group_list (as_slice list)))). file_healthy d b) \<and> sz + BLOCK_SIZE \<le> u64_max \<longrightarrow>
      (\<exists>d'. read_file file_device L (BLOCK_SIZE * k) sz (n, d)
          = Some (Inr (concat (map (file_content d) (drop k (concat (map group_list (as_slice list)))))
              @ replicate (sz - BLOCK_SIZE * (sum_list (map bg_count (as_slice list)) - k)) 0), (n, d'))
        \<and> file_content d' = file_content d)"
  using read_inside_panics [OF assms] read_after_panics [OF assms] read_across [OF assms(1-3), of k sz d L]
  by (cases "sum_list (map bg_count (as_slice list)) \<le> k \<or> BLOCK_SIZE * k + sz \<le> BLOCK_SIZE * sum_list (map bg_count (as_slice list))")
    (auto simp: not_le)

theorem read_file_outcome_witness:
  "read_file file_device sample_list_layout 4096 100 (sample_node, sample_file) = None
   \<and> read_file file_device sample_list_layout 12288 100 (sample_node, sample_file) = None
   \<and> (\<exists>d'. read_file file_device sample_list_layout 4096 9000 (sample_node, sample_file)
       = Some (Inr (file_content sample_file 6 @ file_content sample_file 14 @ replicate 808 0), (sample_node, d')))"
proof -
  let ?l = "Groups [\<lparr>bg_start = 5, bg_count = 2\<rparr>, \<lparr>bg_start = 14, bg_count = 1\<rparr>]"
  have n: "fn_typ sample_node = FileT" "fn_block_data sample_node = InMem ?l" "in_bytes (as_slice ?l)"
    by (simp_all add: sample_node_def FileNode_new_def in_bytes_def group_ok_def u64_max_def BLOCK_SIZE_def)
  have bs: "drop 1 (concat (map group_list (as_slice ?l))) = [6, 14]" by (simp add: group_list_def upt_rec)
  have h: "\<forall>b \<in> set [6, 14]. file_healthy sample_file b" by (simp add: file_healthy_def sample_file_def BLOCK_SIZE_def u64_max_def)
  show ?thesis
    using read_file_outcome [OF n, of 100 1 sample_list_layout sample_file] read_file_outcome [OF n, of 100 3 sample_list_layout sample_file]
      read_file_outcome [OF n, of 9000 1 sample_list_layout sample_file, unfolded bs] h
    by (auto simp: BLOCK_SIZE_def u64_max_def)
qed

section \<open>Writing over a file device\<close>

text \<open>The bytes of a file after a write at a position, with nothing left to fail.\<close>

definition wrote :: "FileDevice \<Rightarrow> nat \<Rightarrow> u8 list \<Rightarrow> FileDevice \<Rightarrow> bool" where
  "wrote d pos data d' \<longleftrightarrow> io_calls (fd_file d') = [] \<and> contents (fd_file d') = patch pos data (contents (fd_file d))"

lemma write_contig_ok:
  assumes "io_calls (fd_file d) = []" "lba * BLOCK_SIZE \<le> u64_max" "length data mod BLOCK_SIZE = 0"
  shows "\<exists>d'. fd_write_blocks_contig lba data d = Some (Inr (), d') \<and> wrote d (lba * BLOCK_SIZE) data d'"
  using assms by (simp add: fd_write_blocks_contig_def asserting_def with_file_def map_err_def attempt_def seek_block_def u64_mul_def
    u64_add_def file_seek_def file_write_def os_call_Nil Let_def ok_def wrote_def)

lemma write_partial_ok:
  assumes "io_calls (fd_file d) = []" "lba * BLOCK_SIZE + off \<le> u64_max" "length data + off \<le> BLOCK_SIZE"
  shows "\<exists>d'. fd_write_partial_block lba data off d = Some (Inr (), d') \<and> wrote d (lba * BLOCK_SIZE + off) data d'"
  using assms by (simp add: fd_write_partial_block_def asserting_def with_file_def map_err_def attempt_def seek_block_def u64_mul_def
    u64_add_def file_seek_def file_write_def os_call_Nil Let_def ok_def wrote_def)

lemma write_one_group:
  assumes "io_calls (fd_file d) = []" "bg_start g * BLOCK_SIZE \<le> u64_max" "BLOCK_SIZE * bg_count g \<le> u64_max"
    and "length data mod BLOCK_SIZE = 0" "BLOCK_SIZE * bg_count g \<le> length data"
  shows "\<exists>d'. fd_write_blocks [Some g] data d = Some (Inr (), d') \<and> wrote d (bg_start g * BLOCK_SIZE) (take (BLOCK_SIZE * bg_count g) data) d'"
proof -
  have "length (take (BLOCK_SIZE * bg_count g) data) mod BLOCK_SIZE = 0" using assms(5) by simp
  from write_contig_ok [OF assms(1,2) this] show ?thesis
    using assms(3-5) by (auto simp: fd_write_blocks_def group_bytes_eq)
qed

text \<open>The part of a single group that a write at its start covers.\<close>

lemma single_items:
  assumes "in_bytes [g]" "0 < r" "BLOCK_SIZE * k + r \<le> BLOCK_SIZE * bg_count g"
  shows "iter_partial (Single g) (BLOCK_SIZE * k) r
    = [Some \<lparr>pg_group = \<lparr>bg_start = bg_start g + k, bg_count = blocks_required_for r\<rparr>, pg_offset = 0, pg_len = r\<rparr>]"
proof -
  have "BLOCK_SIZE * k < BLOCK_SIZE * bg_count g" using assms(2,3) by linarith
  then have k: "k < bg_count g" by simp
  have r: "r \<le> BLOCK_SIZE * (bg_count g - k)" using assms(3) by (simp add: diff_mult_distrib2)
  moreover have "blocks_required_for r = bg_count g - k" if "r = BLOCK_SIZE * (bg_count g - k)"
    using that by (simp add: blocks_required_for_def counts_required_for_def)
  ultimately show ?thesis using partial_next_here [OF assms(1) k, of r] assms(2)
    by (cases "r = BLOCK_SIZE * (bg_count g - k)")
      (auto simp: iter_partial_def partial_items.simps [of "[g]"] partial_items_Nil)
qed

text \<open>The groups and the last block that a range in a single group is split into.\<close>

lemma single_selection:
  assumes "in_bytes [g]" "0 < r" "BLOCK_SIZE * k + r \<le> BLOCK_SIZE * bg_count g"
  defines "n \<equiv> blocks_required_for r"
  defines "p \<equiv> \<lparr>pg_group = \<lparr>bg_start = bg_start g + k, bg_count = n\<rparr>, pg_offset = 0, pg_len = r\<rparr>"
  shows "select_groups (with_positions True (iter_partial (Single g) (BLOCK_SIZE * k) r)) \<lparr>partial_first_block = None, partial_last_block = None\<rparr> =
    (if r = BLOCK_SIZE then ([Some \<lparr>bg_start = bg_start g + k, bg_count = 1\<rparr>], \<lparr>partial_first_block = None, partial_last_block = None\<rparr>)
     else (if n = 1 then [] else [Some \<lparr>bg_start = bg_start g + k, bg_count = n - 1\<rparr>], \<lparr>partial_first_block = None, partial_last_block = Some p\<rparr>))"
proof -
  have n: "0 < n" "k + n \<le> bg_count g"
    using assms(2) blocks_required_for_pos blocks_required_for_add [of k r] blocks_required_for_le [OF assms(3)] by (simp_all add: n_def)
  then have ok: "group_ok (pg_group p)" using in_bytes_Cons [OF assms(1)] by (simp add: p_def group_ok_def)
  have one: "n = 1" if "r = BLOCK_SIZE" using that by (simp add: n_def blocks_required_for_def counts_required_for_def)
  have i: "iter_partial (Single g) (BLOCK_SIZE * k) r = [Some p]" using single_items [OF assms(1-3)] by (simp add: p_def n_def)
  show ?thesis
  proof (cases "r = BLOCK_SIZE")
    case True
    then show ?thesis unfolding i using one by (simp add: select_group_def p_def)
  next
    case False
    have "remove_end 1 (pg_group p) = Some (if 1 < n then Some \<lparr>bg_start = bg_start g + k, bg_count = n - 1\<rparr> else None)"
      using group_parts(2) [OF ok, of 1] by (simp add: p_def)
    then show ?thesis unfolding i using False n(1) by (auto simp: select_group_def p_def)
  qed
qed

lemma last_write_ok:
  assumes d: "io_calls (fd_file d) = []" "(s + n) * BLOCK_SIZE \<le> u64_max" and n: "n = blocks_required_for (length data)" "0 < length data"
    and data: "length data \<le> u64_max" and g: "group_ok \<lparr>bg_start = s, bg_count = n\<rparr>"
  shows "\<exists>d'. write_last file_device data (Some \<lparr>pg_group = \<lparr>bg_start = s, bg_count = n\<rparr>, pg_offset = 0, pg_len = length data\<rparr>) d = Some (Inr (), d')
    \<and> wrote d ((s + n - 1) * BLOCK_SIZE) (drop (BLOCK_SIZE * (n - 1)) data) d'"
proof -
  have pos: "0 < n" using n blocks_required_for_pos by simp
  have le: "length data \<le> BLOCK_SIZE * n" using n blocks_required_for_covers by simp
  have "\<not> length data \<le> BLOCK_SIZE * (n - 1)" using blocks_required_for_le [of "length data" "n - 1"] n(1) pos by auto
  then have lt: "BLOCK_SIZE * (n - 1) < length data" by simp
  have "length data - BLOCK_SIZE * (n - 1) + 0 \<le> BLOCK_SIZE" using le pos by (cases n) auto
  then have part: "length (drop (BLOCK_SIZE * (n - 1)) data) + 0 \<le> BLOCK_SIZE" by simp
  have "(s + n - 1) * BLOCK_SIZE + 0 \<le> (s + n) * BLOCK_SIZE" by simp
  then have "(s + n - 1) * BLOCK_SIZE + 0 \<le> u64_max" using d(2) by (rule order_trans)
  from write_partial_ok [OF d(1) this part] obtain d' where
    d': "fd_write_partial_block (s + n - 1) (drop (BLOCK_SIZE * (n - 1)) data) 0 d = Some (Inr (), d')"
      "wrote d ((s + n - 1) * BLOCK_SIZE) (drop (BLOCK_SIZE * (n - 1)) data) d'" by auto
  have "length data - (length data - BLOCK_SIZE * (n - 1)) = BLOCK_SIZE * (n - 1)" using lt by simp
  then have "write_last file_device data (Some \<lparr>pg_group = \<lparr>bg_start = s, bg_count = n\<rparr>, pg_offset = 0, pg_len = length data\<rparr>) d = Some (Inr (), d')"
    using d'(1) lt pos data g
    by (simp add: write_last_def u64_add_def u64_sub_def u64_mul_def slice_from_def file_device_def map_err_def)
  then show ?thesis using d'(2) by blast
qed

lemma write_last_none: "write_last dev data None d = Some (Inr (), d)" "write_first dev data None d = Some (Inr (), d)"
  by (simp_all add: write_last_def write_first_def)

text \<open>What a write at a block of a single group does, once its parts are selected.\<close>

lemma write_single_eq:
  assumes "in_bytes [g]" "0 < length data" "BLOCK_SIZE * k + length data \<le> BLOCK_SIZE * bg_count g" "BLOCK_SIZE * k \<le> length data"
    and "select_groups (with_positions True (iter_partial (Single g) (BLOCK_SIZE * k) (length data))) \<lparr>partial_first_block = None, partial_last_block = None\<rparr> = (gs, pb)"
  defines "full \<equiv> take ((length data - BLOCK_SIZE * k) div BLOCK_SIZE * BLOCK_SIZE) (drop (BLOCK_SIZE * k) data)"
  shows "write_blocks_partial file_device (Single g) (BLOCK_SIZE * k) data =
    attempt (map_err list_write_failed (fd_write_blocks gs full)) (\<lambda>_.
       attempt (write_first file_device data (partial_first_block pb)) (\<lambda>_. write_last file_device data (partial_last_block pb)))"
proof
  fix d
  have b: "BLOCK_SIZE * bg_count g \<le> u64_max" "bg_count g \<le> u64_max" using in_bytes_Cons [OF assms(1)] by (simp_all add: group_ok_def)
  have "blocks_required_for (length data) \<le> bg_count g" using assms(3) by (intro blocks_required_for_le) simp
  moreover have "BLOCK_SIZE * k \<le> u64_max" "length data \<le> u64_max" using assms(3) b(1) by simp_all
  moreover have "(length data - BLOCK_SIZE * k) div BLOCK_SIZE * BLOCK_SIZE \<le> length data - BLOCK_SIZE * k" by simp
  ultimately show "write_blocks_partial file_device (Single g) (BLOCK_SIZE * k) data d =
    attempt (map_err list_write_failed (fd_write_blocks gs full)) (\<lambda>_.
       attempt (write_first file_device data (partial_first_block pb)) (\<lambda>_. write_last file_device data (partial_last_block pb))) d"
    using assms(4,5) b unfolding full_def
    by (simp add: write_blocks_partial_def u64_mul_def u64_sub_def u64_add_def list_block_count_def mult.commute slice_from_def slice_to_def file_device_def)
qed

lemma wrote_bytes:
  "wrote d pos data d' \<Longrightarrow> byte_at (contents (fd_file d')) i = (if pos \<le> i \<and> i < pos + length data then data ! (i - pos) else byte_at (contents (fd_file d)) i)"
  by (simp add: wrote_def byte_at_patch)

text \<open>A write of more than one block: the whole blocks from \<open>full\<close>, the last one from the end of the data.\<close>

lemma write_many:
  assumes g: "group_ok g" "(bg_start g + bg_count g) * BLOCK_SIZE \<le> u64_max" and d: "io_calls (fd_file d) = []"
    and data: "BLOCK_SIZE < length data" "BLOCK_SIZE * k + length data \<le> BLOCK_SIZE * bg_count g" "BLOCK_SIZE * k \<le> length data"
  defines "n \<equiv> blocks_required_for (length data)"
  defines "full \<equiv> take ((length data - BLOCK_SIZE * k) div BLOCK_SIZE * BLOCK_SIZE) (drop (BLOCK_SIZE * k) data)"
  assumes full: "BLOCK_SIZE * (n - 1) \<le> length full"
  shows "\<exists>d1 d'. write_blocks_partial file_device (Single g) (BLOCK_SIZE * k) data d = Some (Inr (), d')
    \<and> wrote d ((bg_start g + k) * BLOCK_SIZE) (take (BLOCK_SIZE * (n - 1)) full) d1
    \<and> wrote d1 ((bg_start g + k + n - 1) * BLOCK_SIZE) (drop (BLOCK_SIZE * (n - 1)) data) d'"
proof -
  let ?p = "\<lparr>pg_group = \<lparr>bg_start = bg_start g + k, bg_count = n\<rparr>, pg_offset = 0, pg_len = length data\<rparr>"
  have b: "BLOCK_SIZE * bg_count g \<le> u64_max" using g(2) by (simp add: algebra_simps)
  have ib: "in_bytes [g]" and pos: "0 < length data" using g(1) b data(1) by (auto simp: in_bytes_def)
  have "\<not> n \<le> 1"
  proof
    assume "n \<le> 1"
    then have "BLOCK_SIZE * n \<le> BLOCK_SIZE * 1" by (rule mult_le_mono2)
    then show False using data(1) blocks_required_for_covers [of "length data"] unfolding n_def by linarith
  qed
  then have n: "1 < n" "k + n \<le> bg_count g"
    using blocks_required_for_add [of k "length data"] blocks_required_for_le [OF data(2)] by (simp_all add: n_def)
  have "(bg_start g + k + n) * BLOCK_SIZE \<le> (bg_start g + bg_count g) * BLOCK_SIZE" using n(2) by (intro mult_le_mono1) simp
  then have addr: "(bg_start g + k + n) * BLOCK_SIZE \<le> u64_max" using g(2) by (rule order_trans)
  have sel: "select_groups (with_positions True (iter_partial (Single g) (BLOCK_SIZE * k) (length data))) \<lparr>partial_first_block = None, partial_last_block = None\<rparr>
    = ([Some \<lparr>bg_start = bg_start g + k, bg_count = n - 1\<rparr>], \<lparr>partial_first_block = None, partial_last_block = Some ?p\<rparr>)"
    using single_selection [OF ib pos data(2)] n(1) data(1) by (simp add: n_def)
  have "BLOCK_SIZE * (n - 1) \<le> BLOCK_SIZE * bg_count g" using n(2) by (intro mult_le_mono2) simp
  then have m: "BLOCK_SIZE * (n - 1) \<le> u64_max" using b by (rule order_trans)
  have "length full mod BLOCK_SIZE = 0" by (simp add: full_def min_absorb2)
  with write_one_group [of d "\<lparr>bg_start = bg_start g + k, bg_count = n - 1\<rparr>" full] d m full addr obtain d1 where
    d1: "fd_write_blocks [Some \<lparr>bg_start = bg_start g + k, bg_count = n - 1\<rparr>] full d = Some (Inr (), d1)"
      "wrote d ((bg_start g + k) * BLOCK_SIZE) (take (BLOCK_SIZE * (n - 1)) full) d1"
    by (auto simp: algebra_simps)
  have "length data \<le> u64_max" using data(2) b by simp
  then obtain d' where d': "write_last file_device data (Some ?p) d1 = Some (Inr (), d')"
    "wrote d1 ((bg_start g + k + n - 1) * BLOCK_SIZE) (drop (BLOCK_SIZE * (n - 1)) data) d'"
    using last_write_ok [of d1 "bg_start g + k" n data] d1(2) addr pos g(1) n by (auto simp: wrote_def n_def group_ok_def)
  have "write_blocks_partial file_device (Single g) (BLOCK_SIZE * k) data d = Some (Inr (), d')"
    unfolding write_single_eq [OF ib pos data(2,3) sel] full_def [symmetric]
    using d1(1) d'(1) by (simp add: attempt_def map_err_def write_last_none)
  then show ?thesis using d1(2) d'(2) by blast
qed

text \<open>
  (C34) Writing at the start of a file that is one group: \<open>write_blocks_partial\<close> succeeds for every amount of data that fits, with whole
  blocks and a partial last block, the bytes of the group become the data, and every other byte of the device keeps its value.
\<close>

theorem write_at_start:
  assumes "group_ok g" "(bg_start g + bg_count g) * BLOCK_SIZE \<le> u64_max" "io_calls (fd_file d) = []"
    and "0 < length data" "length data \<le> BLOCK_SIZE * bg_count g"
  shows "\<exists>d'. write_blocks_partial file_device (Single g) 0 data d = Some (Inr (), d')
    \<and> (\<forall>i. byte_at (contents (fd_file d')) i =
        (if bg_start g * BLOCK_SIZE \<le> i \<and> i < bg_start g * BLOCK_SIZE + length data
         then data ! (i - bg_start g * BLOCK_SIZE) else byte_at (contents (fd_file d)) i))"
proof -
  define n where "n = blocks_required_for (length data)"
  have b: "BLOCK_SIZE * bg_count g \<le> u64_max" "bg_start g * BLOCK_SIZE \<le> u64_max" using assms(2) by (simp_all add: algebra_simps)
  have ib: "in_bytes [g]" using assms(1) b(1) by (simp add: in_bytes_def)
  have le: "BLOCK_SIZE * 0 + length data \<le> BLOCK_SIZE * bg_count g" "BLOCK_SIZE * 0 \<le> length data" using assms(5) by simp_all
  note sel = single_selection [OF ib assms(4) le(1)]
  consider (small) "length data < BLOCK_SIZE" | (one) "length data = BLOCK_SIZE" | (many) "BLOCK_SIZE < length data" by linarith
  then show ?thesis
  proof cases
    case small
    then have n: "blocks_required_for (length data) = 1"
      using assms(4) by (simp add: blocks_required_for_def counts_required_for_def)
    let ?p = "\<lparr>pg_group = \<lparr>bg_start = bg_start g, bg_count = 1\<rparr>, pg_offset = 0, pg_len = length data\<rparr>"
    have ok: "group_ok \<lparr>bg_start = bg_start g, bg_count = 1\<rparr>" using assms(1) by (simp add: group_ok_def)
    have "(bg_start g + 1) * BLOCK_SIZE \<le> (bg_start g + bg_count g) * BLOCK_SIZE"
      using assms(1) by (intro mult_le_mono1) (simp add: group_ok_def)
    then have "(bg_start g + 1) * BLOCK_SIZE \<le> u64_max" using assms(2) by (rule order_trans)
    then obtain d' where d': "write_last file_device data (Some ?p) d = Some (Inr (), d')" "wrote d (bg_start g * BLOCK_SIZE) data d'"
      using last_write_ok [OF assms(3) _ n [symmetric] assms(4) _ ok] assms(5) b(1) by auto
    have "write_blocks_partial file_device (Single g) (BLOCK_SIZE * 0) data d = Some (Inr (), d')"
      using write_single_eq [OF ib assms(4) le, of "[]" "\<lparr>partial_first_block = None, partial_last_block = Some ?p\<rparr>"] sel small n d'(1)
      by (simp add: fd_write_blocks_def attempt_def map_err_def write_last_none)
    then show ?thesis using wrote_bytes [OF d'(2)] by auto
  next
    case one
    have ok: "bg_start g * BLOCK_SIZE \<le> u64_max" "BLOCK_SIZE \<le> u64_max" using b by (simp_all add: BLOCK_SIZE_def u64_max_def)
    then obtain d' where d': "fd_write_blocks [Some \<lparr>bg_start = bg_start g, bg_count = 1\<rparr>] data d = Some (Inr (), d')"
      "wrote d (bg_start g * BLOCK_SIZE) data d'"
      using write_one_group [of d "\<lparr>bg_start = bg_start g, bg_count = 1\<rparr>" data] assms(3) one by auto
    have "write_blocks_partial file_device (Single g) (BLOCK_SIZE * 0) data d = Some (Inr (), d')"
      using write_single_eq [OF ib assms(4) le, of "[Some \<lparr>bg_start = bg_start g, bg_count = 1\<rparr>]" "\<lparr>partial_first_block = None, partial_last_block = None\<rparr>"] sel one d'(1)
      by (simp add: attempt_def map_err_def write_last_none)
    then show ?thesis using wrote_bytes [OF d'(2)] by auto
  next
    case many
    define m where "m = BLOCK_SIZE * (blocks_required_for (length data) - 1)"
    define full where "full = take (length data div BLOCK_SIZE * BLOCK_SIZE) data"
    have m: "m \<le> length full" "m \<le> length data"
      by (auto simp: m_def full_def blocks_required_for_def counts_required_for_def min_def mult.commute)
    then obtain d1 d' where d': "write_blocks_partial file_device (Single g) (BLOCK_SIZE * 0) data d = Some (Inr (), d')"
      "wrote d (bg_start g * BLOCK_SIZE) (take m full) d1"
      "wrote d1 ((bg_start g + blocks_required_for (length data) - 1) * BLOCK_SIZE) (drop m data) d'"
      using write_many [OF assms(1-3) many le] by (auto simp: m_def full_def)
    have "1 \<le> blocks_required_for (length data)" using blocks_required_for_pos [OF assms(4)] by simp
    then have e: "(bg_start g + blocks_required_for (length data) - 1) * BLOCK_SIZE = bg_start g * BLOCK_SIZE + m"
      by (simp add: m_def diff_mult_distrib2 add_mult_distrib algebra_simps)
    have "take m full = take m data" using m by (simp add: full_def min_absorb1)
    then show ?thesis using d'(1) wrote_bytes [OF d'(2)] wrote_bytes [OF d'(3) [unfolded e]] m(2)
      by (auto simp: min_absorb2)
  qed
qed

theorem write_at_start_witness:
  "\<exists>d'. write_blocks_partial file_device (Single \<lparr>bg_start = 5, bg_count = 2\<rparr>) 0 (replicate 5000 7) sample_file = Some (Inr (), d')
    \<and> byte_at (contents (fd_file d')) 20480 = 7 \<and> byte_at (contents (fd_file d')) 25480 = 0"
proof -
  let ?g = "\<lparr>bg_start = 5, bg_count = 2\<rparr>"
  have "\<exists>d'. write_blocks_partial file_device (Single ?g) 0 (replicate 5000 7) sample_file = Some (Inr (), d')
    \<and> (\<forall>i. byte_at (contents (fd_file d')) i =
        (if bg_start ?g * BLOCK_SIZE \<le> i \<and> i < bg_start ?g * BLOCK_SIZE + length (replicate 5000 (7 :: u8))
         then replicate 5000 7 ! (i - bg_start ?g * BLOCK_SIZE) else byte_at (contents (fd_file sample_file)) i))"
    by (rule write_at_start) (simp_all add: group_ok_def u64_max_def BLOCK_SIZE_def sample_file_def)
  then obtain d' where run: "write_blocks_partial file_device (Single ?g) 0 (replicate 5000 7) sample_file = Some (Inr (), d')"
    and bytes: "\<And>i. byte_at (contents (fd_file d')) i =
        (if bg_start ?g * BLOCK_SIZE \<le> i \<and> i < bg_start ?g * BLOCK_SIZE + length (replicate 5000 (7 :: u8))
         then replicate 5000 7 ! (i - bg_start ?g * BLOCK_SIZE) else byte_at (contents (fd_file sample_file)) i)"
    by blast
  have "byte_at (contents (fd_file d')) 20480 = 7" "byte_at (contents (fd_file d')) 25480 = 0"
    unfolding bytes by (simp_all add: BLOCK_SIZE_def byte_at_def sample_file_def)
  with run show ?thesis by blast
qed

text \<open>
  (C35) Writing at an offset does not work. The byte offset in the file is used as an offset into the data: a write whose offset is larger
  than its length panics, and writing two blocks of data at the second block of a file of one group returns normally with the second
  half of the data in both blocks; the first half is not written anywhere.
\<close>

theorem write_at_offset_wrong:
  "(length data < offset \<longrightarrow> write_blocks_partial dev l offset data s = None)
   \<and> (group_ok g \<and> 3 \<le> bg_count g \<and> (bg_start g + bg_count g) * BLOCK_SIZE \<le> u64_max \<and> io_calls (fd_file d) = []
        \<and> length data = 2 * BLOCK_SIZE \<longrightarrow>
      (\<exists>d'. write_blocks_partial file_device (Single g) BLOCK_SIZE data d = Some (Inr (), d')
        \<and> file_content d' (bg_start g + 1) = drop BLOCK_SIZE data \<and> file_content d' (bg_start g + 2) = drop BLOCK_SIZE data))"
proof (intro conjI impI)
  assume "length data < offset"
  then have "u64_sub (length data) offset = None" by (simp add: u64_sub_def)
  then show "write_blocks_partial dev l offset data s = None"
    by (auto simp: write_blocks_partial_def Let_def Option.bind_eq_None_conv split: prod.splits)
next
  assume a: "group_ok g \<and> 3 \<le> bg_count g \<and> (bg_start g + bg_count g) * BLOCK_SIZE \<le> u64_max \<and> io_calls (fd_file d) = [] \<and> length data = 2 * BLOCK_SIZE"
  have n: "blocks_required_for (length data) = 2" using a by (simp add: blocks_required_for_def counts_required_for_def)
  define full where "full = take ((length data - BLOCK_SIZE * 1) div BLOCK_SIZE * BLOCK_SIZE) (drop (BLOCK_SIZE * 1) data)"
  have f: "full = drop BLOCK_SIZE data" "length full = BLOCK_SIZE" using a by (simp_all add: full_def)
  have "3 * BLOCK_SIZE \<le> bg_count g * BLOCK_SIZE" using a by (intro mult_le_mono1) simp
  then have le: "BLOCK_SIZE * 1 + length data \<le> BLOCK_SIZE * bg_count g" using a by (simp add: mult.commute)
  have "BLOCK_SIZE < length data" "BLOCK_SIZE * 1 \<le> length data" using a by simp_all
  then obtain d1 d' where d': "write_blocks_partial file_device (Single g) (BLOCK_SIZE * 1) data d = Some (Inr (), d')"
    "wrote d ((bg_start g + 1) * BLOCK_SIZE) full d1" "wrote d1 ((bg_start g + 2) * BLOCK_SIZE) (drop BLOCK_SIZE data) d'"
    using write_many [of g d data 1] a le n f by (auto simp: full_def)
  have c: "contents (fd_file d1) = patch ((bg_start g + 1) * BLOCK_SIZE + 0) full (contents (fd_file d))"
    "contents (fd_file d') = patch ((bg_start g + 2) * BLOCK_SIZE + 0) full (contents (fd_file d1))"
    using d'(2,3) f by (simp_all add: wrote_def)
  have "file_content d1 (bg_start g + 1) = full" "file_content d' (bg_start g + 2) = full"
    using file_content_patch(2) [OF c(1)] file_content_patch(2) [OF c(2)] f(2) by simp_all
  moreover have "file_content d' (bg_start g + 1) = file_content d1 (bg_start g + 1)"
    using file_content_patch(1) [OF c(2)] f(2) by simp
  ultimately show "\<exists>d'. write_blocks_partial file_device (Single g) BLOCK_SIZE data d = Some (Inr (), d')
        \<and> file_content d' (bg_start g + 1) = drop BLOCK_SIZE data \<and> file_content d' (bg_start g + 2) = drop BLOCK_SIZE data"
    using d'(1) f(1) by auto
qed

theorem write_at_offset_wrong_witness:
  "write_blocks_partial file_device (Single \<lparr>bg_start = 5, bg_count = 3\<rparr>) 100 [1, 2, 3] sample_file = None
   \<and> (\<exists>d'. write_blocks_partial file_device (Single \<lparr>bg_start = 5, bg_count = 3\<rparr>) 4096 (replicate 4096 1 @ replicate 4096 2) sample_file = Some (Inr (), d')
       \<and> file_content d' 6 = replicate 4096 2)"
proof
  show "write_blocks_partial file_device (Single \<lparr>bg_start = 5, bg_count = 3\<rparr>) 100 [1, 2, 3] sample_file = None"
    using write_at_offset_wrong [of "[1, 2, 3]" 100 file_device "Single \<lparr>bg_start = 5, bg_count = 3\<rparr>" sample_file] by simp
  have g: "group_ok \<lparr>bg_start = 5, bg_count = 3\<rparr>" "io_calls (fd_file sample_file) = []"
    by (simp_all add: group_ok_def u64_max_def sample_file_def)
  show "\<exists>d'. write_blocks_partial file_device (Single \<lparr>bg_start = 5, bg_count = 3\<rparr>) 4096 (replicate 4096 1 @ replicate 4096 2) sample_file = Some (Inr (), d')
       \<and> file_content d' 6 = replicate 4096 2"
    using write_at_offset_wrong [of "replicate 4096 1 @ replicate 4096 2" 0 file_device "Groups []" sample_file "\<lparr>bg_start = 5, bg_count = 3\<rparr>" sample_file] g
    by (auto simp: u64_max_def BLOCK_SIZE_def)
qed

end
