(* ===== verification/Static_Vec.thy ===== *)
theory Static_Vec
  imports Rust_Prelude
begin

text \<open>
  Vectors of bounded length (\<open>forked-libs/staticvec/src/lib.rs\<close>), as their clients see them: lists with a capacity \<open>cap\<close>. The operations
  panic (\<open>None\<close>) where the methods do.
\<close>

definition vec_push :: "nat \<Rightarrow> 'a \<Rightarrow> 'a list \<Rightarrow> 'a list run" where
  "vec_push cap x xs = do {
     assert_that (length xs < cap);
     Some (xs @ [x])
   }"

definition vec_insert :: "nat \<Rightarrow> nat \<Rightarrow> 'a \<Rightarrow> 'a list \<Rightarrow> 'a list run" where
  "vec_insert cap index x xs = do {
     assert_that (length xs < cap \<and> index \<le> length xs);
     Some (insert_at index x xs)
   }"

definition vec_remove :: "nat \<Rightarrow> 'a list \<Rightarrow> ('a \<times> 'a list) run" where
  "vec_remove index xs = do {
     assert_that (index < length xs);
     Some (xs ! index, remove_at index xs)
   }"

text \<open>\<open>drain(start..)\<close>: what stays and what is taken out.\<close>

definition vec_drain_from :: "nat \<Rightarrow> 'a list \<Rightarrow> ('a list \<times> 'a list) run" where
  "vec_drain_from start xs = do {
     assert_that (start \<le> length xs);
     Some (take start xs, drop start xs)
   }"

definition vec_extend :: "nat \<Rightarrow> 'a list \<Rightarrow> 'a list \<Rightarrow> 'a list" where
  "vec_extend cap xs ys = xs @ take (cap - length xs) ys"

end
