(* ===== verification/Mem_Tree.thy ===== *)
theory Mem_Tree
  imports Block_Lists Static_Vec
begin

text \<open>
  The tree of files in memory (\<open>MemTree\<close> of \<open>wasabi-fs/src/mem_tree/mod.rs\<close>): a B+ tree over the ids of the files whose nodes are
  loaded from the device on demand, with a lock in every node.

  A node owns its children through a box, so the nodes form a nested datatype. Pointers to nodes (a guard, or the link to the parent)
  are the addresses the boxes were allocated at; following one searches the tree for the node with that address, and fails when there
  is none. A run of \<open>None\<close> stands for a panic, for waiting on a lock that the same thread holds, and for a pointer to freed memory.
\<close>

section \<open>Nodes\<close>

definition FileId_MAX :: nat where
  "FileId_MAX = u64_max"

text \<open>The argument tells whether the feature \<open>test-tree-branching\<close> is set.\<close>

definition LEAVE_MAX_FILE_COUNT :: "bool \<Rightarrow> nat" where
  "LEAVE_MAX_FILE_COUNT test_branching = (if \<not> test_branching then 20 else 6)"

definition NODE_MAX_CHILD_COUNT :: "bool \<Rightarrow> nat" where
  "NODE_MAX_CHILD_COUNT test_branching = (if \<not> test_branching then 250 else 30)"

datatype TreeNode = TreeLeave "FsFileNode list" | TreeInner "(nat \<times> nat option) list"

datatype 'n MemTreeLink = Link (link_node: "'n option") (device_ptr: "nat option")

datatype MemTreeNode =
    Node (node_addr: nat) (node_parent: "nat option") (children: "(MemTreeNode MemTreeLink \<times> nat option) list")
      (node_dirty: bool) (dirty_children: bool) (node_lock: bool)
  | Leave (node_addr: nat) (node_parent: "nat option") (files: "FileNode list") (node_dirty: bool) (node_lock: bool)

type_synonym child = "MemTreeNode MemTreeLink \<times> nat option"

datatype MemTreeError = TreeBlockDevice | FileNodeExists nat | FileDoesNotExist nat

fun set_addr :: "nat \<Rightarrow> MemTreeNode \<Rightarrow> MemTreeNode" where
  "set_addr a (Node _ p cs di dc l) = Node a p cs di dc l"
| "set_addr a (Leave _ p fs di l) = Leave a p fs di l"

fun set_parent :: "nat option \<Rightarrow> MemTreeNode \<Rightarrow> MemTreeNode" where
  "set_parent p (Node a _ cs di dc l) = Node a p cs di dc l"
| "set_parent p (Leave a _ fs di l) = Leave a p fs di l"

fun set_lock :: "bool \<Rightarrow> MemTreeNode \<Rightarrow> MemTreeNode" where
  "set_lock l (Node a p cs di dc _) = Node a p cs di dc l"
| "set_lock l (Leave a p fs di _) = Leave a p fs di l"

fun set_dirty :: "bool \<Rightarrow> MemTreeNode \<Rightarrow> MemTreeNode" where
  "set_dirty di (Node a p cs _ dc l) = Node a p cs di dc l"
| "set_dirty di (Leave a p fs _ l) = Leave a p fs di l"

fun node_len :: "MemTreeNode \<Rightarrow> nat" where
  "node_len (Node a p cs di dc l) = length cs"
| "node_len (Leave a p fs di l) = length fs"

fun node_cap :: "bool \<Rightarrow> MemTreeNode \<Rightarrow> nat" where
  "node_cap tb (Node a p cs di dc l) = NODE_MAX_CHILD_COUNT tb"
| "node_cap tb (Leave a p fs di l) = LEAVE_MAX_FILE_COUNT tb"

fun has_dirty_leaves :: "MemTreeNode \<Rightarrow> bool" where
  "has_dirty_leaves (Node a p cs di dc l) = (di \<or> dc)"
| "has_dirty_leaves (Leave a p fs di l) = di"

fun new_from :: "nat \<Rightarrow> TreeNode \<Rightarrow> nat option \<Rightarrow> MemTreeNode" where
  "new_from a (TreeLeave fs) p = Leave a p (map FileNode_from fs) False False"
| "new_from a (TreeInner cs) p = Node a p (map (\<lambda>(device_link, m). (Link None (Some device_link), m)) cs) False False False"

section \<open>Locks and pointers\<close>

definition lock_node :: "MemTreeNode \<Rightarrow> MemTreeNode run" where
  "lock_node n = do {
     assert_that (\<not> node_lock n);
     Some (set_lock True n)
   }"

definition unlock_node :: "MemTreeNode \<Rightarrow> MemTreeNode run" where
  "unlock_node n = do {
     assert_that (node_lock n);
     Some (set_lock False n)
   }"

abbreviation children_size :: "child list \<Rightarrow> nat" where
  "children_size cs \<equiv> size_list (size_prod (size_MemTreeLink size) (\<lambda>_. 0)) cs"

function (sequential) node_at :: "nat \<Rightarrow> MemTreeNode \<Rightarrow> MemTreeNode option"
  and child_at :: "nat \<Rightarrow> child list \<Rightarrow> MemTreeNode option" where
  "node_at a (Leave b p fs di l) = (if a = b then Some (Leave b p fs di l) else None)"
| "node_at a (Node b p cs di dc l) = (if a = b then Some (Node b p cs di dc l) else child_at a cs)"
| "child_at a [] = None"
| "child_at a ((Link None dp, m) # cs) = child_at a cs"
| "child_at a ((Link (Some n) dp, m) # cs) = (case node_at a n of None \<Rightarrow> child_at a cs | Some x \<Rightarrow> Some x)"
  by pat_completeness auto
termination
  by (relation "measure (case_sum (\<lambda>(a, n). size n) (\<lambda>(a, cs). children_size cs))") auto

function (sequential) put_at :: "nat \<Rightarrow> MemTreeNode \<Rightarrow> MemTreeNode \<Rightarrow> MemTreeNode"
  and put_child :: "nat \<Rightarrow> MemTreeNode \<Rightarrow> child list \<Rightarrow> child list" where
  "put_at a x (Leave b p fs di l) = (if a = b then x else Leave b p fs di l)"
| "put_at a x (Node b p cs di dc l) = (if a = b then x else Node b p (put_child a x cs) di dc l)"
| "put_child a x [] = []"
| "put_child a x ((Link None dp, m) # cs) = (Link None dp, m) # put_child a x cs"
| "put_child a x ((Link (Some n) dp, m) # cs) = (Link (Some (put_at a x n)) dp, m) # put_child a x cs"
  by pat_completeness auto
termination
  by (relation "measure (case_sum (\<lambda>(a, x, n). size n) (\<lambda>(a, x, cs). children_size cs))") auto

record MemTree =
  tree_root :: "MemTreeNode MemTreeLink"
  root_lock :: bool
  next_addr :: nat

definition get_node :: "nat \<Rightarrow> MemTree \<Rightarrow> MemTreeNode run" where
  "get_node a t = do {
     n \<leftarrow> link_node (tree_root t);
     node_at a n
   }"

definition put_node :: "nat \<Rightarrow> MemTreeNode \<Rightarrow> MemTree \<Rightarrow> MemTree" where
  "put_node a x t = t\<lparr>tree_root := Link (map_option (put_at a x) (link_node (tree_root t))) (device_ptr (tree_root t))\<rparr>"

definition MemTree_empty :: MemTree where
  "MemTree_empty = \<lparr>tree_root = Link (Some (Leave 0 None [] True False)) None, root_lock = False, next_addr = 1\<rparr>"

definition MemTree_invalid :: MemTree where
  "MemTree_invalid = \<lparr>tree_root = Link None None, root_lock = False, next_addr = 0\<rparr>"

definition set_root_device_ptr :: "nat \<Rightarrow> MemTree \<Rightarrow> MemTree run" where
  "set_root_device_ptr ptr t = do {
     assert_that (device_ptr (tree_root t) = None);
     assert_that (link_node (tree_root t) = None);
     Some (t\<lparr>tree_root := Link None (Some ptr)\<rparr>)
   }"

definition resolve ::
    "('d, 'e) BlockDevice \<Rightarrow> TreeNode block_layout \<Rightarrow> nat option \<Rightarrow> (MemTreeNode MemTreeLink \<times> nat \<times> 'd, FsError, unit) prog" where
  "resolve dev L parent_node = (\<lambda>(link, next, d).
     (case link_node link of
        Some _ \<Rightarrow> Some (Inr (), (link, next, d))
      | None \<Rightarrow> do {
          ptr \<leftarrow> device_ptr link;
          (r, d1) \<leftarrow> read_pointer dev L ptr d;
          case r of
            Inl e \<Rightarrow> Some (Inl (read_failed e), (link, next, d1))
          | Inr device_node \<Rightarrow>
              Some (Inr (), (Link (Some (new_from next device_node parent_node)) (Some ptr), Suc next, d1))
        }))"

section \<open>Lookup\<close>

text \<open>
  The loop of \<open>find_leave\<close> over the levels, on the node it has locked. A read-only walk unlocks a node once it has locked the child; a
  walk for an update keeps the locks.
\<close>

definition child_index :: "nat \<Rightarrow> child list \<Rightarrow> nat run" where
  "child_index ident cs = position (\<lambda>(_, max_id). ident \<le> (case max_id of None \<Rightarrow> FileId_MAX | Some m \<Rightarrow> m)) cs"

partial_function (option) descend ::
    "('d, 'e) BlockDevice \<Rightarrow> TreeNode block_layout \<Rightarrow> bool \<Rightarrow> nat \<Rightarrow> MemTreeNode \<Rightarrow> nat \<Rightarrow> 'd
      \<Rightarrow> ((FsError + nat) \<times> MemTreeNode \<times> nat \<times> 'd) option" where
  "descend dev L is_mut ident node next d =
     (case node of
        Leave a p fs di l \<Rightarrow> Some (Inr a, node, next, d)
      | Node a p cs di dc l \<Rightarrow> do {
          i \<leftarrow> child_index ident cs;
          (r, link, next1, d1) \<leftarrow> resolve dev L (Some a) (fst (cs ! i), next, d);
          case r of
            Inl e \<Rightarrow> Some (Inl e, Node a p cs di (dc \<or> is_mut) l, next1, d1)
          | Inr _ \<Rightarrow> do {
              child \<leftarrow> link_node link;
              locked \<leftarrow> lock_node child;
              (r2, child2, next2, d2) \<leftarrow> descend dev L is_mut ident locked next1 d1;
              Some (r2, Node a p (cs[i := (Link (Some child2) (device_ptr link), snd (cs ! i))]) di (dc \<or> is_mut) (l \<and> is_mut), next2, d2)
            }
        })"

definition find_leave ::
    "('d, 'e) BlockDevice \<Rightarrow> TreeNode block_layout \<Rightarrow> bool \<Rightarrow> nat \<Rightarrow> (MemTree \<times> 'd, FsError, nat) prog" where
  "find_leave dev L is_mut ident = (\<lambda>(t, d). do {
     assert_that (\<not> root_lock t);
     (r, link, next1, d1) \<leftarrow> resolve dev L None (tree_root t, next_addr t, d);
     case r of
       Inl e \<Rightarrow> Some (Inl e, (t\<lparr>tree_root := link, root_lock := True, next_addr := next1\<rparr>, d1))
     | Inr _ \<Rightarrow> do {
         node \<leftarrow> link_node link;
         locked \<leftarrow> lock_node node;
         (r2, node2, next2, d2) \<leftarrow> descend dev L is_mut ident locked next1 d1;
         Some (r2, (\<lparr>tree_root = Link (Some node2) (device_ptr link), root_lock = is_mut, next_addr = next2\<rparr>, d2))
       }
   })"

partial_function (option) unlock_upwards :: "nat \<Rightarrow> MemTree \<Rightarrow> MemTree option" where
  "unlock_upwards a t = do {
     n \<leftarrow> get_node a t;
     n1 \<leftarrow> unlock_node n;
     let t1 = put_node a n1 t;
     case node_parent n of
       None \<Rightarrow> do {
         assert_that (root_lock t1);
         Some (t1\<lparr>root_lock := False\<rparr>)
       }
     | Some p \<Rightarrow> unlock_upwards p t1
   }"

definition find_file ::
    "('d, 'e) BlockDevice \<Rightarrow> TreeNode block_layout \<Rightarrow> nat \<Rightarrow> (MemTree \<times> 'd, FsError, FileNode option) prog" where
  "find_file dev L ident = attempt (find_leave dev L False ident) (\<lambda>leave (t, d). do {
     n \<leftarrow> get_node leave t;
     case n of
       Node _ _ _ _ _ _ \<Rightarrow> None
     | Leave _ _ fs _ _ \<Rightarrow> do {
         n1 \<leftarrow> unlock_node n;
         Some (Inr (List.find (\<lambda>f. fn_id f = ident) fs), (put_node leave n1 t, d))
       }
   })"

section \<open>Insertion\<close>

definition insert_split_at_root :: "nat \<Rightarrow> nat \<Rightarrow> MemTreeNode \<Rightarrow> MemTree \<Rightarrow> MemTree run" where
  "insert_split_at_root root split_id new_node t = do {
     n \<leftarrow> get_node root t;
     assert_that (node_parent n = None);
     n1 \<leftarrow> unlock_node n;
     old_root \<leftarrow> link_node (tree_root (put_node root n1 t));
     assert_that (node_addr old_root = root);
     let right = next_addr t;
     let new_root = Suc right;
     let cs = [(Link (Some (set_parent (Some new_root) old_root)) None, Some split_id),
               (Link (Some (set_parent (Some new_root) (set_addr right new_node))) None, None)];
     assert_that (root_lock t);
     Some \<lparr>tree_root = Link (Some (Node new_root None cs True True False)) None, root_lock = False, next_addr = Suc new_root\<rparr>
   }"

text \<open>
  A new node gets its address when it is boxed, at the start of \<open>insert_split\<close>. \<open>take_if\<close> keeps the maximum of a child that is not the
  last one.
\<close>

definition insert_child :: "bool \<Rightarrow> nat \<Rightarrow> MemTreeNode MemTreeLink \<Rightarrow> nat \<Rightarrow> child list \<Rightarrow> child list run" where
  "insert_child tb i link m cs =
     vec_insert (NODE_MAX_CHILD_COUNT tb) i (link, if i \<noteq> length cs then Some m else None) cs"

partial_function (option) insert_split ::
    "bool \<Rightarrow> nat \<Rightarrow> nat \<Rightarrow> nat \<Rightarrow> MemTreeNode \<Rightarrow> nat \<Rightarrow> MemTree \<Rightarrow> MemTree option" where
  "insert_split tb current old_node old_node_new_max new_node new_node_max t = do {
     c \<leftarrow> get_node current t;
     case c of
       Leave _ _ _ _ _ \<Rightarrow> None
     | Node a next_parent cs di dc l \<Rightarrow> do {
         let link = Link (Some (set_addr (next_addr t) new_node)) None;
         let t1 = t\<lparr>next_addr := Suc (next_addr t)\<rparr>;
         old_position \<leftarrow> position (\<lambda>(child, _). map_option node_addr (link_node child) = Some old_node) cs;
         let insert_position = old_position + 1;
         assert_that (insert_position \<le> length cs);
         if length cs < NODE_MAX_CHILD_COUNT tb then do {
           cs1 \<leftarrow> insert_child tb insert_position link new_node_max (cs[old_position := (fst (cs ! old_position), Some old_node_new_max)]);
           unlock_upwards current (put_node current (Node a next_parent cs1 True dc l) t1)
         } else do {
           let half_capacity = NODE_MAX_CHILD_COUNT tb div 2;
           (left, right) \<leftarrow> vec_drain_from half_capacity cs;
           assert_that (length left = length right);
           (left1, right1) \<leftarrow>
             (if insert_position \<le> half_capacity
              then map_option (\<lambda>cs1. (cs1, right)) (insert_child tb insert_position link new_node_max left)
              else map_option (\<lambda>cs1. (left, cs1)) (insert_child tb (insert_position - half_capacity) link new_node_max right));
           assert_that (left1 \<noteq> []);
           split_id \<leftarrow> snd (last left1);
           let right_node = Node 0 next_parent right1 True True False;
           let t2 = put_node current (Node a next_parent left1 True dc l) t1;
           case next_parent of
             None \<Rightarrow> insert_split_at_root current split_id right_node t2
           | Some p \<Rightarrow> do {
               c1 \<leftarrow> unlock_node (Node a next_parent left1 True dc l);
               insert_split tb p current split_id right_node new_node_max (put_node current c1 t2)
             }
         }
       }
   }"

text \<open>The part of \<open>insert\<close> for a file that is not in the leaf yet.\<close>

definition insert_pos :: "FileNode \<Rightarrow> FileNode list \<Rightarrow> nat" where
  "insert_pos f fs = (case position (\<lambda>g. fn_id g > fn_id f) fs of None \<Rightarrow> length fs | Some i \<Rightarrow> i)"

definition insert_at_leaf :: "bool \<Rightarrow> FileNode \<Rightarrow> nat \<Rightarrow> nat option \<Rightarrow> FileNode list \<Rightarrow> bool \<Rightarrow> MemTree \<Rightarrow> MemTree run" where
  "insert_at_leaf tb f leave p fs l t =
     (if length fs < LEAVE_MAX_FILE_COUNT tb then do {
        fs1 \<leftarrow> vec_insert (LEAVE_MAX_FILE_COUNT tb) (insert_pos f fs) f fs;
        unlock_upwards leave (put_node leave (Leave leave p fs1 True l) t)
      } else do {
        let half_capacity = LEAVE_MAX_FILE_COUNT tb div 2;
        (left, right) \<leftarrow> vec_drain_from half_capacity fs;
        assert_that (length left = length right);
        (left1, right1) \<leftarrow>
          (if insert_pos f fs \<le> half_capacity
           then map_option (\<lambda>fs1. (fs1, right)) (vec_insert (LEAVE_MAX_FILE_COUNT tb) (insert_pos f fs) f left)
           else map_option (\<lambda>fs1. (left, fs1)) (vec_insert (LEAVE_MAX_FILE_COUNT tb) (insert_pos f fs - half_capacity) f right));
        assert_that (left1 \<noteq> [] \<and> right1 \<noteq> []);
        let split_id = fn_id (last left1);
        let new_node = Leave 0 p right1 True False;
        let t1 = put_node leave (Leave leave p left1 True l) t;
        case p of
          None \<Rightarrow> insert_split_at_root leave split_id new_node t1
        | Some parent \<Rightarrow> do {
            n1 \<leftarrow> unlock_node (Leave leave p left1 True l);
            insert_split tb parent leave split_id new_node (fn_id (last right1)) (put_node leave n1 t1)
          }
      })"

definition insert_file ::
    "('d, 'e) BlockDevice \<Rightarrow> TreeNode block_layout \<Rightarrow> bool \<Rightarrow> FileNode \<Rightarrow> bool \<Rightarrow> (MemTree \<times> 'd, MemTreeError, unit) prog" where
  "insert_file dev L tb f create_only = attempt (map_err (\<lambda>_. TreeBlockDevice) (find_leave dev L True (fn_id f))) (\<lambda>leave (t, d). do {
     n \<leftarrow> get_node leave t;
     case n of
       Node _ _ _ _ _ _ \<Rightarrow> None
     | Leave _ p fs di l \<Rightarrow>
         (case position (\<lambda>g. fn_id g = fn_id f) fs of
            Some override_pos \<Rightarrow>
              if create_only then map_option (\<lambda>t1. (Inl (FileNodeExists (fn_id f)), (t1, d))) (unlock_upwards leave t)
              else map_option (\<lambda>t1. (Inr (), (t1, d))) (unlock_upwards leave (put_node leave (Leave leave p (fs[override_pos := f]) True l) t))
          | None \<Rightarrow> map_option (\<lambda>t1. (Inr (), (t1, d))) (insert_at_leaf tb f leave p fs l t))
   })"

definition insert_new ::
    "('d, 'e) BlockDevice \<Rightarrow> TreeNode block_layout \<Rightarrow> bool \<Rightarrow> FileNode \<Rightarrow> (MemTree \<times> 'd, MemTreeError, unit) prog" where
  "insert_new dev L tb f = insert_file dev L tb f True"

definition update_file ::
    "('d, 'e) BlockDevice \<Rightarrow> TreeNode block_layout \<Rightarrow> bool \<Rightarrow> FileNode \<Rightarrow> (MemTree \<times> 'd, MemTreeError, unit) prog" where
  "update_file dev L tb f = insert_file dev L tb f False"

section \<open>Deletion\<close>

datatype RebalanceVariants = Merge nat nat | TakeFromRight | TakeFromLeft

datatype DeleteRebalanceMode = ModeTakeFromRight | ModeTakeFromLeft | ModeMerge nat

definition to_check :: "nat \<Rightarrow> nat \<Rightarrow> (RebalanceVariants \<times> bool) list" where
  "to_check i len =
     (if i = 0 then [(TakeFromRight, False), (Merge i (i + 1), False), (Merge i (i + 1), True), (TakeFromRight, True)]
      else if i = len - 1 then [(TakeFromLeft, False), (Merge (i - 1) i, False), (Merge (i - 1) i, True), (TakeFromLeft, True)]
      else [(TakeFromRight, False), (TakeFromLeft, False), (Merge (i - 1) i, False), (Merge i (i + 1), False),
            (Merge (i - 1) i, True), (Merge i (i + 1), True), (TakeFromRight, True), (TakeFromLeft, True)])"

text \<open>
  A device error drops the guard of the parent, whose drop handler panics. \<open>None\<close> as the outcome of a variant is \<open>continue\<close>.
\<close>

definition resolve_child ::
    "('d, 'e) BlockDevice \<Rightarrow> TreeNode block_layout \<Rightarrow> nat \<Rightarrow> bool \<Rightarrow> nat \<Rightarrow> child list \<times> nat \<times> 'd \<Rightarrow> (child list \<times> nat \<times> 'd) run" where
  "resolve_child dev L current really i = (\<lambda>(cs, next, d). do {
     assert_that (i < length cs);
     if really then do {
       (r, link, next1, d1) \<leftarrow> resolve dev L (Some current) (fst (cs ! i), next, d);
       assert_that (r = Inr ());
       Some (cs[i := (link, snd (cs ! i))], next1, d1)
     } else Some (cs, next, d)
   })"

fun check_variant ::
    "('d, 'e) BlockDevice \<Rightarrow> TreeNode block_layout \<Rightarrow> bool \<Rightarrow> nat \<Rightarrow> nat \<Rightarrow> RebalanceVariants \<times> bool \<Rightarrow> child list \<times> nat \<times> 'd
      \<Rightarrow> ((DeleteRebalanceMode \<times> nat) option \<times> child list \<times> nat \<times> 'd) run" where
  "check_variant dev L tb current i (Merge left right, really) s = do {
     s1 \<leftarrow> resolve_child dev L current really left s;
     s2 \<leftarrow> resolve_child dev L current really right s1;
     Some ((case (link_node (fst (fst s2 ! left)), link_node (fst (fst s2 ! right))) of
              (Some ln, Some rn) \<Rightarrow> if node_len ln + node_len rn \<le> node_cap tb ln then Some (ModeMerge left, left) else None
            | _ \<Rightarrow> None), s2)
   }"
| "check_variant dev L tb current i (TakeFromRight, really) s = do {
     s1 \<leftarrow> resolve_child dev L current really (i + 1) s;
     left \<leftarrow> link_node (fst (fst s1 ! i));
     Some ((case link_node (fst (fst s1 ! (i + 1))) of
              None \<Rightarrow> None
            | Some rn \<Rightarrow> if node_len rn > node_cap tb rn div 2 then Some (ModeTakeFromRight, i) else None), s1)
   }"
| "check_variant dev L tb current i (TakeFromLeft, really) s = do {
     s1 \<leftarrow> resolve_child dev L current really (i - 1) s;
     right \<leftarrow> link_node (fst (fst s1 ! i));
     Some ((case link_node (fst (fst s1 ! (i - 1))) of
              None \<Rightarrow> None
            | Some ln \<Rightarrow> if node_len ln > node_cap tb ln div 2 then Some (ModeTakeFromLeft, i - 1) else None), s1)
   }"

fun check_variants ::
    "('d, 'e) BlockDevice \<Rightarrow> TreeNode block_layout \<Rightarrow> bool \<Rightarrow> nat \<Rightarrow> nat \<Rightarrow> (RebalanceVariants \<times> bool) list \<Rightarrow> child list \<times> nat \<times> 'd
      \<Rightarrow> (DeleteRebalanceMode \<times> nat \<times> child list \<times> nat \<times> 'd) run" where
  "check_variants dev L tb current i [] s = None"
| "check_variants dev L tb current i (v # vs) s = do {
     (r, s1) \<leftarrow> check_variant dev L tb current i v s;
     case r of
       None \<Rightarrow> check_variants dev L tb current i vs s1
     | Some (mode, left) \<Rightarrow> Some (mode, left, s1)
   }"

text \<open>The result is the mode and the index of the left of the two children; both are locked.\<close>

definition get_children_for_rebalance ::
    "('d, 'e) BlockDevice \<Rightarrow> TreeNode block_layout \<Rightarrow> bool \<Rightarrow> MemTreeNode \<Rightarrow> nat \<Rightarrow> nat \<Rightarrow> 'd
      \<Rightarrow> (DeleteRebalanceMode \<times> nat \<times> MemTreeNode \<times> MemTreeNode \<times> child list \<times> nat \<times> 'd) run" where
  "get_children_for_rebalance dev L tb node unbalanced next d =
     (case node of
        Leave _ _ _ _ _ \<Rightarrow> None
      | Node a p cs di dc l \<Rightarrow> do {
          assert_that (length cs > NODE_MAX_CHILD_COUNT tb div 2 \<or> p = None);
          assert_that (length cs \<ge> 2);
          i \<leftarrow> position (\<lambda>(link, _). map_option node_addr (link_node link) = Some unbalanced) cs;
          (mode, left, cs1, next1, d1) \<leftarrow> check_variants dev L tb a i (to_check i (length cs)) (cs, next, d);
          ln \<leftarrow> link_node (fst (cs1 ! left));
          rn \<leftarrow> link_node (fst (cs1 ! (left + 1)));
          ln1 \<leftarrow> lock_node ln;
          rn1 \<leftarrow> lock_node rn;
          Some (mode, left, ln1, rn1, cs1, next1, d1)
        })"

text \<open>
  What the two rebalancing functions do with the children \<open>left\<close> and \<open>left + 1\<close> of the parent: both guards are dropped at the end, which
  unlocks the nodes. \<open>put_pair\<close> stores the nodes back; \<open>merge_pair\<close> replaces them by one new node.
\<close>

definition put_pair :: "nat \<Rightarrow> MemTreeNode \<Rightarrow> nat option \<Rightarrow> MemTreeNode \<Rightarrow> child list \<Rightarrow> child list run" where
  "put_pair left ln left_max rn cs = do {
     ln1 \<leftarrow> unlock_node ln;
     rn1 \<leftarrow> unlock_node rn;
     Some (cs[left := (Link (Some ln1) (device_ptr (fst (cs ! left))), left_max),
              left + 1 := (Link (Some rn1) (device_ptr (fst (cs ! (left + 1)))), snd (cs ! (left + 1)))])
   }"

definition merge_pair :: "nat \<Rightarrow> MemTreeNode \<Rightarrow> child list \<Rightarrow> child list run" where
  "merge_pair left merged cs = do {
     (_, cs1) \<leftarrow> vec_remove (left + 1) (cs[left := (Link (Some merged) None, snd (cs ! (left + 1)))]);
     Some cs1
   }"

fun rebalance_leaves ::
    "bool \<Rightarrow> DeleteRebalanceMode \<Rightarrow> nat \<Rightarrow> MemTreeNode \<Rightarrow> MemTreeNode \<Rightarrow> child list \<Rightarrow> nat \<Rightarrow> child list run" where
  "rebalance_leaves tb ModeTakeFromRight left (Leave la lp lfs ldi ll) (Leave ra rp rfs rdi rl) cs next = do {
     (to_move, rfs1) \<leftarrow> vec_remove 0 rfs;
     assert_that (length rfs1 \<ge> LEAVE_MAX_FILE_COUNT tb div 2);
     left_max_id \<leftarrow> snd (cs ! left);
     assert_that (fn_id to_move > left_max_id);
     lfs1 \<leftarrow> vec_push (LEAVE_MAX_FILE_COUNT tb) to_move lfs;
     put_pair left (Leave la lp lfs1 True ll) (Some (fn_id to_move)) (Leave ra rp rfs1 True rl) cs
   }"
| "rebalance_leaves tb ModeTakeFromLeft left (Leave la lp lfs ldi ll) (Leave ra rp rfs rdi rl) cs next = do {
     (to_move, lfs1) \<leftarrow> vec_remove (length lfs - 1) lfs;
     assert_that (length lfs1 \<ge> LEAVE_MAX_FILE_COUNT tb div 2);
     assert_that (lfs1 \<noteq> []);
     assert_that (rfs \<noteq> []);
     assert_that (fn_id to_move < fn_id (rfs ! 0));
     rfs1 \<leftarrow> vec_insert (LEAVE_MAX_FILE_COUNT tb) 0 to_move rfs;
     put_pair left (Leave la lp lfs1 True ll) (Some (fn_id (lfs1 ! (length lfs1 - 1)))) (Leave ra rp rfs1 True rl) cs
   }"
| "rebalance_leaves tb (ModeMerge i) left (Leave la lp lfs ldi ll) (Leave ra rp rfs rdi rl) cs next =
     merge_pair i (Leave next lp (vec_extend (LEAVE_MAX_FILE_COUNT tb) lfs rfs) True False) cs"
| "rebalance_leaves tb mode left _ _ cs next = None"

fun rebalance_children ::
    "bool \<Rightarrow> DeleteRebalanceMode \<Rightarrow> nat \<Rightarrow> MemTreeNode \<Rightarrow> MemTreeNode \<Rightarrow> child list \<Rightarrow> nat \<Rightarrow> child list run" where
  "rebalance_children tb ModeTakeFromRight left (Node la lp lcs ldi ldc ll) (Node ra rp rcs rdi rdc rl) cs next = do {
     (to_move, rcs1) \<leftarrow> vec_remove 0 rcs;
     assert_that (length rcs1 \<ge> NODE_MAX_CHILD_COUNT tb div 2);
     left_new_max \<leftarrow> snd to_move;
     left_max_id \<leftarrow> snd (cs ! left);
     assert_that (left_new_max > left_max_id);
     lcs1 \<leftarrow> vec_push (NODE_MAX_CHILD_COUNT tb) to_move lcs;
     put_pair left (Node la lp lcs1 True ldc ll) (Some left_new_max) (Node ra rp rcs1 True rdc rl) cs
   }"
| "rebalance_children tb ModeTakeFromLeft left (Node la lp lcs ldi ldc ll) (Node ra rp rcs rdi rdc rl) cs next = do {
     (to_move, lcs1) \<leftarrow> vec_remove (length lcs - 1) lcs;
     assert_that (length lcs1 \<ge> NODE_MAX_CHILD_COUNT tb div 2);
     assert_that (snd to_move = None);
     left_max_id \<leftarrow> snd (cs ! left);
     assert_that (lcs1 \<noteq> []);
     new_left_max \<leftarrow> snd (last lcs1);
     rcs1 \<leftarrow> vec_insert (NODE_MAX_CHILD_COUNT tb) 0 (fst to_move, Some left_max_id) rcs;
     put_pair left (Node la lp (lcs1[length lcs1 - 1 := (fst (last lcs1), None)]) True ldc ll) (Some new_left_max)
       (Node ra rp rcs1 True rdc rl) cs
   }"
| "rebalance_children tb (ModeMerge i) left (Node la lp lcs ldi ldc ll) (Node ra rp rcs rdi rdc rl) cs next =
     merge_pair i (Node next lp (vec_extend (NODE_MAX_CHILD_COUNT tb) (vec_extend (NODE_MAX_CHILD_COUNT tb) [] lcs) rcs) True True False) cs"
| "rebalance_children tb mode left _ _ cs next = None"

definition promote_child :: "nat \<Rightarrow> MemTree \<Rightarrow> MemTree run" where
  "promote_child root t = do {
     n \<leftarrow> get_node root t;
     if node_len n = 1 then
       (case n of
          Leave _ _ _ _ _ \<Rightarrow> None
        | Node _ _ cs _ _ _ \<Rightarrow> do {
            ((link, m), _) \<leftarrow> vec_remove 0 cs;
            assert_that (m = None);
            new_root \<leftarrow> link_node link;
            new_root1 \<leftarrow> lock_node new_root;
            new_root2 \<leftarrow> unlock_node (set_parent None new_root1);
            assert_that (root_lock t);
            Some (t\<lparr>tree_root := Link (Some new_root2) (device_ptr link), root_lock := False\<rparr>)
          })
     else unlock_upwards root t
   }"

partial_function (option) rebalance_node ::
    "('d, 'e) BlockDevice \<Rightarrow> TreeNode block_layout \<Rightarrow> bool \<Rightarrow> nat \<Rightarrow> MemTree \<Rightarrow> 'd \<Rightarrow> (MemTree \<times> 'd) option" where
  "rebalance_node dev L tb unbalanced t d = do {
     n \<leftarrow> get_node unbalanced t;
     case node_parent n of
       None \<Rightarrow> map_option (\<lambda>t1. (t1, d)) (promote_child unbalanced t)
     | Some p \<Rightarrow> do {
         n1 \<leftarrow> unlock_node n;
         let t1 = put_node unbalanced n1 t;
         parent \<leftarrow> get_node p t1;
         (mode, left, ln, rn, cs, next, d1) \<leftarrow> get_children_for_rebalance dev L tb parent unbalanced (next_addr t1) d;
         cs1 \<leftarrow> rebalance_children tb mode left ln rn cs next;
         let t2 = put_node p (Node (node_addr parent) (node_parent parent) cs1 (node_dirty parent) (dirty_children parent) (node_lock parent))
                    (t1\<lparr>next_addr := Suc next\<rparr>);
         case mode of
           ModeMerge _ \<Rightarrow> rebalance_node dev L tb p t2 d1
         | _ \<Rightarrow> map_option (\<lambda>t3. (t3, d1)) (unlock_upwards p t2)
       }
   }"

definition rebalance_leave ::
    "('d, 'e) BlockDevice \<Rightarrow> TreeNode block_layout \<Rightarrow> bool \<Rightarrow> nat \<Rightarrow> MemTree \<Rightarrow> 'd \<Rightarrow> (MemTree \<times> 'd) option" where
  "rebalance_leave dev L tb unbalanced t d = do {
     n \<leftarrow> get_node unbalanced t;
     p \<leftarrow> node_parent n;
     n1 \<leftarrow> unlock_node n;
     let t1 = put_node unbalanced n1 t;
     parent \<leftarrow> get_node p t1;
     (mode, left, ln, rn, cs, next, d1) \<leftarrow> get_children_for_rebalance dev L tb parent unbalanced (next_addr t1) d;
     cs1 \<leftarrow> rebalance_leaves tb mode left ln rn cs next;
     let t2 = put_node p (Node (node_addr parent) (node_parent parent) cs1 (node_dirty parent) (dirty_children parent) (node_lock parent))
                (t1\<lparr>next_addr := Suc next\<rparr>);
     case mode of
       ModeMerge _ \<Rightarrow> rebalance_node dev L tb p t2 d1
     | _ \<Rightarrow> map_option (\<lambda>t3. (t3, d1)) (unlock_upwards p t2)
   }"

definition delete_file ::
    "('d, 'e) BlockDevice \<Rightarrow> TreeNode block_layout \<Rightarrow> bool \<Rightarrow> nat \<Rightarrow> (MemTree \<times> 'd, MemTreeError, FileNode) prog" where
  "delete_file dev L tb ident = attempt (map_err (\<lambda>_. TreeBlockDevice) (find_leave dev L True ident)) (\<lambda>leave (t, d). do {
     n \<leftarrow> get_node leave t;
     case n of
       Node _ _ _ _ _ _ \<Rightarrow> None
     | Leave a p fs di l \<Rightarrow>
         (case position (\<lambda>f. fn_id f = ident) fs of
            None \<Rightarrow> map_option (\<lambda>t1. (Inl (FileDoesNotExist ident), (t1, d))) (unlock_upwards leave t)
          | Some file_pos \<Rightarrow> do {
              (file_node, fs1) \<leftarrow> vec_remove file_pos fs;
              let t1 = put_node leave (Leave a p fs1 True l) t;
              if length fs1 \<ge> LEAVE_MAX_FILE_COUNT tb div 2 \<or> p = None
              then map_option (\<lambda>t2. (Inr file_node, (t2, d))) (unlock_upwards leave t1)
              else map_option (\<lambda>s. (Inr file_node, s)) (rebalance_leave dev L tb leave t1 d)
            })
   })"

section \<open>Checks\<close>

fun maxes_ascending :: "nat option list \<Rightarrow> bool" where
  "maxes_ascending (first # second # ms) =
     ((case (first, second) of (Some x, Some y) \<Rightarrow> x < y | (Some _, None) \<Rightarrow> True | (None, _) \<Rightarrow> False) \<and> maxes_ascending (second # ms))"
| "maxes_ascending _ = True"

function (sequential) assert_valid_node :: "bool \<Rightarrow> nat option \<Rightarrow> MemTreeNode \<Rightarrow> unit run"
  and assert_valid_children :: "bool \<Rightarrow> nat option \<Rightarrow> child list \<Rightarrow> unit run" where
  "assert_valid_node tb parent (Node a p cs di dc l) = do {
     assert_that (\<not> l);
     assert_that (parent = p);
     assert_that (parent \<noteq> None \<longrightarrow> length cs \<ge> NODE_MAX_CHILD_COUNT tb div 2);
     assert_that (maxes_ascending (map snd cs));
     assert_that (cs \<noteq> [] \<and> snd (last cs) = None);
     assert_valid_children tb (Some a) cs
   }"
| "assert_valid_node tb parent (Leave a p fs di l) = do {
     assert_that (\<not> l);
     assert_that (parent = p);
     assert_that (parent \<noteq> None \<longrightarrow> length fs \<ge> LEAVE_MAX_FILE_COUNT tb div 2);
     assert_that (sorted (map fn_id fs))
   }"
| "assert_valid_children tb parent [] = Some ()"
| "assert_valid_children tb parent ((Link None dp, m) # cs) = assert_valid_children tb parent cs"
| "assert_valid_children tb parent ((Link (Some n) dp, m) # cs) = do {
     assert_valid_node tb parent n;
     assert_valid_children tb parent cs
   }"
  by pat_completeness auto
termination
  by (relation "measure (case_sum (\<lambda>(tb, p, n). size n) (\<lambda>(tb, p, cs). children_size cs))") auto

definition MemTree_assert_valid :: "bool \<Rightarrow> MemTree \<Rightarrow> unit run" where
  "MemTree_assert_valid tb t = do {
     assert_that (\<not> root_lock t);
     root \<leftarrow> link_node (tree_root t);
     assert_valid_node tb None root
   }"

section \<open>Writing the tree to the device\<close>

fun write_files ::
    "('d, 'e) BlockDevice \<Rightarrow> FsBlockList block_layout \<Rightarrow> FileNode list \<Rightarrow> 'd \<Rightarrow> BlockAllocator
      \<Rightarrow> ((FsError + FsFileNode list) \<times> FileNode list \<times> 'd \<times> BlockAllocator) run" where
  "write_files dev L [] d A = Some (Inr [], [], d, A)"
| "write_files dev L (f # fs) d A = do {
     (r, f1, d1, A1) \<leftarrow> FileNode_write dev L (f, d, A);
     case r of
       Inl e \<Rightarrow> Some (Inl e, f1 # fs, d1, A1)
     | Inr g \<Rightarrow> do {
         (r2, fs2, d2, A2) \<leftarrow> write_files dev L fs d1 A1;
         Some (map_sum (\<lambda>e. e) ((#) g) r2, f1 # fs2, d2, A2)
       }
   }"

text \<open>The new address of a node on the device; the block it was stored in before is freed.\<close>

definition replace_device_ptr :: "nat option \<Rightarrow> BlockAllocator \<Rightarrow> ((FsError + nat) \<times> BlockAllocator) run" where
  "replace_device_ptr old A = do {
     (r, A1) \<leftarrow> allocate_block A;
     case r of
       Inl e \<Rightarrow> Some (Inl e, A1)
     | Inr ptr \<Rightarrow>
         (case old of
            None \<Rightarrow> Some (Inr ptr, A1)
          | Some lba \<Rightarrow> do {
              A2 \<leftarrow> free_block lba A1;
              Some (Inr ptr, A2)
            })
   }"

fun device_children :: "child list \<Rightarrow> (nat \<times> nat option) list run" where
  "device_children [] = Some []"
| "device_children ((link, m) # cs) = do {
     ptr \<leftarrow> device_ptr link;
     ps \<leftarrow> device_children cs;
     Some ((ptr, m) # ps)
   }"

text \<open>The part of \<open>MemTreeLink::flush_to_device\<close> after the children are written: the node itself, when it is dirty.\<close>

fun device_node ::
    "('d, 'e) BlockDevice \<Rightarrow> FsBlockList block_layout \<Rightarrow> MemTreeNode \<Rightarrow> 'd \<Rightarrow> BlockAllocator
      \<Rightarrow> ((FsError + TreeNode) \<times> MemTreeNode \<times> 'd \<times> BlockAllocator) run" where
  "device_node dev LB (Node a p cs di dc l) d A = do {
     ps \<leftarrow> device_children cs;
     Some (Inr (TreeInner ps), Node a p cs di dc l, d, A)
   }"
| "device_node dev LB (Leave a p fs di l) d A = do {
     (r, fs1, d1, A1) \<leftarrow> write_files dev LB fs d A;
     Some (map_sum (\<lambda>e. e) TreeLeave r, Leave a p fs1 di l, d1, A1)
   }"

definition flush_self ::
    "('d, 'e) BlockDevice \<Rightarrow> FsBlockList block_layout \<Rightarrow> TreeNode block_layout \<Rightarrow> MemTreeNode \<Rightarrow> nat option \<Rightarrow> 'd \<Rightarrow> BlockAllocator
      \<Rightarrow> ((FsError + unit) \<times> MemTreeNode MemTreeLink \<times> 'd \<times> BlockAllocator) run" where
  "flush_self dev LB LT node ptr d A =
     (if \<not> node_dirty node then Some (Inr (), Link (Some node) ptr, d, A)
      else do {
        (r, A1) \<leftarrow> replace_device_ptr ptr A;
        case r of
          Inl e \<Rightarrow> Some (Inl e, Link (Some node) ptr, d, A1)
        | Inr lba \<Rightarrow> do {
            (r2, node2, d2, A2) \<leftarrow> device_node dev LB node d A1;
            case r2 of
              Inl e \<Rightarrow> Some (Inl e, Link (Some node2) (Some lba), d2, A2)
            | Inr tree_node \<Rightarrow> do {
                (r3, d3) \<leftarrow> write_block dev lba (block_data LT tree_node) d2;
                case r3 of
                  Inl e \<Rightarrow> Some (Inl (list_write_failed e), Link (Some node2) (Some lba), d3, A2)
                | Inr _ \<Rightarrow> Some (Inr (), Link (Some (set_dirty False node2)) (Some lba), d3, A2)
              }
          }
      })"

function (sequential) flush_link ::
    "('d, 'e) BlockDevice \<Rightarrow> FsBlockList block_layout \<Rightarrow> TreeNode block_layout \<Rightarrow> MemTreeNode MemTreeLink \<Rightarrow> 'd \<Rightarrow> BlockAllocator
      \<Rightarrow> ((FsError + unit) \<times> MemTreeNode MemTreeLink \<times> 'd \<times> BlockAllocator) run"
  and flush_children ::
    "('d, 'e) BlockDevice \<Rightarrow> FsBlockList block_layout \<Rightarrow> TreeNode block_layout \<Rightarrow> child list \<Rightarrow> 'd \<Rightarrow> BlockAllocator
      \<Rightarrow> ((FsError + unit) \<times> child list \<times> 'd \<times> BlockAllocator) run" where
  "flush_link dev LB LT (Link None ptr) d A = do {
     assert_that (ptr \<noteq> None);
     Some (Inr (), Link None ptr, d, A)
   }"
| "flush_link dev LB LT (Link (Some (Leave a p fs di l)) ptr) d A = do {
     assert_that (\<not> l);
     flush_self dev LB LT (Leave a p fs di l) ptr d A
   }"
| "flush_link dev LB LT (Link (Some (Node a p cs di dc l)) ptr) d A = do {
     assert_that (\<not> l);
     if dc then do {
       (r, cs1, d1, A1) \<leftarrow> flush_children dev LB LT cs d A;
       case r of
         Inl e \<Rightarrow> Some (Inl e, Link (Some (Node a p cs1 di dc l)) ptr, d1, A1)
       | Inr _ \<Rightarrow> flush_self dev LB LT (Node a p cs1 di False l) ptr d1 A1
     } else flush_self dev LB LT (Node a p cs di dc l) ptr d A
   }"
| "flush_children dev LB LT [] d A = Some (Inr (), [], d, A)"
| "flush_children dev LB LT ((link, m) # cs) d A = do {
     (r, link1, d1, A1) \<leftarrow> flush_link dev LB LT link d A;
     case r of
       Inl e \<Rightarrow> Some (Inl e, (link1, m) # cs, d1, A1)
     | Inr _ \<Rightarrow> do {
         (r2, cs2, d2, A2) \<leftarrow> flush_children dev LB LT cs d1 A1;
         Some (r2, (link1, m) # cs2, d2, A2)
       }
   }"
  by pat_completeness auto
termination
  by (relation "measure (case_sum (\<lambda>(dev, LB, LT, link, d, A). size_MemTreeLink size link) (\<lambda>(dev, LB, LT, cs, d, A). children_size cs))") auto

definition tree_flush_to_device ::
    "('d, 'e) BlockDevice \<Rightarrow> FsBlockList block_layout \<Rightarrow> TreeNode block_layout \<Rightarrow> (MemTree \<times> 'd \<times> BlockAllocator, FsError, nat) prog" where
  "tree_flush_to_device dev LB LT = (\<lambda>(t, d, A). do {
     assert_that (\<not> root_lock t);
     (r, link, d1, A1) \<leftarrow> flush_link dev LB LT (tree_root t) d A;
     root_ptr \<leftarrow> device_ptr link;
     Some (map_sum (\<lambda>e. e) (\<lambda>_. root_ptr) r, (t\<lparr>tree_root := link\<rparr>, d1, A1))
   })"

end
