(* ===== verification/Mem_Tree_Path.thy ===== *)
theory Mem_Tree_Path
  imports Mem_Tree "HOL-Library.Multiset"
begin

text \<open>
  The invariant of the tree of files, the files it holds, and paths: the nodes from the root to one node, as the list of what surrounds
  it on each level. An operation that walks down the tree gives a path, and pointers to the nodes of a path reach them.
\<close>

section \<open>Addresses\<close>

function (sequential) addrs :: "MemTreeNode \<Rightarrow> nat list" and child_addrs :: "child list \<Rightarrow> nat list" where
  "addrs (Leave a p fs di l) = [a]"
| "addrs (Node a p cs di dc l) = a # child_addrs cs"
| "child_addrs [] = []"
| "child_addrs ((Link None dp, m) # cs) = child_addrs cs"
| "child_addrs ((Link (Some n) dp, m) # cs) = addrs n @ child_addrs cs"
  by pat_completeness auto
termination
  by (relation "measure (case_sum size children_size)") auto

lemma child_addrs_append [simp]: "child_addrs (xs @ ys) = child_addrs xs @ child_addrs ys"
  by (induction xs rule: addrs_child_addrs.induct(2) [of "\<lambda>_. True"]) auto

lemma node_addr_in [simp]: "node_addr n \<in> set (addrs n)"
  by (cases n) auto

lemma addrs_set_lock [simp]: "addrs (set_lock l n) = addrs n"
  by (cases n) auto

lemma node_at_other: "a \<notin> set (addrs n) \<Longrightarrow> node_at a n = None" "a \<notin> set (child_addrs cs) \<Longrightarrow> child_at a cs = None"
  by (induction n and cs rule: addrs_child_addrs.induct) auto

lemma put_at_other: "a \<notin> set (addrs n) \<Longrightarrow> put_at a x n = n" "a \<notin> set (child_addrs cs) \<Longrightarrow> put_child a x cs = cs"
  by (induction n and cs rule: addrs_child_addrs.induct) auto

lemma child_at_append: "child_at a (xs @ ys) = (case child_at a xs of None \<Rightarrow> child_at a ys | Some n \<Rightarrow> Some n)"
  by (induction xs rule: addrs_child_addrs.induct(2) [of "\<lambda>_. True"]) (auto split: option.splits)

lemma put_child_append: "put_child a x (xs @ ys) = put_child a x xs @ put_child a x ys"
  by (induction xs rule: addrs_child_addrs.induct(2) [of "\<lambda>_. True"]) auto

lemma node_at_self [simp]: "node_at (node_addr n) n = Some n" "put_at (node_addr n) x n = x"
  by (cases n; simp)+

section \<open>Paths\<close>

record frame =
  f_addr :: nat
  f_parent :: "nat option"
  f_left :: "child list"
  f_ptr :: "nat option"
  f_max :: "nat option"
  f_right :: "child list"
  f_dirty :: bool
  f_dc :: bool
  f_lock :: bool

definition plug_frame :: "frame \<Rightarrow> MemTreeNode \<Rightarrow> MemTreeNode" where
  "plug_frame F n = Node (f_addr F) (f_parent F) (f_left F @ (Link (Some n) (f_ptr F), f_max F) # f_right F) (f_dirty F) (f_dc F) (f_lock F)"

fun plug :: "frame list \<Rightarrow> MemTreeNode \<Rightarrow> MemTreeNode" where
  "plug [] n = n"
| "plug (F # Fs) n = plug Fs (plug_frame F n)"

fun frames_addrs :: "frame list \<Rightarrow> nat list" where
  "frames_addrs [] = []"
| "frames_addrs (F # Fs) = f_addr F # child_addrs (f_left F) @ child_addrs (f_right F) @ frames_addrs Fs"

lemma plug_append [simp]: "plug (Fs @ Gs) n = plug Gs (plug Fs n)"
  by (induction Fs arbitrary: n) auto

lemma node_addr_plug_frame [simp]: "node_addr (plug_frame F n) = f_addr F" "node_parent (plug_frame F n) = f_parent F"
    "node_lock (plug_frame F n) = f_lock F" "set_lock l (plug_frame F n) = plug_frame (F\<lparr>f_lock := l\<rparr>) n"
  by (simp_all add: plug_frame_def)

lemma mset_addrs_plug: "mset (addrs (plug Fs n)) = mset (frames_addrs Fs) + mset (addrs n)"
  by (induction Fs arbitrary: n) (simp_all add: plug_frame_def)

lemma distinct_plug: "distinct (addrs (plug Fs n)) \<longleftrightarrow> distinct (frames_addrs Fs @ addrs n)"
  by (metis mset_addrs_plug mset_append mset_eq_imp_distinct_iff)

lemma set_addrs_plug: "set (addrs (plug Fs n)) = set (frames_addrs Fs) \<union> set (addrs n)"
  by (metis mset_addrs_plug set_mset_mset set_mset_union)

lemma at_plug:
  assumes "distinct (addrs (plug Fs n))" "a \<in> set (addrs n)"
  shows "node_at a (plug Fs n) = node_at a n \<and> put_at a x (plug Fs n) = plug Fs (put_at a x n)"
  using assms
proof (induction Fs arbitrary: n)
  case (Cons F Fs)
  have d: "distinct (addrs (plug Fs (plug_frame F n)))" using Cons.prems(1) by simp
  have "a \<in> set (addrs (plug_frame F n))" using Cons.prems(2) by (simp add: plug_frame_def)
  then have IH: "node_at a (plug (F # Fs) n) = node_at a (plug_frame F n)" "put_at a x (plug (F # Fs) n) = plug Fs (put_at a x (plug_frame F n))"
    using Cons.IH [OF d] by simp_all
  have "distinct (addrs (plug_frame F n))" using d by (simp add: distinct_plug)
  then have o: "a \<noteq> f_addr F" "a \<notin> set (child_addrs (f_left F))" "a \<notin> set (child_addrs (f_right F))"
    using Cons.prems(2) by (auto simp: plug_frame_def)
  then show ?case unfolding IH
    by (simp add: plug_frame_def child_at_append put_child_append node_at_other put_at_other split: option.splits)
qed simp

abbreviation at_path :: "MemTree \<Rightarrow> frame list \<Rightarrow> MemTreeNode \<Rightarrow> bool" where
  "at_path t Fs n \<equiv> link_node (tree_root t) = Some (plug Fs n) \<and> distinct (frames_addrs Fs @ addrs n)"

lemma get_node_path: "at_path t Fs n \<Longrightarrow> get_node (node_addr n) t = Some n"
  using at_plug [of Fs n "node_addr n"] by (simp add: get_node_def distinct_plug)

lemma put_node_path:
  "at_path t Fs n \<Longrightarrow> node_addr n = a \<Longrightarrow> put_node a x t = t\<lparr>tree_root := Link (Some (plug Fs x)) (device_ptr (tree_root t))\<rparr>"
  using at_plug [of Fs n "node_addr n"] by (auto simp: put_node_def distinct_plug)

lemma get_node_put_path:
  assumes "at_path t Fs n" "node_addr n = a" "node_addr x = a" "set (addrs x) \<subseteq> set (addrs n)" "distinct (addrs x)"
  shows "at_path (put_node a x t) Fs x" "get_node a (put_node a x t) = Some x"
proof -
  show p: "at_path (put_node a x t) Fs x" using assms by (auto simp: put_node_path)
  show "get_node a (put_node a x t) = Some x" using get_node_path [OF p] assms(3) by simp
qed

text \<open>A path whose nodes point to their parents.\<close>

fun linked :: "frame list \<Rightarrow> nat option \<Rightarrow> bool" where
  "linked [] p = (p = None)"
| "linked (F # Fs) p = (p = Some (f_addr F) \<and> linked Fs (f_parent F))"

definition unlock_frame :: "frame \<Rightarrow> frame" where
  "unlock_frame F = F\<lparr>f_lock := False\<rparr>"

lemma frames_addrs_unlock [simp]: "frames_addrs (map unlock_frame Fs) = frames_addrs Fs"
  by (induction Fs) (simp_all add: unlock_frame_def)

lemma unlock_frame_simps [simp]:
  "f_addr (unlock_frame F) = f_addr F" "f_parent (unlock_frame F) = f_parent F" "f_left (unlock_frame F) = f_left F"
  "f_right (unlock_frame F) = f_right F" "f_max (unlock_frame F) = f_max F" "f_ptr (unlock_frame F) = f_ptr F"
  "f_lock (unlock_frame F) = False" "f_dirty (unlock_frame F) = f_dirty F" "f_dc (unlock_frame F) = f_dc F"
  by (simp_all add: unlock_frame_def)

lemma node_simps [simp]:
  "node_addr (set_lock l n) = node_addr n" "node_parent (set_lock l n) = node_parent n" "node_lock (set_lock l n) = l"
  "node_len (set_lock l n) = node_len n" "set_lock k (set_lock l n) = set_lock k n" "node_cap tb (set_lock l n) = node_cap tb n"
  "node_dirty (set_lock l n) = node_dirty n"
  by (cases n; simp)+

lemma unlock_upwards_path:
  assumes "at_path t Fs n" "linked Fs (node_parent n)" "node_lock n" "\<forall>F \<in> set Fs. f_lock F" "root_lock t"
  shows "unlock_upwards (node_addr n) t =
    Some (t\<lparr>tree_root := Link (Some (plug (map unlock_frame Fs) (set_lock False n))) (device_ptr (tree_root t)), root_lock := False\<rparr>)"
  using assms
proof (induction Fs arbitrary: n t)
  case Nil
  let ?t = "t\<lparr>tree_root := Link (Some (set_lock False n)) (device_ptr (tree_root t))\<rparr>"
  have "get_node (node_addr n) t = Some n" using Nil.prems(1) by (rule get_node_path)
  moreover have "put_node (node_addr n) (set_lock False n) t = ?t" using put_node_path [OF Nil.prems(1) refl] by simp
  ultimately show ?case using Nil.prems by (simp add: unlock_upwards.simps [of "node_addr n"] unlock_node_def)
next
  case (Cons F Fs)
  let ?n = "plug_frame F (set_lock False n)" and ?t = "t\<lparr>tree_root := Link (Some (plug (F # Fs) (set_lock False n))) (device_ptr (tree_root t))\<rparr>"
  have g: "get_node (node_addr n) t = Some n" using Cons.prems(1) by (rule get_node_path)
  have p: "put_node (node_addr n) (set_lock False n) t = ?t" using put_node_path [OF Cons.prems(1) refl] by simp
  have "unlock_upwards (node_addr ?n) ?t =
    Some (?t\<lparr>tree_root := Link (Some (plug (map unlock_frame Fs) (set_lock False ?n))) (device_ptr (tree_root ?t)), root_lock := False\<rparr>)"
    using Cons.prems by (intro Cons.IH) (auto simp: plug_frame_def)
  moreover have "unlock_upwards (node_addr n) t = unlock_upwards (f_addr F) ?t"
    using g p Cons.prems(2,3) by (simp add: unlock_upwards.simps [of "node_addr n"] unlock_node_def)
  ultimately show ?case by (simp flip: unlock_frame_def)
qed

end
