(* ===== verification/Mem_Tree_Inv.thy ===== *)
theory Mem_Tree_Inv
  imports Mem_Tree_Path
begin

text \<open>
  The invariant of the tree of files and the files a tree holds, for trees that are partly in memory and partly on the device.
  \<open>M\<close> bounds the number of children of an inner node; the layout gives \<open>NODE_MAX_CHILD_COUNT\<close>, and a smaller bound says that there is room.
\<close>

section \<open>The invariant\<close>

text \<open>The node a link stands for: the one in memory, or the one that loading it from the device would give.\<close>

fun view :: "(nat \<rightharpoonup> TreeNode) \<Rightarrow> nat option \<Rightarrow> MemTreeNode MemTreeLink \<Rightarrow> MemTreeNode option" where
  "view D p (Link (Some n) dp) = Some n"
| "view D p (Link None None) = None"
| "view D p (Link None (Some b)) = map_option (\<lambda>tn. new_from 0 tn p) (D b)"

text \<open>
  Children with their maxima: each child holds the ids above the maximum of the one before it, up to its own, and the last child has no
  maximum.
\<close>

fun chain_ok :: "(nat \<Rightarrow> nat \<Rightarrow> 'l \<Rightarrow> bool) \<Rightarrow> nat \<Rightarrow> nat \<Rightarrow> ('l \<times> nat option) list \<Rightarrow> bool" where
  "chain_ok P lo hi [] = (lo = hi)"
| "chain_ok P lo hi ((l, m) # cs) = (case m of None \<Rightarrow> False | Some k \<Rightarrow> lo < k \<and> P lo k l \<and> chain_ok P k hi cs)"

fun children_ok :: "(nat \<Rightarrow> nat \<Rightarrow> 'l \<Rightarrow> bool) \<Rightarrow> nat \<Rightarrow> nat \<Rightarrow> ('l \<times> nat option) list \<Rightarrow> bool" where
  "children_ok P lo hi [] = False"
| "children_ok P lo hi ((l, m) # cs) =
     (case m of None \<Rightarrow> cs = [] \<and> P lo hi l | Some k \<Rightarrow> lo < k \<and> P lo k l \<and> children_ok P k hi cs)"

primrec tree_ok :: "nat \<Rightarrow> (nat \<rightharpoonup> TreeNode) \<Rightarrow> bool \<Rightarrow> nat \<Rightarrow> nat option \<Rightarrow> nat \<Rightarrow> nat \<Rightarrow> MemTreeNode \<Rightarrow> bool" where
  "tree_ok 0 D tb M p lo hi n =
     (case n of
        Node _ _ _ _ _ _ \<Rightarrow> False
      | Leave a q fs di l \<Rightarrow> q = p \<and> \<not> l \<and> length fs \<le> LEAVE_MAX_FILE_COUNT tb \<and> sorted_wrt (<) (map fn_id fs)
          \<and> (\<forall>f \<in> set fs. lo < fn_id f \<and> fn_id f \<le> hi))"
| "tree_ok (Suc h) D tb M p lo hi n =
     (case n of
        Leave _ _ _ _ _ \<Rightarrow> False
      | Node a q cs di dc l \<Rightarrow> q = p \<and> \<not> l \<and> length cs \<le> M
          \<and> children_ok (\<lambda>lo hi link.
              case view D (Some a) link of
                None \<Rightarrow> False
              | Some x \<Rightarrow> node_cap tb x div 2 \<le> node_len x \<and> tree_ok h D tb M (Some a) lo hi x) lo hi cs)"

definition child_ok :: "nat \<Rightarrow> (nat \<rightharpoonup> TreeNode) \<Rightarrow> bool \<Rightarrow> nat \<Rightarrow> nat \<Rightarrow> nat \<Rightarrow> nat \<Rightarrow> MemTreeNode MemTreeLink \<Rightarrow> bool" where
  "child_ok h D tb M a lo hi link =
     (case view D (Some a) link of
        None \<Rightarrow> False
      | Some x \<Rightarrow> node_cap tb x div 2 \<le> node_len x \<and> tree_ok h D tb M (Some a) lo hi x)"

lemma tree_ok_Suc:
  "tree_ok (Suc h) D tb M p lo hi n \<longleftrightarrow>
     (case n of
        Leave _ _ _ _ _ \<Rightarrow> False
      | Node a q cs di dc l \<Rightarrow> q = p \<and> \<not> l \<and> length cs \<le> M \<and> children_ok (child_ok h D tb M a) lo hi cs)"
proof -
  have "child_ok h D tb M a = (\<lambda>lo hi link. case view D (Some a) link of None \<Rightarrow> False
    | Some x \<Rightarrow> node_cap tb x div 2 \<le> node_len x \<and> tree_ok h D tb M (Some a) lo hi x)" for a
    by (intro ext) (simp add: child_ok_def)
  then show ?thesis by (cases n) simp_all
qed

lemma child_okE:
  assumes "child_ok h D tb M a lo hi link"
  obtains x where "view D (Some a) link = Some x" "node_cap tb x div 2 \<le> node_len x" "tree_ok h D tb M (Some a) lo hi x"
  using assms by (auto simp: child_ok_def split: option.splits)

declare tree_ok.simps(2) [simp del]

primrec tree_files :: "nat \<Rightarrow> (nat \<rightharpoonup> TreeNode) \<Rightarrow> MemTreeNode \<Rightarrow> FileNode list" where
  "tree_files 0 D n = (case n of Node _ _ _ _ _ _ \<Rightarrow> [] | Leave _ _ fs _ _ \<Rightarrow> fs)"
| "tree_files (Suc h) D n =
     (case n of
        Leave _ _ _ _ _ \<Rightarrow> []
      | Node _ _ cs _ _ _ \<Rightarrow> concat (map (\<lambda>(link, m). case view D None link of None \<Rightarrow> [] | Some x \<Rightarrow> tree_files h D x) cs))"

definition link_files :: "nat \<Rightarrow> (nat \<rightharpoonup> TreeNode) \<Rightarrow> MemTreeNode MemTreeLink \<Rightarrow> FileNode list" where
  "link_files h D link = (case view D None link of None \<Rightarrow> [] | Some x \<Rightarrow> tree_files h D x)"

definition child_files :: "nat \<Rightarrow> (nat \<rightharpoonup> TreeNode) \<Rightarrow> child list \<Rightarrow> FileNode list" where
  "child_files h D cs = concat (map (\<lambda>(link, m). link_files h D link) cs)"

lemma tree_files_Node: "tree_files (Suc h) D (Node a p cs di dc l) = child_files h D cs" "tree_files (Suc h) D (Leave a p fs di l) = []"
  by (simp_all add: child_files_def link_files_def)

declare tree_files.simps(2) [simp del]

lemma child_files_simps [simp]:
  "child_files h D [] = []" "child_files h D ((link, m) # cs) = link_files h D link @ child_files h D cs"
  "child_files h D (cs @ cs') = child_files h D cs @ child_files h D cs'"
  by (simp_all add: child_files_def)

lemma link_files_Some [simp]: "link_files h D (Link (Some n) dp) = tree_files h D n"
  by (simp add: link_files_def)

lemma tree_files_lock [simp]: "tree_files h D (set_lock l n) = tree_files h D n"
  by (cases h; cases n) (simp_all add: tree_files_Node)

section \<open>Chains of children\<close>

lemma chain_ok_append: "chain_ok P lo hi (xs @ ys) \<longleftrightarrow> (\<exists>k. chain_ok P lo k xs \<and> chain_ok P k hi ys)"
  by (induction xs arbitrary: lo) (auto split: option.splits)

lemma children_ok_append: "ys \<noteq> [] \<Longrightarrow> children_ok P lo hi (xs @ ys) \<longleftrightarrow> (\<exists>k. chain_ok P lo k xs \<and> children_ok P k hi ys)"
  by (induction xs arbitrary: lo) (auto split: option.splits)

lemma chain_ok_le: "chain_ok P lo hi cs \<Longrightarrow> lo \<le> hi"
proof (induction cs arbitrary: lo)
  case (Cons c cs)
  then obtain l k where "lo < k" "chain_ok P k hi cs" by (cases c) (auto split: option.splits)
  then show ?case using Cons.IH by fastforce
qed simp

lemma chain_ok_imp:
  "chain_ok P lo hi cs \<Longrightarrow> (\<And>l m lo hi. (l, m) \<in> set cs \<Longrightarrow> P lo hi l \<Longrightarrow> Q lo hi l) \<Longrightarrow> chain_ok Q lo hi cs"
proof (induction cs arbitrary: lo)
  case (Cons c cs)
  have "chain_ok P k hi cs \<Longrightarrow> chain_ok Q k hi cs" for k using Cons.prems(2) by (intro Cons.IH) auto
  moreover have "P lo hi (fst c) \<Longrightarrow> Q lo hi (fst c)" for lo hi using Cons.prems(2) [of "fst c" "snd c"] by simp
  ultimately show ?case using Cons.prems(1) by (cases c) (auto split: option.splits)
qed simp

lemma children_ok_imp:
  "children_ok P lo hi cs \<Longrightarrow> (\<And>l m lo hi. (l, m) \<in> set cs \<Longrightarrow> P lo hi l \<Longrightarrow> Q lo hi l) \<Longrightarrow> children_ok Q lo hi cs"
proof (induction cs arbitrary: lo)
  case (Cons c cs)
  have "children_ok P k hi cs \<Longrightarrow> children_ok Q k hi cs" for k using Cons.prems(2) by (intro Cons.IH) auto
  moreover have "P lo hi (fst c) \<Longrightarrow> Q lo hi (fst c)" for lo hi using Cons.prems(2) [of "fst c" "snd c"] by simp
  ultimately show ?case using Cons.prems(1) by (cases c) (auto split: option.splits)
qed simp

lemma children_ok_mono:
  assumes "children_ok P lo hi cs" "lo' \<le> lo" "hi \<le> hi'"
    and mono: "\<And>l lo hi lo' hi'. P lo hi l \<Longrightarrow> lo' \<le> lo \<Longrightarrow> hi \<le> hi' \<Longrightarrow> P lo' hi' l"
  shows "children_ok P lo' hi' cs"
  using assms(1,2,3)
proof (induction cs arbitrary: lo lo')
  case (Cons c cs)
  obtain l m where c: "c = (l, m)" by force
  show ?case
  proof (cases m)
    case None
    then show ?thesis using Cons.prems c mono [of lo hi l lo' hi'] by simp
  next
    case (Some k)
    then have k: "lo < k" "P lo k l" "children_ok P k hi cs" using Cons.prems(1) c by simp_all
    have "children_ok P k hi' cs" by (rule Cons.IH [OF k(3) order_refl Cons.prems(3)])
    moreover have "P lo' k l" by (rule mono [OF k(2) Cons.prems(2) order_refl])
    ultimately show ?thesis using Some c k(1) Cons.prems(2) by simp
  qed
qed simp

lemma tree_ok_mono: "tree_ok h D tb M p lo hi n \<Longrightarrow> lo' \<le> lo \<Longrightarrow> hi \<le> hi' \<Longrightarrow> tree_ok h D tb M p lo' hi' n"
proof (induction h arbitrary: p lo hi lo' hi' n)
  case 0
  then show ?case by (cases n) fastforce+
next
  case (Suc h)
  have mono: "child_ok h D tb M a lo' hi' l" if "child_ok h D tb M a lo hi l" "lo' \<le> lo" "hi \<le> hi'" for a l lo hi lo' hi'
    using that(1) Suc.IH [OF _ that(2,3)] by (simp add: child_ok_def split: option.splits)
  obtain a cs di dc where n: "n = Node a p cs di dc False" "length cs \<le> M" "children_ok (child_ok h D tb M a) lo hi cs"
    using Suc.prems(1) by (cases n) (auto simp: tree_ok_Suc)
  have "children_ok (child_ok h D tb M a) lo' hi' cs" by (rule children_ok_mono [OF n(3) Suc.prems(2,3) mono])
  then show ?case using n(1,2) by (simp add: tree_ok_Suc)
qed

lemma child_ok_mono: "child_ok h D tb M a lo hi l \<Longrightarrow> lo' \<le> lo \<Longrightarrow> hi \<le> hi' \<Longrightarrow> child_ok h D tb M a lo' hi' l"
  by (auto simp: child_ok_def split: option.splits intro: tree_ok_mono)

section \<open>Nodes loaded from the device\<close>

lemma new_from_simps [simp]:
  "node_addr (new_from a tn p) = a" "node_parent (new_from a tn p) = p" "\<not> node_lock (new_from a tn p)"
  by (cases tn; simp)+

lemma new_from_len: "node_len (new_from a tn p) = node_len (new_from b tn q)" "node_cap tb (new_from a tn p) = node_cap tb (new_from b tn q)"
  by (cases tn; simp)+

lemma child_addrs_unresolved: "(\<And>l m. (l, m) \<in> set cs \<Longrightarrow> link_node l = None) \<Longrightarrow> child_addrs cs = []"
  by (induction cs rule: addrs_child_addrs.induct(2) [of "\<lambda>_. True"]) fastforce+

lemma addrs_new_from [simp]: "addrs (new_from a tn p) = [a]"
  by (cases tn) (auto intro!: child_addrs_unresolved)

lemma tree_ok_new_from: "tree_ok h D tb M p lo hi (new_from a tn p) \<Longrightarrow> tree_ok h D tb M q lo hi (new_from b tn q)"
proof (induction h arbitrary: p q lo hi a b tn)
  case 0
  then show ?case by (cases tn) simp_all
next
  case (Suc h)
  show ?case
  proof (cases tn)
    case (TreeInner cs)
    let ?cs = "map (\<lambda>(device_link, m). (Link None (Some device_link), m)) cs :: child list"
    have "child_ok h D tb M b lo hi (Link None (Some ptr))" if "child_ok h D tb M a lo hi (Link None (Some ptr))" for lo hi ptr
    proof -
      from that obtain x where x: "D ptr = Some x" "node_cap tb (new_from 0 x (Some a)) div 2 \<le> node_len (new_from 0 x (Some a))"
        "tree_ok h D tb M (Some a) lo hi (new_from 0 x (Some a))"
        by (rule child_okE) auto
      then show ?thesis using Suc.IH [OF x(3), of "Some b" 0] new_from_len(1) [of 0 x "Some a" 0 "Some b"] new_from_len(2) [of tb 0 x "Some a" 0 "Some b"] by (simp add: child_ok_def)
    qed
    then have "children_ok (child_ok h D tb M a) lo hi ?cs \<Longrightarrow> children_ok (child_ok h D tb M b) lo hi ?cs"
      by - (erule children_ok_imp, auto)
    then show ?thesis using Suc.prems TreeInner by (simp add: tree_ok_Suc)
  qed (use Suc.prems in \<open>simp add: tree_ok_Suc\<close>)
qed

lemma tree_files_new_from: "tree_files h D (new_from a tn p) = tree_files h D (new_from b tn q)"
  by (cases h; cases tn) (simp_all add: tree_files_Node)

lemma link_files_view: "view D p link = Some x \<Longrightarrow> link_files h D link = tree_files h D x"
  by (cases "(D, p, link)" rule: view.cases) (auto simp: link_files_def tree_files_new_from)

section \<open>The files of a tree\<close>

lemma sorted_lt_append:
  assumes "sorted_wrt (<) (map fn_id xs)" "sorted_wrt (<) (map fn_id ys)" "\<forall>f \<in> set xs. fn_id f \<le> k" "\<forall>f \<in> set ys. k < fn_id f"
  shows "sorted_wrt (<) (map fn_id (xs @ ys))"
  using assms by (force simp: sorted_wrt_append)

definition files_within :: "nat \<Rightarrow> nat \<Rightarrow> FileNode list \<Rightarrow> bool" where
  "files_within lo hi fs \<longleftrightarrow> sorted_wrt (<) (map fn_id fs) \<and> (\<forall>f \<in> set fs. lo < fn_id f \<and> fn_id f \<le> hi)"

lemma files_within_append: "files_within lo k fs \<Longrightarrow> files_within k hi gs \<Longrightarrow> lo \<le> k \<Longrightarrow> k \<le> hi \<Longrightarrow> files_within lo hi (fs @ gs)"
  unfolding files_within_def by (intro conjI sorted_lt_append [of _ _ k]) auto

lemma files_within_le: "files_within lo hi fs \<Longrightarrow> fs \<noteq> [] \<Longrightarrow> lo < hi"
  by (cases fs) (auto simp: files_within_def)

text \<open>Every child has a file, because it is at least half full.\<close>

lemma half_pos: "0 < LEAVE_MAX_FILE_COUNT tb div 2" "0 < NODE_MAX_CHILD_COUNT tb div 2" "2 \<le> NODE_MAX_CHILD_COUNT tb div 2"
  by (simp_all add: LEAVE_MAX_FILE_COUNT_def NODE_MAX_CHILD_COUNT_def)

lemma chain_files_within:
  assumes "\<And>lo hi l m. (l, m) \<in> set cs \<Longrightarrow> P lo hi l \<Longrightarrow> files_within lo hi (link_files h D l)" "chain_ok P lo hi cs"
  shows "files_within lo hi (child_files h D cs)"
  using assms
proof (induction cs arbitrary: lo)
  case (Cons c cs)
  obtain l k where c: "c = (l, Some k)" "lo < k" "P lo k l" "chain_ok P k hi cs"
    using Cons.prems(2) by (cases c) (auto split: option.splits)
  have "files_within k hi (child_files h D cs)" using Cons.prems(1) c(4) by (intro Cons.IH) auto
  moreover have "files_within lo k (link_files h D l)" using Cons.prems(1) [of l "Some k"] c by simp
  ultimately show ?case using c chain_ok_le [OF c(4)] by (simp add: files_within_append)
qed (simp add: files_within_def)

lemma children_files_within:
  assumes "\<And>lo hi l m. (l, m) \<in> set cs \<Longrightarrow> P lo hi l \<Longrightarrow> files_within lo hi (link_files h D l) \<and> link_files h D l \<noteq> []"
    and "children_ok P lo hi cs"
  shows "files_within lo hi (child_files h D cs) \<and> child_files h D cs \<noteq> []"
  using assms
proof (induction cs arbitrary: lo)
  case (Cons c cs)
  show ?case
  proof (cases "snd c")
    case None
    then show ?thesis using Cons.prems by (cases c) auto
  next
    case (Some k)
    then obtain l where c: "c = (l, Some k)" "lo < k" "P lo k l" "children_ok P k hi cs" using Cons.prems(2) by (cases c) auto
    have r: "files_within k hi (child_files h D cs)" "child_files h D cs \<noteq> []"
      using Cons.IH [OF _ c(4)] Cons.prems(1) by (metis list.set_intros(2))+
    have "files_within lo k (link_files h D l)" using Cons.prems(1) [of l "Some k"] c by simp
    then show ?thesis using c r files_within_le [OF r] by (auto intro: files_within_append less_imp_le)
  qed
qed simp

lemma tree_files_within:
  "tree_ok h D tb M p lo hi n \<Longrightarrow> files_within lo hi (tree_files h D n) \<and> (0 < node_len n \<longrightarrow> tree_files h D n \<noteq> [])"
proof (induction h arbitrary: p lo hi n)
  case 0
  then show ?case by (cases n) (simp_all add: files_within_def)
next
  case (Suc h)
  obtain a cs di dc where n: "n = Node a p cs di dc False" "children_ok (child_ok h D tb M a) lo hi cs"
    using Suc.prems by (cases n) (auto simp: tree_ok_Suc)
  have "files_within lo hi (link_files h D l) \<and> link_files h D l \<noteq> []" if "child_ok h D tb M a lo hi l" for lo hi l
  proof -
    from that obtain x where x: "view D (Some a) l = Some x" "node_cap tb x div 2 \<le> node_len x" "tree_ok h D tb M (Some a) lo hi x"
      by (rule child_okE)
    have "0 < node_len x" using x(2) half_pos [of tb] by (cases x) auto
    then show ?thesis using Suc.IH [OF x(3)] link_files_view [OF x(1)] by simp
  qed
  then have "files_within lo hi (child_files h D cs) \<and> child_files h D cs \<noteq> []" by (intro children_files_within [OF _ n(2)])
  then show ?case by (simp add: n(1) tree_files_Node)
qed

lemma child_files_facts:
  assumes "child_ok h D tb M a lo hi l"
  shows "files_within lo hi (link_files h D l)" "link_files h D l \<noteq> []"
proof -
  obtain x where x: "view D (Some a) l = Some x" "node_cap tb x div 2 \<le> node_len x" "tree_ok h D tb M (Some a) lo hi x"
    using assms by (rule child_okE)
  have "0 < node_len x" using x(2) half_pos [of tb] by (cases x) auto
  then show "files_within lo hi (link_files h D l)" "link_files h D l \<noteq> []"
    using tree_files_within [OF x(3)] link_files_view [OF x(1)] by simp_all
qed

end
