(* ===== verification/Mem_Tree_Find.thy ===== *)
theory Mem_Tree_Find
  imports Mem_Tree_Inv
begin

text \<open>
  Walking down the tree of files: \<open>find_leave\<close> gives a path to the leaf whose range of ids holds the id, in a tree with the same files,
  and \<open>find\<close> returns the file with the id.
\<close>

section \<open>Paths in a valid tree\<close>

definition frame_ok :: "nat \<Rightarrow> (nat \<rightharpoonup> TreeNode) \<Rightarrow> bool \<Rightarrow> nat \<Rightarrow> frame \<Rightarrow> nat \<Rightarrow> nat \<Rightarrow> nat \<Rightarrow> nat \<Rightarrow> bool" where
  "frame_ok h D tb M F lo' hi' lo hi \<longleftrightarrow>
     Suc (length (f_left F) + length (f_right F)) \<le> M
     \<and> chain_ok (child_ok h D tb M (f_addr F)) lo' lo (f_left F)
     \<and> (if f_right F = [] then f_max F = None \<and> hi = hi'
        else f_max F = Some hi \<and> lo < hi \<and> children_ok (child_ok h D tb M (f_addr F)) hi hi' (f_right F))"

text \<open>
  \<open>path_ok h D tb M P LO HI Fs p lo hi\<close>: put into the path, a node with the parent pointer \<open>p\<close> and ids above \<open>lo\<close> and up to \<open>hi\<close> gives a
  node with the parent pointer \<open>P\<close> and ids above \<open>LO\<close> and up to \<open>HI\<close>.
\<close>

fun path_ok :: "nat \<Rightarrow> (nat \<rightharpoonup> TreeNode) \<Rightarrow> bool \<Rightarrow> nat \<Rightarrow> nat option \<Rightarrow> nat \<Rightarrow> nat \<Rightarrow> frame list \<Rightarrow> nat option \<Rightarrow> nat \<Rightarrow> nat \<Rightarrow> bool" where
  "path_ok h D tb M P LO HI [] p lo hi = (p = P \<and> lo = LO \<and> hi = HI)"
| "path_ok h D tb M P LO HI (F # Fs) p lo hi =
     (p = Some (f_addr F) \<and> (Fs \<noteq> [] \<longrightarrow> NODE_MAX_CHILD_COUNT tb div 2 \<le> Suc (length (f_left F) + length (f_right F)))
      \<and> (\<exists>lo' hi'. path_ok (Suc h) D tb M P LO HI Fs (f_parent F) lo' hi' \<and> frame_ok h D tb M F lo' hi' lo hi))"

definition half_full :: "bool \<Rightarrow> MemTreeNode \<Rightarrow> bool" where
  "half_full tb n \<longleftrightarrow> node_cap tb n div 2 \<le> node_len n"

lemma child_ok_node: "child_ok h D tb M a lo hi (Link (Some n) dp) \<longleftrightarrow> half_full tb n \<and> tree_ok h D tb M (Some a) lo hi n"
  by (simp add: child_ok_def half_full_def)

lemma half_full_plug_frame: "half_full tb (plug_frame F n) \<longleftrightarrow> NODE_MAX_CHILD_COUNT tb div 2 \<le> Suc (length (f_left F) + length (f_right F))"
  by (simp add: half_full_def plug_frame_def)

lemma half_full_lock [simp]: "half_full tb (set_lock l n) = half_full tb n"
  by (simp add: half_full_def)

lemma tree_ok_frame:
  assumes "frame_ok h D tb M F lo' hi' lo hi" "tree_ok h D tb M (Some (f_addr F)) lo hi n" "half_full tb n"
  shows "tree_ok (Suc h) D tb M (f_parent F) lo' hi' (plug_frame (unlock_frame F) n)"
proof -
  have "children_ok (child_ok h D tb M (f_addr F)) lo hi' ((Link (Some n) (f_ptr F), f_max F) # f_right F)"
    using assms by (simp add: frame_ok_def child_ok_node split: if_splits)
  then have "children_ok (child_ok h D tb M (f_addr F)) lo' hi' (f_left F @ (Link (Some n) (f_ptr F), f_max F) # f_right F)"
    using assms(1) by (subst children_ok_append) (auto simp: frame_ok_def simp del: children_ok.simps)
  then show ?thesis using assms(1) by (simp add: tree_ok_Suc plug_frame_def frame_ok_def)
qed

lemma tree_ok_plug:
  assumes "path_ok h D tb M P LO HI Fs p lo hi" "tree_ok h D tb M p lo hi n" "Fs \<noteq> [] \<longrightarrow> half_full tb n"
  shows "tree_ok (h + length Fs) D tb M P LO HI (plug (map unlock_frame Fs) n)"
  using assms
proof (induction Fs arbitrary: h p lo hi n)
  case (Cons F Fs)
  obtain lo' hi' where F: "path_ok (Suc h) D tb M P LO HI Fs (f_parent F) lo' hi'" "frame_ok h D tb M F lo' hi' lo hi" "p = Some (f_addr F)"
    using Cons.prems(1) by auto
  have "tree_ok (Suc h) D tb M (f_parent F) lo' hi' (plug_frame (unlock_frame F) n)"
    using F Cons.prems(2,3) by (intro tree_ok_frame) auto
  moreover have "Fs \<noteq> [] \<longrightarrow> half_full tb (plug_frame (unlock_frame F) n)" using Cons.prems(1) by (simp add: half_full_plug_frame)
  ultimately show ?case using Cons.IH [OF F(1)] by simp
qed simp

lemma path_ok_linked: "path_ok h D tb M None LO HI Fs p lo hi \<Longrightarrow> linked Fs p"
  by (induction Fs arbitrary: h p lo hi) auto

lemma path_ok_append:
  assumes "path_ok h D tb M (Some (f_addr F)) lo1 hi1 Fs p lo hi" "frame_ok (h + length Fs) D tb M F LO HI lo1 hi1"
    and "Fs \<noteq> [] \<longrightarrow> NODE_MAX_CHILD_COUNT tb div 2 \<le> Suc (length (f_left (last Fs)) + length (f_right (last Fs)))"
  shows "path_ok h D tb M (f_parent F) LO HI (Fs @ [F]) p lo hi"
  using assms
proof (induction Fs arbitrary: h p lo hi)
  case (Cons G Fs)
  obtain lo' hi' where G: "path_ok (Suc h) D tb M (Some (f_addr F)) lo1 hi1 Fs (f_parent G) lo' hi'" "frame_ok h D tb M G lo' hi' lo hi"
    using Cons.prems(1) by auto
  have "path_ok (Suc h) D tb M (f_parent F) LO HI (Fs @ [F]) (f_parent G) lo' hi'"
    using G(1) Cons.prems(2,3) by (intro Cons.IH) (auto split: if_splits)
  then show ?case using G(2) Cons.prems(1,3) by (cases "Fs = []") auto
qed auto

lemma node_len_plug: "Fs \<noteq> [] \<Longrightarrow> node_len (plug Fs n) = Suc (length (f_left (last Fs)) + length (f_right (last Fs)))"
  by (induction Fs arbitrary: n) (auto simp: plug_frame_def)

section \<open>Files around a path\<close>

fun files_before :: "nat \<Rightarrow> (nat \<rightharpoonup> TreeNode) \<Rightarrow> frame list \<Rightarrow> FileNode list" where
  "files_before h D [] = []"
| "files_before h D (F # Fs) = files_before (Suc h) D Fs @ child_files h D (f_left F)"

fun files_after :: "nat \<Rightarrow> (nat \<rightharpoonup> TreeNode) \<Rightarrow> frame list \<Rightarrow> FileNode list" where
  "files_after h D [] = []"
| "files_after h D (F # Fs) = child_files h D (f_right F) @ files_after (Suc h) D Fs"

lemma tree_files_plug: "tree_files (h + length Fs) D (plug Fs n) = files_before h D Fs @ tree_files h D n @ files_after h D Fs"
proof (induction Fs arbitrary: h n)
  case (Cons F Fs)
  then show ?case using Cons.IH [of "Suc h" "plug_frame F n"] by (simp add: plug_frame_def tree_files_Node)
qed simp

lemma files_before_unlock [simp]: "files_before h D (map unlock_frame Fs) = files_before h D Fs" "files_after h D (map unlock_frame Fs) = files_after h D Fs"
  by (induction Fs arbitrary: h) simp_all

lemma around_within:
  "path_ok h D tb M P LO HI Fs p lo hi \<Longrightarrow>
     LO \<le> lo \<and> hi \<le> HI \<and> files_within LO lo (files_before h D Fs) \<and> files_within hi HI (files_after h D Fs)"
proof (induction Fs arbitrary: h p lo hi)
  case (Cons F Fs)
  obtain lo' hi' where F: "path_ok (Suc h) D tb M P LO HI Fs (f_parent F) lo' hi'" "frame_ok h D tb M F lo' hi' lo hi"
    using Cons.prems by auto
  have IH: "LO \<le> lo'" "hi' \<le> HI" "files_within LO lo' (files_before (Suc h) D Fs)" "files_within hi' HI (files_after (Suc h) D Fs)"
    using Cons.IH [OF F(1)] by simp_all
  have left: "chain_ok (child_ok h D tb M (f_addr F)) lo' lo (f_left F)" using F(2) by (simp add: frame_ok_def)
  have le: "lo' \<le> lo" using chain_ok_le [OF left] .
  have wl: "files_within lo' lo (child_files h D (f_left F))" using left by (rule chain_files_within [rotated]) (rule child_files_facts)
  have wr: "hi \<le> hi' \<and> files_within hi hi' (child_files h D (f_right F))"
  proof (cases "f_right F = []")
    case True
    then show ?thesis using F(2) by (simp add: frame_ok_def files_within_def)
  next
    case False
    then have "children_ok (child_ok h D tb M (f_addr F)) hi hi' (f_right F)" using F(2) by (simp add: frame_ok_def)
    then have "files_within hi hi' (child_files h D (f_right F)) \<and> child_files h D (f_right F) \<noteq> []"
      by (rule children_files_within [rotated]) (simp add: child_files_facts)
    then show ?thesis using files_within_le by fastforce
  qed
  then have "LO \<le> lo" "hi \<le> HI" using IH(1,2) le by simp_all
  moreover have "files_within LO lo (files_before (Suc h) D Fs @ child_files h D (f_left F))" using IH wl le by (intro files_within_append)
  moreover have "files_within hi HI (child_files h D (f_right F) @ files_after (Suc h) D Fs)" using IH wr by (intro files_within_append) simp_all
  ultimately show ?case by simp
qed (simp add: files_within_def)

section \<open>Walking down\<close>

lemma child_index_spec:
  assumes "children_ok P lo hi cs" "lo < ident" "ident \<le> hi" "ident \<le> FileId_MAX"
  shows "\<exists>xs l m ys lo1 hi1. cs = xs @ (l, m) # ys \<and> child_index ident cs = Some (length xs) \<and> chain_ok P lo lo1 xs
    \<and> P lo1 hi1 l \<and> lo1 < ident \<and> ident \<le> hi1
    \<and> (if ys = [] then m = None \<and> hi1 = hi else m = Some hi1 \<and> lo1 < hi1 \<and> children_ok P hi1 hi ys)"
  using assms
proof (induction cs arbitrary: lo)
  case (Cons c cs)
  obtain l m where c: "c = (l, m)" by force
  show ?case
  proof (cases m)
    case None
    then have "cs = []" "P lo hi l" using Cons.prems(1) c by simp_all
    then show ?thesis using Cons.prems(2-4) None c
      by - (rule exI [of _ "[]"], rule exI [of _ l], rule exI [of _ m], rule exI [of _ "[]"], rule exI [of _ lo], rule exI [of _ hi],
            simp add: child_index_def)
  next
    case (Some k)
    then have k: "lo < k" "P lo k l" "children_ok P k hi cs" using Cons.prems(1) c by simp_all
    then have ne: "cs \<noteq> []" by auto
    show ?thesis
    proof (cases "ident \<le> k")
      case True
      then show ?thesis using Cons.prems(2-4) Some c k ne
        by - (rule exI [of _ "[]"], rule exI [of _ l], rule exI [of _ m], rule exI [of _ cs], rule exI [of _ lo], rule exI [of _ k],
              simp add: child_index_def)
    next
      case False
      then obtain xs l1 m1 ys lo1 hi1 where cs: "cs = xs @ (l1, m1) # ys" "child_index ident cs = Some (length xs)" "chain_ok P k lo1 xs"
        and r: "P lo1 hi1 l1" "lo1 < ident" "ident \<le> hi1"
          "if ys = [] then m1 = None \<and> hi1 = hi else m1 = Some hi1 \<and> lo1 < hi1 \<and> children_ok P hi1 hi ys"
        using Cons.IH [OF k(3) _ Cons.prems(3,4)] by (metis not_le_imp_less)
      have "child_index ident (c # cs) = Some (length (c # xs))" using cs(2) False Some c by (simp add: child_index_def)
      moreover have "chain_ok P lo lo1 (c # xs)" using k cs(3) c Some by simp
      ultimately show ?thesis using cs(1) r
        by - (rule exI [of _ "c # xs"], rule exI [of _ l1], rule exI [of _ m1], rule exI [of _ ys], rule exI [of _ lo1], rule exI [of _ hi1], simp)
    qed
  qed
qed simp

text \<open>The part of the device that the tree refers to.\<close>

definition tree_backed :: "(nat \<Rightarrow> u8 list) \<Rightarrow> (nat \<Rightarrow> bool) \<Rightarrow> TreeNode block_layout \<Rightarrow> (TreeNode \<Rightarrow> bool) \<Rightarrow> (nat \<rightharpoonup> TreeNode) \<Rightarrow> bool" where
  "tree_backed content healthy L valid D \<longleftrightarrow>
     (\<forall>b tn. D b = Some tn \<longrightarrow> content b = block_data L tn \<and> valid tn \<and> healthy b)"

text \<open>
  What a walk to the leaf for an id gives: the path and the locked leaf, in a tree with the same files. A walk for an update holds the
  locks of the whole path.
\<close>

definition reaches ::
    "nat \<Rightarrow> (nat \<rightharpoonup> TreeNode) \<Rightarrow> bool \<Rightarrow> nat \<Rightarrow> bool \<Rightarrow> nat option \<Rightarrow> nat \<Rightarrow> nat \<Rightarrow> MemTreeNode \<Rightarrow> nat \<Rightarrow> frame list \<Rightarrow> MemTreeNode \<Rightarrow> bool" where
  "reaches h D tb M is_mut P LO HI n ident Fs leaf \<longleftrightarrow> length Fs = h
     \<and> (\<exists>lo hi. path_ok 0 D tb M P LO HI Fs (node_parent leaf) lo hi \<and> tree_ok 0 D tb M (node_parent leaf) lo hi (set_lock False leaf)
          \<and> lo < ident \<and> ident \<le> hi)
     \<and> node_lock leaf \<and> (\<forall>F \<in> set Fs. f_lock F = is_mut \<and> (is_mut \<longrightarrow> f_dc F))
     \<and> (Fs \<noteq> [] \<longrightarrow> half_full tb leaf) \<and> node_len (plug Fs leaf) = node_len n
     \<and> node_cap tb (plug Fs leaf) = node_cap tb n \<and> tree_files h D (plug Fs leaf) = tree_files h D n"

lemma node_cap_plug: "Fs \<noteq> [] \<Longrightarrow> node_cap tb (plug Fs n) = NODE_MAX_CHILD_COUNT tb"
proof (induction Fs arbitrary: n)
  case (Cons F Fs)
  then show ?case by (cases "Fs = []") (simp_all add: plug_frame_def)
qed simp

lemma frames_addrs_append [simp]: "frames_addrs (Fs @ Gs) = frames_addrs Fs @ frames_addrs Gs"
  by (induction Fs) simp_all

lemma distinct_replace:
  assumes "distinct (a # xs @ cs @ ys)" "\<forall>x \<in> set (a # xs @ cs @ ys). x < (k::nat)" "distinct zs" "set zs \<subseteq> set cs \<union> {k..<k'}"
  shows "distinct (a # xs @ zs @ ys)"
proof -
  have "y \<notin> set zs" if "y \<in> set (a # xs @ ys)" for y
  proof
    assume "y \<in> set zs"
    then have "y \<in> set cs \<or> k \<le> y" using assms(4) by auto
    moreover have "y < k" using that assms(2) by auto
    moreover have "y \<notin> set cs" using that assms(1) by auto
    ultimately show False by simp
  qed
  then have "set zs \<inter> set (a # xs @ ys) = {}" by blast
  then show ?thesis using assms(1,3) by auto
qed

lemma reaches_step:
  assumes m: "reaches h D tb M is_mut (Some a) lo1 hi1 m ident Fs leaf" "half_full tb m" "tree_files h D m = link_files h D l"
    and F: "frame_ok h D tb M F LO HI lo1 hi1" "f_addr F = a" "f_lock F = is_mut" "is_mut \<longrightarrow> f_dc F"
    and n: "n = Node a (f_parent F) (f_left F @ (l, k) # f_right F) di dc lk"
  shows "reaches (Suc h) D tb M is_mut (f_parent F) LO HI n ident (Fs @ [F]) leaf"
proof -
  have h: "length Fs = h" and lf: "node_lock leaf" "\<forall>F \<in> set Fs. f_lock F = is_mut \<and> (is_mut \<longrightarrow> f_dc F)"
    and len: "Fs \<noteq> [] \<longrightarrow> half_full tb leaf" "node_len (plug Fs leaf) = node_len m" "node_cap tb (plug Fs leaf) = node_cap tb m"
    and fs: "tree_files h D (plug Fs leaf) = tree_files h D m"
    using m(1) by (simp_all add: reaches_def)
  obtain lo hi where r: "path_ok 0 D tb M (Some a) lo1 hi1 Fs (node_parent leaf) lo hi" "tree_ok 0 D tb M (node_parent leaf) lo hi (set_lock False leaf)"
      "lo < ident" "ident \<le> hi"
    using m(1) by (auto simp: reaches_def)
  have "Fs \<noteq> [] \<longrightarrow> NODE_MAX_CHILD_COUNT tb div 2 \<le> Suc (length (f_left (last Fs)) + length (f_right (last Fs)))"
    using len(2,3) m(2) by (auto simp: node_len_plug node_cap_plug half_full_def)
  then have "path_ok 0 D tb M (f_parent F) LO HI (Fs @ [F]) (node_parent leaf) lo hi"
    using r(1) F(1,2) h by (intro path_ok_append) auto
  moreover have "Fs = [] \<Longrightarrow> half_full tb leaf" using len(2,3) m(2) by (simp add: half_full_def)
  moreover have "tree_files (Suc h) D (plug (Fs @ [F]) leaf) = tree_files (Suc h) D n"
    using fs m(3) by (simp add: plug_frame_def tree_files_Node n)
  ultimately show ?thesis using h lf len r(2-4) F(3,4) n by (auto simp: reaches_def plug_frame_def)
qed

section \<open>The whole tree\<close>

definition mem_tree_ok :: "nat \<Rightarrow> (nat \<rightharpoonup> TreeNode) \<Rightarrow> bool \<Rightarrow> nat \<Rightarrow> MemTree \<Rightarrow> bool" where
  "mem_tree_ok h D tb M t \<longleftrightarrow> \<not> root_lock t
     \<and> (\<exists>n. view D None (tree_root t) = Some n \<and> tree_ok h D tb M None 0 FileId_MAX n \<and> (h \<noteq> 0 \<longrightarrow> 2 \<le> node_len n))
     \<and> (\<forall>n. link_node (tree_root t) = Some n \<longrightarrow> distinct (addrs n) \<and> (\<forall>a \<in> set (addrs n). a < next_addr t))"

definition stored_files :: "nat \<Rightarrow> (nat \<rightharpoonup> TreeNode) \<Rightarrow> MemTree \<Rightarrow> FileNode list" where
  "stored_files h D t = link_files h D (tree_root t)"

text \<open>The state of a tree while an operation holds a path in it.\<close>

definition holds_path :: "nat \<Rightarrow> (nat \<rightharpoonup> TreeNode) \<Rightarrow> bool \<Rightarrow> nat \<Rightarrow> bool \<Rightarrow> FileNode list \<Rightarrow> nat \<Rightarrow> frame list \<Rightarrow> MemTreeNode \<Rightarrow> MemTree \<Rightarrow> bool" where
  "holds_path h D tb M is_mut fs ident Fs leaf t \<longleftrightarrow>
     (\<exists>n. reaches h D tb M is_mut None 0 FileId_MAX n ident Fs leaf \<and> tree_files h D n = fs \<and> (h \<noteq> 0 \<longrightarrow> 2 \<le> node_len n))
     \<and> at_path t Fs leaf \<and> root_lock t = is_mut \<and> (\<forall>a \<in> set (frames_addrs Fs @ addrs leaf). a < next_addr t)"

lemma mem_tree_ok_plug:
  assumes "path_ok k D tb M None 0 FileId_MAX Fs p lo hi" "tree_ok k D tb M p lo hi n" "Fs \<noteq> [] \<longrightarrow> half_full tb n"
    and "k + length Fs \<noteq> 0 \<longrightarrow> 2 \<le> node_len (plug Fs n)" "tree_root t = Link (Some (plug (map unlock_frame Fs) n)) dp" "\<not> root_lock t"
    and "distinct (frames_addrs Fs @ addrs n)" "\<forall>a \<in> set (frames_addrs Fs @ addrs n). a < next_addr t"
  shows "mem_tree_ok (k + length Fs) D tb M t" "stored_files (k + length Fs) D t = files_before k D Fs @ tree_files k D n @ files_after k D Fs"
proof -
  have "node_len (plug (map unlock_frame Fs) n) = node_len (plug Fs n)" by (cases "Fs = []") (simp_all add: node_len_plug last_map)
  then show "mem_tree_ok (k + length Fs) D tb M t"
    using assms(4-8) tree_ok_plug [OF assms(1-3)] by (auto simp: mem_tree_ok_def distinct_plug set_addrs_plug)
  show "stored_files (k + length Fs) D t = files_before k D Fs @ tree_files k D n @ files_after k D Fs"
    using tree_files_plug [of k "map unlock_frame Fs" D n] assms(5) by (simp add: stored_files_def)
qed

lemma find_append: "List.find P (xs @ ys) = (case List.find P xs of None \<Rightarrow> List.find P ys | Some x \<Rightarrow> Some x)"
  by (induction xs) simp_all

lemma find_around:
  assumes "files_within LO lo xs" "files_within hi HI ys" "lo < ident" "ident \<le> hi"
  shows "List.find (\<lambda>f. fn_id f = ident) (xs @ fs @ ys) = List.find (\<lambda>f. fn_id f = ident) fs"
proof -
  have "List.find (\<lambda>f. fn_id f = ident) xs = None" "List.find (\<lambda>f. fn_id f = ident) ys = None"
    using assms by (force simp: find_None_iff files_within_def)+
  then show ?thesis by (cases "List.find (\<lambda>f. fn_id f = ident) fs") (simp_all add: find_append split: option.splits)
qed

context block_device
begin

lemma resolve_spec:
  assumes L: "layout_ok (DEV_BLOCK_SIZE dev) valid L" and D: "tree_backed (content d) (healthy d) L valid D"
    and x: "view D p link = Some x" "tree_ok h D tb M p lo hi x"
  shows "\<exists>m dp next' d'. resolve dev L p (link, next, d) = Some (Inr (), (Link (Some m) dp, next', d')) \<and> tree_ok h D tb M p lo hi m
    \<and> node_len m = node_len x \<and> node_cap tb m = node_cap tb x \<and> tree_files h D m = link_files h D link
    \<and> content d' = content d \<and> tree_backed (content d') (healthy d') L valid D
    \<and> (link_node link = Some m \<and> next' = next \<or> link_node link = None \<and> next' = Suc next \<and> addrs m = [next])"
proof (cases "link_node link")
  case (Some m)
  then have "link = Link (Some m) (device_ptr link)" "x = m" using x(1) by (cases link; auto)+
  then show ?thesis using x Some D
    by - (rule exI [of _ m], rule exI [of _ "device_ptr link"], rule exI [of _ "next"], rule exI [of _ d],
          cases link, simp add: resolve_def)
next
  case None
  then obtain b tn where b: "link = Link None (Some b)" "D b = Some tn" "x = new_from 0 tn p"
    using x(1) by (cases "(D, p, link)" rule: view.cases) auto
  obtain d' where d': "read_pointer dev L b d = Some (Inr tn, d')" "content d' = content d" "\<forall>b. healthy d b \<longrightarrow> healthy d' b"
    using read_pointer_ok [OF L, of tn d b] D b(2) by (auto simp: tree_backed_def)
  let ?m = "new_from next tn p"
  have "resolve dev L p (link, next, d) = Some (Inr (), (Link (Some ?m) (Some b), Suc next, d'))" using b(1) d'(1) by (simp add: resolve_def)
  moreover have "tree_ok h D tb M p lo hi ?m" using x(2) unfolding b(3) by (rule tree_ok_new_from)
  moreover have "tree_files h D ?m = link_files h D link" using link_files_view [OF x(1)] b(3) tree_files_new_from by metis
  moreover have "tree_backed (content d') (healthy d') L valid D" using D d'(2,3) by (simp add: tree_backed_def)
  ultimately show ?thesis using b d'(2) new_from_len
    by - (rule exI [of _ ?m], rule exI [of _ "Some b"], rule exI [of _ "Suc next"], rule exI [of _ d'], simp)
qed


lemma descend_path:
  assumes L: "layout_ok (DEV_BLOCK_SIZE dev) valid L" and "tree_backed (content d) (healthy d) L valid D"
    and "tree_ok h D tb M p lo hi n" "lo < ident" "ident \<le> hi" "ident \<le> FileId_MAX"
    and "distinct (addrs n)" "\<forall>a \<in> set (addrs n). a < next"
  shows "\<exists>Fs leaf next' d'. descend dev L is_mut ident (set_lock True n) next d = Some (Inr (node_addr leaf), plug Fs leaf, next', d')
    \<and> reaches h D tb M is_mut p lo hi n ident Fs leaf \<and> next \<le> next' \<and> distinct (addrs (plug Fs leaf))
    \<and> set (addrs (plug Fs leaf)) \<subseteq> set (addrs n) \<union> {next..<next'}
    \<and> content d' = content d \<and> tree_backed (content d') (healthy d') L valid D"
  using assms(2-)
proof (induction h arbitrary: p lo hi n "next" d)
  case 0
  then obtain a fs di where n: "n = Leave a p fs di False" by (cases n) auto
  have "reaches 0 D tb M is_mut p lo hi n ident [] (set_lock True n)" using 0 n by (auto simp: reaches_def)
  moreover have "descend dev L is_mut ident (set_lock True n) next d = Some (Inr (node_addr (set_lock True n)), plug [] (set_lock True n), next, d)"
    by (simp add: descend.simps [of _ _ _ _ "Leave _ _ _ _ _"] n)
  ultimately show ?case using 0 by - (rule exI [of _ "[]"], rule exI [of _ "set_lock True n"], rule exI [of _ "next"], rule exI [of _ d], simp)
next
  case (Suc h)
  obtain a cs di dc where n: "n = Node a p cs di dc False" "length cs \<le> M" "children_ok (child_ok h D tb M a) lo hi cs"
    using Suc.prems(2) by (cases n) (auto simp: tree_ok_Suc)
  obtain xs l m ys lo1 hi1 where cs: "cs = xs @ (l, m) # ys" "child_index ident cs = Some (length xs)"
    and P: "chain_ok (child_ok h D tb M a) lo lo1 xs" "child_ok h D tb M a lo1 hi1 l" "lo1 < ident" "ident \<le> hi1"
      "if ys = [] then m = None \<and> hi1 = hi else m = Some hi1 \<and> lo1 < hi1 \<and> children_ok (child_ok h D tb M a) hi1 hi ys"
    using child_index_spec [OF n(3) Suc.prems(3,4,5)] by metis
  from P(2) obtain x where x: "view D (Some a) l = Some x" "node_cap tb x div 2 \<le> node_len x" "tree_ok h D tb M (Some a) lo1 hi1 x"
    by (rule child_okE)
  obtain c dp next1 d1 where r: "resolve dev L (Some a) (l, next, d) = Some (Inr (), (Link (Some c) dp, next1, d1))"
    and c: "tree_ok h D tb M (Some a) lo1 hi1 c" "node_len c = node_len x" "node_cap tb c = node_cap tb x" "tree_files h D c = link_files h D l"
    and d1: "content d1 = content d" "tree_backed (content d1) (healthy d1) L valid D"
    and new: "link_node l = Some c \<and> next1 = next \<or> link_node l = None \<and> next1 = Suc next \<and> addrs c = [next]"
    using resolve_spec [OF L Suc.prems(1) x(1,3)] by metis
  have lock: "\<not> node_lock c" using c(1) by (cases h; cases c) (auto simp: tree_ok_Suc)
  define C where "C = child_addrs [(l, m)]"
  have l: "C = (case link_node l of None \<Rightarrow> [] | Some n \<Rightarrow> addrs n)" unfolding C_def by (cases l) (auto split: option.splits)
  have ad: "addrs n = a # child_addrs xs @ C @ child_addrs ys" by (simp add: n(1) cs(1) C_def flip: child_addrs_append)
  have "distinct (addrs c)" "\<forall>a \<in> set (addrs c). a < next1" using new Suc.prems(6,7) by (auto simp: ad l)
  then obtain Fs leaf next2 d2 where des: "descend dev L is_mut ident (set_lock True c) next1 d1 = Some (Inr (node_addr leaf), plug Fs leaf, next2, d2)"
    and rc: "reaches h D tb M is_mut (Some a) lo1 hi1 c ident Fs leaf" "next1 \<le> next2" "distinct (addrs (plug Fs leaf))"
      "set (addrs (plug Fs leaf)) \<subseteq> set (addrs c) \<union> {next1..<next2}"
      "content d2 = content d1" "tree_backed (content d2) (healthy d2) L valid D"
    using Suc.IH [OF d1(2) c(1) P(3,4) Suc.prems(5)] by metis
  let ?F = "\<lparr>f_addr = a, f_parent = p, f_left = xs, f_ptr = dp, f_max = m, f_right = ys, f_dirty = di, f_dc = dc \<or> is_mut, f_lock = is_mut\<rparr>"
  have "frame_ok h D tb M ?F lo hi lo1 hi1" using P n(2) cs(1) by (auto simp: frame_ok_def)
  moreover have "half_full tb c" using c(2,3) x(2) by (simp add: half_full_def)
  ultimately have "reaches (Suc h) D tb M is_mut p lo hi n ident (Fs @ [?F]) leaf"
    using reaches_step [OF rc(1) _ c(4), of ?F lo hi n m di dc False] n(1) cs(1) by simp
  moreover have "descend dev L is_mut ident (set_lock True n) next d = Some (Inr (node_addr leaf), plug (Fs @ [?F]) leaf, next2, d2)"
    using cs r lock des by (simp add: n(1) descend.simps [of _ _ _ _ "Node _ _ _ _ _ _"] lock_node_def plug_frame_def nth_append)
  moreover have pl: "addrs (plug (Fs @ [?F]) leaf) = a # child_addrs xs @ addrs (plug Fs leaf) @ child_addrs ys" by (simp add: plug_frame_def)
  have nx: "next \<le> next1" using new by auto
  have sub: "set (addrs (plug Fs leaf)) \<subseteq> set C \<union> {next..<next2}"
  proof
    fix y assume "y \<in> set (addrs (plug Fs leaf))"
    then have "y \<in> set (addrs c) \<or> next1 \<le> y \<and> y < next2" using rc(4) by auto
    then show "y \<in> set C \<union> {next..<next2}" using new rc(2) nx by (auto simp: l)
  qed
  moreover have "distinct (addrs (plug (Fs @ [?F]) leaf))"
    unfolding pl using Suc.prems(6,7) rc(3) sub unfolding ad by (rule distinct_replace)
  moreover have "set (addrs (plug (Fs @ [?F]) leaf)) \<subseteq> set (addrs n) \<union> {next..<next2}" unfolding pl ad using sub by auto
  ultimately show ?case using rc(2,5,6) nx d1(1)
    by - (rule exI [of _ "Fs @ [?F]"], rule exI [of _ leaf], rule exI [of _ next2], rule exI [of _ d2], simp)
qed


lemma find_leave_path:
  assumes L: "layout_ok (DEV_BLOCK_SIZE dev) valid L" and D: "tree_backed (content d) (healthy d) L valid D"
    and t: "mem_tree_ok h D tb M t" and ident: "0 < ident" "ident \<le> FileId_MAX"
  shows "\<exists>Fs leaf t' d'. find_leave dev L is_mut ident (t, d) = Some (Inr (node_addr leaf), (t', d'))
    \<and> holds_path h D tb M is_mut (stored_files h D t) ident Fs leaf t'
    \<and> (\<forall>x. view D None (tree_root t) = Some x \<longrightarrow> node_len (plug Fs leaf) = node_len x)
    \<and> content d' = content d \<and> tree_backed (content d') (healthy d') L valid D"
proof -
  obtain x where x: "view D None (tree_root t) = Some x" "tree_ok h D tb M None 0 FileId_MAX x" "h \<noteq> 0 \<longrightarrow> 2 \<le> node_len x"
    using t by (auto simp: mem_tree_ok_def)
  obtain n dp next1 d1 where r: "resolve dev L None (tree_root t, next_addr t, d) = Some (Inr (), (Link (Some n) dp, next1, d1))"
    and n: "tree_ok h D tb M None 0 FileId_MAX n" "node_len n = node_len x" "tree_files h D n = stored_files h D t"
    and d1: "content d1 = content d" "tree_backed (content d1) (healthy d1) L valid D"
    and new: "link_node (tree_root t) = Some n \<and> next1 = next_addr t \<or> link_node (tree_root t) = None \<and> next1 = Suc (next_addr t) \<and> addrs n = [next_addr t]"
    using resolve_spec [OF L D x(1,2)] unfolding stored_files_def by metis
  have lock: "\<not> node_lock n" using n(1) by (cases h; cases n) (auto simp: tree_ok_Suc)
  have ad: "distinct (addrs n)" "\<forall>a \<in> set (addrs n). a < next1" using new t by (auto simp: mem_tree_ok_def)
  obtain Fs leaf next2 d2 where des: "descend dev L is_mut ident (set_lock True n) next1 d1 = Some (Inr (node_addr leaf), plug Fs leaf, next2, d2)"
    and rc: "reaches h D tb M is_mut None 0 FileId_MAX n ident Fs leaf" "next1 \<le> next2" "distinct (addrs (plug Fs leaf))"
      "set (addrs (plug Fs leaf)) \<subseteq> set (addrs n) \<union> {next1..<next2}"
      "content d2 = content d1" "tree_backed (content d2) (healthy d2) L valid D"
    using descend_path [OF L d1(2) n(1) ident(1) ident(2) ident(2) ad] by metis
  let ?t = "\<lparr>tree_root = Link (Some (plug Fs leaf)) dp, root_lock = is_mut, next_addr = next2\<rparr>"
  have "find_leave dev L is_mut ident (t, d) = Some (Inr (node_addr leaf), (?t, d2))"
    using t r lock des by (simp add: find_leave_def lock_node_def mem_tree_ok_def)
  moreover have "\<forall>a \<in> set (addrs (plug Fs leaf)). a < next2" using rc(2,4) ad(2) by fastforce
  then have "holds_path h D tb M is_mut (stored_files h D t) ident Fs leaf ?t"
    using rc(1,3) n(2,3) x(3) by (auto simp: holds_path_def distinct_plug set_addrs_plug)
  moreover have "\<forall>x. view D None (tree_root t) = Some x \<longrightarrow> node_len (plug Fs leaf) = node_len x"
    using x(1) n(2) rc(1) by (simp add: reaches_def)
  ultimately show ?thesis using rc(5,6) d1(1)
    by - (rule exI [of _ Fs], rule exI [of _ leaf], rule exI [of _ ?t], rule exI [of _ d2], simp)
qed

lemma find_file_spec:
  assumes L: "layout_ok (DEV_BLOCK_SIZE dev) valid L" and D: "tree_backed (content d) (healthy d) L valid D"
    and t: "mem_tree_ok h D tb M t" and ident: "0 < ident" "ident \<le> FileId_MAX"
  shows "\<exists>t' d'. find_file dev L ident (t, d) = Some (Inr (List.find (\<lambda>f. fn_id f = ident) (stored_files h D t)), (t', d'))
    \<and> mem_tree_ok h D tb M t' \<and> stored_files h D t' = stored_files h D t
    \<and> content d' = content d \<and> tree_backed (content d') (healthy d') L valid D"
proof -
  obtain Fs leaf t1 d1 where fl: "find_leave dev L False ident (t, d) = Some (Inr (node_addr leaf), (t1, d1))"
    and hp: "holds_path h D tb M False (stored_files h D t) ident Fs leaf t1"
    and d1: "content d1 = content d" "tree_backed (content d1) (healthy d1) L valid D"
    using find_leave_path [OF assms] by metis
  obtain n where n: "reaches h D tb M False None 0 FileId_MAX n ident Fs leaf" "tree_files h D n = stored_files h D t" "h \<noteq> 0 \<longrightarrow> 2 \<le> node_len n"
    and pt: "at_path t1 Fs leaf" "\<not> root_lock t1" "\<forall>a \<in> set (frames_addrs Fs @ addrs leaf). a < next_addr t1"
    using hp by (auto simp: holds_path_def)
  obtain lo hi where p: "path_ok 0 D tb M None 0 FileId_MAX Fs (node_parent leaf) lo hi"
      "tree_ok 0 D tb M (node_parent leaf) lo hi (set_lock False leaf)" "lo < ident" "ident \<le> hi"
    and Fs: "length Fs = h" "node_lock leaf" "\<forall>F \<in> set Fs. \<not> f_lock F" "Fs \<noteq> [] \<longrightarrow> half_full tb leaf"
      "node_len (plug Fs leaf) = node_len n" "tree_files h D (plug Fs leaf) = stored_files h D t"
    using n by (auto simp: reaches_def)
  obtain a q fs di where leaf: "leaf = Leave a q fs di True" using p(2) Fs(2) by (cases leaf) auto
  have un: "map unlock_frame Fs = Fs" using Fs(3) by (intro map_idI) (simp add: unlock_frame_def)
  let ?t = "put_node (node_addr leaf) (set_lock False leaf) t1"
  have t2: "?t = t1\<lparr>tree_root := Link (Some (plug Fs (set_lock False leaf))) (device_ptr (tree_root t1))\<rparr>" using put_node_path [OF pt(1) refl] .
  have fs: "stored_files h D t = files_before 0 D Fs @ fs @ files_after 0 D Fs" using tree_files_plug [of 0 Fs D leaf] Fs(1,6) leaf by simp
  have "node_len (plug Fs (set_lock False leaf)) = node_len (plug Fs leaf)" by (cases "Fs = []") (simp_all add: node_len_plug)
  moreover have hf: "Fs \<noteq> [] \<longrightarrow> half_full tb (set_lock False leaf)" using Fs(4) by simp
  ultimately have ok: "mem_tree_ok h D tb M ?t" "stored_files h D ?t = stored_files h D t"
    using mem_tree_ok_plug [OF p(1,2) hf, of ?t "device_ptr (tree_root t1)"] pt Fs(1,4,5) n(3) t2 fs by (simp_all add: un leaf)
  have "List.find (\<lambda>f. fn_id f = ident) (stored_files h D t) = List.find (\<lambda>f. fn_id f = ident) fs"
    unfolding fs using around_within [OF p(1)] p(3,4) by (intro find_around [of 0 lo _ hi FileId_MAX]) simp_all
  then have "find_file dev L ident (t, d) = Some (Inr (List.find (\<lambda>f. fn_id f = ident) (stored_files h D t)), (?t, d1))"
    using fl get_node_path [OF pt(1)] by (simp add: find_file_def attempt_def leaf unlock_node_def)
  then show ?thesis using ok d1 by metis
qed

end

section \<open>Lookup on a file device\<close>

text \<open>
  (C36) Looking up a file. In a valid tree, with any part of it loaded and the rest readable from the device, \<open>find\<close> returns the file with
  the given id exactly when the tree holds one. The tree it leaves is valid again, with all locks released, and holds the same files.
\<close>

theorem find_correct:
  assumes "mem_tree_ok h D tb M t" "layout_ok 4096 valid L" "tree_backed (file_content d) (file_healthy d) L valid D" "0 < ident" "ident \<le> FileId_MAX"
  shows "\<exists>t' d'. find_file file_device L ident (t, d) = Some (Inr (List.find (\<lambda>f. fn_id f = ident) (stored_files h D t)), (t', d'))
    \<and> mem_tree_ok h D tb M t' \<and> stored_files h D t' = stored_files h D t \<and> file_content d' = file_content d"
proof -
  have "layout_ok (DEV_BLOCK_SIZE file_device) valid L" using assms(2) by (simp add: file_device_def)
  from fd.find_file_spec [OF this assms(3,1,4,5)] show ?thesis by metis
qed

text \<open>A leaf with the files of the given ids, and a layout that stores one node as a block of zeros.\<close>

definition sample_fs_file :: "nat \<Rightarrow> FsFileNode" where
  "sample_fs_file i = \<lparr>fs_id = i, fs_parent = None, fs_typ = FileT, fs_permissions = replicate 4 0, fs_uid = 0, fs_gid = 0, fs_size = 0,
     fs_created_at = 0, fs_modified_at = 0, fs_block_data = HeadSingle \<lparr>bg_start = i, bg_count = 1\<rparr>, fs_block_count = 1\<rparr>"

abbreviation sample_file_node :: "nat \<Rightarrow> FileNode" where
  "sample_file_node i \<equiv> FileNode_from (sample_fs_file i)"

lemma sample_file_id [simp]: "fn_id (sample_file_node i) = i"
  by (simp add: FileNode_from_def sample_fs_file_def)

definition one_node_layout :: "TreeNode \<Rightarrow> TreeNode block_layout" where
  "one_node_layout tn = \<lparr>size_of = 4096, block_data = (\<lambda>_. replicate 4096 0), from_block = (\<lambda>_. tn)\<rparr>"

lemma one_node_layout_ok: "layout_ok 4096 (\<lambda>x. x = tn) (one_node_layout tn)"
  by (simp add: layout_ok_def one_node_layout_def)

lemma sample_content: "b < 16 \<Longrightarrow> file_content sample_file b = replicate 4096 0"
proof -
  have "byte_at (contents (fd_file sample_file)) = (\<lambda>_. 0)" by (auto simp: sample_file_def byte_at_def)
  then show ?thesis by (simp add: file_content_def BLOCK_SIZE_def map_replicate_const)
qed

definition sample_leaf :: TreeNode where
  "sample_leaf = TreeLeave (map sample_fs_file [2, 4, 7])"

definition sample_unloaded :: MemTree where
  "sample_unloaded = \<lparr>tree_root = Link None (Some 5), root_lock = False, next_addr = 0\<rparr>"

theorem find_correct_witness:
  "(\<exists>t' d'. find_file file_device (one_node_layout sample_leaf) 4 (sample_unloaded, sample_file) = Some (Inr (Some (sample_file_node 4)), (t', d')))
    \<and> (\<exists>t' d'. find_file file_device (one_node_layout sample_leaf) 5 (sample_unloaded, sample_file) = Some (Inr None, (t', d')))"
proof -
  let ?D = "[5 \<mapsto> sample_leaf] :: nat \<rightharpoonup> TreeNode"
  have t: "mem_tree_ok 0 ?D False 250 sample_unloaded"
    by (simp add: mem_tree_ok_def sample_unloaded_def sample_leaf_def LEAVE_MAX_FILE_COUNT_def FileId_MAX_def u64_max_def)
  have b: "tree_backed (file_content sample_file) (file_healthy sample_file) (one_node_layout sample_leaf) (\<lambda>x. x = sample_leaf) ?D"
    by (simp add: tree_backed_def sample_content one_node_layout_def) (simp add: file_healthy_def sample_file_def BLOCK_SIZE_def u64_max_def)
  have "stored_files 0 ?D sample_unloaded = map sample_file_node [2, 4, 7]" by (simp add: stored_files_def link_files_def sample_unloaded_def sample_leaf_def)
  then show ?thesis
    using find_correct [OF t one_node_layout_ok b, of 4] find_correct [OF t one_node_layout_ok b, of 5]
    by (fastforce simp: FileId_MAX_def u64_max_def)
qed

end
