(* ===== verification/Mem_Tree_Insert.thy ===== *)
theory Mem_Tree_Insert
  imports Mem_Tree_Find
begin

text \<open>
  Inserting into the tree of files: a file is added or replaced, leaves that are full are split, and a split that overflows an inner node
  destroys the tree.
\<close>

section \<open>Sorted lists of files\<close>

definition insert_sorted :: "FileNode \<Rightarrow> FileNode list \<Rightarrow> FileNode list" where
  "insert_sorted f fs = takeWhile (\<lambda>g. fn_id g < fn_id f) fs @ f # dropWhile (\<lambda>g. fn_id g \<le> fn_id f) fs"

lemma insert_sorted_simps [simp]:
  "insert_sorted f [] = [f]"
  "insert_sorted f (g # fs) = (if fn_id g < fn_id f then g # insert_sorted f fs
     else if fn_id g = fn_id f then f # dropWhile (\<lambda>g. fn_id g \<le> fn_id f) fs else f # g # fs)"
  by (auto simp: insert_sorted_def)

lemma dropWhile_above: "\<forall>g \<in> set fs. (k::nat) < fn_id g \<Longrightarrow> dropWhile (\<lambda>g. fn_id g \<le> k) fs = fs"
  by (cases fs) auto

lemma insert_sorted_replace:
  assumes "sorted_wrt (<) (map fn_id fs)" "position (\<lambda>g. fn_id g = fn_id f) fs = Some i"
  shows "fs[i := f] = insert_sorted f fs"
  using assms
proof (induction fs arbitrary: i)
  case (Cons g fs)
  show ?case
  proof (cases "fn_id g = fn_id f")
    case True
    then have "dropWhile (\<lambda>g. fn_id g \<le> fn_id f) fs = fs" using Cons.prems(1) by (intro dropWhile_above) auto
    then show ?thesis using True Cons.prems(2) by simp
  next
    case False
    then obtain j where j: "position (\<lambda>g. fn_id g = fn_id f) fs = Some j" "i = Suc j" using Cons.prems(2) by auto
    have "fn_id (fs ! j) = fn_id f" "j < length fs" using position_SomeD [OF j(1)] by simp_all
    then have "fn_id g < fn_id f" using Cons.prems(1) by (metis list.simps(9) nth_mem sorted_wrt.simps(2) imageI set_map)
    then show ?thesis using Cons.IH [OF _ j(1)] Cons.prems(1) j(2) by simp
  qed
qed simp

lemma insert_pos_le: "insert_pos f fs \<le> length fs"
  using position_less by (fastforce simp: insert_pos_def split: option.splits)

lemma insert_sorted_new:
  assumes "sorted_wrt (<) (map fn_id fs)" "position (\<lambda>g. fn_id g = fn_id f) fs = None"
  shows "insert_at (insert_pos f fs) f fs = insert_sorted f fs"
  using assms
proof (induction fs)
  case (Cons g fs)
  then have IH: "insert_at (insert_pos f fs) f fs = insert_sorted f fs" by (auto split: if_splits)
  show ?case
  proof (cases "fn_id g > fn_id f")
    case False
    then have "fn_id g < fn_id f" using Cons.prems(2) by (auto split: if_splits)
    then show ?thesis using IH by (auto simp: insert_at_def insert_pos_def split: option.splits)
  qed (simp add: insert_at_def insert_pos_def)
qed (simp add: insert_at_def insert_pos_def)

lemma set_insert_sorted: "g \<in> set (insert_sorted f fs) \<Longrightarrow> g = f \<or> g \<in> set fs"
  by (auto simp: insert_sorted_def dest: set_takeWhileD set_dropWhileD)

lemma sorted_insert_sorted: "sorted_wrt (<) (map fn_id fs) \<Longrightarrow> sorted_wrt (<) (map fn_id (insert_sorted f fs))"
proof (induction fs)
  case (Cons g fs)
  have "\<forall>x \<in> set (insert_sorted f fs). x = f \<or> fn_id g < fn_id x" using set_insert_sorted Cons.prems by fastforce
  moreover have "fn_id g = fn_id f \<Longrightarrow> dropWhile (\<lambda>g. fn_id g \<le> fn_id f) fs = fs" using Cons.prems by (intro dropWhile_above) auto
  ultimately show ?case using Cons by auto
qed simp

lemma insert_sorted_within: "files_within lo hi fs \<Longrightarrow> lo < fn_id f \<Longrightarrow> fn_id f \<le> hi \<Longrightarrow> files_within lo hi (insert_sorted f fs)"
  using sorted_insert_sorted set_insert_sorted by (fastforce simp: files_within_def)

lemma insert_sorted_around:
  assumes "files_within LO lo xs" "files_within hi HI ys" "lo < fn_id f" "fn_id f \<le> hi"
  shows "insert_sorted f (xs @ fs @ ys) = xs @ insert_sorted f fs @ ys"
proof -
  have xs: "\<forall>g \<in> set xs. fn_id g < fn_id f" using assms(1,3) by (auto simp: files_within_def)
  have ys: "\<forall>g \<in> set ys. fn_id f < fn_id g" using assms(2,4) by (fastforce simp: files_within_def)
  have "takeWhile (\<lambda>g. fn_id g < fn_id f) (fs @ ys) = takeWhile (\<lambda>g. fn_id g < fn_id f) fs"
    using ys by (cases ys) (auto simp: takeWhile_append not_less takeWhile_eq_all_conv [THEN iffD2, symmetric] dest!: less_imp_le)
  moreover have "dropWhile (\<lambda>g. fn_id g \<le> fn_id f) (fs @ ys) = dropWhile (\<lambda>g. fn_id g \<le> fn_id f) fs @ ys"
    using dropWhile_above [OF ys] by (auto simp: dropWhile_append)
  ultimately show ?thesis using xs by (simp add: insert_sorted_def takeWhile_append2 dropWhile_append2 less_imp_le)
qed

section \<open>Bounds\<close>

lemma tree_ok_bound: "tree_ok h D tb M p lo hi n \<Longrightarrow> M \<le> M' \<Longrightarrow> tree_ok h D tb M' p lo hi n"
proof (induction h arbitrary: p lo hi n)
  case 0
  then show ?case by (cases n) simp_all
next
  case (Suc h)
  obtain a cs di dc where n: "n = Node a p cs di dc False" "length cs \<le> M" "children_ok (child_ok h D tb M a) lo hi cs"
    using Suc.prems(1) by (cases n) (auto simp: tree_ok_Suc)
  have "child_ok h D tb M' a lo hi l" if "child_ok h D tb M a lo hi l" for lo hi l
    using that Suc.IH [OF _ Suc.prems(2)] by (simp add: child_ok_def split: option.splits)
  then have "children_ok (child_ok h D tb M' a) lo hi cs" using n(3) by - (erule children_ok_imp, blast)
  then show ?case using n(1,2) Suc.prems(2) by (simp add: tree_ok_Suc)
qed

lemma child_ok_bound: "child_ok h D tb M a lo hi l \<Longrightarrow> M \<le> M' \<Longrightarrow> child_ok h D tb M' a lo hi l"
  by (auto simp: child_ok_def split: option.splits intro: tree_ok_bound)

lemma chains_bound:
  "chain_ok (child_ok h D tb M a) lo hi cs \<Longrightarrow> M \<le> M' \<Longrightarrow> chain_ok (child_ok h D tb M' a) lo hi cs"
  "children_ok (child_ok h D tb M a) lo hi cs \<Longrightarrow> M \<le> M' \<Longrightarrow> children_ok (child_ok h D tb M' a) lo hi cs"
  by (erule chain_ok_imp children_ok_imp, erule child_ok_bound, assumption)+

lemma frame_ok_bound: "frame_ok h D tb M F lo' hi' lo hi \<Longrightarrow> M \<le> M' \<Longrightarrow> frame_ok h D tb M' F lo' hi' lo hi"
  by (auto simp: frame_ok_def chains_bound split: if_splits)

lemma path_ok_bound: "path_ok h D tb M P LO HI Fs p lo hi \<Longrightarrow> M \<le> M' \<Longrightarrow> path_ok h D tb M' P LO HI Fs p lo hi"
proof (induction Fs arbitrary: h p lo hi)
  case (Cons F Fs)
  then show ?case using frame_ok_bound by auto blast
qed simp

section \<open>A leaf with new files\<close>

text \<open>The facts about a path that an update of its leaf starts from.\<close>

definition leaf_path :: "(nat \<rightharpoonup> TreeNode) \<Rightarrow> bool \<Rightarrow> nat \<Rightarrow> nat \<Rightarrow> nat \<Rightarrow> frame list \<Rightarrow> MemTreeNode \<Rightarrow> MemTree \<Rightarrow> bool" where
  "leaf_path D tb M lo hi Fs leaf t \<longleftrightarrow> path_ok 0 D tb M None 0 FileId_MAX Fs (node_parent leaf) lo hi \<and> at_path t Fs leaf
     \<and> (\<forall>F \<in> set Fs. f_lock F) \<and> root_lock t \<and> (\<forall>a \<in> set (frames_addrs Fs @ addrs leaf). a < next_addr t)
     \<and> (Fs \<noteq> [] \<longrightarrow> 2 \<le> node_len (plug Fs leaf)) \<and> node_lock leaf"

lemma holds_pathE:
  assumes "holds_path h D tb M True fs ident Fs leaf t"
  obtains a q lfs di lo hi where "leaf = Leave a q lfs di True" "leaf_path D tb M lo hi Fs leaf t" "files_within lo hi lfs"
    "length lfs \<le> LEAVE_MAX_FILE_COUNT tb" "lo < ident" "ident \<le> hi" "length Fs = h"
    "Fs \<noteq> [] \<longrightarrow> LEAVE_MAX_FILE_COUNT tb div 2 \<le> length lfs" "fs = files_before 0 D Fs @ lfs @ files_after 0 D Fs"
proof -
  obtain n where n: "reaches h D tb M True None 0 FileId_MAX n ident Fs leaf" "tree_files h D n = fs" "h \<noteq> 0 \<longrightarrow> 2 \<le> node_len n"
    and pt: "at_path t Fs leaf" "root_lock t" "\<forall>a \<in> set (frames_addrs Fs @ addrs leaf). a < next_addr t"
    using assms by (auto simp: holds_path_def)
  obtain lo hi where p: "path_ok 0 D tb M None 0 FileId_MAX Fs (node_parent leaf) lo hi"
      "tree_ok 0 D tb M (node_parent leaf) lo hi (set_lock False leaf)" "lo < ident" "ident \<le> hi"
    and Fs: "length Fs = h" "node_lock leaf" "\<forall>F \<in> set Fs. f_lock F" "Fs \<noteq> [] \<longrightarrow> half_full tb leaf"
      "node_len (plug Fs leaf) = node_len n" "tree_files h D (plug Fs leaf) = fs"
    using n by (auto simp: reaches_def)
  obtain a q lfs di where leaf: "leaf = Leave a q lfs di True" using p(2) Fs(2) by (cases leaf) auto
  have "fs = files_before 0 D Fs @ lfs @ files_after 0 D Fs" using tree_files_plug [of 0 Fs D leaf] Fs(1,6) leaf by simp
  moreover have "leaf_path D tb M lo hi Fs leaf t" using p(1) pt Fs n(3) by (auto simp: leaf_path_def)
  ultimately show thesis using that [OF leaf] p(2-4) Fs(1,4) leaf by (simp add: files_within_def half_full_def)
qed

lemma leaf_path_put:
  assumes "leaf_path D tb M lo hi Fs (Leave a q lfs di True) t"
  shows "leaf_path D tb M lo hi Fs (Leave a q lfs' di' True) (put_node a (Leave a q lfs' di' True) t)"
proof -
  have "at_path t Fs (Leave a q lfs di True)" using assms by (simp add: leaf_path_def)
  from get_node_put_path(1) [OF this, of a "Leave a q lfs' di' True"]
  have "at_path (put_node a (Leave a q lfs' di' True) t) Fs (Leave a q lfs' di' True)" by simp
  moreover have "Fs \<noteq> [] \<Longrightarrow> node_len (plug Fs (Leave a q lfs' di' True)) = node_len (plug Fs (Leave a q lfs di True))" by (simp add: node_len_plug)
  ultimately show ?thesis using assms by (simp add: leaf_path_def put_node_def)
qed

lemma leaf_released:
  assumes "leaf_path D tb M lo hi Fs (Leave a q lfs di True) t" "files_within lo hi lfs" "length lfs \<le> LEAVE_MAX_FILE_COUNT tb"
    and "Fs \<noteq> [] \<longrightarrow> LEAVE_MAX_FILE_COUNT tb div 2 \<le> length lfs"
  shows "\<exists>t'. unlock_upwards a t = Some t' \<and> mem_tree_ok (length Fs) D tb M t'
    \<and> stored_files (length Fs) D t' = files_before 0 D Fs @ lfs @ files_after 0 D Fs"
proof -
  let ?u = "Leave a q lfs di False"
  have p: "path_ok 0 D tb M None 0 FileId_MAX Fs q lo hi" and at: "at_path t Fs (Leave a q lfs di True)" using assms(1) by (simp_all add: leaf_path_def)
  let ?t = "t\<lparr>tree_root := Link (Some (plug (map unlock_frame Fs) ?u)) (device_ptr (tree_root t)), root_lock := False\<rparr>"
  have "unlock_upwards a t = Some ?t"
    using unlock_upwards_path [OF at] path_ok_linked [OF p] assms(1) by (simp add: leaf_path_def)
  moreover have u: "tree_ok 0 D tb M q lo hi ?u" "Fs \<noteq> [] \<longrightarrow> half_full tb ?u" using assms(2-4) by (simp_all add: files_within_def half_full_def)
  have "Fs \<noteq> [] \<Longrightarrow> node_len (plug Fs ?u) = node_len (plug Fs (Leave a q lfs di True))" by (simp add: node_len_plug)
  then have "mem_tree_ok (0 + length Fs) D tb M ?t" "stored_files (0 + length Fs) D ?t = files_before 0 D Fs @ tree_files 0 D ?u @ files_after 0 D Fs"
    using at assms(1) by (intro mem_tree_ok_plug [OF p u]; simp add: leaf_path_def)+
  ultimately show ?thesis by - (rule exI [of _ ?t], simp)
qed

lemmas leaf_stored = leaf_released [OF leaf_path_put [where di' = True]]

text \<open>A full leaf is cut in the middle and the new file goes to one of the two halves.\<close>

lemma insert_at_append:
  "pos \<le> length xs \<Longrightarrow> insert_at pos f (xs @ ys) = insert_at pos f xs @ ys"
  "length xs \<le> pos \<Longrightarrow> insert_at pos f (xs @ ys) = xs @ insert_at (pos - length xs) f ys"
  by (simp_all add: insert_at_def)

lemma insert_at_not_Nil [simp]: "insert_at i x xs \<noteq> []"
  by (simp add: insert_at_def)

lemma split_full:
  assumes "length fs = cap" "even cap" "0 < cap" "pos \<le> length fs"
  shows "\<exists>l r. (if pos \<le> cap div 2 then map_option (\<lambda>fs1. (fs1, drop (cap div 2) fs)) (vec_insert cap pos f (take (cap div 2) fs))
      else map_option (\<lambda>fs1. (take (cap div 2) fs, fs1)) (vec_insert cap (pos - cap div 2) f (drop (cap div 2) fs))) = Some (l, r)
    \<and> l @ r = insert_at pos f fs \<and> cap div 2 \<le> length l \<and> length l \<le> cap \<and> cap div 2 \<le> length r \<and> length r \<le> cap \<and> l \<noteq> [] \<and> r \<noteq> []"
proof -
  obtain k where k: "cap = 2 * k" "0 < k" using assms(2,3) by (auto elim!: evenE)
  show ?thesis
  proof (cases "pos \<le> k")
    case True
    then have "insert_at pos f fs = insert_at pos f (take k fs) @ drop k fs"
      using insert_at_append(1) [of pos "take k fs" f "drop k fs"] assms(1) k by simp
    then show ?thesis using True assms(1) k by (simp add: vec_insert_def)
  next
    case False
    then have "insert_at pos f fs = take k fs @ insert_at (pos - k) f (drop k fs)"
      using insert_at_append(2) [of "take k fs" pos f "drop k fs"] assms(1) k by simp
    moreover have "pos - k \<le> k" "fs \<noteq> []" using False assms(1,4) k by auto
    ultimately show ?thesis using False assms(1) k by (simp add: vec_insert_def)
  qed
qed

lemma files_within_split:
  assumes "files_within lo hi (l @ r)" "l \<noteq> []" "r \<noteq> []"
  shows "files_within lo (fn_id (last l)) l" "files_within (fn_id (last l)) (fn_id (last r)) r" "files_within (fn_id (last l)) hi r"
    "lo < fn_id (last l)" "fn_id (last l) < fn_id (last r)" "fn_id (last r) \<le> hi"
proof -
  have sl: "sorted_wrt (<) (map fn_id l)" "sorted_wrt (<) (map fn_id r)" "\<forall>x \<in> set l. \<forall>y \<in> set r. fn_id x < fn_id y"
    using assms(1) by (auto simp: files_within_def sorted_wrt_append)
  have last: "\<forall>x \<in> set xs. fn_id x \<le> fn_id (last xs)" if "sorted_wrt (<) (map fn_id xs)" for xs
    using that by (induction xs) (auto, meson last_in_set less_imp_le)
  show "files_within lo (fn_id (last l)) l" "files_within (fn_id (last l)) (fn_id (last r)) r" "files_within (fn_id (last l)) hi r"
    "lo < fn_id (last l)" "fn_id (last l) < fn_id (last r)" "fn_id (last r) \<le> hi"
    using assms sl last [OF sl(1)] last [OF sl(2)] by (auto simp: files_within_def)
qed

section \<open>Splitting a leaf\<close>

definition leaf_halves :: "bool \<Rightarrow> nat \<Rightarrow> nat \<Rightarrow> FileNode list \<Rightarrow> FileNode list \<Rightarrow> bool" where
  "leaf_halves tb lo hi l r \<longleftrightarrow> files_within lo hi (l @ r) \<and> l \<noteq> [] \<and> r \<noteq> []
     \<and> LEAVE_MAX_FILE_COUNT tb div 2 \<le> length l \<and> length l \<le> LEAVE_MAX_FILE_COUNT tb
     \<and> LEAVE_MAX_FILE_COUNT tb div 2 \<le> length r \<and> length r \<le> LEAVE_MAX_FILE_COUNT tb"

lemma child_ok_leaf:
  "child_ok 0 D tb M b lo hi (Link (Some (Leave a (Some b) fs di False)) dp) \<longleftrightarrow>
     files_within lo hi fs \<and> LEAVE_MAX_FILE_COUNT tb div 2 \<le> length fs \<and> length fs \<le> LEAVE_MAX_FILE_COUNT tb"
  by (auto simp: child_ok_node half_full_def files_within_def)

lemma split_at_root:
  assumes path: "leaf_path D tb M lo hi [] (Leave a q lfs di True) t" and lr: "leaf_halves tb lo hi l r" and M: "2 \<le> M"
  shows "\<exists>t'. insert_split_at_root a (fn_id (last l)) (Leave 0 q r True False) (put_node a (Leave a q l True True) t) = Some t'
    \<and> mem_tree_ok 1 D tb M t' \<and> stored_files 1 D t' = l @ r"
proof -
  have q: "q = None" "lo = 0" "hi = FileId_MAX" "root_lock t" "a < next_addr t" and at: "at_path t [] (Leave a q lfs di True)"
    using path by (simp_all add: leaf_path_def)
  let ?b = "next_addr t" and ?c = "Suc (next_addr t)"
  let ?cs = "[(Link (Some (Leave a (Some ?c) l True False)) None, Some (fn_id (last l))), (Link (Some (Leave ?b (Some ?c) r True False)) None, None)] :: child list"
  let ?t = "\<lparr>tree_root = Link (Some (Node ?c None ?cs True True False)) None, root_lock = False, next_addr = Suc ?c\<rparr>"
  have w: "files_within 0 (fn_id (last l)) l" "files_within (fn_id (last l)) FileId_MAX r" "0 < fn_id (last l)"
    using files_within_split [of lo hi l r] lr q by (simp_all add: leaf_halves_def)
  have at1: "at_path (put_node a (Leave a q l True True) t) [] (Leave a q l True True)" using get_node_put_path(1) [OF at, of a "Leave a q l True True"] by simp
  have "put_node a (Leave a q l True False) (put_node a (Leave a q l True True) t) = t\<lparr>tree_root := Link (Some (Leave a q l True False)) (device_ptr (tree_root t))\<rparr>"
    using at by (simp add: put_node_def)
  then have "insert_split_at_root a (fn_id (last l)) (Leave 0 q r True False) (put_node a (Leave a q l True True) t) = Some ?t"
    using get_node_path [OF at1] q(1,4) at by (simp add: insert_split_at_root_def unlock_node_def put_node_def Let_def)
  moreover have "tree_ok 1 D tb M None 0 FileId_MAX (Node ?c None ?cs True True False)"
    using w lr M by (simp add: tree_ok_Suc child_ok_leaf leaf_halves_def)
  then have "mem_tree_ok 1 D tb M ?t" using q(5) by (simp add: mem_tree_ok_def)
  moreover have "stored_files 1 D ?t = l @ r" by (simp add: stored_files_def tree_files_Node)
  ultimately show ?thesis by blast
qed

lemma split_children:
  assumes F: "frame_ok 0 D tb M F lo' hi' lo hi" and lr: "leaf_halves tb lo hi l r"
  shows "children_ok (child_ok 0 D tb M (f_addr F)) lo' hi'
    (f_left F @ (Link (Some (Leave a (Some (f_addr F)) l True False)) dp, Some (fn_id (last l)))
       # (Link (Some (Leave b (Some (f_addr F)) r True False)) None, if f_right F = [] then None else Some (fn_id (last r))) # f_right F)"
proof -
  have w: "files_within lo (fn_id (last l)) l" "files_within (fn_id (last l)) (fn_id (last r)) r" "files_within (fn_id (last l)) hi r"
    "lo < fn_id (last l)" "fn_id (last l) < fn_id (last r)" "fn_id (last r) \<le> hi"
    using files_within_split [of lo hi l r] lr by (simp_all add: leaf_halves_def)
  have "children_ok (child_ok 0 D tb M (f_addr F)) (fn_id (last r)) hi' (f_right F)" if "f_right F \<noteq> []"
  proof -
    have "children_ok (child_ok 0 D tb M (f_addr F)) hi hi' (f_right F)" using F that by (simp add: frame_ok_def)
    then show ?thesis by (rule children_ok_mono [OF _ w(6) order_refl child_ok_mono])
  qed
  moreover have "f_right F = [] \<Longrightarrow> hi = hi'" using F by (simp add: frame_ok_def)
  ultimately show ?thesis using F w lr by (subst children_ok_append) (auto simp: frame_ok_def child_ok_leaf leaf_halves_def)
qed

lemma position_child:
  assumes "node_addr n = a" "a \<notin> set (child_addrs xs)"
  shows "position (\<lambda>(child, _). map_option node_addr (link_node child) = Some a) (xs @ (Link (Some n) dp, m) # ys) = Some (length xs)"
  using assms
proof (induction xs)
  case (Cons c xs)
  obtain l k where c: "c = (l, k)" by force
  have "map_option node_addr (link_node l) \<noteq> Some a" using Cons.prems(2) c by (cases l) (auto simp: Cons_eq_append_conv)
  moreover have "a \<notin> set (child_addrs xs)" using Cons.prems(2) child_addrs_append [of "[c]" xs] by simp
  ultimately show ?case using Cons c by simp
qed simp

lemma split_in_parent:
  assumes path: "leaf_path D tb M lo hi (F # Fs) (Leave a q lfs di True) t" and lr: "leaf_halves tb lo hi l r"
    and M: "M < NODE_MAX_CHILD_COUNT tb"
  shows "\<exists>t'. insert_split tb (f_addr F) a (fn_id (last l)) (Leave 0 q r True False) (fn_id (last r))
      (put_node a (Leave a q l True False) (put_node a (Leave a q l True True) t)) = Some t'
    \<and> mem_tree_ok (Suc (length Fs)) D tb (Suc M) t'
    \<and> stored_files (Suc (length Fs)) D t' = files_before 0 D (F # Fs) @ (l @ r) @ files_after 0 D (F # Fs)"
proof -
  let ?leaf = "Leave a q l True False" and ?b = "next_addr t"
  define new where "new = Leave ?b q r True False"
  obtain lo' hi' where p: "path_ok (Suc 0) D tb M None 0 FileId_MAX Fs (f_parent F) lo' hi'" and F: "frame_ok 0 D tb M F lo' hi' lo hi"
    and q: "q = Some (f_addr F)" and half: "Fs \<noteq> [] \<longrightarrow> NODE_MAX_CHILD_COUNT tb div 2 \<le> Suc (length (f_left F) + length (f_right F))"
    using path by (auto simp: leaf_path_def)
  have at: "at_path t (F # Fs) (Leave a q lfs di True)" and rl: "root_lock t" "f_lock F" "\<forall>F \<in> set Fs. f_lock F"
    and bound: "\<forall>x \<in> set (frames_addrs (F # Fs) @ [a]). x < ?b" and two: "2 \<le> node_len (plug (F # Fs) (Leave a q lfs di True))"
    using path by (simp_all add: leaf_path_def del: plug.simps path_ok.simps)
  define t2 where "t2 = t\<lparr>tree_root := Link (Some (plug (F # Fs) ?leaf)) (device_ptr (tree_root t))\<rparr>"
  have at1: "at_path (put_node a (Leave a q l True True) t) (F # Fs) (Leave a q l True True)" using get_node_put_path(1) [OF at, of a "Leave a q l True True"] by simp
  have t2: "put_node a ?leaf (put_node a (Leave a q l True True) t) = t2" using put_node_path [OF at1, of a] by (simp add: t2_def put_node_def)
  have at2: "at_path t2 Fs (plug_frame F ?leaf)" using at by (auto simp: t2_def plug_frame_def)
  let ?m = "if f_right F = [] then None else Some (fn_id (last r))"
  define cs where "cs = f_left F @ (Link (Some ?leaf) (f_ptr F), Some (fn_id (last l))) # (Link (Some new) None, ?m) # f_right F"
  define N where "N = Node (f_addr F) (f_parent F) cs True (f_dc F) True"
  let ?t3 = "t2\<lparr>next_addr := Suc ?b, tree_root := Link (Some (plug Fs N)) (device_ptr (tree_root t))\<rparr>"
  have pos: "position (\<lambda>(child, _). map_option node_addr (link_node child) = Some a) (f_left F @ (Link (Some ?leaf) (f_ptr F), f_max F) # f_right F) = Some (length (f_left F))"
    using at by (intro position_child) auto
  have "at_path (t2\<lparr>next_addr := Suc ?b\<rparr>) Fs (plug_frame F ?leaf)" using at2 by simp
  from put_node_path [OF this, of "f_addr F" N] have "put_node (f_addr F) N (t2\<lparr>next_addr := Suc ?b\<rparr>) = ?t3" by (simp add: t2_def)
  moreover have len: "Suc (length (f_left F) + length (f_right F)) < NODE_MAX_CHILD_COUNT tb" using F M by (simp add: frame_ok_def)
  moreover have "insert_child tb (Suc (length (f_left F))) (Link (Some new) None) (fn_id (last r))
      (f_left F @ (Link (Some ?leaf) (f_ptr F), Some (fn_id (last l))) # f_right F) = Some cs"
    using len insert_at_split [of "f_left F @ [(Link (Some ?leaf) (f_ptr F), Some (fn_id (last l)))]" "Suc (length (f_left F))"]
    by (simp add: insert_child_def vec_insert_def cs_def)
  ultimately have "insert_split tb (f_addr F) a (fn_id (last l)) (Leave 0 q r True False) (fn_id (last r)) t2 = unlock_upwards (f_addr F) ?t3"
    using get_node_path [OF at2] pos rl(2)
    by (simp add: insert_split.simps [of tb "f_addr F"] plug_frame_def nth_append list_update_append new_def N_def t2_def)
  moreover have atN: "at_path ?t3 Fs N" using at bound q by (auto simp: N_def cs_def new_def)
  have link: "linked Fs (f_parent F)" by (rule path_ok_linked [OF p])
  let ?t4 = "?t3\<lparr>tree_root := Link (Some (plug (map unlock_frame Fs) (set_lock False N))) (device_ptr (tree_root t)), root_lock := False\<rparr>"
  have "unlock_upwards (node_addr N) ?t3 = Some ?t4"
    using unlock_upwards_path [OF atN] link rl by (simp add: N_def t2_def)
  ultimately have run: "insert_split tb (f_addr F) a (fn_id (last l)) (Leave 0 q r True False) (fn_id (last r)) t2 = Some ?t4" by (simp add: N_def)
  have tN: "tree_ok (Suc 0) D tb (Suc M) (f_parent F) lo' hi' (set_lock False N)"
    using F chains_bound(2) [OF split_children [OF F lr], of "Suc M"] by (simp add: N_def tree_ok_Suc cs_def new_def q frame_ok_def)
  have half: "Fs \<noteq> [] \<longrightarrow> half_full tb (set_lock False N)" using half by (auto simp: half_full_def N_def cs_def)
  have two: "Suc 0 + length Fs \<noteq> 0 \<longrightarrow> 2 \<le> node_len (plug Fs (set_lock False N))" using two by (cases "Fs = []") (simp_all add: node_len_plug N_def cs_def)
  have "addrs N = f_addr F # child_addrs (f_left F) @ a # ?b # child_addrs (f_right F)" by (simp add: N_def cs_def new_def)
  then have ad: "distinct (frames_addrs Fs @ addrs (set_lock False N))" "\<forall>x \<in> set (frames_addrs Fs @ addrs (set_lock False N)). x < next_addr ?t4"
    using atN bound by (auto intro: less_SucI)
  have "mem_tree_ok (Suc 0 + length Fs) D tb (Suc M) ?t4"
      "stored_files (Suc 0 + length Fs) D ?t4 = files_before (Suc 0) D Fs @ tree_files (Suc 0) D (set_lock False N) @ files_after (Suc 0) D Fs"
    by (rule mem_tree_ok_plug [OF path_ok_bound [OF p, of "Suc M"] tN half two _ _ ad]; simp)+
  then show ?thesis unfolding t2 using run by (simp add: N_def cs_def new_def tree_files_Node)
qed

section \<open>Insertion\<close>

lemma capacities: "even (LEAVE_MAX_FILE_COUNT tb)" "0 < LEAVE_MAX_FILE_COUNT tb"
  by (simp_all add: LEAVE_MAX_FILE_COUNT_def)

lemma mem_tree_ok_bound: "mem_tree_ok h D tb M t \<Longrightarrow> M \<le> M' \<Longrightarrow> mem_tree_ok h D tb M' t"
  by (auto simp: mem_tree_ok_def intro: tree_ok_bound)

lemma drain_half: "length xs = 2 * k \<Longrightarrow> vec_drain_from k xs = Some (take k xs, drop k xs)"
  by (simp add: vec_drain_from_def)

lemma insert_at_leaf_spec:
  assumes path: "leaf_path D tb M lo hi Fs (Leave a q fs di True) t" and fs: "files_within lo hi fs" "length fs \<le> LEAVE_MAX_FILE_COUNT tb"
      "Fs \<noteq> [] \<longrightarrow> LEAVE_MAX_FILE_COUNT tb div 2 \<le> length fs"
    and f: "lo < fn_id f" "fn_id f \<le> hi" "position (\<lambda>g. fn_id g = fn_id f) fs = None" and M: "2 \<le> M" "M < NODE_MAX_CHILD_COUNT tb"
  shows "\<exists>t' h'. insert_at_leaf tb f a q fs True t = Some t' \<and> h' \<in> {length Fs, Suc (length Fs)} \<and> mem_tree_ok h' D tb (Suc M) t'
    \<and> stored_files h' D t' = files_before 0 D Fs @ insert_sorted f fs @ files_after 0 D Fs"
proof -
  have new: "insert_at (insert_pos f fs) f fs = insert_sorted f fs" using fs(1) f(3) by (intro insert_sorted_new) (simp_all add: files_within_def)
  have w: "files_within lo hi (insert_sorted f fs)" using insert_sorted_within [OF fs(1) f(1,2)] .
  note pos = insert_pos_le [of f fs]
  show ?thesis
  proof (cases "length fs < LEAVE_MAX_FILE_COUNT tb")
    case True
    have len: "length (insert_sorted f fs) = Suc (length fs)" using new pos by (metis length_insert_at)
    then obtain t' where "unlock_upwards a (put_node a (Leave a q (insert_sorted f fs) True True) t) = Some t'"
      "mem_tree_ok (length Fs) D tb M t'" "stored_files (length Fs) D t' = files_before 0 D Fs @ insert_sorted f fs @ files_after 0 D Fs"
      using leaf_stored [OF path w] True fs(3) by auto
    then show ?thesis using True pos new mem_tree_ok_bound [of _ D tb M _ "Suc M"]
      by - (rule exI [of _ t'], rule exI [of _ "length Fs"], simp add: insert_at_leaf_def vec_insert_def)
  next
    case False
    then have full: "length fs = LEAVE_MAX_FILE_COUNT tb" using fs(2) by simp
    let ?k = "LEAVE_MAX_FILE_COUNT tb div 2"
    obtain l r where lr: "(if insert_pos f fs \<le> ?k then map_option (\<lambda>fs1. (fs1, drop ?k fs)) (vec_insert (LEAVE_MAX_FILE_COUNT tb) (insert_pos f fs) f (take ?k fs))
        else map_option (\<lambda>fs1. (take ?k fs, fs1)) (vec_insert (LEAVE_MAX_FILE_COUNT tb) (insert_pos f fs - ?k) f (drop ?k fs))) = Some (l, r)"
      "l @ r = insert_sorted f fs" "?k \<le> length l" "length l \<le> LEAVE_MAX_FILE_COUNT tb" "?k \<le> length r" "length r \<le> LEAVE_MAX_FILE_COUNT tb" "l \<noteq> []" "r \<noteq> []"
      using split_full [OF full capacities pos, of f] new by metis
    then have h: "leaf_halves tb lo hi l r" using w by (simp add: leaf_halves_def)
    have "length (take ?k fs) = length (drop ?k fs)" using full capacities [of tb] by (auto elim!: evenE)
    then have run: "insert_at_leaf tb f a q fs True t = (case q of
          None \<Rightarrow> insert_split_at_root a (fn_id (last l)) (Leave 0 q r True False) (put_node a (Leave a q l True True) t)
        | Some parent \<Rightarrow> insert_split tb parent a (fn_id (last l)) (Leave 0 q r True False) (fn_id (last r))
            (put_node a (Leave a q l True False) (put_node a (Leave a q l True True) t)))"
      using False full lr(1,7,8) by (simp add: insert_at_leaf_def vec_drain_from_def unlock_node_def split: option.splits)
    show ?thesis
    proof (cases Fs)
      case Nil
      then have "q = None" using path by (simp add: leaf_path_def)
      then show ?thesis using split_at_root [OF path [unfolded Nil] h M(1)] run lr(2) Nil mem_tree_ok_bound [of 1 D tb M _ "Suc M"] by auto
    next
      case (Cons F Fs')
      then have "q = Some (f_addr F)" using path by (simp add: leaf_path_def)
      then show ?thesis using split_in_parent [OF path [unfolded Cons] h M(2)] run lr(2) Cons by auto
    qed
  qed
qed


context block_device
begin

lemma insert_file_spec:
  assumes L: "layout_ok (DEV_BLOCK_SIZE dev) valid L" and D: "tree_backed (content d) (healthy d) L valid D"
    and t: "mem_tree_ok h D tb M t" and f: "0 < fn_id f" "fn_id f \<le> FileId_MAX" and M: "2 \<le> M" "M < NODE_MAX_CHILD_COUNT tb"
  shows "\<exists>r t' d' h'. insert_file dev L tb f create_only (t, d) = Some (r, (t', d'))
    \<and> content d' = content d \<and> tree_backed (content d') (healthy d') L valid D
    \<and> (if create_only \<and> fn_id f \<in> fn_id ` set (stored_files h D t)
       then r = Inl (FileNodeExists (fn_id f)) \<and> mem_tree_ok h D tb M t' \<and> stored_files h D t' = stored_files h D t
       else r = Inr () \<and> h' \<in> {h, Suc h} \<and> mem_tree_ok h' D tb (Suc M) t' \<and> stored_files h' D t' = insert_sorted f (stored_files h D t))"
proof -
  obtain Fs leaf t1 d1 where fl: "find_leave dev L True (fn_id f) (t, d) = Some (Inr (node_addr leaf), (t1, d1))"
    and hp: "holds_path h D tb M True (stored_files h D t) (fn_id f) Fs leaf t1"
    and d1: "content d1 = content d" "tree_backed (content d1) (healthy d1) L valid D"
    using find_leave_path [OF L D t f] by metis
  from hp obtain a q fs di lo hi where leaf: "leaf = Leave a q fs di True" and path: "leaf_path D tb M lo hi Fs leaf t1"
    and fs: "files_within lo hi fs" "length fs \<le> LEAVE_MAX_FILE_COUNT tb" "Fs \<noteq> [] \<longrightarrow> LEAVE_MAX_FILE_COUNT tb div 2 \<le> length fs"
    and id: "lo < fn_id f" "fn_id f \<le> hi" and h: "length Fs = h" and st: "stored_files h D t = files_before 0 D Fs @ fs @ files_after 0 D Fs"
    by (rule holds_pathE) metis
  have at: "at_path t1 Fs leaf" and p: "path_ok 0 D tb M None 0 FileId_MAX Fs q lo hi" using path leaf by (simp_all add: leaf_path_def)
  note ar = around_within [OF p]
  have ins: "insert_sorted f (stored_files h D t) = files_before 0 D Fs @ insert_sorted f fs @ files_after 0 D Fs"
    unfolding st using ar id by (intro insert_sorted_around) auto
  have mem: "fn_id f \<in> fn_id ` set (stored_files h D t) \<longleftrightarrow> fn_id f \<in> fn_id ` set fs"
    unfolding st using ar id by (fastforce simp: files_within_def)
  have get: "get_node a t1 = Some leaf" using get_node_path [OF at] leaf by simp
  show ?thesis
  proof (cases "position (\<lambda>g. fn_id g = fn_id f) fs")
    case None
    then have no: "fn_id f \<notin> fn_id ` set fs" by (auto simp: position_None)
    obtain t' h' where "insert_at_leaf tb f a q fs True t1 = Some t'" "h' \<in> {h, Suc h}" "mem_tree_ok h' D tb (Suc M) t'"
      "stored_files h' D t' = insert_sorted f (stored_files h D t)"
      using insert_at_leaf_spec [OF path [unfolded leaf] fs id None M] h ins by metis
    moreover from this have "insert_file dev L tb f create_only (t, d) = Some (Inr (), (t', d1))"
      using fl get None by (simp add: insert_file_def attempt_def map_err_def leaf)
    ultimately show ?thesis using no mem d1
      by - (rule exI [of _ "Inr ()"], rule exI [of _ t'], rule exI [of _ d1], rule exI [of _ h'], simp)
  next
    case (Some i)
    have i: "fn_id f \<in> fn_id ` set fs" using position_SomeD [OF Some] by (metis imageI nth_mem)
    have up: "fs[i := f] = insert_sorted f fs" using insert_sorted_replace [OF _ Some] fs(1) by (simp add: files_within_def)
    have len: "length (insert_sorted f fs) = length fs" by (metis up length_list_update)
    obtain t2 where t2: "unlock_upwards a (put_node a (Leave a q (insert_sorted f fs) True True) t1) = Some t2" "mem_tree_ok h D tb M t2"
      "stored_files h D t2 = insert_sorted f (stored_files h D t)"
      using leaf_stored [OF path [unfolded leaf] insert_sorted_within [OF fs(1) id]] fs(2,3) h ins by (metis len)
    obtain t3 where t3: "unlock_upwards a t1 = Some t3" "mem_tree_ok h D tb M t3" "stored_files h D t3 = stored_files h D t"
      using leaf_released [OF path [unfolded leaf] fs] h st by metis
    have "insert_file dev L tb f create_only (t, d) =
      (if create_only then Some (Inl (FileNodeExists (fn_id f)), (t3, d1)) else Some (Inr (), (t2, d1)))"
      using fl get Some t2(1) t3(1) up by (simp add: insert_file_def attempt_def map_err_def leaf)
    then show ?thesis using i mem d1 t2(2,3) t3(2,3) mem_tree_ok_bound [OF t2(2), of "Suc M"] by (cases create_only) auto
  qed
qed

end

section \<open>Insertion on a file device\<close>

text \<open>
  (C37) Inserting a file. In a valid tree whose inner nodes all have room for one more child, \<open>insert\<close> refuses an id that is in use when it
  may only create files; otherwise the file is added at its place in the order of the ids, or replaces the file with its id, splitting the
  leaf or the root when they are full. The tree is valid again, with all locks released.
\<close>

theorem insert_correct:
  assumes "mem_tree_ok h D tb M t" "2 \<le> M" "M < NODE_MAX_CHILD_COUNT tb" "layout_ok 4096 valid L"
    and "tree_backed (file_content d) (file_healthy d) L valid D" "0 < fn_id f" "fn_id f \<le> FileId_MAX"
  shows "\<exists>r t' d' h'. insert_file file_device L tb f create_only (t, d) = Some (r, (t', d')) \<and> file_content d' = file_content d
    \<and> (if create_only \<and> fn_id f \<in> fn_id ` set (stored_files h D t)
       then r = Inl (FileNodeExists (fn_id f)) \<and> mem_tree_ok h D tb M t' \<and> stored_files h D t' = stored_files h D t
       else r = Inr () \<and> h' \<in> {h, Suc h} \<and> mem_tree_ok h' D tb (Suc M) t' \<and> stored_files h' D t' = insert_sorted f (stored_files h D t))"
proof -
  have "layout_ok (DEV_BLOCK_SIZE file_device) valid L" using assms(4) by (simp add: file_device_def)
  from fd.insert_file_spec [OF this assms(5,1,6,7,2,3)] show ?thesis by metis
qed

definition sample_full_leaf :: MemTree where
  "sample_full_leaf = \<lparr>tree_root = Link (Some (Leave 0 None (map sample_file_node [2, 4, 7, 9, 12, 20]) True False)) None,
     root_lock = False, next_addr = 1\<rparr>"

theorem insert_correct_witness:
  "\<exists>t' d' h'. insert_file file_device (one_node_layout (TreeLeave [])) True (sample_file_node 10) True (sample_full_leaf, sample_file) = Some (Inr (), (t', d'))
    \<and> stored_files h' Map.empty t' = map sample_file_node [2, 4, 7, 9, 10, 12, 20]"
proof -
  have t: "mem_tree_ok 0 Map.empty True 2 sample_full_leaf"
    by (simp add: mem_tree_ok_def sample_full_leaf_def LEAVE_MAX_FILE_COUNT_def FileId_MAX_def u64_max_def)
  have b: "tree_backed (file_content sample_file) (file_healthy sample_file) (one_node_layout (TreeLeave [])) (\<lambda>x. x = TreeLeave []) Map.empty"
    by (simp add: tree_backed_def)
  have st: "stored_files 0 Map.empty sample_full_leaf = map sample_file_node [2, 4, 7, 9, 12, 20]" by (simp add: stored_files_def sample_full_leaf_def)
  show ?thesis
    using insert_correct [OF t _ _ one_node_layout_ok b, of "sample_file_node 10" True] unfolding st
    by (fastforce simp: FileId_MAX_def u64_max_def NODE_MAX_CHILD_COUNT_def)
qed

end
