(* ===== verification/Mem_Tree_Overflow.thy ===== *)
theory Mem_Tree_Overflow
  imports Mem_Tree_Insert
begin

text \<open>
  What happens when an insertion has to split an inner node that is full: the maximum of the child that was split is not updated, and the
  last child of the left half keeps a maximum.
\<close>

lemma chain_ok_maxes: "chain_ok P lo hi cs \<Longrightarrow> \<forall>c \<in> set cs. \<exists>k. snd c = Some k \<and> k \<le> hi"
proof (induction cs arbitrary: lo)
  case (Cons c cs)
  then obtain k where k: "snd c = Some k" "chain_ok P k hi cs" by (cases c) (auto split: option.splits)
  then show ?case using Cons.IH [OF k(2)] chain_ok_le [OF k(2)] by simp
qed simp

lemma child_index_last:
  assumes "\<forall>c \<in> set cs. \<exists>k. snd c = Some k \<and> k < ident" "ident \<le> FileId_MAX"
  shows "child_index ident (cs @ (l, None) # cs') = Some (length cs)"
  using assms by (induction cs) (auto simp: child_index_def)

lemma insert_pos_last: "\<forall>g \<in> set fs. fn_id g < fn_id f \<Longrightarrow> insert_pos f fs = length fs"
  by (auto simp: insert_pos_def position_None dest: position_SomeD split: option.splits) (metis nth_mem not_less_iff_gr_or_eq position_SomeD)

text \<open>
  A tree of two levels that is full on the right: the root has all its children, the last leaf all its files, and the new file \<open>f\<close> has a
  larger id than every file in the tree.
\<close>

definition full_right :: "(nat \<rightharpoonup> TreeNode) \<Rightarrow> bool \<Rightarrow> nat \<Rightarrow> nat \<Rightarrow> child list \<Rightarrow> FileNode list \<Rightarrow> nat option \<Rightarrow> FileNode \<Rightarrow> MemTree \<Rightarrow> bool" where
  "full_right D tb a b cs fs ptr f t \<longleftrightarrow> mem_tree_ok 1 D tb (NODE_MAX_CHILD_COUNT tb) t
     \<and> (\<exists>lf di dc rptr. tree_root t = Link (Some (Node a None (cs @ [(Link (Some (Leave b (Some a) fs lf False)) ptr, None)]) di dc False)) rptr)
     \<and> Suc (length cs) = NODE_MAX_CHILD_COUNT tb \<and> length fs = LEAVE_MAX_FILE_COUNT tb
     \<and> (\<forall>g \<in> set (stored_files 1 D t). fn_id g < fn_id f) \<and> fn_id f \<le> FileId_MAX"

lemma full_right_facts:
  assumes "full_right D tb a b cs fs ptr f t"
  shows "\<forall>c \<in> set cs. \<exists>k. snd c = Some k \<and> k < fn_id f" "\<forall>g \<in> set fs. fn_id g < fn_id f"
    "\<not> root_lock t" "distinct (a # child_addrs cs @ [b])" "\<forall>x \<in> set (a # child_addrs cs @ [b]). x < next_addr t"
    "Suc (length cs) = NODE_MAX_CHILD_COUNT tb" "length fs = LEAVE_MAX_FILE_COUNT tb" "fn_id f \<le> FileId_MAX"
proof -
  obtain lf di dc rptr where root: "tree_root t = Link (Some (Node a None (cs @ [(Link (Some (Leave b (Some a) fs lf False)) ptr, None)]) di dc False)) rptr"
    using assms by (auto simp: full_right_def)
  have ok: "mem_tree_ok 1 D tb (NODE_MAX_CHILD_COUNT tb) t" using assms by (simp add: full_right_def)
  then obtain lo where lo: "chain_ok (child_ok 0 D tb (NODE_MAX_CHILD_COUNT tb) a) 0 lo cs"
      "child_ok 0 D tb (NODE_MAX_CHILD_COUNT tb) a lo FileId_MAX (Link (Some (Leave b (Some a) fs lf False)) ptr)"
    using root by (auto simp: mem_tree_ok_def tree_ok_Suc children_ok_append)
  have "stored_files 1 D t = child_files 0 D cs @ fs" using root by (simp add: stored_files_def tree_files_Node)
  then show fs: "\<forall>g \<in> set fs. fn_id g < fn_id f" using assms by (simp add: full_right_def)
  show len: "Suc (length cs) = NODE_MAX_CHILD_COUNT tb" "length fs = LEAVE_MAX_FILE_COUNT tb" "fn_id f \<le> FileId_MAX"
    using assms by (simp_all add: full_right_def)
  obtain g where "g \<in> set fs" using len(2) capacities [of tb] by (cases fs) auto
  then have "lo < fn_id g" "fn_id g < fn_id f" using lo(2) fs by (simp_all add: child_ok_node)
  then have "lo < fn_id f" by simp
  then show "\<forall>c \<in> set cs. \<exists>k. snd c = Some k \<and> k < fn_id f" using chain_ok_maxes [OF lo(1)] by fastforce
  show "\<not> root_lock t" "distinct (a # child_addrs cs @ [b])" "\<forall>x \<in> set (a # child_addrs cs @ [b]). x < next_addr t"
    using ok root by (auto simp: mem_tree_ok_def)
qed

text \<open>The tree that the insertion leaves.\<close>

definition left_leaf :: "bool \<Rightarrow> nat \<Rightarrow> nat \<Rightarrow> FileNode list \<Rightarrow> MemTreeNode" where
  "left_leaf tb a b fs = Leave b (Some a) (take (LEAVE_MAX_FILE_COUNT tb div 2) fs) True False"

definition lost_leaf :: "bool \<Rightarrow> nat \<Rightarrow> nat \<Rightarrow> FileNode list \<Rightarrow> FileNode \<Rightarrow> MemTreeNode" where
  "lost_leaf tb a c fs f = Leave c (Some a) (drop (LEAVE_MAX_FILE_COUNT tb div 2) fs @ [f]) True False"

definition overflow :: "bool \<Rightarrow> nat \<Rightarrow> nat \<Rightarrow> child list \<Rightarrow> FileNode list \<Rightarrow> nat option \<Rightarrow> FileNode \<Rightarrow> nat \<Rightarrow> MemTree" where
  "overflow tb a b cs fs ptr f c =
     (let half = NODE_MAX_CHILD_COUNT tb div 2; r = Suc c; n = Suc r in
      \<lparr>tree_root = Link (Some (Node n None
         [(Link (Some (Node a (Some n) (take half cs) True True False)) None, snd (last (take half cs))),
          (Link (Some (Node r (Some n) (drop half cs @ [(Link (Some (left_leaf tb a b fs)) ptr, None), (Link (Some (lost_leaf tb a c fs f)) None, None)])
            True True False)) None, None)] True True False)) None,
       root_lock = False, next_addr = Suc n\<rparr>)"

lemma overflow_find_leave:
  assumes "full_right D tb a b cs fs ptr f t"
  shows "\<exists>lf di rptr. find_leave dev L True (fn_id f) (t, d) = Some (Inr b,
    (\<lparr>tree_root = Link (Some (Node a None (cs @ [(Link (Some (Leave b (Some a) fs lf True)) ptr, None)]) di True True)) rptr,
      root_lock = True, next_addr = next_addr t\<rparr>, d))"
proof -
  obtain lf di dc rptr where root: "tree_root t = Link (Some (Node a None (cs @ [(Link (Some (Leave b (Some a) fs lf False)) ptr, None)]) di dc False)) rptr"
    using assms by (auto simp: full_right_def)
  note F = full_right_facts [OF assms]
  have "child_index (fn_id f) (cs @ [(Link (Some (Leave b (Some a) fs lf False)) ptr, None)]) = Some (length cs)"
    using F(1,8) by (rule child_index_last)
  then have "find_leave dev L True (fn_id f) (t, d) = Some (Inr b,
    (\<lparr>tree_root = Link (Some (Node a None (cs @ [(Link (Some (Leave b (Some a) fs lf True)) ptr, None)]) di True True)) rptr,
      root_lock = True, next_addr = next_addr t\<rparr>, d))"
    using F(3) by (simp add: find_leave_def resolve_def root lock_node_def descend.simps)
  then show ?thesis by blast
qed

text \<open>The split of the root.\<close>

lemma overflow_split:
  assumes F: "full_right D tb a b cs fs ptr f t" and root: "tree_root u = Link (Some (Node a None (cs @ [(Link (Some (left_leaf tb a b fs)) ptr, None)]) di True True)) rptr"
    and u: "root_lock u" "next_addr u = next_addr t"
  shows "insert_split tb a b m (Leave 0 (Some a) (drop (LEAVE_MAX_FILE_COUNT tb div 2) fs @ [f]) True False) (fn_id f) u
    = Some (overflow tb a b cs fs ptr f (next_addr t))"
proof -
  let ?half = "NODE_MAX_CHILD_COUNT tb div 2"
  note F' = full_right_facts [OF F]
  have even: "NODE_MAX_CHILD_COUNT tb = 2 * ?half" "2 \<le> ?half" "NODE_MAX_CHILD_COUNT tb - ?half = ?half"
    by (simp_all add: NODE_MAX_CHILD_COUNT_def)
  have len: "?half \<le> length cs" "length cs - ?half = ?half - 1" "Suc (length cs) = 2 * ?half" using F'(6) even by linarith+
  have ne: "take ?half cs \<noteq> []" using len(1) even(2) by auto
  then have "last (take ?half cs) \<in> set cs" using last_in_set in_set_takeD by fast
  then obtain k where k: "snd (last (take ?half cs)) = Some k" using F'(1) by blast
  have get: "get_node a u = Some (Node a None (cs @ [(Link (Some (left_leaf tb a b fs)) ptr, None)]) di True True)"
    using root by (simp add: get_node_def)
  have pos: "position (\<lambda>(child, _). map_option node_addr (link_node child) = Some b) (cs @ [(Link (Some (left_leaf tb a b fs)) ptr, None)]) = Some (length cs)"
    using F'(4) by (intro position_child) (auto simp: left_leaf_def)
  let ?new = "Link (Some (lost_leaf tb a (next_addr t) fs f)) None :: MemTreeNode MemTreeLink"
  have ins: "insert_child tb ?half ?new (fn_id f) (drop ?half cs @ [(Link (Some (left_leaf tb a b fs)) ptr, None)])
      = Some (drop ?half cs @ [(Link (Some (left_leaf tb a b fs)) ptr, None), (?new, None)])"
    using len even by (simp add: insert_child_def vec_insert_def insert_at_def)
  let ?N = "Node a None (take ?half cs) True True True"
  have put: "put_node a ?N (u\<lparr>next_addr := Suc (next_addr t)\<rparr>) = u\<lparr>next_addr := Suc (next_addr t), tree_root := Link (Some ?N) rptr\<rparr>"
    using root by (simp add: put_node_def)
  have "insert_split_at_root a k (Node 0 None (drop ?half cs @ [(Link (Some (left_leaf tb a b fs)) ptr, None), (?new, None)]) True True False)
      (u\<lparr>next_addr := Suc (next_addr t), tree_root := Link (Some ?N) rptr\<rparr>) = Some (overflow tb a b cs fs ptr f (next_addr t))"
    using u k by (simp add: insert_split_at_root_def get_node_def put_node_def unlock_node_def overflow_def Let_def)
  moreover have "insert_split tb a b m (Leave 0 (Some a) (drop (LEAVE_MAX_FILE_COUNT tb div 2) fs @ [f]) True False) (fn_id f) u =
      insert_split_at_root a k (Node 0 None (drop ?half cs @ [(Link (Some (left_leaf tb a b fs)) ptr, None), (?new, None)]) True True False)
      (u\<lparr>next_addr := Suc (next_addr t), tree_root := Link (Some ?N) rptr\<rparr>)"
    using get pos ins put ne k len even u(2)
    by (simp add: insert_split.simps [of tb a] vec_drain_from_def Let_def lost_leaf_def)
  ultimately show ?thesis by simp
qed

lemma overflow_insert:
  assumes F: "full_right D tb a b cs fs ptr f t"
  shows "insert_new dev L tb f (t, d) = Some (Inr (), (overflow tb a b cs fs ptr f (next_addr t), d))"
proof -
  note F' = full_right_facts [OF F]
  obtain lf di rptr where fl: "find_leave dev L True (fn_id f) (t, d) = Some (Inr b,
    (\<lparr>tree_root = Link (Some (Node a None (cs @ [(Link (Some (Leave b (Some a) fs lf True)) ptr, None)]) di True True)) rptr,
      root_lock = True, next_addr = next_addr t\<rparr>, d))"
    using overflow_find_leave [OF F] by metis
  let ?half = "LEAVE_MAX_FILE_COUNT tb div 2"
  define u where "u = \<lparr>tree_root = Link (Some (Node a None (cs @ [(Link (Some (Leave b (Some a) fs lf True)) ptr, None)]) di True True)) rptr,
      root_lock = True, next_addr = next_addr t\<rparr>"
  have b: "b \<noteq> a" "b \<notin> set (child_addrs cs)" using F'(4) by auto
  have put: "put_node b (left_leaf tb a b fs) (put_node b (Leave b (Some a) (take ?half fs) True True) u) =
      u\<lparr>tree_root := Link (Some (Node a None (cs @ [(Link (Some (left_leaf tb a b fs)) ptr, None)]) di True True)) rptr\<rparr>"
    using b by (simp add: u_def put_node_def put_child_append put_at_other)
  have get: "get_node b u = Some (Leave b (Some a) fs lf True)" using b by (simp add: u_def get_node_def child_at_append node_at_other)
  have even: "LEAVE_MAX_FILE_COUNT tb = 2 * ?half" "0 < ?half" "LEAVE_MAX_FILE_COUNT tb - ?half = ?half" by (simp_all add: LEAVE_MAX_FILE_COUNT_def)
  have pos: "insert_pos f fs = length fs" "position (\<lambda>g. fn_id g = fn_id f) fs = None"
    using F'(2) by (simp_all add: insert_pos_last position_None nat_neq_iff)
  have ins: "vec_insert (LEAVE_MAX_FILE_COUNT tb) ?half f (drop ?half fs) = Some (drop ?half fs @ [f])"
    using F'(7) even by (simp add: vec_insert_def insert_at_def)
  have ne: "take ?half fs \<noteq> []" using F'(7) even by auto
  have "insert_at_leaf tb f b (Some a) fs True u = insert_split tb a b (fn_id (last (take ?half fs)))
      (Leave 0 (Some a) (drop ?half fs @ [f]) True False) (fn_id f)
      (put_node b (left_leaf tb a b fs) (put_node b (Leave b (Some a) (take ?half fs) True True) u))"
    using F'(7) even pos(1) ins ne
    by (simp add: insert_at_leaf_def vec_drain_from_def unlock_node_def Let_def left_leaf_def)
  moreover have "insert_split tb a b (fn_id (last (take ?half fs))) (Leave 0 (Some a) (drop ?half fs @ [f]) True False) (fn_id f)
      (put_node b (left_leaf tb a b fs) (put_node b (Leave b (Some a) (take ?half fs) True True) u)) = Some (overflow tb a b cs fs ptr f (next_addr t))"
    unfolding put by (rule overflow_split [OF F]) (simp_all add: u_def)
  ultimately have "insert_at_leaf tb f b (Some a) fs True u = Some (overflow tb a b cs fs ptr f (next_addr t))" by simp
  then show ?thesis using fl get pos(2) by (simp add: insert_new_def insert_file_def attempt_def map_err_def flip: u_def)
qed

lemma overflow_find:
  assumes F: "full_right D tb a b cs fs ptr f t"
  shows "\<exists>t'. find_file dev L (fn_id f) (overflow tb a b cs fs ptr f (next_addr t), d) = Some (Inr None, (t', d))"
proof -
  note F' = full_right_facts [OF F]
  let ?half = "NODE_MAX_CHILD_COUNT tb div 2" and ?c = "next_addr t"
  have half: "take ?half cs \<noteq> []" using F'(6) half_pos(3) [of tb] by (auto simp: NODE_MAX_CHILD_COUNT_def split: if_splits)
  then have "last (take ?half cs) \<in> set cs" using last_in_set in_set_takeD by fast
  then obtain k where k: "snd (last (take ?half cs)) = Some k" "k < fn_id f" using F'(1) by blast
  let ?R = "drop ?half cs @ [(Link (Some (left_leaf tb a b fs)) ptr, None), (Link (Some (lost_leaf tb a ?c fs f)) None, None)]"
  let ?l1 = "(Link (Some (Node a (Some (Suc (Suc ?c))) (take ?half cs) True True False)) None, Some k) :: child"
  have i1: "child_index (fn_id f) [?l1, (Link (Some (Node (Suc ?c) (Some (Suc (Suc ?c))) ?R True True False)) None, None)] = Some 1"
    using k(2) F'(8) by (simp add: child_index_def)
  have i2: "child_index (fn_id f) ?R = Some (length (drop ?half cs))"
    using F'(1,8) by (intro child_index_last) (auto dest: in_set_dropD)
  let ?lf = "\<lambda>l. Leave b (Some a) (take (LEAVE_MAX_FILE_COUNT tb div 2) fs) True l"
  let ?R' = "\<lambda>l. drop ?half cs @ [(Link (Some (?lf l)) ptr, None), (Link (Some (lost_leaf tb a ?c fs f)) None, None)]"
  let ?t = "\<lambda>l. \<lparr>tree_root = Link (Some (Node (Suc (Suc ?c)) None [?l1, (Link (Some (Node (Suc ?c) (Some (Suc (Suc ?c))) (?R' l) True True False)) None, None)] True True False)) None,
      root_lock = False, next_addr = Suc (Suc (Suc ?c))\<rparr>"
  have "find_leave dev L False (fn_id f) (overflow tb a b cs fs ptr f ?c, d) = Some (Inr b, (?t True, d))"
    using i1 i2 k(1)
    by (simp add: find_leave_def overflow_def Let_def resolve_def lock_node_def descend.simps nth_append list_update_append left_leaf_def)
  moreover have b: "b \<noteq> a" "b < ?c" "b \<notin> set (child_addrs (take ?half cs))" "b \<notin> set (child_addrs (drop ?half cs))"
    using F'(4,5) child_addrs_append [of "take ?half cs" "drop ?half cs"] by auto
  then have "get_node b (?t True) = Some (?lf True)" by (simp add: get_node_def child_at_append node_at_other)
  moreover have "fn_id g \<noteq> fn_id f" if "g \<in> set (take (LEAVE_MAX_FILE_COUNT tb div 2) fs)" for g
    using F'(2) in_set_takeD [OF that] by auto
  then have "List.find (\<lambda>g. fn_id g = fn_id f) (take (LEAVE_MAX_FILE_COUNT tb div 2) fs) = None" by (simp add: find_None_iff)
  ultimately show ?thesis by (simp add: find_file_def attempt_def unlock_node_def)
qed

lemma overflow_invalid:
  assumes F: "full_right D tb a b cs fs ptr f t"
  shows "MemTree_assert_valid tb (overflow tb a b cs fs ptr f c) = None"
proof -
  note F' = full_right_facts [OF F]
  let ?half = "NODE_MAX_CHILD_COUNT tb div 2"
  have half: "take ?half cs \<noteq> []" using F'(6) half_pos(3) [of tb] by (auto simp: NODE_MAX_CHILD_COUNT_def split: if_splits)
  then have "last (take ?half cs) \<in> set cs" using last_in_set in_set_takeD by fast
  then have "snd (last (take ?half cs)) \<noteq> None" using F'(1) by force
  then show ?thesis by (auto simp: MemTree_assert_valid_def overflow_def Let_def assert_that_def)
qed

text \<open>
  (C39) Overflow of the root. When the root has all its children and the last leaf is full, inserting a file with a larger id than all
  others returns normally, but the file cannot be found afterwards, and the check \<open>assert_valid\<close> of the tree panics. The split leaf keeps
  the maximum of the whole, so no lookup reaches its second half.
\<close>

theorem overflow_loses_file:
  assumes "full_right D tb a b cs fs ptr f t"
  shows "\<exists>t' t''. insert_new dev L tb f (t, d) = Some (Inr (), (t', d)) \<and> find_file dev L (fn_id f) (t', d) = Some (Inr None, (t'', d))
    \<and> MemTree_assert_valid tb t' = None"
  using overflow_insert [OF assms] overflow_find [OF assms] overflow_invalid [OF assms] by metis

definition sample_leaves :: "child list" where
  "sample_leaves = map (\<lambda>i. (Link (Some (Leave (i + 2) (Some 0) (map sample_file_node [10 * i + 1, 10 * i + 2, 10 * i + 3]) True False)) None,
     Some (10 * i + 3))) [0..<29]"

definition sample_full_root :: MemTree where
  "sample_full_root = \<lparr>tree_root = Link (Some (Node 0 None (sample_leaves @
     [(Link (Some (Leave 1 (Some 0) (map sample_file_node [301, 302, 303, 304, 305, 306]) True False)) None, None)]) True True False)) None,
     root_lock = False, next_addr = 31\<rparr>"

theorem overflow_loses_file_witness:
  "\<exists>t' t''. insert_new file_device (one_node_layout (TreeLeave [])) True (sample_file_node 307) (sample_full_root, sample_file) = Some (Inr (), (t', sample_file))
    \<and> find_file file_device (one_node_layout (TreeLeave [])) 307 (t', sample_file) = Some (Inr None, (t'', sample_file))
    \<and> MemTree_assert_valid True t' = None"
proof -
  have "full_right Map.empty True 0 1 sample_leaves (map sample_file_node [301, 302, 303, 304, 305, 306]) None (sample_file_node 307) sample_full_root"
    by (simp add: full_right_def sample_full_root_def mem_tree_ok_def tree_ok_Suc sample_leaves_def upt_rec child_ok_leaf files_within_def
        LEAVE_MAX_FILE_COUNT_def NODE_MAX_CHILD_COUNT_def FileId_MAX_def u64_max_def stored_files_def tree_files_Node)
      (rule exI [of _ True], simp)
  from overflow_loses_file [OF this] show ?thesis by (simp only: sample_file_id)
qed

end
