(* ===== verification/Mem_Tree_Flush.thy ===== *)
theory Mem_Tree_Flush
  imports Mem_Tree_Overflow
begin

text \<open>
  Writing the tree of files to the device: a tree that has never been written is stored completely, and can be loaded from the address of
  its root.
\<close>

section \<open>Allocating one block\<close>

lemma finite_free_blocks [simp]: "finite (free_blocks A)"
  by (auto simp: blocks_of_def blocks_def)

lemma allocate_block_spec:
  assumes "consistent A" "0 < card (free_blocks A)"
  obtains b A' where "allocate_block A = Some (Inr b, A')" "b \<in> free_blocks A" "free_blocks A' = free_blocks A - {b}" "consistent A'"
proof -
  obtain x g where g: "g \<in> set (free A)" "x \<in> blocks g" using assms(2) by (fastforce simp: blocks_of_def card_gt_0_iff)
  then have "1 \<le> bg_count g" by (simp add: blocks_def)
  then have "\<exists>h \<in> set (free A). 1 \<le> bg_count h" using g(1) by blast
  from allocate_group_some [OF assms(1) order_refl this] obtain h A'
    where h: "allocate_group 1 A = Some (Inr (with_count (bg_start h) 1), A')" "h \<in> set (free A)" "1 \<le> bg_count h"
      "free_blocks A' = free_blocks A - {bg_start h..<bg_start h + 1}" "consistent A'"
    by metis
  have "allocate_block A = Some (Inr (bg_start h), A')" using h(1) by (simp add: allocate_block_def attempt_def ok_def with_count_def)
  moreover have "bg_start h \<in> free_blocks A" using h(2,3) by (force simp: blocks_of_def blocks_def)
  moreover have "free_blocks A' = free_blocks A - {bg_start h}" using h(4) by (simp add: atLeastLessThanSuc)
  ultimately show thesis using that h(5) by blast
qed

section \<open>Trees that were never written\<close>

function (sequential) fresh :: "MemTreeNode \<Rightarrow> bool" and fresh_children :: "child list \<Rightarrow> bool" where
  "fresh (Leave a p fs di l) = (di \<and> \<not> l \<and> (\<forall>f \<in> set fs. \<exists>hp. fn_block_data f = OnDevice hp))"
| "fresh (Node a p cs di dc l) = (di \<and> dc \<and> \<not> l \<and> fresh_children cs)"
| "fresh_children [] = True"
| "fresh_children ((Link (Some n) None, m) # cs) = (fresh n \<and> fresh_children cs)"
| "fresh_children _ = False"
  by pat_completeness auto
termination
  by (relation "measure (case_sum size children_size)") auto

text \<open>The layout can store the node and everything below it, with the nodes at addresses in \<open>B\<close>.\<close>

function (sequential) storable :: "(TreeNode \<Rightarrow> bool) \<Rightarrow> nat set \<Rightarrow> MemTreeNode \<Rightarrow> bool"
  and storable_children :: "(TreeNode \<Rightarrow> bool) \<Rightarrow> nat set \<Rightarrow> child list \<Rightarrow> bool" where
  "storable valid B (Leave a p fs di l) = (\<forall>gs. map FileNode_from gs = fs \<longrightarrow> valid (TreeLeave gs))"
| "storable valid B (Node a p cs di dc l) =
     ((\<forall>ps. map snd ps = map snd cs \<and> fst ` set ps \<subseteq> B \<longrightarrow> valid (TreeInner ps)) \<and> storable_children valid B cs)"
| "storable_children valid B [] = True"
| "storable_children valid B ((Link (Some n) dp, m) # cs) = (storable valid B n \<and> storable_children valid B cs)"
| "storable_children valid B ((Link None dp, m) # cs) = storable_children valid B cs"
  by pat_completeness auto
termination
  by (relation "measure (case_sum (\<lambda>(v, B, n). size n) (\<lambda>(v, B, cs). children_size cs))") auto

text \<open>The node at a block of the device is a copy of a node in memory.\<close>

function (sequential) copy :: "(nat \<rightharpoonup> TreeNode) \<Rightarrow> nat \<Rightarrow> MemTreeNode \<Rightarrow> bool"
  and copies :: "(nat \<rightharpoonup> TreeNode) \<Rightarrow> (nat \<times> nat option) list \<Rightarrow> child list \<Rightarrow> bool" where
  "copy D b (Leave a p fs di l) = (\<exists>gs. D b = Some (TreeLeave gs) \<and> map FileNode_from gs = fs)"
| "copy D b (Node a p cs di dc l) = (\<exists>ps. D b = Some (TreeInner ps) \<and> copies D ps cs)"
| "copies D ps [] = (ps = [])"
| "copies D ps ((Link (Some n) dp, m) # cs) = (\<exists>b ps'. ps = (b, m) # ps' \<and> copy D b n \<and> copies D ps' cs)"
| "copies D ps ((Link None dp, m) # cs) = False"
  by pat_completeness auto
termination
  by (relation "measure (case_sum (\<lambda>(D, b, n). size n) (\<lambda>(D, ps, cs). children_size cs))") auto

lemma copy_mono: "copy D b n \<Longrightarrow> D \<subseteq>\<^sub>m D' \<Longrightarrow> copy D' b n" "copies D ps cs \<Longrightarrow> D \<subseteq>\<^sub>m D' \<Longrightarrow> copies D' ps cs"
proof (induction D b n and D ps cs rule: copy_copies.induct)
  case (2 D b a p cs di dc l)
  then show ?case by (auto simp: map_le_def dom_def)
qed (auto simp: map_le_def dom_def)

lemma copies_Cons:
  "copies D ps ((l, m) # cs) \<longleftrightarrow> (\<exists>n b ps'. link_node l = Some n \<and> ps = (b, m) # ps' \<and> copy D b n \<and> copies D ps' cs)"
proof (cases l)
  case (Link n dp)
  then show ?thesis by (cases n) auto
qed

lemma copies_snd: "copies D ps cs \<Longrightarrow> map snd ps = map snd cs"
proof (induction cs arbitrary: ps)
  case (Cons c cs)
  then show ?case by (cases c) (auto simp: copies_Cons)
qed simp

section \<open>Loading a copy\<close>

text \<open>A copy of a valid tree in memory is a valid tree on the device with the same files.\<close>

abbreviation in_memory :: "nat \<rightharpoonup> TreeNode" where
  "in_memory \<equiv> Map.empty"

lemma copy_new_from:
  assumes "copy D b n"
  shows "\<exists>tn. D b = Some tn \<and> node_len (new_from 0 tn p) = node_len n \<and> node_cap tb (new_from 0 tn p) = node_cap tb n"
proof (cases n)
  case (Node a q cs di dc l)
  then obtain ps where ps: "D b = Some (TreeInner ps)" "copies D ps cs" using assms by auto
  have "length ps = length cs" using copies_snd [OF ps(2)] by (metis length_map)
  then show ?thesis using ps(1) Node by simp
qed (use assms in auto)

lemma view_in_memory: "view in_memory p l = Some x \<longleftrightarrow> link_node l = Some x"
  by (cases "(in_memory, p, l)" rule: view.cases) auto

lemma children_member: "children_ok P lo hi cs \<Longrightarrow> (l, m) \<in> set cs \<Longrightarrow> \<exists>lo' hi'. P lo' hi' l"
proof (induction cs arbitrary: lo)
  case (Cons c cs)
  then show ?case by (cases c) (auto split: option.splits)
qed simp

lemma copies_files:
  assumes "copies D ps cs" "\<And>b n. (\<exists>l m. (l, m) \<in> set cs \<and> link_node l = Some n) \<Longrightarrow> copy D b n \<Longrightarrow> link_files h D (Link None (Some b)) = tree_files h in_memory n"
  shows "child_files h D (map (\<lambda>(b, m). (Link None (Some b), m)) ps) = child_files h in_memory cs"
  using assms
proof (induction cs arbitrary: ps)
  case (Cons c cs)
  obtain l m where c: "c = (l, m)" by force
  then obtain n b ps' where n: "link_node l = Some n" "ps = (b, m) # ps'" "copy D b n" "copies D ps' cs" using Cons.prems(1) by (auto simp: copies_Cons)
  have "link_files h in_memory l = tree_files h in_memory n" using n(1) by (cases l) auto
  moreover have "link_files h D (Link None (Some b)) = tree_files h in_memory n" using Cons.prems(2) [of n b] n(1,3) c by auto
  moreover have "child_files h D (map (\<lambda>(b, m). (Link None (Some b), m)) ps') = child_files h in_memory cs"
    by (rule Cons.IH [OF n(4) Cons.prems(2)]) auto
  ultimately show ?case using c n(2) by simp
qed simp

lemma copies_children_ok:
  assumes "copies D ps cs" "children_ok (child_ok h in_memory tb M a) lo hi cs"
    and "\<And>b n lo hi. copy D b n \<Longrightarrow> tree_ok h in_memory tb M (Some a) lo hi n \<Longrightarrow> half_full tb n \<Longrightarrow> child_ok h D tb M 0 lo hi (Link None (Some b))"
  shows "children_ok (child_ok h D tb M 0) lo hi (map (\<lambda>(b, m). (Link None (Some b), m)) ps)"
  using assms(1,2)
proof (induction cs arbitrary: ps lo)
  case (Cons c cs)
  obtain l m where c: "c = (l, m)" by force
  then obtain n b ps' where n: "link_node l = Some n" "ps = (b, m) # ps'" "copy D b n" "copies D ps' cs" using Cons.prems(1) by (auto simp: copies_Cons)
  have l: "child_ok h in_memory tb M a lo hi l \<Longrightarrow> child_ok h D tb M 0 lo hi (Link None (Some b))" for lo hi
    by (erule child_okE) (use n(1) assms(3) [OF n(3)] in \<open>auto simp: view_in_memory half_full_def\<close>)
  show ?case
  proof (cases m)
    case None
    then have "cs = []" "ps' = []" using Cons.prems(2) c n(4) by simp_all
    then show ?thesis using Cons.prems(2) c n(2) l None by simp
  next
    case (Some k)
    then have k: "lo < k" "child_ok h in_memory tb M a lo k l" "children_ok (child_ok h in_memory tb M a) k hi cs" using Cons.prems(2) c by simp_all
    have "children_ok (child_ok h D tb M 0) k hi (map (\<lambda>(b, m). (Link None (Some b), m)) ps')" by (rule Cons.IH [OF n(4) k(3)])
    then show ?thesis using l [OF k(2)] k(1) n(2) Some by simp
  qed
qed simp

lemma copy_loads:
  assumes "copy D b n" "tree_ok h in_memory tb M p lo hi n"
  shows "\<exists>tn. D b = Some tn \<and> tree_ok h D tb M q lo hi (new_from 0 tn q) \<and> tree_files h D (new_from 0 tn q) = tree_files h in_memory n"
  using assms
proof (induction h arbitrary: b n p q lo hi)
  case 0
  then show ?case by (cases n) (auto simp: LEAVE_MAX_FILE_COUNT_def)
next
  case (Suc h)
  obtain a cs di dc where n: "n = Node a p cs di dc False" "length cs \<le> M" "children_ok (child_ok h in_memory tb M a) lo hi cs"
    using Suc.prems(2) by (cases n) (auto simp: tree_ok_Suc)
  then obtain ps where ps: "D b = Some (TreeInner ps)" "copies D ps cs" using Suc.prems(1) by auto
  have len: "length ps = length cs" using copies_snd [OF ps(2)] by (metis length_map)
  have "child_ok h D tb M 0 lo hi (Link None (Some b))" if "copy D b n" "tree_ok h in_memory tb M (Some a) lo hi n" "half_full tb n" for b n lo hi
    using Suc.IH [OF that(1,2), of "Some 0"] copy_new_from [OF that(1), of "Some 0" tb] that(3) by (auto simp: child_ok_def half_full_def)
  from copies_children_ok [OF ps(2) n(3) this]
  have ok: "children_ok (child_ok h D tb M 0) lo hi (map (\<lambda>(b, m). (Link None (Some b), m)) ps)" .
  have "link_files h D (Link None (Some c)) = tree_files h in_memory x" if "\<exists>l m. (l, m) \<in> set cs \<and> link_node l = Some x" "copy D c x" for c x
  proof -
    from that(1) obtain l m where l: "(l, m) \<in> set cs" "link_node l = Some x" by blast
    obtain lo' hi' where ch: "child_ok h in_memory tb M a lo' hi' l" using children_member [OF n(3) l(1)] by blast
    from ch l(2) have "tree_ok h in_memory tb M (Some a) lo' hi' x" by (cases l) (auto simp: child_ok_node)
    from Suc.IH [OF that(2) this, of None] show ?thesis by (auto simp: link_files_def)
  qed
  then have "child_files h D (map (\<lambda>(b, m). (Link None (Some b), m)) ps) = child_files h in_memory cs" by (rule copies_files [OF ps(2)])
  then show ?case using ps(1) ok n len by (simp add: tree_ok_Suc tree_files_Node)
qed

section \<open>Writing a fresh tree\<close>

text \<open>What writing \<open>k\<close> nodes does: \<open>k\<close> free blocks are taken, and hold the nodes \<open>D\<close>; all other blocks keep their content.\<close>

definition flushed ::
    "('d \<Rightarrow> nat \<Rightarrow> u8 list) \<Rightarrow> ('d \<Rightarrow> nat \<Rightarrow> bool) \<Rightarrow> TreeNode block_layout \<Rightarrow> (TreeNode \<Rightarrow> bool)
      \<Rightarrow> 'd \<Rightarrow> BlockAllocator \<Rightarrow> nat \<Rightarrow> (nat \<rightharpoonup> TreeNode) \<Rightarrow> 'd \<Rightarrow> BlockAllocator \<Rightarrow> bool" where
  "flushed content healthy LT valid d A k D d' A' \<longleftrightarrow> consistent A' \<and> free_blocks A' \<subseteq> free_blocks A
     \<and> card (free_blocks A) = card (free_blocks A') + k \<and> (\<forall>b. b \<notin> free_blocks A - free_blocks A' \<longrightarrow> content d' b = content d b)
     \<and> (\<forall>b. healthy d b \<longrightarrow> healthy d' b) \<and> dom D \<subseteq> free_blocks A - free_blocks A' \<and> tree_backed (content d') (healthy d') LT valid D"

lemma flushed_trans:
  assumes 1: "flushed content healthy LT valid d A k1 D1 d1 A1" and 2: "flushed content healthy LT valid d1 A1 k2 D2 d2 A2"
  shows "flushed content healthy LT valid d A (k1 + k2) (D1 ++ D2) d2 A2" "D1 \<subseteq>\<^sub>m D1 ++ D2" "D2 \<subseteq>\<^sub>m D1 ++ D2"
proof -
  have dom: "dom D1 \<subseteq> free_blocks A - free_blocks A1" "dom D2 \<subseteq> free_blocks A1 - free_blocks A2" using 1 2 by (simp_all add: flushed_def)
  show "D2 \<subseteq>\<^sub>m D1 ++ D2" by simp
  have disj: "dom D1 \<inter> dom D2 = {}" using dom by blast
  then show "D1 \<subseteq>\<^sub>m D1 ++ D2" by (metis map_add_comm map_le_map_add)
  have "content d2 b = block_data LT tn \<and> valid tn \<and> healthy d2 b" if "(D1 ++ D2) b = Some tn" for b tn
  proof (cases "D2 b")
    case None
    then have b: "D1 b = Some tn" using that by (simp add: map_add_def)
    then have "b \<notin> free_blocks A1" using dom(1) by blast
    then have "content d2 b = content d1 b" using 2 by (simp add: flushed_def)
    then show ?thesis using 1 2 b by (simp add: flushed_def tree_backed_def)
  next
    case (Some x)
    then show ?thesis using that 2 by (auto simp: flushed_def tree_backed_def)
  qed
  then have "tree_backed (content d2) (healthy d2) LT valid (D1 ++ D2)" by (simp add: tree_backed_def)
  moreover have "content d2 b = content d b" if "b \<notin> free_blocks A - free_blocks A2" for b
  proof -
    have sub: "free_blocks A1 \<subseteq> free_blocks A" "free_blocks A2 \<subseteq> free_blocks A1" using 1 2 by (simp_all add: flushed_def)
    have "content d2 b = content d1 b" using that sub 2 by (simp add: flushed_def) blast
    also have "\<dots> = content d b" using that sub 1 by (simp add: flushed_def) blast
    finally show ?thesis .
  qed
  ultimately show "flushed content healthy LT valid d A (k1 + k2) (D1 ++ D2) d2 A2"
    using 1 2 dom by (auto simp: flushed_def)
qed

definition stored_node :: "FileNode \<Rightarrow> FsFileNode" where
  "stored_node f = fs_node f (case fn_block_data f of OnDevice hp \<Rightarrow> hp | Both _ hp \<Rightarrow> hp | InMem _ \<Rightarrow> HeadList 0)"

lemma write_files_on_device:
  "\<forall>f \<in> set fs. \<exists>hp. fn_block_data f = OnDevice hp \<Longrightarrow>
     write_files dev LB fs d A = Some (Inr (map stored_node fs), fs, d, A) \<and> map FileNode_from (map stored_node fs) = fs"
proof (induction fs)
  case (Cons f fs)
  then obtain hp where "fn_block_data f = OnDevice hp" by auto
  then have "FileNode_write dev LB (f, d, A) = Some (Inr (stored_node f), (f, d, A))" "FileNode_from (stored_node f) = f"
    by (simp_all add: FileNode_write_def stored_node_def) (cases f, simp add: FileNode_from_def fs_node_def)
  then show ?case using Cons by simp
qed simp

context block_device
begin

lemma flush_self_spec:
  assumes LT: "layout_ok (DEV_BLOCK_SIZE dev) valid LT" and A: "consistent A" "0 < card (free_blocks A)" "\<forall>b \<in> free_blocks A. healthy d b"
    and n: "node_dirty n" "\<And>A. device_node dev LB n d A = Some (Inr tn, n, d, A)" "valid tn"
  shows "\<exists>b d' A'. flush_self dev LB LT n None d A = Some (Inr (), Link (Some (set_dirty False n)) (Some b), d', A')
    \<and> flushed content healthy LT valid d A 1 [b \<mapsto> tn] d' A' \<and> b \<in> free_blocks A"
proof -
  obtain b A' where b: "allocate_block A = Some (Inr b, A')" "b \<in> free_blocks A" "free_blocks A' = free_blocks A - {b}" "consistent A'"
    using allocate_block_spec [OF A(1,2)] by metis
  obtain d' where d': "write_block dev b (block_data LT tn) d = Some (Inr (), d')" "content d' = (content d)(b := block_data LT tn)" "\<forall>b. healthy d b \<longrightarrow> healthy d' b"
    using healthy_store [of d b valid LT tn] LT n(3) A(3) b(2) by metis
  have "flush_self dev LB LT n None d A = Some (Inr (), Link (Some (set_dirty False n)) (Some b), d', A')"
    using n(1,2) b(1) d'(1) by (simp add: flush_self_def replace_device_ptr_def)
  moreover have "card (free_blocks A) = Suc (card (free_blocks A'))" using b(2) unfolding b(3) by (intro card_Suc_Diff1 [symmetric]) simp_all
  then have "flushed content healthy LT valid d A 1 [b \<mapsto> tn] d' A'"
    using b d'(2,3) n(3) A(3) by (auto simp: flushed_def tree_backed_def)
  ultimately show ?thesis using b(2) by metis
qed

lemma flush_fresh:
  assumes LT: "layout_ok (DEV_BLOCK_SIZE dev) valid LT"
  shows "fresh n \<Longrightarrow> storable valid B n \<Longrightarrow> free_blocks A \<subseteq> B \<Longrightarrow> length (addrs n) \<le> card (free_blocks A) \<Longrightarrow> consistent A \<Longrightarrow>
      \<forall>b \<in> free_blocks A. healthy d b \<Longrightarrow>
      \<exists>b n' d' A' D. flush_link dev LB LT (Link (Some n) None) d A = Some (Inr (), Link (Some n') (Some b), d', A')
        \<and> flushed content healthy LT valid d A (length (addrs n)) D d' A' \<and> copy D b n \<and> b \<in> free_blocks A"
    "fresh_children cs \<Longrightarrow> storable_children valid B cs \<Longrightarrow> free_blocks A \<subseteq> B \<Longrightarrow> length (child_addrs cs) \<le> card (free_blocks A) \<Longrightarrow> consistent A \<Longrightarrow>
      \<forall>b \<in> free_blocks A. healthy d b \<Longrightarrow>
      \<exists>cs' ps d' A' D. flush_children dev LB LT cs d A = Some (Inr (), cs', d', A') \<and> device_children cs' = Some ps
        \<and> flushed content healthy LT valid d A (length (child_addrs cs)) D d' A' \<and> copies D ps cs \<and> fst ` set ps \<subseteq> free_blocks A"
proof (induction n and cs arbitrary: A d and A d rule: fresh_fresh_children.induct)
  case (1 a p fs di l)
  then have w: "\<And>A. device_node dev LB (Leave a p fs di l) d A = Some (Inr (TreeLeave (map stored_node fs)), Leave a p fs di l, d, A)"
    "map FileNode_from (map stored_node fs) = fs"
    using write_files_on_device [of fs dev LB d] by (simp_all del: map_map)
  have "valid (TreeLeave (map stored_node fs))" using 1(2) w(2) by (simp del: map_map)
  then obtain b d' A' where f: "flush_self dev LB LT (Leave a p fs di l) None d A = Some (Inr (), Link (Some (set_dirty False (Leave a p fs di l))) (Some b), d', A')"
    "flushed content healthy LT valid d A 1 [b \<mapsto> TreeLeave (map stored_node fs)] d' A'" "b \<in> free_blocks A"
    using flush_self_spec [OF LT 1(5) _ 1(6) _ w(1)] 1(1,4) by auto
  have "flush_link dev LB LT (Link (Some (Leave a p fs di l)) None) d A = Some (Inr (), Link (Some (set_dirty False (Leave a p fs di l))) (Some b), d', A')"
    using f(1) 1(1) by simp
  moreover have "flushed content healthy LT valid d A (length (addrs (Leave a p fs di l))) [b \<mapsto> TreeLeave (map stored_node fs)] d' A'" using f(2) by simp
  moreover have "copy [b \<mapsto> TreeLeave (map stored_node fs)] b (Leave a p fs di l)" using w(2) by (simp del: map_map)
  ultimately show ?case using f(3) by metis
next
  case (2 a p cs di dc l)
  have "fresh_children cs" "storable_children valid B cs" "length (child_addrs cs) \<le> card (free_blocks A)" using 2(2,3,5) by simp_all
  from 2(1) [OF this(1,2) 2(4) this(3) 2(6,7)] obtain cs' ps d1 A1 D
    where cs: "flush_children dev LB LT cs d A = Some (Inr (), cs', d1, A1)" "device_children cs' = Some ps"
      "flushed content healthy LT valid d A (length (child_addrs cs)) D d1 A1" "copies D ps cs" "fst ` set ps \<subseteq> free_blocks A"
    by metis
  have A1: "consistent A1" "free_blocks A1 \<subseteq> free_blocks A" "0 < card (free_blocks A1)" "\<forall>b \<in> free_blocks A1. healthy d1 b"
    using cs(3) 2(5,7) by (auto simp: flushed_def)
  have "valid (TreeInner ps)" using 2(3,4) cs(5) copies_snd [OF cs(4)] by auto
  then obtain b d2 A2 where f: "flush_self dev LB LT (Node a p cs' di False l) None d1 A1 = Some (Inr (), Link (Some (set_dirty False (Node a p cs' di False l))) (Some b), d2, A2)"
    "flushed content healthy LT valid d1 A1 1 [b \<mapsto> TreeInner ps] d2 A2" "b \<in> free_blocks A1"
    using flush_self_spec [OF LT A1(1,3,4), of "Node a p cs' di False l" LB "TreeInner ps"] 2(2) cs(2) by auto
  note T = flushed_trans [OF cs(3) f(2)]
  have "copy (D ++ [b \<mapsto> TreeInner ps]) b (Node a p cs di dc l)" using copy_mono(2) [OF cs(4) T(2)] by simp
  moreover have "flush_link dev LB LT (Link (Some (Node a p cs di dc l)) None) d A = Some (Inr (), Link (Some (set_dirty False (Node a p cs' di False l))) (Some b), d2, A2)"
    using 2(2) cs(1) f(1) by simp
  moreover have "flushed content healthy LT valid d A (length (addrs (Node a p cs di dc l))) (D ++ [b \<mapsto> TreeInner ps]) d2 A2" using T(1) by simp
  moreover have "b \<in> free_blocks A" using f(3) A1(2) by blast
  ultimately show ?case by metis
next
  case 3
  then show ?case by (auto simp: flushed_def tree_backed_def)
next
  case (4 n m cs)
  have len: "length (addrs n) \<le> card (free_blocks A)" "length (addrs n) + length (child_addrs cs) \<le> card (free_blocks A)" using 4(6) by simp_all
  have "fresh n" "storable valid B n" "fresh_children cs" "storable_children valid B cs" using 4(3,4) by simp_all
  note ok = this
  from 4(1) [OF ok(1,2) 4(5) len(1) 4(7,8)] obtain b n' d1 A1 D1
    where n: "flush_link dev LB LT (Link (Some n) None) d A = Some (Inr (), Link (Some n') (Some b), d1, A1)"
      "flushed content healthy LT valid d A (length (addrs n)) D1 d1 A1" "copy D1 b n" "b \<in> free_blocks A"
    by metis
  have A1: "consistent A1" "free_blocks A1 \<subseteq> free_blocks A" "length (child_addrs cs) \<le> card (free_blocks A1)" "\<forall>b \<in> free_blocks A1. healthy d1 b"
    using n(2) len(2) 4(8) by (auto simp: flushed_def)
  have "free_blocks A1 \<subseteq> B" using A1(2) 4(5) by blast
  from 4(2) [OF ok(3,4) this A1(3,1,4)] obtain cs' ps d2 A2 D2
    where cs: "flush_children dev LB LT cs d1 A1 = Some (Inr (), cs', d2, A2)" "device_children cs' = Some ps"
      "flushed content healthy LT valid d1 A1 (length (child_addrs cs)) D2 d2 A2" "copies D2 ps cs" "fst ` set ps \<subseteq> free_blocks A1"
    by metis
  note T = flushed_trans [OF n(2) cs(3)]
  have "copies (D1 ++ D2) ((b, m) # ps) ((Link (Some n) None, m) # cs)" using copy_mono(1) [OF n(3) T(2)] copy_mono(2) [OF cs(4) T(3)] by simp
  moreover have "flush_children dev LB LT ((Link (Some n) None, m) # cs) d A = Some (Inr (), (Link (Some n') (Some b), m) # cs', d2, A2)"
    using n(1) cs(1) by simp
  moreover have "device_children ((Link (Some n') (Some b), m) # cs') = Some ((b, m) # ps)" using cs(2) by simp
  moreover have "flushed content healthy LT valid d A (length (child_addrs ((Link (Some n) None, m) # cs))) (D1 ++ D2) d2 A2" using T(1) by simp
  moreover have "fst ` set ((b, m) # ps) \<subseteq> free_blocks A" using n(4) cs(5) A1(2) by auto
  ultimately show ?case by metis
qed simp_all

end

section \<open>The round trip\<close>

text \<open>
  (C38) The tree survives a flush: a valid tree of any height that was never written (every node dirty and without a block, the contents of
  the files already on the device) is written completely when there are as many free blocks as nodes. \<open>flush_to_device\<close> returns the block of
  the root, has changed no block that was in use, and a tree opened at that block finds exactly the files of the tree in memory.
\<close>

theorem flush_roundtrip:
  assumes "mem_tree_ok h in_memory tb M t" "tree_root t = Link (Some n) None" "fresh n" "storable valid (free_blocks A) n" "layout_ok 4096 valid LT"
    and "consistent A" "length (addrs n) \<le> card (free_blocks A)" "\<forall>b \<in> free_blocks A. file_healthy d b"
  shows "\<exists>b t' d' A' t0. tree_flush_to_device file_device LB LT (t, d, A) = Some (Inr b, (t', d', A'))
    \<and> b \<in> free_blocks A - free_blocks A' \<and> (\<forall>x. x \<notin> free_blocks A \<longrightarrow> file_content d' x = file_content d x)
    \<and> card (free_blocks A) = card (free_blocks A') + length (addrs n)
    \<and> set_root_device_ptr b MemTree_invalid = Some t0
    \<and> (\<forall>ident. 0 < ident \<and> ident \<le> FileId_MAX \<longrightarrow>
         (\<exists>t1 d1. find_file file_device LT ident (t0, d') = Some (Inr (List.find (\<lambda>f. fn_id f = ident) (stored_files h in_memory t)), (t1, d1))))"
proof -
  have L: "layout_ok (DEV_BLOCK_SIZE file_device) valid LT" using assms(5) by (simp add: file_device_def)
  from fd.flush_fresh(1) [OF L assms(3,4) order_refl assms(7,6,8)] obtain b n' d' A' D
    where f: "flush_link file_device LB LT (Link (Some n) None) d A = Some (Inr (), Link (Some n') (Some b), d', A')"
      "flushed file_content file_healthy LT valid d A (length (addrs n)) D d' A'" "copy D b n"
    by metis
  have flush: "tree_flush_to_device file_device LB LT (t, d, A) = Some (Inr b, (t\<lparr>tree_root := Link (Some n') (Some b)\<rparr>, d', A'))"
    using f(1) assms(1,2) by (simp add: tree_flush_to_device_def mem_tree_ok_def)
  have n: "tree_ok h in_memory tb M None 0 FileId_MAX n" "h \<noteq> 0 \<longrightarrow> 2 \<le> node_len n" using assms(1,2) by (auto simp: mem_tree_ok_def)
  obtain tn where tn: "D b = Some tn" "tree_ok h D tb M None 0 FileId_MAX (new_from 0 tn None)" "tree_files h D (new_from 0 tn None) = tree_files h in_memory n"
    using copy_loads [OF f(3) n(1)] by metis
  let ?t0 = "MemTree_invalid\<lparr>tree_root := Link None (Some b)\<rparr>"
  have "set_root_device_ptr b MemTree_invalid = Some ?t0" by (simp add: set_root_device_ptr_def MemTree_invalid_def)
  moreover have t0: "mem_tree_ok h D tb M ?t0"
    using tn(1,2) n(2) copy_new_from [OF f(3), of None] by (auto simp: mem_tree_ok_def MemTree_invalid_def)
  have st: "stored_files h D ?t0 = stored_files h in_memory t" using tn(1,3) assms(2) by (simp add: stored_files_def link_files_def)
  have bk: "tree_backed (file_content d') (file_healthy d') LT valid D" using f(2) by (simp add: flushed_def)
  have "\<forall>ident. 0 < ident \<and> ident \<le> FileId_MAX \<longrightarrow>
      (\<exists>t1 d1. find_file file_device LT ident (?t0, d') = Some (Inr (List.find (\<lambda>f. fn_id f = ident) (stored_files h in_memory t)), (t1, d1)))"
    using fd.find_file_spec [OF L bk t0] unfolding st by blast
  moreover have "b \<in> free_blocks A - free_blocks A'" "\<forall>x. x \<notin> free_blocks A \<longrightarrow> file_content d' x = file_content d x"
      "card (free_blocks A) = card (free_blocks A') + length (addrs n)"
    using f(2) tn(1) by (auto simp: flushed_def)
  ultimately show ?thesis using flush by blast
qed

text \<open>
  A tree with two leaves, and a layout for its nodes that stores the address of a child in one byte and a leaf by its number; the leaves
  2 and 3 are the two leaves with one file more.
\<close>

definition small_leaf :: "nat \<Rightarrow> nat list" where
  "small_leaf i = [[2, 4, 7], [9, 12, 20], [2, 4, 5, 7], [5, 9, 12, 20]] ! i"

definition small_tree :: MemTree where
  "small_tree = \<lparr>tree_root = Link (Some (Node 0 None [(Link (Some (Leave 1 (Some 0) (map sample_file_node (small_leaf 0)) True False)) None, Some 7),
     (Link (Some (Leave 2 (Some 0) (map sample_file_node (small_leaf 1)) True False)) None, None)] True True False)) None,
     root_lock = False, next_addr = 3\<rparr>"

definition small_node :: "TreeNode \<Rightarrow> bool" where
  "small_node tn \<longleftrightarrow> (\<exists>i < 4. tn = TreeLeave (map sample_fs_file (small_leaf i))) \<or> (\<exists>a < 256. \<exists>b < 256. tn = TreeInner [(a, Some 7), (b, None)])"

lemma small_node_leaf: "i < 4 \<Longrightarrow> small_node (TreeLeave (map sample_fs_file (small_leaf i)))"
  unfolding small_node_def by blast

definition small_layout :: "TreeNode block_layout" where
  "small_layout = \<lparr>size_of = 4096,
     block_data = (\<lambda>tn. (case tn of
         TreeInner ps \<Rightarrow> [4, word_of_nat (fst (ps ! 0)), word_of_nat (fst (ps ! 1))]
       | TreeLeave fs \<Rightarrow> [word_of_nat (the (position (\<lambda>i. small_leaf i = map fs_id fs) [0..<4])), 0, 0]) @ replicate 4093 0),
     from_block = (\<lambda>bs. if bs ! 0 = 4 then TreeInner [(unat (bs ! 1), Some 7), (unat (bs ! 2), None)]
       else TreeLeave (map sample_fs_file (small_leaf (unat (bs ! 0)))))\<rparr>"

lemma small_leaf_position: "i < 4 \<Longrightarrow> position (\<lambda>j. small_leaf j = small_leaf i) [0..<4] = Some i"
  by (simp add: upt_rec numeral_eq_Suc less_Suc_eq) (auto simp: small_leaf_def)

lemma sample_fs_ids [simp]: "map fs_id (map sample_fs_file xs) = xs"
  by (induction xs) (simp_all add: sample_fs_file_def)

lemma small_layout_ok: "layout_ok 4096 small_node small_layout"
proof -
  have "from_block small_layout (block_data small_layout tn) = tn" if "i < 4" "tn = TreeLeave (map sample_fs_file (small_leaf i))" for tn i
  proof -
    have "unat (word_of_nat i :: u8) = i" using that(1) by (simp add: unat_of_nat)
    moreover from this have "word_of_nat i \<noteq> (4 :: u8)" using that(1) by auto
    ultimately show ?thesis using that small_leaf_position [OF that(1)] by (simp add: small_layout_def del: map_map)
  qed
  moreover have "from_block small_layout (block_data small_layout (TreeInner [(a, Some 7), (b, None)])) = TreeInner [(a, Some 7), (b, None)]"
    if "a < 256" "b < 256" for a b
    using that by (simp add: small_layout_def unat_of_nat)
  moreover have "size_of small_layout = 4096" "\<And>tn. length (block_data small_layout tn) = 4096" by (simp_all add: small_layout_def split: TreeNode.split)
  ultimately show ?thesis by (auto simp: layout_ok_def small_node_def)
qed

lemma FileNode_from_inj: "inj FileNode_from"
proof (rule injI)
  fix x y assume "FileNode_from x = FileNode_from y"
  then show "x = y" by (cases x; cases y) (simp add: FileNode_from_def)
qed

lemma small_leaves_storable: "i < 4 \<Longrightarrow> map FileNode_from gs = map sample_file_node (small_leaf i) \<Longrightarrow> small_node (TreeLeave gs)"
proof -
  assume i: "i < 4" and "map FileNode_from gs = map sample_file_node (small_leaf i)"
  then have "map FileNode_from gs = map FileNode_from (map sample_fs_file (small_leaf i))" by (simp add: comp_def)
  then have "gs = map sample_fs_file (small_leaf i)" by (simp only: inj_map_eq_map [OF FileNode_from_inj])
  then show ?thesis using small_node_leaf [OF i] by simp
qed

lemma small_inner_storable: "map snd ps = [Some 7, None] \<Longrightarrow> fst ` set ps \<subseteq> {3..<13} \<Longrightarrow> small_node (TreeInner ps)"
  by (cases ps; cases "tl ps") (auto simp: small_node_def)

definition small_allocator :: BlockAllocator where
  "small_allocator = \<lparr>free = [\<lparr>bg_start = 3, bg_count = 10\<rparr>], on_disk = None, self_on_disk = [], dirty = False\<rparr>"

theorem flush_roundtrip_witness:
  "\<exists>b t' d' A' t0 t1 d1. tree_flush_to_device file_device sample_list_layout small_layout (small_tree, sample_file, small_allocator) = Some (Inr b, (t', d', A'))
    \<and> set_root_device_ptr b MemTree_invalid = Some t0
    \<and> find_file file_device small_layout 12 (t0, d') = Some (Inr (Some (sample_file_node 12)), (t1, d1))"
proof -
  have t: "mem_tree_ok 1 in_memory True 30 small_tree"
    by (simp add: mem_tree_ok_def small_tree_def small_leaf_def tree_ok_Suc child_ok_leaf files_within_def LEAVE_MAX_FILE_COUNT_def FileId_MAX_def u64_max_def)
  obtain n where n: "tree_root small_tree = Link (Some n) None" "n = the (link_node (tree_root small_tree))" by (simp add: small_tree_def)
  have fr: "fresh n" using n(2) by (simp add: small_tree_def FileNode_from_def)
  have free: "free_blocks small_allocator = {3..<13}" by (simp add: small_allocator_def blocks_def)
  have st: "storable small_node (free_blocks small_allocator) n"
    using small_leaves_storable [of 0] small_leaves_storable [of 1] small_inner_storable by (simp add: n(2) small_tree_def free del: map_eq_conv map_map list.map) simp
  have c: "consistent small_allocator" "length (addrs n) \<le> card (free_blocks small_allocator)" using n(2) by (simp_all add: free) (simp_all add: small_allocator_def small_tree_def apart_def group_ok_def u64_max_def)
  have hl: "\<forall>b \<in> free_blocks small_allocator. file_healthy sample_file b" by (simp add: free file_healthy_def sample_file_def BLOCK_SIZE_def u64_max_def)
  have find: "List.find (\<lambda>f. fn_id f = 12) (stored_files 1 in_memory small_tree) = Some (sample_file_node 12)"
    by (simp add: stored_files_def small_tree_def tree_files_Node small_leaf_def link_files_def)
  from flush_roundtrip [OF t n(1) fr st small_layout_ok c hl, of sample_list_layout] obtain b t' d' A' t0
    where f: "tree_flush_to_device file_device sample_list_layout small_layout (small_tree, sample_file, small_allocator) = Some (Inr b, (t', d', A'))"
      "set_root_device_ptr b MemTree_invalid = Some t0"
      "\<forall>ident. 0 < ident \<and> ident \<le> FileId_MAX \<longrightarrow> (\<exists>t1 d1. find_file file_device small_layout ident (t0, d')
         = Some (Inr (List.find (\<lambda>f. fn_id f = ident) (stored_files 1 in_memory small_tree)), (t1, d1)))" by metis
  show ?thesis using f(1,2) f(3) [rule_format, of 12, unfolded find] by (auto simp: FileId_MAX_def u64_max_def)
qed

end
