(* ===== verification/Mem_Tree_Lost.thy ===== *)
theory Mem_Tree_Lost
  imports Mem_Tree_Flush
begin

text \<open>
  An update that a flush loses: a node whose children were written to new blocks is itself only written when it is dirty, and inserting a
  file into a leaf that has room marks only the leaf.
\<close>

abbreviation opened_at :: "nat \<Rightarrow> MemTree" where
  "opened_at ptr \<equiv> \<lparr>tree_root = Link None (Some ptr), root_lock = False, next_addr = 0\<rparr>"

abbreviation unopened :: "(nat \<times> nat option) list \<Rightarrow> child list" where
  "unopened ps \<equiv> map (\<lambda>(b, m). (Link None (Some b), m)) ps"

text \<open>The root of a tree of two levels with one leaf in memory.\<close>

definition one_leaf :: "(nat \<times> nat option) list \<Rightarrow> nat \<Rightarrow> nat option \<Rightarrow> (nat \<times> nat option) list \<Rightarrow> bool \<Rightarrow> frame" where
  "one_leaf xs b m ys l = \<lparr>f_addr = 0, f_parent = None, f_left = unopened xs, f_ptr = Some b, f_max = m, f_right = unopened ys,
     f_dirty = False, f_dc = True, f_lock = l\<rparr>"

definition loaded :: "nat \<Rightarrow> (nat \<times> nat option) list \<Rightarrow> nat \<Rightarrow> nat option \<Rightarrow> (nat \<times> nat option) list \<Rightarrow> FileNode list \<Rightarrow> bool \<Rightarrow> bool \<Rightarrow> MemTree" where
  "loaded R xs b m ys fs di l = \<lparr>tree_root = Link (Some (plug [one_leaf xs b m ys l] (Leave 1 (Some 0) fs di l))) (Some R), root_lock = l, next_addr = 2\<rparr>"

lemma unopened_addrs [simp]: "child_addrs (unopened ps) = []"
  by (rule child_addrs_unresolved) auto

lemma loaded_path: "at_path (loaded R xs b m ys fs di l) [one_leaf xs b m ys l] (Leave 1 (Some 0) fs di l)"
  by (simp add: loaded_def one_leaf_def)

lemma insert_loaded:
  assumes "fn_id f \<notin> fn_id ` set fs" "length fs < LEAVE_MAX_FILE_COUNT tb" "sorted_wrt (<) (map fn_id fs)"
  shows "insert_at_leaf tb f 1 (Some 0) fs True (loaded R xs b m ys fs False True) = Some (loaded R xs b m ys (insert_sorted f fs) True False)"
proof -
  let ?F = "one_leaf xs b m ys True" and ?leaf = "Leave 1 (Some 0) (insert_sorted f fs) True True"
  have no: "position (\<lambda>g. fn_id g = fn_id f) fs = None" using assms(1) by (simp add: position_None) (metis imageI)
  have "vec_insert (LEAVE_MAX_FILE_COUNT tb) (insert_pos f fs) f fs = Some (insert_sorted f fs)"
    using assms insert_pos_le [of f fs] insert_sorted_new [OF assms(3) no] by (simp add: vec_insert_def)
  moreover have put: "put_node 1 ?leaf (loaded R xs b m ys fs False True) = loaded R xs b m ys (insert_sorted f fs) True True"
    using put_node_path [OF loaded_path [where R = R and xs = xs and b = b and m = m and ys = ys and fs = fs and di = False and l = True], of 1 ?leaf] by (simp add: loaded_def)
  have "unlock_upwards 1 (loaded R xs b m ys (insert_sorted f fs) True True) = Some (loaded R xs b m ys (insert_sorted f fs) True False)"
    using unlock_upwards_path [OF loaded_path [where R = R and xs = xs and b = b and m = m and ys = ys and fs = "insert_sorted f fs" and di = True and l = True]]
    by (simp add: one_leaf_def loaded_def unlock_frame_def)
  ultimately show ?thesis using assms(2) put by (simp add: insert_at_leaf_def)
qed

lemma flush_unopened: "flush_children dev LB LT (unopened ps @ cs) d A = do {
    (r, cs2, d2, A2) \<leftarrow> flush_children dev LB LT cs d A;
    Some (r, unopened ps @ cs2, d2, A2)
  }"
proof (induction ps)
  case Nil
  then show ?case by (cases "flush_children dev LB LT cs d A") auto
next
  case (Cons p ps)
  then show ?case by (cases p; cases "flush_children dev LB LT cs d A") auto
qed

lemma unopened_flush: "flush_children dev LB LT (unopened ps) d A = Some (Inr (), unopened ps, d, A)"
  using flush_unopened [of dev LB LT ps "[]"] by simp

lemma free_block_some:
  assumes "consistent A" "b \<notin> free_blocks A" "Suc b \<notin> free_blocks A" "Suc b < u64_max"
  shows "\<exists>A'. free_block b A = Some A'"
proof -
  let ?g = "\<lparr>bg_start = b, bg_count = 1\<rparr>"
  have g: "group_ok ?g" "free_blocks A \<inter> blocks ?g = {}" using assms(2,4) by (simp_all add: group_ok_def blocks_def)
  have "bg_start h \<noteq> Suc b" if "h \<in> set (free A)" for h
    using that assms(3) start_in_blocks [OF apart_member [OF assms(1) that]] by (auto simp: blocks_of_def)
  moreover obtain gs' where gs': "free_loop ?g (free A) = Some gs'" "\<forall>h \<in> set gs'. group_ok h"
    "sorted_wrt before gs' \<longleftrightarrow> (\<forall>h \<in> set (free A). bg_start h \<noteq> bg_start ?g + bg_count ?g)"
    using free_loop_spec [OF assms(1) g] by blast
  ultimately have "apart gs'" by (simp add: apart_def)
  then show ?thesis using gs'(1,2) by (simp add: free_block_def free_group_def debug_consistent_eq)
qed

context block_device
begin

lemma open_leaf:
  assumes L: "layout_ok (DEV_BLOCK_SIZE dev) valid L" and D: "tree_backed (content d) (healthy d) L valid D"
    and t: "mem_tree_ok 1 D tb M (opened_at R)" and f: "0 < ident" "ident \<le> FileId_MAX"
  shows "\<exists>xs b m ys gs d'. D R = Some (TreeInner (xs @ (b, m) # ys)) \<and> D b = Some (TreeLeave gs)
    \<and> find_leave dev L True ident (opened_at R, d) = Some (Inr 1, (loaded R xs b m ys (map FileNode_from gs) False True, d'))
    \<and> content d' = content d \<and> (\<forall>b. healthy d b \<longrightarrow> healthy d' b)
    \<and> sorted_wrt (<) (map fn_id (map FileNode_from gs)) \<and> set (map FileNode_from gs) \<subseteq> set (stored_files 1 D (opened_at R))"
proof -
  obtain tn where tn: "D R = Some tn" "tree_ok (Suc 0) D tb M None 0 FileId_MAX (new_from 0 tn None)" using t by (auto simp: mem_tree_ok_def)
  then obtain ps where R: "D R = Some (TreeInner ps)" and ok: "children_ok (child_ok 0 D tb M 0) 0 FileId_MAX (unopened ps)"
    by (cases tn) (auto simp: tree_ok_Suc)
  from child_index_spec [OF ok f f(2)] obtain cs l m cs' lo hi where
    cs: "unopened ps = cs @ (l, m) # cs'" "child_index ident (unopened ps) = Some (length cs)" "child_ok 0 D tb M 0 lo hi l" by metis
  from cs(1) obtain xs b ys where ps: "ps = xs @ (b, m) # ys" "l = Link None (Some b)" "cs = unopened xs" "cs' = unopened ys"
    by (auto simp: map_eq_append_conv map_eq_Cons_conv)
  obtain n where n: "D b = Some n" "tree_ok 0 D tb M (Some 0) lo hi (new_from 0 n (Some 0))" using cs(3) ps(2) by (auto simp: child_ok_def split: option.splits)
  then obtain gs where gs: "D b = Some (TreeLeave gs)" "sorted_wrt (<) (map fn_id (map FileNode_from gs))"
    by (cases n) auto
  have bk: "content d R = block_data L (TreeInner ps)" "valid (TreeInner ps)" "healthy d R" "content d b = block_data L (TreeLeave gs)" "valid (TreeLeave gs)" "healthy d b"
    using D R gs(1) by (auto simp: tree_backed_def)
  obtain d1 where d1: "read_pointer dev L R d = Some (Inr (TreeInner ps), d1)" "content d1 = content d" "\<forall>b. healthy d b \<longrightarrow> healthy d1 b"
    using read_pointer_ok [OF L bk(2,1,3)] by metis
  have "content d1 b = block_data L (TreeLeave gs)" "healthy d1 b" using d1(2,3) bk by simp_all
  then obtain d2 where d2: "read_pointer dev L b d1 = Some (Inr (TreeLeave gs), d2)" "content d2 = content d1" "\<forall>b. healthy d1 b \<longrightarrow> healthy d2 b"
    using read_pointer_ok [OF L bk(5)] by metis
  have "find_leave dev L True ident (opened_at R, d) = Some (Inr 1, (loaded R xs b m ys (map FileNode_from gs) False True, d2))"
    using d1(1) d2(1) cs(2) ps
    by (simp add: find_leave_def resolve_def descend.simps lock_node_def nth_append list_update_append loaded_def one_leaf_def plug_frame_def)
  moreover have "set (map FileNode_from gs) \<subseteq> set (stored_files 1 D (opened_at R))"
    using R ps gs(1) by (auto simp: stored_files_def link_files_def tree_files_Node)
  ultimately show ?thesis using R ps(1) gs d1(2,3) d2(2,3) by metis
qed

lemma flush_loaded:
  assumes LT: "layout_ok (DEV_BLOCK_SIZE dev) valid LT" and A: "consistent A" "0 < card (free_blocks A)" "\<forall>b \<in> free_blocks A. healthy d b"
    and fs: "\<forall>f \<in> set fs. \<exists>hp. fn_block_data f = OnDevice hp" "valid (TreeLeave (map stored_node fs))"
    and b: "b \<notin> free_blocks A" "Suc b \<notin> free_blocks A" "Suc b < u64_max"
  shows "\<exists>t' d' A'. tree_flush_to_device dev LB LT (loaded R xs b m ys fs True False, d, A) = Some (Inr R, (t', d', A'))
    \<and> (\<exists>c \<in> free_blocks A. \<forall>x. x \<noteq> c \<longrightarrow> content d' x = content d x) \<and> (\<forall>b. healthy d b \<longrightarrow> healthy d' b)"
proof -
  obtain c A1 where c: "allocate_block A = Some (Inr c, A1)" "c \<in> free_blocks A" "free_blocks A1 = free_blocks A - {c}" "consistent A1"
    using allocate_block_spec [OF A(1,2)] by metis
  obtain d1 where d1: "write_block dev c (block_data LT (TreeLeave (map stored_node fs))) d = Some (Inr (), d1)"
    "content d1 = (content d)(c := block_data LT (TreeLeave (map stored_node fs)))" "\<forall>b. healthy d b \<longrightarrow> healthy d1 b"
    using healthy_store [of d c valid LT "TreeLeave (map stored_node fs)"] LT fs(2) A(3) c(2) by metis
  obtain A2 where A2: "free_block b A1 = Some A2" using free_block_some [OF c(4), of b] b c(3) by auto
  have w: "write_files dev LB fs d A1 = Some (Inr (map stored_node fs), fs, d, A1)" for A1 using write_files_on_device [OF fs(1)] by (rule conjunct1)
  have "tree_flush_to_device dev LB LT (loaded R xs b m ys fs True False, d, A)
    = Some (Inr R, (\<lparr>tree_root = Link (Some (plug [(one_leaf xs b m ys False)\<lparr>f_ptr := Some c, f_dc := False\<rparr>] (Leave 1 (Some 0) fs False False))) (Some R),
        root_lock = False, next_addr = 2\<rparr>, d1, A2))"
    using c(1) A2 w d1(1)
    by (simp add: tree_flush_to_device_def loaded_def one_leaf_def plug_frame_def flush_unopened unopened_flush flush_self_def replace_device_ptr_def)
  then show ?thesis using c(2) d1(2,3) by auto
qed

end

section \<open>A file that is lost\<close>

text \<open>
  (C40) An insertion that a flush loses. A tree of two levels, whose leaves all have room, is opened at its root block \<open>R\<close>, and a new
  file is inserted (so no node is split). When a block is free, and none is free right after a block of the tree (freeing such a block
  panics), the flush that follows succeeds and returns the old root block \<open>R\<close>: the leaf went to a new block, but the root, whose list
  of children has to name that block, was not written. A tree opened at the block that the flush returned does not find the file.
\<close>

theorem flush_loses_insert:
  assumes "mem_tree_ok 1 D tb M (opened_at R)" "tree_backed (file_content d) (file_healthy d) LT valid D" "layout_ok 4096 valid LT"
    and "fn_block_data f = OnDevice hp" "0 < fn_id f" "fn_id f \<le> FileId_MAX" "fn_id f \<notin> fn_id ` set (stored_files 1 D (opened_at R))"
    and "\<forall>b gs. D b = Some (TreeLeave gs) \<longrightarrow> length gs < LEAVE_MAX_FILE_COUNT tb \<and> valid (TreeLeave (map stored_node (insert_sorted f (map FileNode_from gs))))"
    and "consistent A" "0 < card (free_blocks A)" "\<forall>b \<in> free_blocks A. file_healthy d b" "dom D \<inter> free_blocks A = {}" "Suc ` dom D \<inter> free_blocks A = {}"
  shows "\<exists>t1 d1 t2 d2 A2 t3 d3. insert_new file_device LT tb f (opened_at R, d) = Some (Inr (), (t1, d1))
    \<and> tree_flush_to_device file_device LB LT (t1, d1, A) = Some (Inr R, (t2, d2, A2))
    \<and> find_file file_device LT (fn_id f) (opened_at R, d2) = Some (Inr None, (t3, d3))"
proof -
  have L: "layout_ok (DEV_BLOCK_SIZE file_device) valid LT" using assms(3) by (simp add: file_device_def)
  obtain xs b m ys gs d' where D: "D R = Some (TreeInner (xs @ (b, m) # ys))" "D b = Some (TreeLeave gs)"
    and fl: "find_leave file_device LT True (fn_id f) (opened_at R, d) = Some (Inr 1, (loaded R xs b m ys (map FileNode_from gs) False True, d'))"
    and d': "file_content d' = file_content d" "\<forall>b. file_healthy d b \<longrightarrow> file_healthy d' b"
    and gs: "sorted_wrt (<) (map fn_id (map FileNode_from gs))" "set (map FileNode_from gs) \<subseteq> set (stored_files 1 D (opened_at R))"
    using fd.open_leaf [OF L assms(2,1,5,6)] by metis
  let ?fs = "map FileNode_from gs"
  have no: "fn_id f \<notin> fn_id ` set ?fs" using assms(7) gs(2) by (metis image_mono in_mono)
  then have pos: "position (\<lambda>g. fn_id g = fn_id f) ?fs = None" by (simp add: position_None) (metis image_eqI)
  have "get_node 1 (loaded R xs b m ys ?fs False True) = Some (Leave 1 (Some 0) ?fs False True)"
    using get_node_path [OF loaded_path [where R = R and xs = xs and b = b and m = m and ys = ys and fs = ?fs and di = False and l = True]] by simp
  moreover have "length ?fs < LEAVE_MAX_FILE_COUNT tb" using assms(8) D(2) by simp
  note ins = insert_loaded [OF no this gs(1), of R xs b m ys]
  ultimately have r: "insert_new file_device LT tb f (opened_at R, d) = Some (Inr (), (loaded R xs b m ys (insert_sorted f ?fs) True False, d'))"
    using fl pos ins by (simp add: insert_new_def insert_file_def attempt_def map_err_def del: map_map)
  have "\<forall>g \<in> set (insert_sorted f ?fs). \<exists>hp. fn_block_data g = OnDevice hp"
    using assms(4) by (auto dest!: set_insert_sorted simp: FileNode_from_def)
  moreover have "b * BLOCK_SIZE \<le> u64_max" using assms(2) D(2) by (simp add: tree_backed_def file_healthy_def)
  then have "b \<notin> free_blocks A" "Suc b \<notin> free_blocks A" "Suc b < u64_max" using assms(12,13) D(2) by (auto simp: BLOCK_SIZE_def u64_max_def)
  ultimately obtain c t2 d2 A2
    where c: "tree_flush_to_device file_device LB LT (loaded R xs b m ys (insert_sorted f ?fs) True False, d', A) = Some (Inr R, (t2, d2, A2))"
      "c \<in> free_blocks A" "\<forall>x. x \<noteq> c \<longrightarrow> file_content d2 x = file_content d' x" "\<forall>b. file_healthy d' b \<longrightarrow> file_healthy d2 b"
    using fd.flush_loaded [OF L assms(9,10), of d' "insert_sorted f ?fs" b LB R xs m ys] assms(8) [rule_format, OF D(2)] assms(11) d'(2) by metis
  have "tree_backed (file_content d2) (file_healthy d2) LT valid D"
    unfolding tree_backed_def
  proof (intro allI impI)
    fix x tn assume x: "D x = Some tn"
    then have "x \<noteq> c" using assms(12) c(2) by blast
    then show "file_content d2 x = block_data LT tn \<and> valid tn \<and> file_healthy d2 x"
      using c(3,4) d' assms(2) x by (simp add: tree_backed_def)
  qed
  moreover have "List.find (\<lambda>g. fn_id g = fn_id f) (stored_files 1 D (opened_at R)) = None"
    using assms(7) by (simp add: find_None_iff) (metis image_eqI)
  ultimately show ?thesis using fd.find_file_spec [OF L _ assms(1,5,6)] r c(1) by metis
qed

text \<open>The tree with two leaves on the last three blocks of a file of 16 blocks.\<close>

definition small_stored :: "nat \<rightharpoonup> TreeNode" where
  "small_stored = [13 \<mapsto> TreeInner [(14, Some 7), (15, None)], 14 \<mapsto> TreeLeave (map sample_fs_file (small_leaf 0)), 15 \<mapsto> TreeLeave (map sample_fs_file (small_leaf 1))]"

definition small_device :: FileDevice where
  "small_device = \<lparr>max_block_count = 16, fd_file = \<lparr>contents = replicate 53248 0 @ concat (map (\<lambda>b. block_data small_layout (the (small_stored b))) [13, 14, 15]),
     cursor = 0, io_calls = []\<rparr>\<rparr>"

lemma file_content_slice:
  assumes "contents (fd_file d) = xs @ bytes @ ys" "length xs = b * BLOCK_SIZE" "length bytes = BLOCK_SIZE"
  shows "file_content d b = bytes"
  by (rule nth_equalityI) (use assms in \<open>simp_all add: file_content_def byte_at_def nth_append\<close>)

lemma small_device_healthy: "b < 16 \<Longrightarrow> file_healthy small_device b"
  by (simp add: file_healthy_def small_device_def BLOCK_SIZE_def u64_max_def small_layout_def small_stored_def)

lemma small_stored_ok: "tree_backed (file_content small_device) (file_healthy small_device) small_layout small_node small_stored"
proof -
  let ?B = "\<lambda>b. block_data small_layout (the (small_stored b))"
  have len: "length (?B 13) = 4096" "length (?B 14) = 4096" "length (?B 15) = 4096" by (simp_all add: small_layout_def small_stored_def)
  have c: "contents (fd_file small_device) = replicate 53248 0 @ ?B 13 @ (?B 14 @ ?B 15)"
    "contents (fd_file small_device) = (replicate 53248 0 @ ?B 13) @ ?B 14 @ ?B 15"
    "contents (fd_file small_device) = (replicate 53248 0 @ ?B 13 @ ?B 14) @ ?B 15 @ []"
    by (simp_all add: small_device_def)
  have "file_content small_device 13 = ?B 13" "file_content small_device 14 = ?B 14" "file_content small_device 15 = ?B 15"
    using file_content_slice [OF c(1), of 13] file_content_slice [OF c(2), of 14] file_content_slice [OF c(3), of 15] len by (simp_all add: BLOCK_SIZE_def)
  moreover have "small_node (TreeLeave (map sample_fs_file (small_leaf 0)))" "small_node (TreeLeave (map sample_fs_file (small_leaf 1)))" by (simp_all add: small_node_leaf)
  moreover have "small_node (TreeInner [(14, Some 7), (15, None)])" by (simp add: small_node_def)
  ultimately show ?thesis
    using small_device_healthy by (auto simp: tree_backed_def small_stored_def split: if_splits)
qed

lemma stored_node_from [simp]: "stored_node (FileNode_from g) = g"
  by (cases g) (simp add: stored_node_def FileNode_from_def fs_node_def)

theorem flush_loses_insert_witness:
  "\<exists>t1 d1 t2 d2 A2 t3 d3. insert_new file_device small_layout True (sample_file_node 5) (opened_at 13, small_device) = Some (Inr (), (t1, d1))
    \<and> tree_flush_to_device file_device sample_list_layout small_layout (t1, d1, small_allocator) = Some (Inr 13, (t2, d2, A2))
    \<and> find_file file_device small_layout 5 (opened_at 13, d2) = Some (Inr None, (t3, d3))"
proof -
  have t: "mem_tree_ok 1 small_stored True 30 (opened_at 13)"
    by (simp add: mem_tree_ok_def small_stored_def small_leaf_def tree_ok_Suc child_ok_def LEAVE_MAX_FILE_COUNT_def FileId_MAX_def u64_max_def)
  have f: "fn_block_data (sample_file_node 5) = OnDevice (fs_block_data (sample_fs_file 5))" by (simp add: FileNode_from_def)
  have no: "fn_id (sample_file_node 5) \<notin> fn_id ` set (stored_files 1 small_stored (opened_at 13))"
    by (simp add: stored_files_def link_files_def tree_files_Node small_stored_def small_leaf_def)
  have ins: "insert_sorted (sample_file_node 5) (map FileNode_from (map sample_fs_file (small_leaf i))) = map FileNode_from (map sample_fs_file (small_leaf (i + 2)))"
    if "i < 2" for i
    using that by (auto simp: less_2_cases_iff small_leaf_def)
  have room: "length gs < LEAVE_MAX_FILE_COUNT True \<and> small_node (TreeLeave (map stored_node (insert_sorted (sample_file_node 5) (map FileNode_from gs))))"
    if "small_stored b = Some (TreeLeave gs)" for b gs
  proof -
    have "gs = map sample_fs_file (small_leaf 0) \<or> gs = map sample_fs_file (small_leaf 1)" using that by (auto simp: small_stored_def split: if_splits)
    then obtain i where "i < 2" "gs = map sample_fs_file (small_leaf i)" using zero_less_numeral one_less_numeral_iff semiring_norm(76) by metis
    note i = this
    have "length (small_leaf i) = 3" using i(1) by (auto simp: less_2_cases_iff small_leaf_def)
    moreover have "map stored_node (insert_sorted (sample_file_node 5) (map FileNode_from gs)) = map sample_fs_file (small_leaf (i + 2))"
      unfolding i(2) ins [OF i(1)] by simp
    moreover have "i + 2 < 4" using i(1) by simp
    ultimately have "length gs = 3" "small_node (TreeLeave (map stored_node (insert_sorted (sample_file_node 5) (map FileNode_from gs))))"
      using i(2) small_node_leaf [of "i + 2"] by (simp_all only: length_map)
    then show ?thesis by (simp add: LEAVE_MAX_FILE_COUNT_def)
  qed
  have free: "free_blocks small_allocator = {3..<13}" by (simp add: small_allocator_def blocks_def)
  have dom: "dom small_stored = {13, 14, 15}" by (auto simp: small_stored_def)
  have A: "consistent small_allocator" "0 < card (free_blocks small_allocator)" "\<forall>b \<in> free_blocks small_allocator. file_healthy small_device b"
    by (simp_all add: free small_device_healthy) (simp add: small_allocator_def apart_def group_ok_def u64_max_def)
  show ?thesis
    using flush_loses_insert [OF t small_stored_ok small_layout_ok f _ _ no _ A, where LB = sample_list_layout] room by (simp add: dom free FileId_MAX_def u64_max_def)
qed

end
