(* ===== verification/Spec2Isabelle.thy ===== *)
theory Spec2Isabelle
  imports NVMe_Queue_Runs Barriers Allocator_Disk File_Data Mem_Tree_Lost
begin

text \<open>
  A verification of the kernel and file system of WasabiOS. The program is an x86-64 kernel (\<open>wasabi-kernel\<close>), libraries it shares with host
  programs (\<open>libs\<close>, \<open>host-libs\<close>), and a file system (\<open>modules/wasabi-fs\<close>). Two groups of theories model it, over a common prelude.

  \<^bold>\<open>Runs, errors and numbers\<close> (\<open>Rust_Prelude\<close>). A function that may panic returns \<open>'a run\<close>, an option whose \<open>None\<close> is a panic: a failed
  assertion (debug assertions are on), an \<open>expect\<close> or \<open>unwrap\<close> of nothing, an index out of range, or an arithmetic overflow, which the debug profile
  traps. A \<open>Result\<close> is a sum with the error on the left. Code with state is a function from state to state; with errors it is a \<open>prog\<close>. Machine words
  are words of the right width in the kernel; the file system computes with natural numbers whose operations check the range of \<open>u64\<close>.

  \<^bold>\<open>Memory of the kernel.\<close>
  \<^item> \<open>Range_Set\<close>: \<open>RangeSet\<close> of \<open>libs/shared/src/rangeset.rs\<close>, the array of ranges with \<open>in_use\<close>. The lemmas relate every operation to the set of
    addresses the entries cover: insert and remove are exact (C1, C2), an allocation lies in the free addresses and succeeds exactly when the search
    allows it (C6, C7), and \<open>remove_if_exist\<close> in all its cases, with its panics and the address it leaves behind (C8).
  \<^item> \<open>Mem_Pages\<close>: pages and frames (\<open>mem/structs.rs\<close>). The crate \<open>x86_64\<close> is a record of its constructors; \<open>crate_documented\<close> is what its documentation
    promises, and \<open>x86_64_model\<close> an instance. The locale \<open>page_pool\<close> is the contract of an allocator; in it the pages that clients hold never overlap.
  \<^item> \<open>Frame_Allocator\<close> and \<open>Page_Allocator\<close>: \<open>mem/frame_allocator.rs\<close> and \<open>mem/page_allocator.rs\<close> with the trampoline memory of \<open>cpu/apic/ap_startup.rs\<close>.
    Both interpret \<open>page_pool\<close> (C3, C5). After initialisation only usable memory is free, and no page of the boot loader (C9, C4); huge guarded blocks can never
    be allocated, and the non-canonical upper half panics (C10, C11).
  \<^item> \<open>Page_Table\<close>: \<open>mem/page_table.rs\<close>, \<open>map\<close> and \<open>unmap\<close> of guarded pages, and the stacks of application processors. The trait \<open>Mapper\<close> is a record with
    documented laws. Mapping gives every page a frame of its own and reports how far it came on an error (C12), unmapping undoes it (C13), and the addresses
    of the recursive mapping reach the tables (C14).

  \<^bold>\<open>Devices and locks of the kernel.\<close>
  \<^item> \<open>Wrapping_Value\<close>: \<open>WrappingValue\<close> of \<open>libs/shared/src/math/mod_group.rs\<close> (C15).
  \<^item> \<open>NVMe_Command\<close>: command formats and page lists of \<open>pci/nvme\<close>; the crate \<open>bit_field\<close> is a record with laws (C16, C17).
  \<^item> \<open>NVMe_Queue\<close> and \<open>NVMe_Queue_Runs\<close>: \<open>pci/nvme/queue.rs\<close> against a controller that may act before every read of shared memory. The rings are queues in every
    run, polling takes everything, and waiting returns when the controller answers (C18, C19, C20).
  \<^item> \<open>Core_Interrupts\<close>, \<open>Ticket_Lock\<close>, \<open>RW_Cell\<close>, \<open>Barriers\<close>: \<open>core_local\<close> and \<open>libs/shared/src/sync\<close>. Every atomic access is a step, and runs interleave the
    steps of all cores; atomic accesses are sequentially consistent. Mutual exclusion, the order of tickets and progress (C21, C22), the read-write lock and
    the wrapper that never releases a read (C23, C24), the interrupt state around nested locks (C25), and the rounds of a barrier (C26).

  \<^bold>\<open>File system.\<close>
  \<^item> \<open>Block_Groups\<close> and \<open>File_Device\<close>: block addresses and groups (\<open>libs/block-device\<close>), the trait \<open>BlockDevice\<close> as a record, and the device over a host file
    (\<open>host-libs/wfs\<close>), where the operating system may transfer a part of a request or fail at every call. The locale \<open>block_device\<close> states what a device promises and
    is interpreted on the file device. How a value is laid out in a block is the compiler's: a \<open>block_layout\<close> with the law \<open>layout_ok\<close>.
  \<^item> \<open>Block_Allocator\<close>, \<open>Block_Iter\<close>, \<open>Allocator_Disk\<close>: \<open>block_allocator.rs\<close>, its best-fit search (C27), what \<open>allocate\<close> can give at all (C28), \<open>free_group\<close> with the
    panic and the loss it has (C29), and \<open>write\<close> followed by \<open>load\<close>, with the freeing of the list that was written before (C30).
  \<^item> \<open>Block_Lists\<close> and \<open>File_Data\<close>: the lists of blocks of files and the file nodes (\<open>mem_structs.rs\<close>, \<open>fs_structs.rs\<close>) and \<open>read_file\<close>, \<open>write_file\<close> and
    \<open>write_blocks_partial\<close> of \<open>fs.rs\<close>, for the node that the tree holds. A node survives the device (C31); what the iterator over a range of bytes gives (C32), which
    ranges can be read at all (C33), and which writes are right and which are wrong (C34, C35).
  \<^item> \<open>Static_Vec\<close> and \<open>Mem_Tree\<close>: the bounded vectors of \<open>forked-libs/staticvec\<close>, and the tree of files of \<open>mem_tree\<close> with its locks, parent pointers and nodes that
    are still on the device. \<open>Mem_Tree_Path\<close> and \<open>Mem_Tree_Inv\<close> hold the paths from the root and the invariant; \<open>Mem_Tree_Find\<close>, \<open>Mem_Tree_Insert\<close> and
    \<open>Mem_Tree_Flush\<close> show that finding, inserting with room in the inner nodes, and writing a new tree are correct for trees of any height (C36, C37, C38);
    \<open>Mem_Tree_Overflow\<close> and \<open>Mem_Tree_Lost\<close> show the insertions that are lost when an inner node is split, and when an opened tree of two levels is flushed
    (C39, C40). Deletion and rebalancing are modelled, without theorems.

  \<^bold>\<open>Loops.\<close> No model has fuel. A loop is structural recursion or a \<open>function\<close> with a measure where the code alone shows that it ends. The loops whose end depends
  on the state or on another party are partial functions, whose \<open>None\<close> is also the run that does not return: the subtraction loop of the range set (\<open>remove_loop\<close>), the
  loops that wait for a controller (\<open>poll_loop\<close>, \<open>wait_loop\<close>, \<open>clear_completions\<close>), those that follow pointers on a device (\<open>load_loop\<close>, \<open>list_read_loop\<close>), and the walks
  up and down the tree (\<open>descend\<close>, \<open>unlock_upwards\<close>, \<open>insert_split\<close>, \<open>rebalance_node\<close>). The theorems about them show that they return; \<open>rebalance_node\<close> and
  \<open>clear_completions\<close> have none.

  \<^bold>\<open>Not modelled.\<close> Code whose meaning is given by hardware or assembly: boot, trampoline, registers, interrupt controllers, task switches, PCI, controller setup and
  graphics. Opening and flushing a whole file system, directories and names. Statistics, logging, heap exhaustion, and the data inside lock cells. Partition tables, the
  FUSE front end, build programs, test frameworks and procedural macros.
\<close>

end
